(* ===== verification/Prelude.thy ===== *)
theory Prelude
  imports Main "HOL-Library.Word" "HOL-Library.Monad_Syntax"
begin

unbundle bit_operations_syntax

text \<open>
  What every theory of the development shares: the machine integer types of the C
  sources, the collections of simplification facts, the reading of a C call as a
  function into \<open>option\<close>, reachability of a step relation and the locale of inductive
  invariants.

  A C call is a function into \<^typ>\<open>'a option\<close>. \<^term>\<open>None\<close> means that the call does not
  return: it dereferences a null or dangling pointer, it loops for ever, or it blocks for
  ever on a lock. A theorem that says a call equals \<^term>\<open>Some\<close> of a value is therefore a
  theorem of total correctness.
\<close>

section \<open>Machine integers\<close>

type_synonym u32 = "32 word" \<comment> \<open>\<open>unsigned int\<close>, and the bits of an \<open>int\<close>\<close>
type_synonym u64 = "64 word" \<comment> \<open>\<open>unsigned long\<close>, \<open>size_t\<close>, \<open>uintptr_t\<close>\<close>

named_theorems heap_simps \<open>reading a heap after a write\<close>
named_theorems word_facts \<open>bit fields of machine words\<close>

lemma of_nat_u64_inj: "a < 2 ^ 64 \<Longrightarrow> b < 2 ^ 64 \<Longrightarrow> (of_nat a :: u64) = of_nat b \<longleftrightarrow> a = b"
  by (simp add: word_of_nat_eq_iff take_bit_nat_eq_self)

lemma ucast_u64_0 [simp]: "(ucast (n :: u32) :: u64) = 0 \<longleftrightarrow> n = 0"
  by transfer simp

lemma sint_ucast_u64: "0 \<le> sint (ucast (n :: u32) :: u64)"
  by transfer (simp add: bit_take_bit_iff)

text \<open>A negated \<open>unsigned int\<close> that is widened to 64 bits.\<close>

lemma ucast_neg_u32:
  fixes n :: u32
  assumes "n \<noteq> 0"
  shows "ucast (- n) = (2 ^ 32 - ucast n :: u64)"
proof -
  have "uint n < 2 ^ LENGTH(32)" by (rule unsigned_less)
  moreover have "0 \<le> uint n" "uint n \<noteq> 0" using assms by (simp_all add: uint_0_iff)
  ultimately have "uint (- n) = 2 ^ 32 - uint n"
    by (simp add: uint_word_ariths zmod_zminus1_eq_if)
  then have "of_int (uint (- n)) = (of_int (2 ^ 32 - uint n) :: u64)" by (simp only:)
  then show ?thesis by (simp add: unsigned_ucast_eq)
qed

lemma of_nat_u32_0: "n < 2 ^ 32 \<Longrightarrow> (of_nat n :: u32) = 0 \<longleftrightarrow> n = 0"
  by (auto simp: word_of_nat_eq_0_iff dest: nat_dvd_not_less)

lemma ucast_of_nat_u32: "k < 2 ^ 32 \<Longrightarrow> ucast (of_nat k :: u32) = (of_nat k :: u64)"
  by (simp add: unsigned_of_nat take_bit_nat_eq_self)

section \<open>The option monad\<close>

lemma bind_SomeD:
  "Option.bind m f = Some y \<Longrightarrow> \<exists>x. m = Some x \<and> f x = Some y"
  by (cases m) auto

lemma bind_Some_iff:
  "Option.bind m f = Some y \<longleftrightarrow> (\<exists>x. m = Some x \<and> f x = Some y)"
  by (cases m) auto

text \<open>A test whose failure is undefined behaviour in C.\<close>

definition guard_opt :: "bool \<Rightarrow> unit option" where
  "guard_opt b = (if b then Some () else None)"

lemma guard_opt_simps [simp]:
  "guard_opt True = Some ()" "guard_opt False = None"
  by (simp_all add: guard_opt_def)

text \<open>A loop body run over a list of positions.\<close>

fun fold_opt :: "('a \<Rightarrow> 's \<Rightarrow> 's option) \<Rightarrow> 'a list \<Rightarrow> 's \<Rightarrow> 's option" where
  "fold_opt f [] s = Some s"
| "fold_opt f (x # xs) s = do { s \<leftarrow> f x s; fold_opt f xs s }"

lemma fold_opt_unfold:
  "fold_opt f [] = Some"
  "fold_opt f (x # xs) = (\<lambda>s. Option.bind (f x s) (fold_opt f xs))"
  by (auto intro!: ext)

lemma fold_opt_append:
  "fold_opt f (xs @ ys) s = Option.bind (fold_opt f xs s) (fold_opt f ys)"
  by (induction xs arbitrary: s) (auto split: bind_splits)

lemma fold_opt_Some:
  "(\<And>x s. x \<in> set xs \<Longrightarrow> f x s = Some (g x s)) \<Longrightarrow> fold_opt f xs s = Some (fold g xs s)"
  by (induction xs arbitrary: s) auto

text \<open>An invariant of a loop body, with the positions still to visit.\<close>

lemma fold_opt_invariant:
  assumes "J xs s"
    and "\<And>x rest s. J (x # rest) s \<Longrightarrow> \<exists>s'. f x s = Some s' \<and> J rest s'"
  obtains s' where "fold_opt f xs s = Some s'" "J [] s'"
proof -
  have "\<exists>s'. fold_opt f xs s = Some s' \<and> J [] s'"
    using assms(1)
  proof (induction xs arbitrary: s)
    case (Cons x xs)
    then obtain s1 where "f x s = Some s1" "J xs s1"
      using assms(2) by blast
    with Cons.IH [of s1] show ?case by auto
  qed simp
  with that show ?thesis by blast
qed

section \<open>Lists\<close>

lemma last_Cons_append: "last (a # xs @ [b]) = b"
  by simp

lemma butlast_Cons_snoc: "butlast (a # xs @ [b]) = a # xs"
  by (simp add: butlast_append)

lemma snoc_cases_ring:
  obtains ys z where "x # xs = ys @ [z]"
  by (metis list.distinct(1) rev_exhaust)

section \<open>Sets of thread numbers\<close>

lemma finite_Collect_less_conj [simp]: "finite {i::nat. i < n \<and> P i}"
  by simp

lemma card_less_conj_le: "card {i::nat. i < n \<and> P i} \<le> n"
proof -
  have "card {i::nat. i < n \<and> P i} \<le> card {..<n}"
    by (rule card_mono) auto
  then show ?thesis by simp
qed

lemma card_less_conj_full:
  assumes "card {i::nat. i < n \<and> P i} = n" and "j < n"
  shows "P j"
proof -
  have "{i::nat. i < n \<and> P i} = {..<n}"
    by (rule card_subset_eq) (use assms in auto)
  with assms(2) show ?thesis by blast
qed

lemma card_insert_new:
  assumes "j < (n::nat)" "\<not> P j" "\<And>i. i < n \<Longrightarrow> Q i \<longleftrightarrow> P i \<or> i = j"
  shows "card {i. i < n \<and> Q i} = Suc (card {i. i < n \<and> P i})"
proof -
  have "{i. i < n \<and> Q i} = insert j {i. i < n \<and> P i}"
    using assms by auto
  then show ?thesis using assms(2) by simp
qed

section \<open>Reachable states and inductive invariants\<close>

text \<open>
  The reachable states of a step relation: the components with several threads
  (the barrier, the completion, the grace period of the RCU) are step relations, one
  rule for each access of the code to shared memory.
\<close>

inductive reachable :: "('s \<Rightarrow> bool) \<Rightarrow> ('s \<Rightarrow> 's \<Rightarrow> bool) \<Rightarrow> 's \<Rightarrow> bool"
  for init :: "'s \<Rightarrow> bool" and step :: "'s \<Rightarrow> 's \<Rightarrow> bool" where
  reach_init: "init s \<Longrightarrow> reachable init step s"
| reach_step: "reachable init step s \<Longrightarrow> step s t \<Longrightarrow> reachable init step t"

text \<open>
  The contract of an inductive invariant: it holds at the start and every step keeps it.
\<close>

locale inductive_invariant =
  fixes init :: "'s \<Rightarrow> bool"
    and step :: "'s \<Rightarrow> 's \<Rightarrow> bool"
    and inv :: "'s \<Rightarrow> bool"
  assumes inv_init: "init s \<Longrightarrow> inv s"
    and inv_step: "inv s \<Longrightarrow> step s t \<Longrightarrow> inv t"
begin

lemma inv_reachable: "reachable init step s \<Longrightarrow> inv s"
  by (induction rule: reachable.induct) (auto intro: inv_init inv_step)

lemma inv_steps: "step\<^sup>*\<^sup>* s t \<Longrightarrow> inv s \<Longrightarrow> inv t"
  by (induction rule: rtranclp_induct) (auto intro: inv_step)

end

lemma reachable_steps:
  assumes "step\<^sup>*\<^sup>* s t" "reachable init step s"
  shows "reachable init step t"
  using assms by (induction rule: rtranclp_induct) (auto intro: reach_step)

end
