(* ===== verification/Barrier.thy ===== *)
theory Barrier
  imports Prelude
begin

text \<open>
  The centralized barrier, \<open>src/centralized_barrier/centralized_barrier.c\<close> and
  \<open>include/mthpc/centralized_barrier.h\<close>: a sense-reversing barrier for the threads
  \<open>0..<N\<close>, which call \<open>mthpc_centralized_barrier(b, N)\<close> again and again. Each rule is one
  access to shared memory; the polling load of a thread that keeps waiting changes nothing
  and has no rule. The ghost fields count the calls each thread has begun (\<open>entered\<close>) and
  finished (\<open>left\<close>), and the releases of the barrier (\<open>rounds\<close>).
\<close>

section \<open>The barrier and its threads\<close>

datatype barrier_pc =
    Outside
  | AtLock \<comment> \<open>the local sense is reversed\<close>
  | AtCount \<comment> \<open>holds the lock\<close>
  | AtTest \<comment> \<open>has counted itself\<close>
  | AtUnlockLast \<comment> \<open>the last thread has reset the counter\<close>
  | AtStore \<comment> \<open>before the store of the flag\<close>
  | AtUnlockWait
  | Spinning
  | AtUnlockOver \<comment> \<open>the counter is larger than \<open>n\<close>\<close>

record barrier_sys =
  flag :: u32
  count :: u32 \<comment> \<open>an \<open>int\<close>\<close>
  lock :: "nat option"
  local_sense :: "nat \<Rightarrow> u32" \<comment> \<open>the thread-local \<open>mthpc_local_sense\<close>\<close>
  pc :: "nat \<Rightarrow> barrier_pc"
  entered :: "nat \<Rightarrow> nat"
  left :: "nat \<Rightarrow> nat"
  rounds :: nat

text \<open>\<open>mthpc_barrier_init\<close> for threads with the given local senses.\<close>

definition barrier_boot :: "(nat \<Rightarrow> u32) \<Rightarrow> barrier_sys" where
  "barrier_boot sn = \<lparr>flag = 0, count = 0, lock = None, local_sense = sn, pc = \<lambda>_. Outside,
     entered = \<lambda>_. 0, left = \<lambda>_. 0, rounds = 0\<rparr>"

text \<open>The comparisons \<open>b->count == n\<close> and \<open>b->count < n\<close> convert the \<open>int\<close> to \<open>size_t\<close>.\<close>

definition count_size :: "u32 \<Rightarrow> u64" where
  "count_size c = scast c"

inductive barrier_move :: "u64 \<Rightarrow> nat \<Rightarrow> barrier_sys \<Rightarrow> barrier_sys \<Rightarrow> bool" for n :: u64 and i :: nat where
  b_enter:
    "pc s i = Outside \<Longrightarrow>
     barrier_move n i s (s\<lparr>pc := (pc s)(i := AtLock),
       local_sense := (local_sense s)(i := (if local_sense s i = 0 then 1 else 0)),
       entered := (entered s)(i := Suc (entered s i))\<rparr>)"
| b_lock:
    "pc s i = AtLock \<Longrightarrow> lock s = None \<Longrightarrow>
     barrier_move n i s (s\<lparr>pc := (pc s)(i := AtCount), lock := Some i\<rparr>)"
| b_count:
    "pc s i = AtCount \<Longrightarrow> count s \<noteq> 0x7FFFFFFF \<Longrightarrow>
     barrier_move n i s (s\<lparr>pc := (pc s)(i := AtTest), count := count s + 1\<rparr>)"
| b_last:
    "pc s i = AtTest \<Longrightarrow> count_size (count s) = n \<Longrightarrow>
     barrier_move n i s (s\<lparr>pc := (pc s)(i := AtUnlockLast), count := 0\<rparr>)"
| b_unlock_last:
    "pc s i = AtUnlockLast \<Longrightarrow>
     barrier_move n i s (s\<lparr>pc := (pc s)(i := AtStore), lock := None\<rparr>)"
| b_store:
    "pc s i = AtStore \<Longrightarrow>
     barrier_move n i s (s\<lparr>pc := (pc s)(i := Outside), flag := local_sense s i,
       left := (left s)(i := Suc (left s i)), rounds := Suc (rounds s)\<rparr>)"
| b_less:
    "pc s i = AtTest \<Longrightarrow> count_size (count s) < n \<Longrightarrow>
     barrier_move n i s (s\<lparr>pc := (pc s)(i := AtUnlockWait)\<rparr>)"
| b_unlock_wait:
    "pc s i = AtUnlockWait \<Longrightarrow>
     barrier_move n i s (s\<lparr>pc := (pc s)(i := Spinning), lock := None\<rparr>)"
| b_go:
    "pc s i = Spinning \<Longrightarrow> flag s = local_sense s i \<Longrightarrow>
     barrier_move n i s (s\<lparr>pc := (pc s)(i := Outside), left := (left s)(i := Suc (left s i))\<rparr>)"
| b_over:
    "pc s i = AtTest \<Longrightarrow> n < count_size (count s) \<Longrightarrow>
     barrier_move n i s (s\<lparr>pc := (pc s)(i := AtUnlockOver)\<rparr>)"
| b_unlock_over:
    "pc s i = AtUnlockOver \<Longrightarrow>
     barrier_move n i s (s\<lparr>pc := (pc s)(i := Outside), lock := None,
       left := (left s)(i := Suc (left s i))\<rparr>)"

inductive barrier_step :: "nat \<Rightarrow> barrier_sys \<Rightarrow> barrier_sys \<Rightarrow> bool" for N :: nat where
  "i < N \<Longrightarrow> barrier_move (of_nat N) i s t \<Longrightarrow> barrier_step N s t"

inductive_cases barrier_stepE: "barrier_step N s t"
inductive_cases barrier_moveE: "barrier_move n i s t"

text \<open>
  The step of one thread as a function, to run schedules: \<^term>\<open>None\<close> when the thread waits.
\<close>

definition barrier_exec :: "u64 \<Rightarrow> nat \<Rightarrow> barrier_sys \<Rightarrow> barrier_sys option" where
  "barrier_exec n i s = (let go = (\<lambda>p. (pc s)(i := p)); done = (left s)(i := Suc (left s i)) in
     case pc s i of
       Outside \<Rightarrow> Some (s\<lparr>pc := go AtLock,
         local_sense := (local_sense s)(i := (if local_sense s i = 0 then 1 else 0)),
         entered := (entered s)(i := Suc (entered s i))\<rparr>)
     | AtLock \<Rightarrow> if lock s = None then Some (s\<lparr>pc := go AtCount, lock := Some i\<rparr>) else None
     | AtCount \<Rightarrow>
         if count s \<noteq> 0x7FFFFFFF then Some (s\<lparr>pc := go AtTest, count := count s + 1\<rparr>) else None
     | AtTest \<Rightarrow>
         if count_size (count s) = n then Some (s\<lparr>pc := go AtUnlockLast, count := 0\<rparr>)
         else if count_size (count s) < n then Some (s\<lparr>pc := go AtUnlockWait\<rparr>)
         else Some (s\<lparr>pc := go AtUnlockOver\<rparr>)
     | AtUnlockLast \<Rightarrow> Some (s\<lparr>pc := go AtStore, lock := None\<rparr>)
     | AtStore \<Rightarrow> Some (s\<lparr>pc := go Outside, flag := local_sense s i, left := done,
         rounds := Suc (rounds s)\<rparr>)
     | AtUnlockWait \<Rightarrow> Some (s\<lparr>pc := go Spinning, lock := None\<rparr>)
     | Spinning \<Rightarrow>
         if flag s = local_sense s i then Some (s\<lparr>pc := go Outside, left := done\<rparr>) else None
     | AtUnlockOver \<Rightarrow> Some (s\<lparr>pc := go Outside, lock := None, left := done\<rparr>))"

lemma barrier_exec_move: "barrier_exec n i s = Some t \<Longrightarrow> barrier_move n i s t"
proof (cases "pc s i = Outside")
  case True
  assume "barrier_exec n i s = Some t"
  with True b_enter [OF True, of n] show ?thesis by (simp add: barrier_exec_def)
next
  case False
  assume "barrier_exec n i s = Some t"
  with False show ?thesis
    by (auto simp: barrier_exec_def Let_def split: barrier_pc.splits if_splits
        intro: barrier_move.intros)
qed

lemma barrier_schedule:
  assumes "fold_opt (barrier_exec (of_nat N)) is s = Some t" "\<forall>i\<in>set is. i < N"
  shows "(barrier_step N)\<^sup>*\<^sup>* s t"
  using assms
proof (induction "is" arbitrary: s)
  case (Cons i "is")
  then obtain s1 where s1: "barrier_exec (of_nat N) i s = Some s1"
    "fold_opt (barrier_exec (of_nat N)) is s1 = Some t"
    by (auto simp: bind_Some_iff)
  then have "barrier_step N s s1"
    using Cons.prems by (auto intro: barrier_step.intros barrier_exec_move)
  with Cons.IH [OF s1(2)] Cons.prems show ?case by auto
qed simp

lemma barrier_schedule_reach:
  "fold_opt (barrier_exec (of_nat N)) is s = Some t \<Longrightarrow> init s \<Longrightarrow> \<forall>i\<in>set is. i < N \<Longrightarrow>
   reachable init (barrier_step N) t"
  by (rule reachable_steps [OF barrier_schedule]) (auto intro: reach_init)

section \<open>The invariant\<close>

definition arrived :: "barrier_sys \<Rightarrow> nat \<Rightarrow> bool" where
  "arrived s i \<longleftrightarrow> entered s i = Suc (rounds s) \<and>
     pc s i \<in> {AtTest, AtUnlockLast, AtStore, AtUnlockWait, Spinning}"

definition parity :: "nat \<Rightarrow> u32" where
  "parity k = (if odd k then 1 else 0)"

definition thread_ok :: "barrier_sys \<Rightarrow> nat \<Rightarrow> bool" where
  "thread_ok s i \<longleftrightarrow>
     local_sense s i = parity (entered s i) \<and>
     entered s i = (if pc s i = Outside then left s i else Suc (left s i)) \<and>
     (lock s = Some i \<longleftrightarrow> pc s i \<in> {AtCount, AtTest, AtUnlockLast, AtUnlockWait}) \<and>
     pc s i \<noteq> AtUnlockOver \<and>
     (entered s i = Suc (rounds s) \<and> pc s i \<noteq> Outside \<or>
      entered s i = rounds s \<and> pc s i \<in> {Outside, Spinning})"

definition closing :: "nat \<Rightarrow> barrier_sys \<Rightarrow> bool" where
  "closing N s \<longleftrightarrow> (\<exists>k<N. pc s k \<in> {AtUnlockLast, AtStore} \<and>
     (\<forall>j<N. entered s j = Suc (rounds s) \<and> (j \<noteq> k \<longrightarrow> pc s j = Spinning)))"

definition counting :: "nat \<Rightarrow> barrier_sys \<Rightarrow> bool" where
  "counting N s \<longleftrightarrow> (\<forall>k<N. pc s k \<notin> {AtUnlockLast, AtStore}) \<and>
     unat (count s) = card {i. i < N \<and> arrived s i} \<and>
     (unat (count s) = N \<longrightarrow> (\<exists>i<N. pc s i = AtTest))"

definition barrier_inv :: "nat \<Rightarrow> barrier_sys \<Rightarrow> bool" where
  "barrier_inv N s \<longleftrightarrow> (\<forall>i<N. thread_ok s i) \<and> flag s = parity (rounds s) \<and>
     (\<forall>i. lock s = Some i \<longrightarrow> i < N) \<and>
     (closing N s \<and> count s = 0 \<or> counting N s)"

definition barrier_start :: "barrier_sys \<Rightarrow> bool" where
  "barrier_start s \<longleftrightarrow> s = barrier_boot (\<lambda>_. 0)"

lemma parity_simps [simp]:
  "parity 0 = 0" "parity (Suc k) = (if parity k = 0 then 1 else 0)" "parity k \<noteq> parity (Suc k)"
  by (auto simp: parity_def)

lemma barrier_inv_start: "0 < N \<Longrightarrow> barrier_start s \<Longrightarrow> barrier_inv N s"
  by (auto simp: barrier_start_def barrier_boot_def barrier_inv_def thread_ok_def counting_def
      arrived_def)

lemma count_size_nat:
  assumes "unat c < 2 ^ 31"
  shows "count_size c = of_nat (unat c)"
proof -
  have "int (unat c) < int (2 ^ 31)"
    using assms by (simp only: of_nat_less_iff)
  then have "uint c < 2 ^ 31"
    by (simp only: uint_nat of_nat_power of_nat_numeral)
  then have "sint c = uint c"
    by (simp add: sint_uint signed_take_bit_int_eq_self order_trans [OF _ uint_ge_0])
  then show ?thesis
    by (simp add: count_size_def scast_eq)
qed

lemma count_size_cmp:
  assumes "unat c \<le> N" "N < 2 ^ 31"
  shows "count_size c = of_nat N \<longleftrightarrow> unat c = N" "count_size c < of_nat N \<longleftrightarrow> unat c < N"
    "\<not> of_nat N < count_size c"
proof -
  obtain m where m: "unat c = m" by simp
  then have c: "count_size c = of_nat m"
    using assms by (simp add: count_size_nat flip: m)
  have u: "unat (of_nat k :: u64) = k" if "k \<le> N" for k
    using that assms(2) by (simp add: unat_of_nat take_bit_nat_eq_self)
  show "count_size c = of_nat N \<longleftrightarrow> unat c = N"
    using assms by (simp add: c m of_nat_u64_inj)
  show "count_size c < of_nat N \<longleftrightarrow> unat c < N" "\<not> of_nat N < count_size c"
    using assms by (simp_all add: c m word_less_nat_alt u)
qed

lemma closing_or_counting:
  "barrier_inv N s \<Longrightarrow> i < N \<Longrightarrow> pc s i \<in> {AtUnlockLast, AtStore} \<Longrightarrow>
   closing N s \<and> count s = 0 \<and> (\<forall>j<N. entered s j = Suc (rounds s) \<and> (j \<noteq> i \<longrightarrow> pc s j = Spinning))"
  unfolding barrier_inv_def closing_def counting_def
  by (metis (no_types, lifting) barrier_pc.distinct insertE singletonD)

lemma count_le: "barrier_inv N s \<Longrightarrow> unat (count s) \<le> N"
  by (auto simp: barrier_inv_def counting_def intro: card_less_conj_le)

text \<open>A step that changes neither the counter nor who has arrived keeps the counting.\<close>

lemma counting_not_closing: "counting N s \<Longrightarrow> k < N \<Longrightarrow> pc s k \<notin> {AtUnlockLast, AtStore}"
  by (auto simp: counting_def)

lemma counting_full: "counting N s \<Longrightarrow> unat (count s) = N \<Longrightarrow> \<exists>k<N. pc s k = AtTest"
  by (simp add: counting_def)

lemma counting_frame:
  assumes c: "counting N s" and "count t = count s" and "pc t = (pc s)(i := p)"
    and "\<And>j. j < N \<Longrightarrow> arrived t j = arrived s j"
    and "p \<notin> {AtUnlockLast, AtStore}"
    and "pc s i = AtTest \<Longrightarrow> unat (count s) \<noteq> N"
  shows "counting N t"
proof -
  have "{i. i < N \<and> arrived t i} = {i. i < N \<and> arrived s i}"
    using assms(4) by auto
  moreover have "\<exists>k<N. pc t k = AtTest" if "unat (count s) = N"
    using counting_full [OF c that] assms(3,6) that by (metis fun_upd_other)
  moreover have "pc t k \<notin> {AtUnlockLast, AtStore}" if "k < N" for k
    using counting_not_closing [OF c that] assms(3,5) by auto
  ultimately show ?thesis
    using c assms(2) by (simp add: counting_def)
qed

lemma not_closing_counting:
  "barrier_inv N s \<Longrightarrow> i < N \<Longrightarrow> pc s i \<notin> {AtUnlockLast, AtStore, Spinning} \<Longrightarrow> counting N s"
  by (auto simp: barrier_inv_def closing_def)

lemma spinning_released:
  assumes "barrier_inv N s" "i < N" "pc s i = Spinning" "flag s = local_sense s i"
  shows "entered s i = rounds s"
proof -
  have "thread_ok s i" "flag s = parity (rounds s)" using assms by (simp_all add: barrier_inv_def)
  with assms(3,4) parity_simps(3) [of "rounds s"] show ?thesis
    by (auto simp: thread_ok_def simp del: parity_simps)
qed

lemma move_thread_ok:
  assumes inv: "barrier_inv N s" and i: "i < N" and N: "N < 2 ^ 31"
    and move: "barrier_move (of_nat N) i s t" and j: "j < N"
  shows "thread_ok t j"
proof -
  have ok: "thread_ok s j" "thread_ok s i" using inv i j by (simp_all add: barrier_inv_def)
  show ?thesis
    using move
  proof (cases rule: barrier_move.cases)
    case b_store
    with ok closing_or_counting [OF inv i] j show ?thesis by (auto simp: thread_ok_def)
  next
    case b_go
    with ok spinning_released [OF inv i] show ?thesis by (auto simp: thread_ok_def)
  next
    case b_over
    with count_size_cmp(3) [OF count_le [OF inv] N] show ?thesis by simp
  qed (use ok in \<open>auto simp: thread_ok_def\<close>)
qed

lemma move_flag_lock:
  assumes inv: "barrier_inv N s" and i: "i < N" and move: "barrier_move (of_nat N) i s t"
  shows "flag t = parity (rounds t)" "lock t = Some j \<Longrightarrow> j < N"
proof -
  have ok: "thread_ok s i" using inv i by (simp add: barrier_inv_def)
  have "local_sense s i = parity (Suc (rounds s))" if "pc s i = AtStore"
  proof -
    have "entered s i = Suc (rounds s)" using closing_or_counting [OF inv i] that i by simp
    with ok show ?thesis by (simp only: thread_ok_def)
  qed
  with move inv show "flag t = parity (rounds t)"
    by cases (simp_all add: barrier_inv_def)
  show "j < N" if "lock t = Some j"
    using move that inv i by cases (auto simp: barrier_inv_def)
qed

text \<open>The counter, for each of the steps that count or close a round and for the others.\<close>

lemma quiet_counting:
  assumes inv: "barrier_inv N s" and i: "i < N" and N: "N < 2 ^ 31"
    and move: "barrier_move (of_nat N) i s t"
    and quiet: "pc s i \<in> {Outside, AtLock, AtUnlockWait, Spinning} \<or> pc t i = AtUnlockWait"
  shows "counting N t"
  using move
proof (cases rule: barrier_move.cases)
  case b_enter
  with not_closing_counting [OF inv i] have "counting N s" by simp
  then show ?thesis by (rule counting_frame [where i = i]) (use b_enter in \<open>auto simp: arrived_def\<close>)
next
  case b_lock
  with not_closing_counting [OF inv i] have "counting N s" by simp
  then show ?thesis by (rule counting_frame [where i = i]) (use b_lock in \<open>auto simp: arrived_def\<close>)
next
  case b_less
  with not_closing_counting [OF inv i] have "counting N s" by simp
  then show ?thesis
    by (rule counting_frame [where i = i])
      (use b_less count_size_cmp(2) [OF count_le [OF inv] N] in \<open>auto simp: arrived_def\<close>)
next
  case b_unlock_wait
  with not_closing_counting [OF inv i] have "counting N s" by simp
  then show ?thesis by (rule counting_frame [where i = i]) (use b_unlock_wait in \<open>auto simp: arrived_def\<close>)
next
  case b_go
  with spinning_released [OF inv i] have e: "entered s i = rounds s" by simp
  then have "counting N s" using inv i by (auto simp: barrier_inv_def closing_def)
  then show ?thesis by (rule counting_frame [where i = i]) (use b_go e in \<open>auto simp: arrived_def\<close>)
qed (use quiet in simp_all)

lemma count_counting:
  assumes inv: "barrier_inv N s" and i: "i < N" and N: "N < 2 ^ 31"
    and pc: "pc s i = AtCount" "count s \<noteq> 0x7FFFFFFF"
  shows "counting N (s\<lparr>pc := (pc s)(i := AtTest), count := count s + 1\<rparr>)" (is "counting N ?t")
proof -
  have c: "counting N s" using not_closing_counting [OF inv i] pc by simp
  have na: "\<not> arrived s i" and e: "entered s i = Suc (rounds s)"
    using pc inv i by (auto simp: arrived_def thread_ok_def barrier_inv_def)
  have "card {j. j < N \<and> arrived ?t j} = Suc (card {j. j < N \<and> arrived s j})"
    by (rule card_insert_new [where j = i]) (use pc na e i in \<open>auto simp: arrived_def\<close>)
  moreover have "unat (count s + 1) = Suc (unat (count s))"
    using pc count_le [OF inv] N by (simp add: unat_word_ariths)
  ultimately show ?thesis
    using c pc i by (auto simp: counting_def)
qed

lemma last_closing:
  assumes inv: "barrier_inv N s" and i: "i < N" and N: "N < 2 ^ 31"
    and pc: "pc s i = AtTest" "count_size (count s) = of_nat N"
  shows "closing N (s\<lparr>pc := (pc s)(i := AtUnlockLast), count := 0\<rparr>)"
proof -
  have c: "counting N s" using not_closing_counting [OF inv i] pc by simp
  then have "card {j. j < N \<and> arrived s j} = N"
    using pc count_size_cmp(1) [OF count_le [OF inv] N] by (simp add: counting_def)
  then have all: "arrived s j" if "j < N" for j
    using card_less_conj_full that by blast
  have ok: "\<And>j. j < N \<Longrightarrow> thread_ok s j" using inv by (simp add: barrier_inv_def)
  have "lock s = Some i" using ok [OF i] pc by (simp add: thread_ok_def)
  then have "pc s j = Spinning" if "j < N" "j \<noteq> i" for j
    using all [OF that(1)] ok [OF that(1)] c that by (auto simp: arrived_def thread_ok_def counting_def)
  then show ?thesis
    using all i pc by (auto simp: closing_def arrived_def)
qed

lemma move_counter:
  assumes inv: "barrier_inv N s" and i: "i < N" and N: "N < 2 ^ 31"
    and move: "barrier_move (of_nat N) i s t"
  shows "closing N t \<and> count t = 0 \<or> counting N t"
  using move
proof (cases rule: barrier_move.cases)
  case b_count
  with count_counting [OF inv i N] show ?thesis by simp
next
  case b_last
  with last_closing [OF inv i N] show ?thesis by simp
next
  case b_unlock_last
  with closing_or_counting [OF inv i] i show ?thesis by (auto simp: closing_def)
next
  case b_store
  with closing_or_counting [OF inv i] i show ?thesis by (auto simp: counting_def arrived_def)
next
  case b_over
  with count_size_cmp(3) [OF count_le [OF inv] N] show ?thesis by simp
next
  case b_unlock_over
  with inv i show ?thesis by (simp add: barrier_inv_def thread_ok_def)
qed (use quiet_counting [OF inv i N move] in simp_all)

lemma barrier_move_inv:
  "barrier_inv N s \<Longrightarrow> i < N \<Longrightarrow> N < 2 ^ 31 \<Longrightarrow> barrier_move (of_nat N) i s t \<Longrightarrow> barrier_inv N t"
  by (simp add: barrier_inv_def [of N t] move_thread_ok move_flag_lock move_counter)


section \<open>What the barrier promises\<close>

text \<open>
  The number of threads of a barrier is at least one and small enough for its \<open>int\<close> counter.
\<close>

definition barrier_size :: "nat \<Rightarrow> bool" where
  "barrier_size N \<longleftrightarrow> 0 < N \<and> N < 2 ^ 31"

definition barrier_run :: "nat \<Rightarrow> barrier_sys \<Rightarrow> barrier_sys \<Rightarrow> bool" where
  "barrier_run N s t \<longleftrightarrow> barrier_size N \<and> barrier_step N s t"

lemma barrier_run_inv:
  "barrier_inv N s \<Longrightarrow> barrier_run N s t \<Longrightarrow> barrier_inv N t"
  by (auto simp: barrier_run_def barrier_size_def elim!: barrier_stepE intro: barrier_move_inv)

interpretation bar: inductive_invariant
  "\<lambda>s. barrier_size N \<and> barrier_start s" "barrier_run N" "barrier_inv N" for N
  by unfold_locales
    (auto simp: barrier_size_def intro: barrier_inv_start barrier_run_inv)

lemma barrier_reachable_inv:
  assumes "reachable barrier_start (barrier_step N) s" "barrier_size N"
  shows "barrier_inv N s"
proof -
  have "reachable (\<lambda>s. barrier_size N \<and> barrier_start s) (barrier_run N) s"
    using assms by (induction rule: reachable.induct)
      (auto simp: barrier_run_def intro: reach_init reach_step)
  then show ?thesis by (rule bar.inv_reachable)
qed

lemma thread_ok_rounds:
  "thread_ok s i \<Longrightarrow> left s i \<le> rounds s \<and> rounds s \<le> Suc (left s i) \<and>
     rounds s \<le> entered s i \<and> entered s i \<le> Suc (rounds s) \<and> pc s i \<noteq> AtUnlockOver"
  unfolding thread_ok_def by (cases "pc s i = Outside") auto

text \<open>
  C18. Centralized barrier, safety: with one barrier object and a fixed number N of threads, in
  every reachable interleaving no thread has left the barrier more often than every other
  thread has entered it, no thread is two rounds ahead, and the branch of an overflowing
  counter is never taken.
\<close>

theorem barrier_no_early_exit:
  assumes "reachable barrier_start (barrier_step N) s" "0 < N" "N < 2 ^ 31" "i < N" "j < N"
  shows "left s i \<le> entered s j \<and> entered s j \<le> left s i + 2 \<and> pc s i \<noteq> AtUnlockOver"
proof -
  have "barrier_inv N s"
    using assms by (simp add: barrier_reachable_inv barrier_size_def)
  then have "thread_ok s i" "thread_ok s j" using assms by (auto simp: barrier_inv_def)
  then show ?thesis using thread_ok_rounds [of s i] thread_ok_rounds [of s j]
    by linarith
qed

lemma spinning_go:
  "pc s i = Spinning \<Longrightarrow> i < N \<Longrightarrow> flag s = local_sense s i \<Longrightarrow> \<exists>t. barrier_step N s t"
  by (blast intro: barrier_step.intros b_go)

lemma lock_holder_moves:
  assumes inv: "barrier_inv N s" and sz: "barrier_size N" and lk: "lock s = Some k"
  shows "\<exists>t. barrier_step N s t"
proof -
  have k: "k < N" and ok: "thread_ok s k"
    using inv lk by (auto simp: barrier_inv_def)
  then have "pc s k \<in> {AtCount, AtTest, AtUnlockLast, AtUnlockWait}"
    using lk by (simp add: thread_ok_def)
  moreover have "\<exists>t. barrier_step N s t" if p: "pc s k = AtCount"
  proof -
    have c: "counting N s" using not_closing_counting [OF inv k] p by simp
    have "count s \<noteq> 0x7FFFFFFF"
    proof
      assume q: "count s = 0x7FFFFFFF"
      then have "unat (count s) = N"
        using count_le [OF inv] sz by (simp add: barrier_size_def)
      then have "card {i. i < N \<and> arrived s i} = N"
        using c by (simp add: counting_def)
      then have "arrived s k" using k card_less_conj_full by blast
      then show False using p by (simp add: arrived_def)
    qed
    with p k show ?thesis by (blast intro: barrier_step.intros b_count)
  qed
  moreover have "\<exists>t. barrier_step N s t" if "pc s k = AtTest"
    using that k by (cases "count_size (count s)" "of_nat N :: u64" rule: linorder_cases)
      (blast intro: barrier_step.intros b_less b_last b_over)+
  ultimately show ?thesis
    using k by (auto intro: barrier_step.intros b_unlock_last b_unlock_wait)
qed

text \<open>
  C24. Centralized barrier, progress: whenever all N threads are inside a barrier call, some
  thread can take a step, so the barrier never deadlocks.
\<close>

theorem barrier_progress:
  assumes "reachable barrier_start (barrier_step N) s" "0 < N" "N < 2 ^ 31"
    and busy: "\<forall>i<N. pc s i \<noteq> Outside"
  shows "\<exists>t. barrier_step N s t"
proof -
  have sz: "barrier_size N" using assms by (simp add: barrier_size_def)
  have inv: "barrier_inv N s" using assms sz by (simp add: barrier_reachable_inv)
  have ok: "\<And>i. i < N \<Longrightarrow> thread_ok s i" and fl: "flag s = parity (rounds s)"
    using inv by (auto simp: barrier_inv_def)
  consider k where "lock s = Some k" | i where "lock s = None" "i < N" "pc s i \<in> {AtLock, AtStore}"
    | "lock s = None" "\<forall>i<N. pc s i = Spinning"
  proof (cases "lock s")
    case None
    have "pc s i \<in> {AtLock, AtStore, Spinning}" if "i < N" for i
      using ok [OF that] None busy that by (cases "pc s i") (auto simp: thread_ok_def)
    then show thesis using that(2,3) None by blast
  qed (use that(1) in blast)
  then show ?thesis
  proof cases
    case 1 then show ?thesis by (rule lock_holder_moves [OF inv sz])
  next
    case 2 then show ?thesis by (auto intro: barrier_step.intros b_lock b_store)
  next
    case 3
    have "\<exists>i<N. entered s i = rounds s"
    proof (rule ccontr)
      assume "\<not> ?thesis"
      then have "arrived s i" if "i < N" for i
        using ok [OF that] 3 that by (auto simp: arrived_def thread_ok_def)
      then have "{i. i < N \<and> arrived s i} = {..<N}" by auto
      moreover have "counting N s"
        using inv 3 by (auto simp: barrier_inv_def closing_def)
      ultimately have "\<exists>i<N. pc s i = AtTest" by (simp add: counting_def)
      then show False using 3 by auto
    qed
    then show ?thesis using ok fl 3 by (auto simp: thread_ok_def intro: spinning_go)
  qed
qed

text \<open>Schedules of two threads: a whole round, and one thread that goes alone as far as it can.\<close>

definition round_schedule :: "nat list" where
  "round_schedule = [0, 0, 0, 0, 0, 1, 1, 1, 1, 1, 1, 0]"

definition after_round :: barrier_sys where
  "after_round = the (fold_opt (barrier_exec (of_nat 2)) round_schedule (barrier_boot (\<lambda>_. 0)))"

lemma after_round_reach: "reachable barrier_start (barrier_step 2) after_round"
  and after_round_state: "pc after_round 0 = Outside" "pc after_round 1 = Outside"
    "left after_round 0 = 1" "left after_round 1 = 1"
    "local_sense after_round = (\<lambda>_. 0)(0 := 1, 1 := 1)"
proof -
  have run: "\<exists>t. fold_opt (barrier_exec (of_nat 2)) round_schedule (barrier_boot (\<lambda>_. 0)) = Some t \<and>
    pc t 0 = Outside \<and> pc t 1 = Outside \<and> left t 0 = 1 \<and> left t 1 = 1 \<and>
    local_sense t = (\<lambda>_. 0)(0 := 1, 1 := 1)"
    by (simp add: round_schedule_def barrier_exec_def barrier_boot_def count_size_def)
  then have "fold_opt (barrier_exec (of_nat 2)) round_schedule (barrier_boot (\<lambda>_. 0)) = Some after_round"
    by (auto simp: after_round_def)
  then show "reachable barrier_start (barrier_step 2) after_round"
    by (rule barrier_schedule_reach) (simp_all add: barrier_start_def round_schedule_def)
  show "pc after_round 0 = Outside" "pc after_round 1 = Outside"
    "left after_round 0 = 1" "left after_round 1 = 1"
    "local_sense after_round = (\<lambda>_. 0)(0 := 1, 1 := 1)"
    using run by (auto simp: after_round_def)
qed

lemma barrier_no_early_exit_witness:
  "left after_round 0 \<le> entered after_round 1 \<and> entered after_round 1 \<le> left after_round 0 + 2 \<and>
   pc after_round 0 \<noteq> AtUnlockOver"
  by (rule barrier_no_early_exit [of 2]) (simp_all add: after_round_reach)

lemma barrier_progress_witness:
  "\<exists>s. (\<forall>i<2. pc s i = AtLock) \<and> (\<exists>t. barrier_step 2 s t)"
proof -
  have "\<exists>s. fold_opt (barrier_exec (of_nat 2)) [0, 1] (barrier_boot (\<lambda>_. 0)) = Some s \<and>
    pc s 0 = AtLock \<and> pc s 1 = AtLock"
    by (simp add: barrier_exec_def barrier_boot_def)
  then obtain s where s: "fold_opt (barrier_exec (of_nat 2)) [0, 1] (barrier_boot (\<lambda>_. 0)) = Some s"
    "pc s 0 = AtLock" "pc s 1 = AtLock" by blast
  have busy: "\<forall>i<2. pc s i = AtLock" using s(2,3) by (auto simp: less_2_cases_iff)
  have "reachable barrier_start (barrier_step 2) s"
    by (rule barrier_schedule_reach [OF s(1)]) (simp_all add: barrier_start_def)
  from barrier_progress [OF this] busy show ?thesis by auto
qed

text \<open>
  C25. Centralized barrier, the gap: the sense is one thread-local variable for all barrier
  objects. After two threads have used one barrier once, a freshly initialised second barrier
  lets the first of them through before the other has entered it.
\<close>

theorem barrier_second_object_no_wait:
  "\<exists>s t. reachable barrier_start (barrier_step 2) s \<and> pc s 0 = Outside \<and> pc s 1 = Outside \<and>
     reachable (\<lambda>u. u = barrier_boot (local_sense s)) (barrier_step 2) t \<and>
     left t 0 = 1 \<and> entered t 1 = 0"
proof -
  let ?b = "barrier_boot (local_sense after_round)"
  have "\<exists>t. fold_opt (barrier_exec (of_nat 2)) [0, 0, 0, 0, 0, 0] ?b = Some t \<and>
    left t 0 = 1 \<and> entered t 1 = 0"
    by (simp add: barrier_exec_def barrier_boot_def count_size_def after_round_state)
  then obtain t where t: "fold_opt (barrier_exec (of_nat 2)) [0, 0, 0, 0, 0, 0] ?b = Some t"
    "left t 0 = 1" "entered t 1 = 0" by blast
  have "reachable (\<lambda>u. u = ?b) (barrier_step 2) t"
    by (rule barrier_schedule_reach [OF t(1)]) simp_all
  with t(2,3) show ?thesis using after_round_reach after_round_state by blast
qed

end
