(* ===== verification/CList.thy ===== *)
theory CList
  imports Prelude
begin

text \<open>
  The circular doubly linked list of \<open>include/mthpc/list.h\<close>: the structure
  \<open>mthpc_list_head\<close> in a heap, every inline function of the header as a function on the
  heap, and the predicate \<open>clist\<close> that reads a ring of nodes as a list. An address type
  \<open>'a\<close> has a null pointer \<open>0\<close>. The addresses of a client are the constructors of its own
  datatype, one constructor for each \<open>mthpc_list_head\<close> member, so \<open>container_of\<close> is the
  inverse of that constructor.
\<close>

section \<open>The structure and its heap\<close>

record 'a list_head =
  nxt :: 'a
  prv :: 'a

type_synonym 'a list_heap = "'a \<rightharpoonup> 'a list_head"

text \<open>Loads and stores of the two fields; an address outside the heap is a fault.\<close>

definition ld_next :: "'a list_heap \<Rightarrow> 'a \<Rightarrow> 'a option" where
  "ld_next h p = map_option nxt (h p)"

definition ld_prev :: "'a list_heap \<Rightarrow> 'a \<Rightarrow> 'a option" where
  "ld_prev h p = map_option prv (h p)"

definition set_next :: "'a \<Rightarrow> 'a \<Rightarrow> 'a list_heap \<Rightarrow> 'a list_heap" where
  "set_next p v h = h(p := map_option (\<lambda>n. n\<lparr>nxt := v\<rparr>) (h p))"

definition set_prev :: "'a \<Rightarrow> 'a \<Rightarrow> 'a list_heap \<Rightarrow> 'a list_heap" where
  "set_prev p v h = h(p := map_option (\<lambda>n. n\<lparr>prv := v\<rparr>) (h p))"

definition st_next :: "'a \<Rightarrow> 'a \<Rightarrow> 'a list_heap \<Rightarrow> 'a list_heap option" where
  "st_next p v h = (if h p = None then None else Some (set_next p v h))"

definition st_prev :: "'a \<Rightarrow> 'a \<Rightarrow> 'a list_heap \<Rightarrow> 'a list_heap option" where
  "st_prev p v h = (if h p = None then None else Some (set_prev p v h))"

section \<open>The functions of list.h\<close>

definition mthpc_list_init :: "'a \<Rightarrow> 'a list_heap \<Rightarrow> 'a list_heap option" where
  "mthpc_list_init node h = do {
     h \<leftarrow> st_next node node h;
     st_prev node node h }"

definition mthpc_list_empty :: "'a \<Rightarrow> 'a list_heap \<Rightarrow> bool option" where
  "mthpc_list_empty head h = do {
     n \<leftarrow> ld_next h head;
     Some (n = head) }"

definition raw_list_add :: "'a \<Rightarrow> 'a \<Rightarrow> 'a \<Rightarrow> 'a list_heap \<Rightarrow> 'a list_heap option" where
  "raw_list_add new prev next h = do {
     h \<leftarrow> st_prev next new h;
     h \<leftarrow> st_next new next h;
     h \<leftarrow> st_prev new prev h;
     st_next prev new h }"

definition mthpc_list_add :: "'a \<Rightarrow> 'a \<Rightarrow> 'a list_heap \<Rightarrow> 'a list_heap option" where
  "mthpc_list_add new head h = do {
     n \<leftarrow> ld_next h head;
     raw_list_add new head n h }"

definition mthpc_list_add_tail :: "'a \<Rightarrow> 'a \<Rightarrow> 'a list_heap \<Rightarrow> 'a list_heap option" where
  "mthpc_list_add_tail new head h = do {
     p \<leftarrow> ld_prev h head;
     raw_list_add new p head h }"

definition raw_list_del :: "'a \<Rightarrow> 'a \<Rightarrow> 'a list_heap \<Rightarrow> 'a list_heap option" where
  "raw_list_del prev next h = do {
     h \<leftarrow> st_prev next prev h;
     st_next prev next h }"

definition mthpc_list_del :: "'a \<Rightarrow> 'a list_heap \<Rightarrow> 'a list_heap option" where
  "mthpc_list_del node h = do {
     p \<leftarrow> ld_prev h node;
     n \<leftarrow> ld_next h node;
     h \<leftarrow> raw_list_del p n h;
     mthpc_list_init node h }"

definition mthpc_list_replace :: "'a \<Rightarrow> 'a \<Rightarrow> 'a list_heap \<Rightarrow> 'a list_heap option" where
  "mthpc_list_replace old new h = do {
     n \<leftarrow> ld_next h old;
     h \<leftarrow> st_next new n h;
     n \<leftarrow> ld_next h new;
     h \<leftarrow> st_prev n new h;
     p \<leftarrow> ld_prev h old;
     h \<leftarrow> st_prev new p h;
     p \<leftarrow> ld_prev h new;
     st_next p new h }"

definition mthpc_list_replace_init :: "'a \<Rightarrow> 'a \<Rightarrow> 'a list_heap \<Rightarrow> 'a list_heap option" where
  "mthpc_list_replace_init old new h = do {
     h \<leftarrow> mthpc_list_replace old new h;
     mthpc_list_init old h }"

definition mthpc_list_move :: "'a \<Rightarrow> 'a \<Rightarrow> 'a list_heap \<Rightarrow> 'a list_heap option" where
  "mthpc_list_move list head h = do {
     p \<leftarrow> ld_prev h list;
     n \<leftarrow> ld_next h list;
     h \<leftarrow> raw_list_del p n h;
     mthpc_list_add list head h }"

definition raw_list_splice :: "'a \<Rightarrow> 'a \<Rightarrow> 'a \<Rightarrow> 'a list_heap \<Rightarrow> 'a list_heap option" where
  "raw_list_splice list prev next h = do {
     first \<leftarrow> ld_next h list;
     last \<leftarrow> ld_prev h list;
     h \<leftarrow> st_prev first prev h;
     h \<leftarrow> st_next prev first h;
     h \<leftarrow> st_next last next h;
     st_prev next last h }"

definition mthpc_list_splice :: "'a \<Rightarrow> 'a \<Rightarrow> 'a list_heap \<Rightarrow> 'a list_heap option" where
  "mthpc_list_splice list head h = do {
     e \<leftarrow> mthpc_list_empty list h;
     if \<not> e then do {
       n \<leftarrow> ld_next h head;
       raw_list_splice list head n h }
     else Some h }"

definition mthpc_list_splice_tail :: "'a \<Rightarrow> 'a \<Rightarrow> 'a list_heap \<Rightarrow> 'a list_heap option" where
  "mthpc_list_splice_tail list head h = do {
     e \<leftarrow> mthpc_list_empty list h;
     if \<not> e then do {
       p \<leftarrow> ld_prev h head;
       raw_list_splice list p head h }
     else Some h }"

text \<open>
  The iteration macros. \<open>mthpc_list_for_each\<close> visits \<open>pos\<close> while it is not the head; the
  body may change a state \<open>'s\<close> that contains the heap (read by \<open>hp\<close>), and the next
  position is loaded after the body. \<open>mthpc_list_for_each_safe\<close> loads the next position
  before the body, so the body may unlink \<open>pos\<close>.
\<close>

partial_function (option) list_for_each_from ::
  "('s \<Rightarrow> 'a list_heap) \<Rightarrow> ('a \<Rightarrow> 's \<Rightarrow> 's option) \<Rightarrow> 'a \<Rightarrow> 'a \<Rightarrow> 's \<Rightarrow> 's option" where
  "list_for_each_from hp body head pos s =
     (if pos = head then Some s
      else do {
        s \<leftarrow> body pos s;
        n \<leftarrow> ld_next (hp s) pos;
        list_for_each_from hp body head n s })"

definition list_for_each ::
  "('s \<Rightarrow> 'a list_heap) \<Rightarrow> ('a \<Rightarrow> 's \<Rightarrow> 's option) \<Rightarrow> 'a \<Rightarrow> 's \<Rightarrow> 's option" where
  "list_for_each hp body head s = do {
     pos \<leftarrow> ld_next (hp s) head;
     list_for_each_from hp body head pos s }"

partial_function (option) list_for_each_safe_from ::
  "('s \<Rightarrow> 'a list_heap) \<Rightarrow> ('a \<Rightarrow> 's \<Rightarrow> 's option) \<Rightarrow> 'a \<Rightarrow> 'a \<Rightarrow> 'a \<Rightarrow> 's \<Rightarrow> 's option" where
  "list_for_each_safe_from hp body head pos n s =
     (if pos = head then Some s
      else do {
        s \<leftarrow> body pos s;
        n' \<leftarrow> ld_next (hp s) n;
        list_for_each_safe_from hp body head n n' s })"

definition list_for_each_safe ::
  "('s \<Rightarrow> 'a list_heap) \<Rightarrow> ('a \<Rightarrow> 's \<Rightarrow> 's option) \<Rightarrow> 'a \<Rightarrow> 's \<Rightarrow> 's option" where
  "list_for_each_safe hp body head s = do {
     pos \<leftarrow> ld_next (hp s) head;
     n \<leftarrow> ld_next (hp s) pos;
     list_for_each_safe_from hp body head pos n s }"

section \<open>Heap lemmas\<close>

lemma ld_next_set_next [heap_simps]:
  "ld_next (set_next p v h) q = (if q = p \<and> p \<in> dom h then Some v else ld_next h q)"
  by (cases "h p") (auto simp: ld_next_def set_next_def)

lemma ld_prev_set_next [heap_simps]: "ld_prev (set_next p v h) q = ld_prev h q"
  by (cases "h p") (auto simp: ld_prev_def set_next_def)

lemma ld_prev_set_prev [heap_simps]:
  "ld_prev (set_prev p v h) q = (if q = p \<and> p \<in> dom h then Some v else ld_prev h q)"
  by (cases "h p") (auto simp: ld_prev_def set_prev_def)

lemma ld_next_set_prev [heap_simps]: "ld_next (set_prev p v h) q = ld_next h q"
  by (cases "h p") (auto simp: ld_next_def set_prev_def)

lemma dom_set_next [heap_simps]: "dom (set_next p v h) = dom h"
  by (auto simp: set_next_def split: if_splits)

lemma dom_set_prev [heap_simps]: "dom (set_prev p v h) = dom h"
  by (auto simp: set_prev_def split: if_splits)

lemma st_next_Some [heap_simps]: "p \<in> dom h \<Longrightarrow> st_next p v h = Some (set_next p v h)"
  by (auto simp: st_next_def)

lemma st_prev_Some [heap_simps]: "p \<in> dom h \<Longrightarrow> st_prev p v h = Some (set_prev p v h)"
  by (auto simp: st_prev_def)

lemma set_next_other: "a \<noteq> p \<Longrightarrow> set_next p v h a = h a"
  by (simp add: set_next_def)

lemma set_prev_other: "a \<noteq> p \<Longrightarrow> set_prev p v h a = h a"
  by (simp add: set_prev_def)

lemma ld_next_dom: "ld_next h p = Some n \<Longrightarrow> p \<in> dom h"
  by (auto simp: ld_next_def)

lemma ld_prev_dom: "ld_prev h p = Some n \<Longrightarrow> p \<in> dom h"
  by (auto simp: ld_prev_def)

text \<open>Two heaps that differ only on a set of nodes.\<close>

definition agree_off :: "'a set \<Rightarrow> 'a list_heap \<Rightarrow> 'a list_heap \<Rightarrow> bool" where
  "agree_off S h h' \<longleftrightarrow> dom h' = dom h \<and> (\<forall>a. a \<notin> S \<longrightarrow> h' a = h a)"

lemma agree_off_refl [simp]: "agree_off S h h"
  by (simp add: agree_off_def)

lemma agree_off_trans [trans]:
  "agree_off S h h' \<Longrightarrow> agree_off S h' h'' \<Longrightarrow> agree_off S h h''"
  by (simp add: agree_off_def)

lemma agree_off_mono: "agree_off S h h' \<Longrightarrow> S \<subseteq> T \<Longrightarrow> agree_off T h h'"
  by (auto simp: agree_off_def)

lemma agree_off_trans_mono:
  "agree_off S h h' \<Longrightarrow> agree_off T h' h'' \<Longrightarrow> S \<union> T \<subseteq> U \<Longrightarrow> agree_off U h h''"
  by (blast intro: agree_off_trans agree_off_mono)

lemma agree_off_set_next: "agree_off S h h' \<Longrightarrow> p \<in> S \<Longrightarrow> agree_off S h (set_next p v h')"
  unfolding agree_off_def dom_set_next by (metis set_next_other)

lemma agree_off_set_prev: "agree_off S h h' \<Longrightarrow> p \<in> S \<Longrightarrow> agree_off S h (set_prev p v h')"
  unfolding agree_off_def dom_set_prev by (metis set_prev_other)

lemma agree_off_dom: "agree_off S h h' \<Longrightarrow> dom h' = dom h"
  by (simp add: agree_off_def)

section \<open>Rings of nodes\<close>

definition link :: "'a list_heap \<Rightarrow> 'a \<Rightarrow> 'a \<Rightarrow> bool" where
  "link h a b \<longleftrightarrow> ld_next h a = Some b \<and> ld_prev h b = Some a"

fun links :: "'a list_heap \<Rightarrow> 'a list \<Rightarrow> bool" where
  "links h (a # b # zs) \<longleftrightarrow> link h a b \<and> links h (b # zs)"
| "links h _ \<longleftrightarrow> True"

text \<open>The nodes \<open>xs\<close>, in order, hang off the list head \<open>l\<close>.\<close>

definition clist :: "'a list_heap \<Rightarrow> 'a \<Rightarrow> 'a list \<Rightarrow> bool" where
  "clist h l xs \<longleftrightarrow> distinct (l # xs) \<and> links h (l # xs @ [l])"

lemma links_append: "links h (xs @ m # ys) \<longleftrightarrow> links h (xs @ [m]) \<and> links h (m # ys)"
proof (induction xs)
  case (Cons x xs)
  then show ?case by (cases xs) auto
qed simp

lemma links_snoc2: "links h (xs @ [a, b]) \<longleftrightarrow> links h (xs @ [a]) \<and> link h a b"
  using links_append [of h xs a "[b]"] by simp

lemma links_set_next:
  "p \<notin> set (butlast zs) \<Longrightarrow> links (set_next p v h) zs = links h zs"
  by (induction h zs rule: links.induct) (auto simp: link_def heap_simps split: if_splits)

lemma links_set_prev:
  "p \<notin> set (tl zs) \<Longrightarrow> links (set_prev p v h) zs = links h zs"
  by (induction h zs rule: links.induct) (auto simp: link_def heap_simps)

lemma links_agree:
  "agree_off S h h' \<Longrightarrow> set zs \<inter> S = {} \<Longrightarrow> links h' zs = links h zs"
  by (induction h zs rule: links.induct)
    (auto simp: link_def ld_next_def ld_prev_def agree_off_def)

lemma links_dom: "links h zs \<Longrightarrow> 2 \<le> length zs \<Longrightarrow> set zs \<subseteq> dom h"
proof (induction h zs rule: links.induct)
  case (1 h a b zs)
  then show ?case
    by (cases zs) (auto simp: link_def dest: ld_next_dom ld_prev_dom)
qed auto

lemma clist_dom: "clist h l xs \<Longrightarrow> insert l (set xs) \<subseteq> dom h"
  unfolding clist_def using links_dom [of h "l # xs @ [l]"] by auto

lemma clist_distinct: "clist h l xs \<Longrightarrow> distinct (l # xs)"
  by (simp add: clist_def)

lemma clist_agree:
  "agree_off S h h' \<Longrightarrow> insert l (set xs) \<inter> S = {} \<Longrightarrow> clist h' l xs = clist h l xs"
  unfolding clist_def using links_agree [of S h h' "l # xs @ [l]"] by auto

lemma links_same: "(\<And>a. a \<in> set zs \<Longrightarrow> h' a = h a) \<Longrightarrow> links h' zs = links h zs"
  by (induction h zs rule: links.induct) (auto simp: link_def ld_next_def ld_prev_def)

lemma clist_same:
  "clist h l xs \<Longrightarrow> (\<And>a. a \<in> insert l (set xs) \<Longrightarrow> h' a = h a) \<Longrightarrow> clist h' l xs"
  unfolding clist_def using links_same [of "l # xs @ [l]" h' h] by auto

lemma clist_Nil: "clist h l [] \<longleftrightarrow> link h l l"
  by (simp add: clist_def)

text \<open>A ring may be entered at any of its nodes.\<close>

lemma clist_rotate:
  assumes "clist h l (as @ x # bs)"
  shows "clist h x (bs @ l # as)"
proof -
  have "links h (l # as @ x # bs @ [l])" "distinct (l # as @ x # bs)"
    using assms by (simp_all add: clist_def)
  then have "links h (l # as @ [x])" "links h (x # bs @ [l])"
    using links_append [of h "l # as" x "bs @ [l]"] by simp_all
  then have "links h (x # bs @ l # as @ [x])"
    using links_append [of h "x # bs" l "as @ [x]"] by simp
  with \<open>distinct (l # as @ x # bs)\<close> show ?thesis
    by (auto simp: clist_def)
qed

lemma clist_rotate_iff: "clist h l (as @ x # bs) \<longleftrightarrow> clist h x (bs @ l # as)"
  by (metis clist_rotate)

lemma clist_next: "clist h l xs \<Longrightarrow> ld_next h l = Some (case xs of [] \<Rightarrow> l | x # _ \<Rightarrow> x)"
  by (cases xs) (auto simp: clist_def link_def)

lemma clist_prev: "clist h l xs \<Longrightarrow> ld_prev h l = Some (last (l # xs))"
proof (cases xs rule: rev_cases)
  case (snoc ys y)
  assume "clist h l xs"
  with snoc show ?thesis
    using links_snoc2 [of h "l # ys" y l] by (simp add: clist_def link_def)
qed (simp add: clist_def link_def)

section \<open>What the operations do to a ring\<close>

subsection \<open>Initialisation and the empty test\<close>

lemma mthpc_list_init_ok:
  assumes "x \<in> dom h"
  obtains h' where "mthpc_list_init x h = Some h'" "clist h' x []" "agree_off {x} h h'"
proof
  show "mthpc_list_init x h = Some (set_prev x x (set_next x x h))"
    using assms by (simp add: mthpc_list_init_def heap_simps)
  show "clist (set_prev x x (set_next x x h)) x []"
    using assms by (simp add: clist_Nil link_def heap_simps)
  show "agree_off {x} h (set_prev x x (set_next x x h))"
    by (intro agree_off_set_prev agree_off_set_next) auto
qed

lemma mthpc_list_empty_iff: "clist h l xs \<Longrightarrow> mthpc_list_empty l h = Some (xs = [])"
  by (auto simp: mthpc_list_empty_def clist_next split: list.splits) (simp add: clist_def)

subsection \<open>Insertion\<close>

lemma raw_list_add_front:
  assumes c: "clist h l xs" and new: "new \<in> dom h" "new \<notin> set (l # xs)"
    and n: "ld_next h l = Some n"
  obtains h' where "raw_list_add new l n h = Some h'" "clist h' l (new # xs)"
    "agree_off {l, new, n} h h'"
proof
  let ?h = "set_next l new (set_prev new l (set_next new n (set_prev n new h)))"
  have d: "l \<in> dom h" "n \<in> dom h" and n_eq: "n = hd (xs @ [l])"
    using clist_dom [OF c] clist_next [OF c] n by (auto split: list.splits)
  then show "raw_list_add new l n h = Some ?h"
    using new by (simp add: raw_list_add_def heap_simps)
  have "n \<in> set (l # xs)"
    using n_eq by (cases xs) auto
  with d new have l1: "link ?h l new" and l2: "link ?h new n"
    by (auto simp: link_def heap_simps)
  have dist: "distinct (l # xs)" "links h (l # xs @ [l])"
    using c by (simp_all add: clist_def)
  have "links ?h (xs @ [l])"
  proof (cases xs)
    case (Cons y ys)
    have "links h (xs @ [l])" using dist(2) Cons by simp
    then show ?thesis
      using dist(1) new(2) n_eq Cons
      by (auto simp: links_set_next links_set_prev butlast_append)
  qed simp
  with l1 l2 n_eq have "links ?h (l # new # xs @ [l])"
    by (cases xs) simp_all
  with dist new show "clist ?h l (new # xs)"
    by (auto simp: clist_def)
  show "agree_off {l, new, n} h ?h"
    by (intro agree_off_set_prev agree_off_set_next) auto
qed

lemma mthpc_list_add_ok:
  assumes c: "clist h l xs" and new: "new \<in> dom h" "new \<notin> set (l # xs)"
  obtains h' where "mthpc_list_add new l h = Some h'" "clist h' l (new # xs)"
    "agree_off (set (new # l # xs)) h h'"
proof -
  obtain n where n: "ld_next h l = Some n" "n \<in> set (l # xs)"
    using clist_next [OF c] by (cases xs) auto
  from raw_list_add_front [OF c new n(1)] obtain h'
    where "raw_list_add new l n h = Some h'" "clist h' l (new # xs)" "agree_off {l, new, n} h h'"
    by blast
  with n that [of h'] agree_off_mono [of "{l, new, n}" h h' "set (new # l # xs)"]
  show ?thesis by (simp add: mthpc_list_add_def)
qed

lemma raw_list_add_back:
  assumes c: "clist h l xs" and new: "new \<in> dom h" "new \<notin> set (l # xs)"
    and p: "ld_prev h l = Some p"
  obtains h' where "raw_list_add new p l h = Some h'" "clist h' l (xs @ [new])"
    "agree_off {p, new, l} h h'"
proof (cases xs rule: rev_cases)
  case Nil
  with c p have "p = l" "ld_next h l = Some l"
    using clist_prev [OF c] clist_next [OF c] by auto
  with raw_list_add_front [OF c new, of l] that Nil show ?thesis
    by (metis append_Nil)
next
  case (snoc ys y)
  with c p have p_eq: "p = y" using clist_prev [OF c] by simp
  have c': "clist h p (l # ys)"
    using clist_rotate [of h l ys y "[]"] c snoc p_eq by simp
  have new': "new \<notin> set (p # l # ys)" using new snoc p_eq by auto
  have "ld_next h p = Some l" using clist_next [OF c'] by simp
  from raw_list_add_front [OF c' new(1) new' this] obtain h'
    where h': "raw_list_add new p l h = Some h'" "clist h' p (new # l # ys)"
      "agree_off {p, new, l} h h'"
    by blast
  have "clist h' l (ys @ [p, new])"
    using clist_rotate [of h' p "[new]" l ys] h'(2) by simp
  with h' that snoc p_eq show ?thesis by simp
qed

lemma mthpc_list_add_tail_ok:
  assumes c: "clist h l xs" and new: "new \<in> dom h" "new \<notin> set (l # xs)"
  obtains h' where "mthpc_list_add_tail new l h = Some h'" "clist h' l (xs @ [new])"
    "agree_off (set (new # l # xs)) h h'"
proof -
  obtain p where p: "ld_prev h l = Some p" "p \<in> set (l # xs)"
    using clist_prev [OF c] last_in_set [of "l # xs"] by auto
  from raw_list_add_back [OF c new p(1)] obtain h'
    where "raw_list_add new p l h = Some h'" "clist h' l (xs @ [new])" "agree_off {p, new, l} h h'"
    by blast
  with p that [of h'] agree_off_mono [of "{p, new, l}" h h' "set (new # l # xs)"]
  show ?thesis by (simp add: mthpc_list_add_tail_def)
qed

subsection \<open>Removal\<close>

lemma raw_list_del_ring:
  assumes c: "clist h x (l # ys)"
    and p: "ld_prev h x = Some p" and n: "ld_next h x = Some n"
  obtains h' where "raw_list_del p n h = Some h'" "clist h' l ys" "agree_off {p, n} h h'"
    "ld_next h' x = Some n" "ld_prev h' x = Some p"
proof
  have n_eq: "n = l" and p_eq: "p = last (l # ys)"
    using clist_next [OF c] clist_prev [OF c] n p by auto
  let ?h = "set_next p n (set_prev n p h)"
  have d: "p \<in> dom h" "n \<in> dom h" "p \<noteq> x" "n \<noteq> x"
    using clist_dom [OF c] clist_distinct [OF c] n_eq p_eq last_in_set [of "l # ys"]
    by auto
  then show "raw_list_del p n h = Some ?h"
    by (simp add: raw_list_del_def heap_simps)
  have dist: "distinct (l # ys)" and l: "links h ((l # ys) @ [x])"
    using c by (auto simp: clist_def)
  obtain zs where zs: "l # ys = zs @ [p]"
    using p_eq by (metis append_butlast_last_id list.distinct(1))
  have "links h (zs @ [p])"
    using l links_snoc2 [of h zs p x] zs by simp
  moreover have "l \<notin> set (tl (zs @ [p]))"
    using dist by (simp flip: zs)
  moreover have "p \<notin> set zs"
    using dist unfolding zs by simp
  ultimately have "links ?h (zs @ [p])"
    using n_eq by (simp add: links_set_next links_set_prev butlast_append)
  moreover have "link ?h p l"
    using d n_eq by (simp add: link_def heap_simps)
  ultimately have "links ?h (zs @ [p, l])"
    by (simp add: links_snoc2)
  moreover have "zs @ [p, l] = l # ys @ [l]"
    using arg_cong [OF zs, of "\<lambda>xs. xs @ [l]"] by simp
  ultimately show "clist ?h l ys"
    using dist by (simp add: clist_def)
  show "agree_off {p, n} h ?h"
    by (intro agree_off_set_prev agree_off_set_next) auto
  show "ld_next ?h x = Some n" "ld_prev ?h x = Some p"
    using d n p by (simp_all add: heap_simps)
qed

lemma mthpc_list_del_ring:
  assumes c: "clist h x (l # ys)"
  obtains h' where "mthpc_list_del x h = Some h'" "clist h' l ys" "clist h' x []"
    "agree_off (set (x # l # ys)) h h'"
proof -
  let ?p = "last (l # ys)"
  have pn: "ld_prev h x = Some ?p" "ld_next h x = Some l"
    using clist_prev [OF c] clist_next [OF c] by auto
  from raw_list_del_ring [OF c this] obtain h1
    where h1: "raw_list_del ?p l h = Some h1" "clist h1 l ys" "agree_off {?p, l} h h1"
    by blast
  have "x \<in> dom h1"
    using clist_dom [OF c] agree_off_dom [OF h1(3)] by simp
  then obtain h2 where h2: "mthpc_list_init x h1 = Some h2" "clist h2 x []" "agree_off {x} h1 h2"
    by (rule mthpc_list_init_ok)
  have "clist h2 l ys"
    using clist_agree [OF h2(3), of l ys] h1(2) clist_distinct [OF c] by auto
  moreover have "agree_off (set (x # l # ys)) h h2"
    by (rule agree_off_trans_mono [OF h1(3) h2(3)]) (use last_in_set [of "l # ys"] in auto)
  ultimately show ?thesis
    using that [of h2] h1(1) h2(1,2) pn by (simp add: mthpc_list_del_def)
qed

lemma mthpc_list_del_ok:
  assumes c: "clist h l (as @ x # bs)"
  obtains h' where "mthpc_list_del x h = Some h'" "clist h' l (as @ bs)" "clist h' x []"
    "agree_off (set (l # as @ x # bs)) h h'"
proof (cases bs)
  case Nil
  have c': "clist h x (l # as)"
    using clist_rotate [OF c] Nil by simp
  show ?thesis
    using mthpc_list_del_ring [OF c'] that Nil
    by (metis (no_types, lifting) append_Nil2 insert_commute list.set(2) set_append
        Un_insert_right list.set(1) sup_bot.right_neutral)
next
  case (Cons b bs')
  have c': "clist h x (b # bs' @ l # as)"
    using clist_rotate [OF c] Cons by simp
  obtain h' where h': "mthpc_list_del x h = Some h'" "clist h' b (bs' @ l # as)"
    "clist h' x []" "agree_off (set (x # b # bs' @ l # as)) h h'"
    using mthpc_list_del_ring [OF c'] by blast
  have "clist h' l (as @ bs)"
    using clist_rotate [OF h'(2)] Cons by simp
  moreover have "agree_off (set (l # as @ x # bs)) h h'"
    by (rule agree_off_mono [OF h'(4)]) (auto simp: Cons)
  ultimately show ?thesis using h'(1,3) that by blast
qed

text \<open>Deleting a node that is in no list is harmless.\<close>

lemma mthpc_list_del_singleton:
  assumes c: "clist h x []"
  obtains h' where "mthpc_list_del x h = Some h'" "clist h' x []" "agree_off {x} h h'"
proof -
  have l: "ld_next h x = Some x" "ld_prev h x = Some x" and d: "x \<in> dom h"
    using c clist_dom [OF c] by (auto simp: clist_Nil link_def)
  let ?h = "set_next x x (set_prev x x h)"
  have "raw_list_del x x h = Some ?h" and dd: "x \<in> dom ?h"
    using d by (simp_all add: raw_list_del_def heap_simps)
  moreover obtain h' where "mthpc_list_init x ?h = Some h'" "clist h' x []" "agree_off {x} ?h h'"
    using mthpc_list_init_ok [OF dd] .
  moreover have "agree_off {x} h ?h"
    by (intro agree_off_set_prev agree_off_set_next) auto
  ultimately show ?thesis
    using that [of h'] l by (auto simp: mthpc_list_del_def intro: agree_off_trans)
qed

subsection \<open>Replacement\<close>

lemma mthpc_list_replace_ring:
  assumes c: "clist h old (l # ys)" and new: "new \<in> dom h" "new \<notin> set (old # l # ys)"
  obtains h' where "mthpc_list_replace old new h = Some h'" "clist h' new (l # ys)"
    "agree_off (set (new # l # ys)) h h'"
proof -
  obtain zs p where zs: "l # ys = zs @ [p]"
    by (rule snoc_cases_ring)
  then have p: "p = last (l # ys)" "p \<in> set (l # ys)"
    by simp_all
  let ?h1 = "set_prev l new (set_next new l h)"
  let ?h = "set_next p new (set_prev new p ?h1)"
  have pn: "ld_prev h old = Some p" "ld_next h old = Some l"
    using clist_prev [OF c] clist_next [OF c] p by auto
  have d: "p \<in> dom h" "l \<in> dom h" "old \<noteq> l" "old \<noteq> new" "l \<noteq> new" "p \<noteq> new"
    using clist_dom [OF c] clist_distinct [OF c] p new by auto
  then have run: "mthpc_list_replace old new h = Some ?h"
    using pn new(1) by (simp add: mthpc_list_replace_def heap_simps)
  have dist: "distinct (l # ys)" and "links h (old # (l # ys) @ [old])"
    using c by (auto simp: clist_def)
  then have "links h ((old # zs) @ [p, old])"
    unfolding zs by simp
  then have "links h (old # zs @ [p])"
    unfolding links_snoc2 by simp
  then have l: "links h (zs @ [p])"
    by (simp flip: zs)
  have "p \<notin> set zs" "l \<notin> set (tl (zs @ [p]))"
    using dist unfolding zs by (simp, simp flip: zs)
  moreover have "new \<notin> set (zs @ [p])"
    using new(2) by (simp flip: zs)
  moreover have "set (tl (zs @ [p])) \<subseteq> set (zs @ [p])"
    by (cases zs) auto
  ultimately have "links ?h (zs @ [p])"
    using l by (subst links_set_next links_set_prev, force)+ simp
  moreover have ln: "link ?h new l" "link ?h p new"
    using d new(1) by (simp_all add: link_def heap_simps)
  ultimately have "links ?h ((l # ys) @ [new])"
    unfolding zs by (simp add: links_snoc2)
  with ln(1) have "links ?h (new # (l # ys) @ [new])"
    by simp
  then have "clist ?h new (l # ys)"
    using dist new by (auto simp: clist_def)
  moreover have "agree_off (set (new # l # ys)) h ?h"
    using p by (intro agree_off_set_prev agree_off_set_next) auto
  ultimately show ?thesis using run that by blast
qed

lemma mthpc_list_replace_init_ok:
  assumes c: "clist h l (as @ old # bs)" and new: "new \<in> dom h" "new \<notin> set (l # as @ old # bs)"
  obtains h' where "mthpc_list_replace_init old new h = Some h'" "clist h' l (as @ new # bs)"
    "clist h' old []" "agree_off (set (new # l # as @ old # bs)) h h'"
proof -
  obtain y ys where ys: "bs @ l # as = y # ys" by (cases bs) auto
  have c': "clist h old (y # ys)" using clist_rotate [OF c] ys by simp
  have yset: "set (y # ys) = set (l # as @ bs)" by (simp flip: ys) auto
  then have new': "new \<notin> set (old # y # ys)" using new(2) by auto
  from mthpc_list_replace_ring [OF c' new(1) new'] obtain h1
    where h1: "mthpc_list_replace old new h = Some h1" "clist h1 new (y # ys)"
      "agree_off (set (new # y # ys)) h h1"
    by blast
  have "old \<in> dom h1"
    using clist_dom [OF c'] agree_off_dom [OF h1(3)] by simp
  then obtain h2 where h2: "mthpc_list_init old h1 = Some h2" "clist h2 old []" "agree_off {old} h1 h2"
    by (rule mthpc_list_init_ok)
  have "clist h2 new (y # ys)"
    using clist_agree [OF h2(3), of new "y # ys"] h1(2) clist_distinct [OF c'] new' by auto
  then have "clist h2 new (bs @ l # as)"
    unfolding ys .
  then have "clist h2 l (as @ new # bs)"
    by (simp only: clist_rotate_iff)
  moreover have "agree_off (set (new # l # as @ old # bs)) h h2"
    by (rule agree_off_trans_mono [OF h1(3) h2(3)]) (use yset in auto)
  ultimately show ?thesis
    using that [of h2] h1(1) h2(1,2) by (simp add: mthpc_list_replace_init_def)
qed

subsection \<open>Moving\<close>

lemma mthpc_list_move_ok:
  assumes c: "clist h l (as @ x # bs)"
  obtains h' where "mthpc_list_move x l h = Some h'" "clist h' l (x # as @ bs)"
    "agree_off (set (l # as @ x # bs)) h h'"
proof -
  obtain y ys where ys: "bs @ l # as = y # ys" by (cases bs) auto
  have c': "clist h x (y # ys)" using clist_rotate [OF c] ys by simp
  let ?p = "last (y # ys)"
  have pn: "ld_prev h x = Some ?p" "ld_next h x = Some y"
    using clist_prev [OF c'] clist_next [OF c'] by auto
  from raw_list_del_ring [OF c' this] obtain h1
    where h1: "raw_list_del ?p y h = Some h1" "clist h1 y ys" "agree_off {?p, y} h h1"
    by blast
  have "clist h1 l (as @ bs)"
  proof (cases bs)
    case Nil
    with ys h1(2) show ?thesis by simp
  next
    case (Cons b bs')
    with ys h1(2) have "clist h1 b (bs' @ l # as)" by simp
    then show ?thesis using Cons clist_rotate_iff by metis
  qed
  moreover have "x \<in> dom h1" "x \<notin> set (l # as @ bs)"
    using clist_dom [OF c] clist_distinct [OF c] agree_off_dom [OF h1(3)] by auto
  ultimately obtain h2 where h2: "mthpc_list_add x l h1 = Some h2" "clist h2 l (x # as @ bs)"
    "agree_off (set (x # l # as @ bs)) h1 h2"
    by (rule mthpc_list_add_ok)
  have "?p \<in> set (bs @ l # as)" "y \<in> set (bs @ l # as)"
    unfolding ys using last_in_set [of "y # ys"] by simp_all
  then have "agree_off (set (l # as @ x # bs)) h h2"
    by (intro agree_off_trans_mono [OF h1(3) h2(3)]) auto
  with h1(1) h2(1,2) pn show ?thesis
    using that [of h2] by (simp add: mthpc_list_move_def)
qed

subsection \<open>Splicing\<close>

lemma raw_list_splice_front:
  assumes c: "clist h l xs" and src: "clist h s (y # ys)"
    and disj: "set (y # ys) \<inter> set (l # xs) = {}"
    and n: "ld_next h l = Some n"
  obtains h' where "raw_list_splice s l n h = Some h'" "clist h' l ((y # ys) @ xs)"
    "agree_off (set (l # xs @ y # ys)) h h'"
proof -
  obtain zs q where zs: "y # ys = zs @ [q]"
    by (rule snoc_cases_ring)
  then have q: "q = last (y # ys)" "q \<in> set (y # ys)" by simp_all
  let ?h = "set_prev n q (set_next q n (set_next l y (set_prev y l h)))"
  have n_eq: "n = hd (xs @ [l])" and n_in: "n \<in> set (l # xs)"
    using clist_next [OF c] n by (auto split: list.splits)
  have d: "l \<in> dom h" "n \<in> dom h" "y \<in> dom h" "q \<in> dom h"
    using clist_dom [OF c] clist_dom [OF src] n_in q by auto
  have "ld_next h s = Some y" "ld_prev h s = Some q"
    using clist_next [OF src] clist_prev [OF src] q by auto
  with d have run: "raw_list_splice s l n h = Some ?h"
    by (simp add: raw_list_splice_def heap_simps)
  have dist: "distinct (y # ys)" "distinct (l # xs)" and "links h (s # (y # ys) @ [s])"
    and l: "links h (xs @ [l])"
    using c src by (auto simp: clist_def) (cases xs, auto)
  then have "links h ((s # zs) @ [q, s])" unfolding zs by simp
  then have lz: "links h (zs @ [q])" unfolding links_snoc2 by (cases zs) auto
  have "distinct (zs @ [q])" "set (zs @ [q]) = set (y # ys)" "tl (zs @ [q]) = ys"
    using dist(1) by (simp_all flip: zs)
  then have "q \<notin> set zs" "set zs \<subseteq> set (y # ys)" "y \<notin> set (tl (zs @ [q]))"
    "set (tl (zs @ [q])) \<subseteq> set (y # ys)"
    using dist(1) by auto
  with lz disj n_in have "links ?h (zs @ [q])"
    by (subst links_set_prev links_set_next, force)+ simp
  moreover have lns: "link ?h l y" "link ?h q n"
    using d disj q n_in by (auto simp: link_def heap_simps)
  ultimately have "links ?h (l # zs @ [q])"
    by (simp flip: zs)
  have "links ?h (xs @ [l])"
  proof (cases xs)
    case (Cons a as)
    have "y \<notin> set (xs @ [l])" "q \<notin> set (xs @ [l])"
      using disj q by auto
    with l n_eq dist(2) Cons show ?thesis
      by (auto simp: links_set_prev links_set_next butlast_append)
  qed simp
  with lns(2) n_eq have "links ?h (q # xs @ [l])"
    by (cases xs) auto
  with \<open>links ?h (l # zs @ [q])\<close> have "links ?h (l # zs @ q # xs @ [l])"
    using links_append [of ?h "l # zs" q "xs @ [l]"] by simp
  then have "links ?h (l # ((y # ys) @ xs) @ [l])"
    unfolding zs by simp
  then have "clist ?h l ((y # ys) @ xs)"
    using dist disj by (auto simp: clist_def)
  moreover have "agree_off (set (l # xs @ y # ys)) h ?h"
    using q n_in by (intro agree_off_set_prev agree_off_set_next) auto
  ultimately show ?thesis using run that by blast
qed

lemma mthpc_list_splice_ok:
  assumes c: "clist h l xs" and src: "clist h s ys"
    and disj: "set ys \<inter> set (l # xs) = {}"
  obtains h' where "mthpc_list_splice s l h = Some h'" "clist h' l (ys @ xs)"
    "agree_off (set (l # xs @ ys)) h h'"
proof (cases ys)
  case Nil
  with that [of h] c mthpc_list_empty_iff [OF src] show ?thesis
    by (simp add: mthpc_list_splice_def)
next
  case (Cons y ys')
  obtain n where n: "ld_next h l = Some n"
    using clist_next [OF c] by blast
  from raw_list_splice_front [OF c src [unfolded Cons] disj [unfolded Cons] n] obtain h'
    where "raw_list_splice s l n h = Some h'" "clist h' l (ys @ xs)"
      "agree_off (set (l # xs @ ys)) h h'"
    unfolding Cons by blast
  with that [of h'] n mthpc_list_empty_iff [OF src] Cons show ?thesis
    by (simp add: mthpc_list_splice_def)
qed

lemma mthpc_list_splice_tail_ok:
  assumes c: "clist h l xs" and src: "clist h s ys"
    and disj: "set ys \<inter> set (l # xs) = {}"
  obtains h' where "mthpc_list_splice_tail s l h = Some h'" "clist h' l (xs @ ys)"
    "agree_off (set (l # xs @ ys)) h h'"
proof (cases ys)
  case Nil
  with that [of h] c mthpc_list_empty_iff [OF src] show ?thesis
    by (simp add: mthpc_list_splice_tail_def)
next
  case (Cons y ys')
  let ?p = "last (l # xs)"
  have p: "ld_prev h l = Some ?p" by (rule clist_prev [OF c])
  obtain rs where rs: "clist h ?p rs" "set (?p # rs) = set (l # xs)" "ld_next h ?p = Some l"
    "\<And>h' zs. clist h' ?p (zs @ rs) \<Longrightarrow> clist h' l (xs @ zs)"
  proof (cases xs rule: rev_cases)
    case Nil
    with c that [of "[]"] clist_next [OF c] show ?thesis by simp
  next
    case (snoc as p)
    with c that [of "l # as"] clist_rotate_iff [of _ l as p] clist_next [of h p "l # as"]
    show ?thesis by auto
  qed
  have "set (y # ys') \<inter> set (?p # rs) = {}"
    unfolding rs(2) using disj Cons by simp
  from raw_list_splice_front [OF rs(1) src [unfolded Cons] this rs(3)] obtain h'
    where h': "raw_list_splice s ?p l h = Some h'" "clist h' ?p (ys @ rs)"
      "agree_off (set (?p # rs @ ys)) h h'"
    unfolding Cons by blast
  have "agree_off (set (l # xs @ ys)) h h'"
    by (rule agree_off_mono [OF h'(3)]) (use rs(2) in auto)
  with that [of h'] h' p rs(4) mthpc_list_empty_iff [OF src] Cons show ?thesis
    by (simp add: mthpc_list_splice_tail_def)
qed

section \<open>Iteration\<close>

text \<open>The forward pointers alone: all that a reader of the list follows.\<close>

fun nexts :: "'a list_heap \<Rightarrow> 'a list \<Rightarrow> bool" where
  "nexts h (a # b # zs) \<longleftrightarrow> ld_next h a = Some b \<and> nexts h (b # zs)"
| "nexts h _ \<longleftrightarrow> True"

lemma links_nexts: "links h zs \<Longrightarrow> nexts h zs"
  by (induction h zs rule: links.induct) (auto simp: link_def)

lemma nexts_append: "nexts h (xs @ m # ys) \<longleftrightarrow> nexts h (xs @ [m]) \<and> nexts h (m # ys)"
proof (induction xs)
  case (Cons x xs)
  then show ?case by (cases xs) auto
qed simp

lemma nexts_appendD: "nexts h (xs @ m # ys) \<Longrightarrow> nexts h (m # ys)"
  by (subst (asm) nexts_append) simp

lemma nexts_set_next: "p \<notin> set (butlast zs) \<Longrightarrow> nexts (set_next p v h) zs = nexts h zs"
  by (induction h zs rule: nexts.induct) (auto simp: heap_simps split: if_splits)

lemma nexts_set_prev [heap_simps]: "nexts (set_prev p v h) zs = nexts h zs"
  by (induction h zs rule: nexts.induct) (auto simp: heap_simps)

lemma clist_nexts: "clist h l xs \<Longrightarrow> nexts h (l # xs @ [l])"
  by (simp add: clist_def links_nexts)

lemma nexts_Cons: "nexts h (x # ys @ [l]) \<longleftrightarrow> ld_next h x = Some (hd (ys @ [l])) \<and> nexts h (ys @ [l])"
  by (cases ys) auto

text \<open>
  \<open>mthpc_list_for_each\<close> over a ring that the body leaves alone runs the body on its nodes
  in order, and returns.
\<close>

lemma list_for_each_from_fold:
  assumes "\<And>s. I s \<Longrightarrow> nexts (hp s) (l # xs @ [l])"
    and "\<And>x s s'. x \<in> set xs \<Longrightarrow> I s \<Longrightarrow> body x s = Some s' \<Longrightarrow> I s'"
    and "I s" "l \<notin> set xs" "xs = as @ bs"
  shows "list_for_each_from hp body l (hd (bs @ [l])) s = fold_opt body bs s"
  using assms(3,5)
proof (induction bs arbitrary: as s)
  case Nil
  then show ?case by (simp add: list_for_each_from.simps)
next
  case (Cons b bs)
  then have b: "b \<noteq> l" "b \<in> set xs" using assms(4) by auto
  show ?case
  proof (cases "body b s")
    case None
    with b show ?thesis by (simp add: list_for_each_from.simps [of _ _ _ b])
  next
    case (Some s')
    with Cons.prems b assms(2) have I: "I s'" by blast
    have "nexts (hp s') ((l # as) @ b # bs @ [l])"
      using assms(1) [OF I] Cons.prems by simp
    then have "ld_next (hp s') b = Some (hd (bs @ [l]))"
      using nexts_appendD [of "hp s'" "l # as" b "bs @ [l]"] by (simp add: nexts_Cons)
    with b Some Cons.IH [of s' "as @ [b]"] Cons.prems I show ?thesis
      by (simp add: list_for_each_from.simps [of _ _ _ b])
  qed
qed

lemma list_for_each_fold:
  assumes "\<And>s. I s \<Longrightarrow> nexts (hp s) (l # xs @ [l])"
    and "\<And>x s s'. x \<in> set xs \<Longrightarrow> I s \<Longrightarrow> body x s = Some s' \<Longrightarrow> I s'"
    and "I s" "l \<notin> set xs"
  shows "list_for_each hp body l s = fold_opt body xs s"
proof -
  have "list_for_each_from hp body l (hd (xs @ [l])) s = fold_opt body xs s"
    by (rule list_for_each_from_fold [where I = I and as = "[]"]) (use assms in auto)
  with assms(1) [OF assms(3)] show ?thesis
    by (simp add: nexts_Cons list_for_each_def)
qed

text \<open>A walk whose body keeps the list, with an invariant over the nodes still to visit.\<close>

lemma list_for_each_from_inv:
  assumes "J rest s" "nexts (hp s) (as @ rest @ [l])" "l \<notin> set rest"
    and "\<And>x rest s. J (x # rest) s \<Longrightarrow> \<exists>s'. body x s = Some s' \<and> J rest s' \<and> hp s' = hp s"
  shows "\<exists>s'. list_for_each_from hp body l (hd (rest @ [l])) s = Some s' \<and> J [] s'"
  using assms(1-3)
proof (induction rest arbitrary: s as)
  case Nil
  then show ?case by (simp add: list_for_each_from.simps)
next
  case (Cons x rest)
  obtain s' where s': "body x s = Some s'" "J rest s'" "hp s' = hp s"
    using assms(4) [OF Cons.prems(1)] by blast
  have n: "nexts (hp s) (x # rest @ [l])"
    using Cons.prems(2) nexts_appendD by fastforce
  then have "ld_next (hp s) x = Some (hd (rest @ [l]))" by (simp add: nexts_Cons)
  moreover have "nexts (hp s') ((as @ [x]) @ rest @ [l])" using Cons.prems(2) s'(3) by simp
  from Cons.IH [OF s'(2) this] have
    "\<exists>k. list_for_each_from hp body l (hd (rest @ [l])) s' = Some k \<and> J [] k"
    using Cons.prems(3) by simp
  ultimately show ?case
    using s' Cons.prems(3) by (subst list_for_each_from.simps) auto
qed

lemma list_for_each_inv:
  assumes "J xs s" "clist (hp s) l xs"
    and "\<And>x rest s. J (x # rest) s \<Longrightarrow> \<exists>s'. body x s = Some s' \<and> J rest s' \<and> hp s' = hp s"
  obtains s' where "list_for_each hp body l s = Some s'" "J [] s'"
proof -
  have n: "nexts (hp s) ([l] @ xs @ [l])" using clist_nexts [OF assms(2)] by simp
  have l: "l \<notin> set xs" using clist_distinct [OF assms(2)] by simp
  have "\<exists>s'. list_for_each_from hp body l (hd (xs @ [l])) s = Some s' \<and> J [] s'"
    by (rule list_for_each_from_inv [where J = J and as = "[l]" and hp = hp]) (use assms(1,3) n l in auto)
  then show ?thesis using n that by (auto simp: list_for_each_def nexts_Cons)
qed

text \<open>
  \<open>mthpc_list_for_each_safe\<close>: the body may unlink the node it is given, as long as the
  nodes still to visit stay chained.
\<close>

lemma list_for_each_safe_from_fold:
  assumes "\<And>rest s. J rest s \<Longrightarrow> nexts (hp s) (rest @ [l]) \<and> l \<in> dom (hp s)"
    and "\<And>x rest s s'. J (x # rest) s \<Longrightarrow> body x s = Some s' \<Longrightarrow> J rest s'"
    and "J xs s" "l \<notin> set xs" "ld_next (hp s) (hd (xs @ [l])) = Some n"
  shows "list_for_each_safe_from hp body l (hd (xs @ [l])) n s = fold_opt body xs s"
  using assms(3-5)
proof (induction xs arbitrary: s n)
  case Nil
  then show ?case by (simp add: list_for_each_safe_from.simps)
next
  case (Cons x xs)
  then have "x \<noteq> l" by auto
  from Cons.prems assms(1) [OF Cons.prems(1)] have n: "n = hd (xs @ [l])"
    by (simp add: nexts_Cons)
  show ?case
  proof (cases "body x s")
    case None
    with \<open>x \<noteq> l\<close> show ?thesis by (simp add: list_for_each_safe_from.simps [of _ _ _ x])
  next
    case (Some s')
    with Cons.prems assms(2) have J: "J xs s'" by blast
    then obtain n' where "ld_next (hp s') (hd (xs @ [l])) = Some n'"
      using assms(1) [OF J] by (cases xs) (auto simp: nexts_Cons ld_next_def)
    with Cons.IH [OF J] Cons.prems Some \<open>x \<noteq> l\<close> n show ?thesis
      by (simp add: list_for_each_safe_from.simps [of _ _ _ x])
  qed
qed

lemma list_for_each_safe_fold:
  assumes "\<And>rest s. J rest s \<Longrightarrow> nexts (hp s) (rest @ [l]) \<and> l \<in> dom (hp s)"
    and "\<And>x rest s s'. J (x # rest) s \<Longrightarrow> body x s = Some s' \<Longrightarrow> J rest s'"
    and "J xs s" "l \<notin> set xs" "ld_next (hp s) l = Some (hd (xs @ [l]))"
  shows "list_for_each_safe hp body l s = fold_opt body xs s"
proof -
  obtain n where "ld_next (hp s) (hd (xs @ [l])) = Some n"
    using assms(1) [OF assms(3)] assms(5) by (cases xs) (auto simp: nexts_Cons ld_next_def)
  moreover have "list_for_each_safe_from hp body l (hd (xs @ [l])) n s = fold_opt body xs s"
    by (rule list_for_each_safe_from_fold [where J = J]) (use assms calculation in auto)
  ultimately show ?thesis
    using assms(5) by (simp add: list_for_each_safe_def)
qed

section \<open>An example heap\<close>

definition ring_a :: "nat list_heap" where
  "ring_a = [0 \<mapsto> \<lparr>nxt = 1, prv = 2\<rparr>, 1 \<mapsto> \<lparr>nxt = 2, prv = 0\<rparr>, 2 \<mapsto> \<lparr>nxt = 0, prv = 1\<rparr>,
     3 \<mapsto> \<lparr>nxt = 4, prv = 4\<rparr>, 4 \<mapsto> \<lparr>nxt = 3, prv = 3\<rparr>, 5 \<mapsto> \<lparr>nxt = 0, prv = 0\<rparr>]"

lemma ring_a_lists: "clist ring_a 0 [1, 2]" "clist ring_a 3 [4]" "5 \<in> dom ring_a"
  by (simp_all add: ring_a_def clist_def link_def ld_next_def ld_prev_def)

end
