(* ===== verification/Rculist.thy ===== *)
theory Rculist
  imports CList
begin

text \<open>
  The list operations of \<open>include/mthpc/rculist.h\<close>, which readers traverse without a lock.
  Each operation is the sequence of its stores, so that a reader can run between any two
  of them; \<open>mthpc_rcu_replace_pointer\<close> and \<open>WRITE_ONCE\<close> are single stores. Memory is
  sequentially consistent: the orderings the code asks for are not weakened further.
\<close>

section \<open>Writers\<close>

datatype 'a list_write = WNext 'a 'a | WPrev 'a 'a

fun exec_write :: "'a list_write \<Rightarrow> 'a list_heap \<Rightarrow> 'a list_heap option" where
  "exec_write (WNext p v) h = st_next p v h"
| "exec_write (WPrev p v) h = st_prev p v h"

definition raw_list_add_rcu :: "'a \<Rightarrow> 'a \<Rightarrow> 'a \<Rightarrow> 'a list_write list" where
  "raw_list_add_rcu new prev next =
     [WPrev next new, WNext new next, WPrev new prev, WNext prev new]"

definition mthpc_list_add_rcu :: "'a \<Rightarrow> 'a \<Rightarrow> 'a list_heap \<Rightarrow> 'a list_heap option" where
  "mthpc_list_add_rcu new head h = do {
     n \<leftarrow> ld_next h head;
     fold_opt exec_write (raw_list_add_rcu new head n) h }"

definition mthpc_list_add_tail_rcu :: "'a \<Rightarrow> 'a \<Rightarrow> 'a list_heap \<Rightarrow> 'a list_heap option" where
  "mthpc_list_add_tail_rcu new head h = do {
     p \<leftarrow> ld_prev h head;
     fold_opt exec_write (raw_list_add_rcu new p head) h }"

definition raw_list_del_rcu :: "'a \<Rightarrow> 'a \<Rightarrow> 'a list_write list" where
  "raw_list_del_rcu prev next = [WPrev next prev, WNext prev next]"

definition list_del_rcu_writes :: "'a::zero \<Rightarrow> 'a \<Rightarrow> 'a \<Rightarrow> 'a list_write list" where
  "list_del_rcu_writes node prev next = raw_list_del_rcu prev next @ [WPrev node 0]"

definition mthpc_list_del_rcu :: "'a::zero \<Rightarrow> 'a list_heap \<Rightarrow> 'a list_heap option" where
  "mthpc_list_del_rcu node h = do {
     p \<leftarrow> ld_prev h node;
     n \<leftarrow> ld_next h node;
     fold_opt exec_write (list_del_rcu_writes node p n) h }"

section \<open>Readers\<close>

text \<open>
  \<open>mthpc_list_for_each_entry_rcu\<close>: the reader's load number \<open>t\<close> reads the heap \<open>hs t\<close>.
  The result is the list of the entries it visits.
\<close>

partial_function (option) rcu_walk ::
  "(nat \<Rightarrow> 'a list_heap) \<Rightarrow> 'a \<Rightarrow> nat \<Rightarrow> 'a \<Rightarrow> 'a list option" where
  "rcu_walk hs head t pos =
     (if pos = head then Some []
      else do {
        n \<leftarrow> ld_next (hs t) pos;
        r \<leftarrow> rcu_walk hs head (Suc t) n;
        Some (pos # r) })"

definition list_for_each_entry_rcu :: "(nat \<Rightarrow> 'a list_heap) \<Rightarrow> 'a \<Rightarrow> 'a list option" where
  "list_for_each_entry_rcu hs head = do {
     pos \<leftarrow> ld_next (hs 0) head;
     rcu_walk hs head 1 pos }"

text \<open>The chain of nodes a reader follows from its load number \<open>t\<close> on.\<close>

fun vnexts :: "(nat \<Rightarrow> 'a list_heap) \<Rightarrow> nat \<Rightarrow> 'a list \<Rightarrow> bool" where
  "vnexts hs t (a # b # zs) \<longleftrightarrow> ld_next (hs t) a = Some b \<and> vnexts hs (Suc t) (b # zs)"
| "vnexts hs t _ \<longleftrightarrow> True"

lemma vnexts_nexts: "(\<And>t. nexts (hs t) zs) \<Longrightarrow> vnexts hs t zs"
proof (induction zs arbitrary: t)
  case (Cons a zs)
  then show ?case by (cases zs) simp_all
qed simp

lemma vnexts_glue:
  "vnexts hs t (xs @ [m]) \<Longrightarrow> vnexts hs (t + length xs) (m # ys) \<Longrightarrow> vnexts hs t (xs @ m # ys)"
proof (induction xs arbitrary: t)
  case (Cons x xs)
  then show ?case by (cases xs) auto
qed simp

lemma rcu_walk_vnexts:
  "vnexts hs t (xs @ [l]) \<Longrightarrow> l \<notin> set xs \<Longrightarrow> rcu_walk hs l t (hd (xs @ [l])) = Some xs"
proof (induction xs arbitrary: t)
  case Nil
  then show ?case by (simp add: rcu_walk.simps)
next
  case (Cons x xs)
  then have "ld_next (hs t) x = Some (hd (xs @ [l]))" "vnexts hs (Suc t) (xs @ [l])"
    by (cases xs; simp)+
  with Cons show ?case by (auto simp: rcu_walk.simps [of _ _ _ x])
qed

lemma list_for_each_entry_rcu_vnexts:
  assumes "vnexts hs 0 (l # xs @ [l])" "l \<notin> set xs"
  shows "list_for_each_entry_rcu hs l = Some xs"
proof -
  have "ld_next (hs 0) l = Some (hd (xs @ [l]))" "vnexts hs 1 (xs @ [l])"
    using assms(1) by (cases xs; simp)+
  with rcu_walk_vnexts [OF this(2) assms(2)] show ?thesis
    by (simp add: list_for_each_entry_rcu_def)
qed

section \<open>The finished operations\<close>

text \<open>Stores to allocated nodes do not fault: the heap after them is a total function.\<close>

fun do_write :: "'a list_write \<Rightarrow> 'a list_heap \<Rightarrow> 'a list_heap" where
  "do_write (WNext p v) h = set_next p v h"
| "do_write (WPrev p v) h = set_prev p v h"

fun write_target :: "'a list_write \<Rightarrow> 'a" where
  "write_target (WNext p v) = p"
| "write_target (WPrev p v) = p"

lemma dom_do_write [heap_simps]: "dom (do_write w h) = dom h"
  by (cases w) (simp_all add: heap_simps)

lemma exec_writes_Some:
  "write_target ` set ws \<subseteq> dom h \<Longrightarrow> fold_opt exec_write ws h = Some (fold do_write ws h)"
proof (induction ws arbitrary: h)
  case (Cons w ws)
  have "exec_write w h = Some (do_write w h)"
    using Cons.prems by (cases w) (simp_all add: heap_simps)
  with Cons.IH [of "do_write w h"] Cons.prems show ?case
    by (simp add: heap_simps)
qed simp

lemma add_rcu_eq_add: "fold_opt exec_write (raw_list_add_rcu new p n) h = raw_list_add new p n h"
  by (simp add: raw_list_add_rcu_def raw_list_add_def fold_opt_unfold)

lemma del_rcu_eq_del: "fold_opt exec_write (raw_list_del_rcu p n) h = raw_list_del p n h"
  by (simp add: raw_list_del_rcu_def raw_list_del_def fold_opt_unfold)

lemma mthpc_list_add_rcu_eq: "mthpc_list_add_rcu = mthpc_list_add"
  by (intro ext) (simp add: mthpc_list_add_rcu_def mthpc_list_add_def add_rcu_eq_add)

lemma mthpc_list_add_tail_rcu_eq: "mthpc_list_add_tail_rcu = mthpc_list_add_tail"
  by (intro ext) (simp add: mthpc_list_add_tail_rcu_def mthpc_list_add_tail_def add_rcu_eq_add)

lemma mthpc_list_del_rcu_ok:
  assumes c: "clist h l (as @ x # bs)"
  obtains h' where "mthpc_list_del_rcu x h = Some h'" "clist h' l (as @ bs)"
    "ld_next h' x = Some (hd (bs @ [l]))" "ld_prev h' x = Some 0"
    "agree_off (set (l # as @ x # bs)) h h'"
proof -
  obtain y ys where ys: "bs @ l # as = y # ys" by (cases bs) auto
  have c': "clist h x (y # ys)" using clist_rotate [OF c] ys by simp
  let ?p = "last (y # ys)"
  have pn: "ld_prev h x = Some ?p" "ld_next h x = Some y"
    using clist_prev [OF c'] clist_next [OF c'] by auto
  have y: "y = hd (bs @ [l])" using ys by (cases bs) auto
  from raw_list_del_ring [OF c' pn] obtain h1
    where h1: "raw_list_del ?p y h = Some h1" "clist h1 y ys" "agree_off {?p, y} h h1"
      "ld_next h1 x = Some y"
    by blast
  let ?h = "set_prev x 0 h1"
  have a1: "agree_off {x} h1 ?h" by (intro agree_off_set_prev) auto
  have x: "x \<notin> set (y # ys)" and xd: "x \<in> dom h1"
    using clist_distinct [OF c'] h1(4) by (auto dest: ld_next_dom)
  have "clist ?h y ys"
    using clist_agree [OF a1, of y ys] h1(2) x by auto
  then have "clist ?h l (as @ bs)"
    using ys by (cases bs) (auto simp: clist_rotate_iff [of _ l as])
  moreover have "mthpc_list_del_rcu x h = Some ?h"
    using pn h1(1) xd
    by (simp add: mthpc_list_del_rcu_def list_del_rcu_writes_def fold_opt_append
        del_rcu_eq_del fold_opt_unfold heap_simps)
  moreover have "agree_off (set (l # as @ x # bs)) h ?h"
  proof (rule agree_off_trans_mono [OF h1(3) a1])
    have "{?p, y} \<subseteq> set (bs @ l # as)" unfolding ys using last_in_set [of "y # ys"] by simp
    then show "{?p, y} \<union> {x} \<subseteq> set (l # as @ x # bs)" by auto
  qed
  ultimately show ?thesis
    using that [of ?h] h1(4) xd y by (simp add: heap_simps)
qed

lemma raw_list_del_dom: "raw_list_del p n h = Some h' \<Longrightarrow> dom h' = dom h"
  by (auto simp: raw_list_del_def st_next_def st_prev_def bind_eq_Some_conv set_next_def set_prev_def split: if_splits option.splits)

lemma set_prev_upd: "(set_prev x v h)(x := None) = h(x := None)"
  by (auto simp: set_prev_other)

lemma set_next_upd: "(set_next x v h)(x := None) = h(x := None)"
  by (auto simp: set_next_other)

text \<open>
  C40. As sequential code the RCU list operations are those of \<open>list.h\<close>: adding at
  either end is the same function, and deleting gives the same heap except for the deleted node
  itself.
\<close>

theorem rcu_writers_equiv:
  "mthpc_list_add_rcu new l h = mthpc_list_add new l h \<and>
   mthpc_list_add_tail_rcu new l h = mthpc_list_add_tail new l h \<and>
   map_option (\<lambda>h. h(x := None)) (mthpc_list_del_rcu x h) =
     map_option (\<lambda>h. h(x := None)) (mthpc_list_del x h)"
proof (intro conjI)
  show "map_option (\<lambda>h. h(x := None)) (mthpc_list_del_rcu x h) =
     map_option (\<lambda>h. h(x := None)) (mthpc_list_del x h)"
  proof (cases "ld_prev h x")
    case (Some p)
    then have xd: "x \<in> dom h" by (rule ld_prev_dom)
    then obtain n where n: "ld_next h x = Some n" by (auto simp: ld_next_def)
    show ?thesis
    proof (cases "raw_list_del p n h")
      case (Some k)
      have "x \<in> dom k" using xd raw_list_del_dom [OF Some] by (simp only:)
      then show ?thesis
        using \<open>ld_prev h x = Some p\<close> n Some
        by (simp add: mthpc_list_del_rcu_def mthpc_list_del_def list_del_rcu_writes_def
            fold_opt_append del_rcu_eq_del fold_opt_unfold mthpc_list_init_def heap_simps
            set_prev_upd set_next_upd del: fun_upd_apply)
    qed (use Some n in \<open>simp add: mthpc_list_del_rcu_def mthpc_list_del_def list_del_rcu_writes_def
        fold_opt_append del_rcu_eq_del\<close>)
  qed (simp add: mthpc_list_del_rcu_def mthpc_list_del_def)
qed (simp_all only: mthpc_list_add_rcu_eq mthpc_list_add_tail_rcu_eq)

section \<open>A reader beside a writer\<close>

lemma clist_next_last:
  assumes "clist h l (as @ bs)"
  shows "ld_next h (last (l # as)) = Some (hd (bs @ [l]))"
proof -
  have "nexts h ((l # as) @ bs @ [l])" using clist_nexts [OF assms] by simp
  then have "nexts h (butlast (l # as) @ last (l # as) # bs @ [l])"
    using append_butlast_last_id [of "l # as"] by (metis append.assoc append_Cons append_Nil list.distinct(1))
  then have "nexts h (last (l # as) # bs @ [l])" by (rule nexts_appendD)
  then show ?thesis unfolding nexts_Cons by (rule conjunct1)
qed

text \<open>
  The reader of a list sees, while a writer adds a node, the list without it or the list
  with it: its load number \<open>t\<close> comes after the first \<open>k t\<close> stores of the writer, for any
  \<open>k\<close> that does not go back. In particular the reader never follows an uninitialised
  pointer of the new node, and it returns.
\<close>

lemma rcu_add_loads:
  assumes c: "clist h l (as @ bs)" and new: "new \<in> dom h" "new \<notin> set (l # as @ bs)"
    and p: "p = last (l # as)" and n: "n = hd (bs @ [l])"
    and w: "fold_opt exec_write (take k (raw_list_add_rcu new p n)) h = Some h'"
  shows "a \<notin> {p, new} \<Longrightarrow> ld_next h' a = ld_next h a"
    and "ld_next h' p = Some (if 4 \<le> k then new else n)"
    and "4 \<le> k \<Longrightarrow> ld_next h' new = Some n"
proof -
  have "p \<in> set (l # as)" "n \<in> set (bs @ [l])"
    unfolding p n by (rule last_in_set, simp) (rule hd_in_set, simp)
  then have pn: "p \<in> set (l # as @ bs)" "n \<in> set (l # as @ bs)" "p \<noteq> new"
    using new(2) by auto
  then have d: "p \<in> dom h" "n \<in> dom h"
    using clist_dom [OF c] by auto
  have lp: "ld_next h p = Some n" unfolding p n by (rule clist_next_last [OF c])
  let ?ws = "raw_list_add_rcu new p n"
  have "write_target ` set (take k ?ws) \<subseteq> dom h"
    using d new(1) set_take_subset [of k ?ws] by (fastforce simp: raw_list_add_rcu_def)
  then have h': "h' = fold do_write (take k ?ws) h"
    using w exec_writes_Some by fastforce
  consider "k = 0" | "k = 1" | "k = 2" | "k = 3" | "4 \<le> k"
    by linarith
  then have "(a \<notin> {p, new} \<longrightarrow> ld_next h' a = ld_next h a) \<and>
    ld_next h' p = Some (if 4 \<le> k then new else n) \<and>
    (4 \<le> k \<longrightarrow> ld_next h' new = Some n)" for a
    unfolding h' raw_list_add_rcu_def using d new(1) pn(3) lp
    by cases (simp_all add: heap_simps numeral_3_eq_3 numeral_2_eq_2)
  then show "a \<notin> {p, new} \<Longrightarrow> ld_next h' a = ld_next h a"
    "ld_next h' p = Some (if 4 \<le> k then new else n)"
    "4 \<le> k \<Longrightarrow> ld_next h' new = Some n"
    by blast+
qed

text \<open>
  C34. A reader that traverses a list while \<open>mthpc_list_add_rcu\<close> inserts a node,
  with its loads interleaved in any order with the four stores, visits the old list or the new
  list, and returns.
\<close>

theorem rcu_reader_during_add:
  assumes c: "clist h l (as @ bs)" and new: "new \<in> dom h" "new \<notin> set (l # as @ bs)"
    and p: "p = last (l # as)" and n: "n = hd (bs @ [l])"
    and k: "mono k"
    and w: "\<And>t. fold_opt exec_write (take (k t) (raw_list_add_rcu new p n)) h = Some (hs t)"
  shows "list_for_each_entry_rcu hs l \<in> {Some (as @ bs), Some (as @ new # bs)}"
proof -
  note ld = rcu_add_loads [OF c new p n w]
  obtain zs where zs: "l # as = zs @ [p]"
    using p by (metis append_butlast_last_id list.distinct(1))
  have "nexts h ((l # as) @ bs @ [l])" "distinct ((l # as) @ bs)"
    using clist_nexts [OF c] clist_distinct [OF c] by simp_all
  then have ring: "nexts h (zs @ p # bs @ [l])" and dist: "distinct (zs @ p # bs)"
    unfolding zs by simp_all
  have l: "l \<notin> set (as @ bs)" using clist_distinct [OF c] by simp
  have same: "nexts (hs t) us = nexts h us" if "p \<notin> set (butlast us)" "new \<notin> set us" for us t
    using that by (induction "hs t" us rule: nexts.induct) (auto simp: ld(1) split: if_splits)
  have all: "set (zs @ p # bs) = set (l # as @ bs)"
    using arg_cong [OF zs, of set] by auto
  have "nexts h (zs @ [p])" "nexts h (bs @ [l])"
    using ring nexts_append [of h zs p "bs @ [l]"] by (auto simp: nexts_Cons)
  then have "nexts (hs t) (zs @ [p])" "nexts (hs t) (bs @ [l])" for t
    using same [of "zs @ [p]" t] same [of "bs @ [l]" t] dist new(2) all by (auto simp: butlast_append)
  then have v: "vnexts hs t (zs @ [p])" "vnexts hs t (bs @ [l])" for t
    by (intro vnexts_nexts; simp)+
  let ?t = "length zs"
  show ?thesis
  proof (cases "4 \<le> k ?t")
    case False
    then have "vnexts hs ?t (p # bs @ [l])"
      using v(2) [of "Suc ?t"] ld(2) [of ?t] n by (cases bs) auto
    then have "vnexts hs 0 (zs @ p # bs @ [l])"
      using vnexts_glue [OF v(1), of 0 "bs @ [l]"] by simp
    then have "vnexts hs 0 ((l # as) @ bs @ [l])"
      unfolding zs by simp
    then show ?thesis
      using list_for_each_entry_rcu_vnexts [OF _ l] by simp
  next
    case True
    moreover have "4 \<le> k (Suc ?t)"
      using True monoD [OF k, of ?t "Suc ?t"] by simp
    ultimately have "vnexts hs ?t (p # new # bs @ [l])"
      using v(2) [of "Suc (Suc ?t)"] ld(2) [of ?t] ld(3) [of "Suc ?t"] n by (cases bs) auto
    then have "vnexts hs 0 (zs @ p # new # bs @ [l])"
      using vnexts_glue [OF v(1), of 0 "new # bs @ [l]"] by simp
    then have "vnexts hs 0 ((l # as) @ new # bs @ [l])"
      unfolding zs by simp
    then show ?thesis
      using list_for_each_entry_rcu_vnexts [of hs l "as @ new # bs"] l new(2) by auto
  qed
qed

lemma rcu_reader_during_add_witness:
  "list_for_each_entry_rcu (\<lambda>t. fold do_write (take t (raw_list_add_rcu 5 1 2)) ring_a) 0
     \<in> {Some ([1] @ [2]), Some ([1] @ 5 # [2])}"
proof (rule rcu_reader_during_add [where h = ring_a and k = "\<lambda>t. t" and p = 1 and n = 2])
  show "fold_opt exec_write (take t (raw_list_add_rcu 5 1 2)) ring_a =
    Some (fold do_write (take t (raw_list_add_rcu 5 1 2)) ring_a)" for t
    using set_take_subset [of t "raw_list_add_rcu 5 1 (2 :: nat)"]
    by (intro exec_writes_Some) (fastforce simp: raw_list_add_rcu_def ring_a_def)
qed (use ring_a_lists in \<open>simp_all add: mono_def\<close>)

text \<open>The loads of a reader after the first \<open>k\<close> stores of a deletion.\<close>

lemma rcu_del_loads:
  assumes c: "clist h l (as @ x # bs)"
    and p: "p = last (l # as)" and n: "n = hd (bs @ [l])"
    and w: "fold_opt exec_write (take k (list_del_rcu_writes x p n)) h = Some h'"
  shows "a \<noteq> p \<Longrightarrow> ld_next h' a = ld_next h a"
    and "ld_next h' p = Some (if 2 \<le> k then n else x)"
proof -
  have "p \<in> set (l # as)" "n \<in> set (bs @ [l])"
    unfolding p n by (rule last_in_set, simp) (rule hd_in_set, simp)
  then have pn: "p \<noteq> x" "p \<in> dom h" "n \<in> dom h" "x \<in> dom h"
    using clist_distinct [OF c] clist_dom [OF c] by auto
  have lp: "ld_next h p = Some x" using clist_next_last [OF c] by (simp add: p)
  let ?ws = "list_del_rcu_writes x p n"
  have "write_target ` set (take k ?ws) \<subseteq> dom h"
    using pn set_take_subset [of k ?ws]
    by (fastforce simp: list_del_rcu_writes_def raw_list_del_rcu_def)
  then have h': "h' = fold do_write (take k ?ws) h"
    using w exec_writes_Some by fastforce
  consider "k = 0" | "k = 1" | "k = 2" | "3 \<le> k"
    by linarith
  then have "(a \<noteq> p \<longrightarrow> ld_next h' a = ld_next h a) \<and> ld_next h' p = Some (if 2 \<le> k then n else x)" for a
    unfolding h' list_del_rcu_writes_def raw_list_del_rcu_def using pn lp
    by cases (simp_all add: heap_simps numeral_2_eq_2)
  then show "a \<noteq> p \<Longrightarrow> ld_next h' a = ld_next h a" "ld_next h' p = Some (if 2 \<le> k then n else x)"
    by blast+
qed

text \<open>
  C35. A reader that traverses a list while \<open>mthpc_list_del_rcu\<close> removes a node
  visits the list with the node or without it, and returns: the removed node keeps its forward
  pointer.
\<close>

theorem rcu_reader_during_del:
  assumes c: "clist h l (as @ x # bs)"
    and p: "p = last (l # as)" and n: "n = hd (bs @ [l])"
    and w: "\<And>t. fold_opt exec_write (take (k t) (list_del_rcu_writes x p n)) h = Some (hs t)"
  shows "list_for_each_entry_rcu hs l \<in> {Some (as @ x # bs), Some (as @ bs)}"
proof -
  note ld = rcu_del_loads [OF c p n w]
  obtain zs where zs: "l # as = zs @ [p]"
    using p by (metis append_butlast_last_id list.distinct(1))
  have "nexts h ((l # as) @ x # bs @ [l])" "distinct ((l # as) @ x # bs)"
    using clist_nexts [OF c] clist_distinct [OF c] by simp_all
  then have ring: "nexts h (zs @ p # x # bs @ [l])" and dist: "distinct (zs @ p # x # bs)"
    unfolding zs by simp_all
  have l: "l \<notin> set (as @ x # bs)" using clist_distinct [OF c] by simp
  have same: "nexts (hs t) us = nexts h us" if "p \<notin> set (butlast us)" for us t
    using that by (induction "hs t" us rule: nexts.induct) (auto simp: ld(1) split: if_splits)
  have "nexts h (zs @ [p])" "nexts h (x # bs @ [l])"
    using ring nexts_append [of h zs p "x # bs @ [l]"] by auto
  then have next_ok: "nexts (hs t) (zs @ [p])" "nexts (hs t) (x # bs @ [l])" for t
    using same [of "zs @ [p]" t] same [of "x # bs @ [l]" t] dist by (auto simp: butlast_append)
  have v: "vnexts hs t (zs @ [p])" "vnexts hs t (x # bs @ [l])" "vnexts hs t (bs @ [l])" for t
    using next_ok by (intro vnexts_nexts; simp add: nexts_Cons)+
  let ?t = "length zs"
  show ?thesis
  proof (cases "2 \<le> k ?t")
    case False
    then have "vnexts hs ?t (p # x # bs @ [l])"
      using v(2) ld(2) by simp
    then have "vnexts hs 0 ((l # as) @ x # bs @ [l])"
      unfolding zs using vnexts_glue [OF v(1), of 0 "x # bs @ [l]"] by simp
    then show ?thesis
      using list_for_each_entry_rcu_vnexts [OF _ l] by simp
  next
    case True
    then have "vnexts hs ?t (p # bs @ [l])"
      using v(3) [of "Suc ?t"] ld(2) n by (cases bs) auto
    then have "vnexts hs 0 ((l # as) @ bs @ [l])"
      unfolding zs using vnexts_glue [OF v(1), of 0 "bs @ [l]"] by simp
    then show ?thesis
      using list_for_each_entry_rcu_vnexts [of hs l "as @ bs"] l by simp
  qed
qed

lemma rcu_reader_during_del_witness:
  "list_for_each_entry_rcu (\<lambda>t. fold do_write (take (t div 2) (list_del_rcu_writes 1 0 2)) ring_a) 0
     \<in> {Some ([] @ 1 # [2]), Some ([] @ [2])}"
proof (rule rcu_reader_during_del [where h = ring_a and k = "\<lambda>t. t div 2" and p = 0 and n = 2])
  show "fold_opt exec_write (take (t div 2) (list_del_rcu_writes 1 0 2)) ring_a =
    Some (fold do_write (take (t div 2) (list_del_rcu_writes 1 0 2)) ring_a)" for t
    using set_take_subset [of "t div 2" "list_del_rcu_writes 1 0 (2 :: nat)"]
    by (intro exec_writes_Some)
      (fastforce simp: list_del_rcu_writes_def raw_list_del_rcu_def ring_a_def)
qed (use ring_a_lists in simp_all)

end
