(* ===== verification/Rcu_Read.thy ===== *)
theory Rcu_Read
  imports Prelude
begin

text \<open>
  The read side of the RCU, \<open>include/mthpc/rcu.h\<close>: the word \<open>gp_seq\<close> of a reader's node
  holds the nesting depth of its critical sections in the low 32 bits and the phase of the
  grace period in bit 32. This theory is about the words alone: what a lock and an unlock
  do to a node, and the abstract reader (a depth and a phase) that they implement.
\<close>

section \<open>The words\<close>

definition MTHPC_GP_COUNT :: u64 where
  "MTHPC_GP_COUNT = push_bit 0 1"

definition MTHPC_GP_CTR_PHASE :: u64 where
  "MTHPC_GP_CTR_PHASE = push_bit (push_bit 2 8) 1" \<comment> \<open>\<open>sizeof(unsigned long)\<close> is 8\<close>

definition MTHPC_GP_CTR_NEST_MASK :: u64 where
  "MTHPC_GP_CTR_NEST_MASK = MTHPC_GP_CTR_PHASE - 1"

text \<open>The tests of the read side and of the writer's wait.\<close>

definition gp_active :: "u64 \<Rightarrow> bool" where
  "gp_active node_gp \<longleftrightarrow> node_gp AND MTHPC_GP_CTR_NEST_MASK \<noteq> 0"

definition gp_other_phase :: "u64 \<Rightarrow> u64 \<Rightarrow> bool" where
  "gp_other_phase node_gp gp_seq \<longleftrightarrow> (node_gp XOR gp_seq) AND MTHPC_GP_CTR_PHASE \<noteq> 0"

text \<open>The node's word after \<open>mthpc_rcu_read_lock_internal\<close>, for the writer's word \<open>data_gp\<close>.\<close>

definition read_lock_gp :: "u64 \<Rightarrow> u64 \<Rightarrow> u64" where
  "read_lock_gp data_gp node_gp =
     (if \<not> gp_active node_gp then data_gp else node_gp + MTHPC_GP_COUNT)"

text \<open>The two branches of \<open>mthpc_rcu_read_unlock_internal\<close> differ in the memory order only.\<close>

definition read_unlock_gp :: "u64 \<Rightarrow> u64" where
  "read_unlock_gp node_gp =
     (if node_gp AND MTHPC_GP_CTR_NEST_MASK = MTHPC_GP_COUNT
      then node_gp + (- MTHPC_GP_COUNT) else node_gp + (- MTHPC_GP_COUNT))"

definition next_gp :: "u64 \<Rightarrow> u64" where
  "next_gp gp_seq = gp_seq XOR MTHPC_GP_CTR_PHASE"

section \<open>Their reading as a depth and a phase\<close>

definition gp_nest :: "u64 \<Rightarrow> nat" where
  "gp_nest gp = unat gp mod 2 ^ 32"

definition gp_phase :: "u64 \<Rightarrow> bool" where
  "gp_phase gp = odd (unat gp div 2 ^ 32)"

lemma gp_consts [simp]:
  "MTHPC_GP_COUNT = 1" "MTHPC_GP_CTR_PHASE = push_bit 32 1" "MTHPC_GP_CTR_NEST_MASK = mask 32"
  by (simp_all add: MTHPC_GP_COUNT_def MTHPC_GP_CTR_PHASE_def MTHPC_GP_CTR_NEST_MASK_def
      mask_eq_decr_exp push_bit_of_1)

lemma unat_and_mask: "unat (gp AND mask 32 :: u64) = gp_nest gp"
proof -
  have "unat (take_bit 32 gp) = take_bit 32 (unat gp)"
    by (rule unsigned_take_bit_eq)
  also have "\<dots> = unat gp mod 2 ^ 32"
    by (rule take_bit_eq_mod)
  finally show ?thesis
    by (simp add: gp_nest_def flip: take_bit_eq_mask)
qed

lemma gp_phase_bit: "gp_phase gp = bit gp 32"
proof -
  have "bit gp 32 = bit (unat gp) 32"
    by (simp add: bit_unsigned_iff)
  then show ?thesis by (simp add: gp_phase_def bit_iff_odd)
qed

lemma bit_phase [word_facts]: "bit (4294967296 :: u64) n \<longleftrightarrow> n = 32"
proof -
  have "(4294967296 :: u64) = push_bit 32 1" by simp
  then show ?thesis by (simp only: bit_push_bit_iff) (auto simp: bit_1_iff)
qed

lemma gp_nest_bound: "gp_nest gp < 2 ^ 32"
  by (simp add: gp_nest_def)

lemma gp_active_iff [word_facts]: "gp_active gp \<longleftrightarrow> 0 < gp_nest gp"
  by (simp add: gp_active_def unat_gt_0 flip: unat_and_mask)

lemma gp_other_phase_iff [word_facts]: "gp_other_phase a b \<longleftrightarrow> gp_phase a \<noteq> gp_phase b"
proof -
  have "w AND push_bit 32 1 = 0 \<longleftrightarrow> \<not> bit w 32" for w :: u64
    unfolding push_bit_of_1 by (rule and_exp_eq_0_iff_not_bit)
  then show ?thesis
    by (simp add: gp_other_phase_def gp_phase_bit bit_xor_iff)
qed

lemma gp_incr:
  assumes "gp_nest gp < 2 ^ 32 - 1"
  shows "gp_nest (gp + 1) = Suc (gp_nest gp)" "gp_phase (gp + 1) = gp_phase gp"
proof -
  have "unat gp < 2 ^ 64" using unsigned_less [of gp] by simp
  moreover have "unat gp \<noteq> 2 ^ 64 - 1" using assms by (auto simp: gp_nest_def)
  ultimately have "unat (gp + 1) = unat gp + 1"
    by (simp add: unat_word_ariths)
  moreover have "(unat gp + 1) div 2 ^ 32 = unat gp div 2 ^ 32 \<and>
      (unat gp + 1) mod 2 ^ 32 = Suc (unat gp mod 2 ^ 32)"
    using assms unfolding gp_nest_def by (simp add: div_Suc mod_Suc)
  ultimately show "gp_nest (gp + 1) = Suc (gp_nest gp)" "gp_phase (gp + 1) = gp_phase gp"
    by (simp_all add: gp_nest_def gp_phase_def)
qed

lemma gp_decr:
  assumes "0 < gp_nest gp"
  shows "gp_nest (gp - 1) = gp_nest gp - 1" "gp_phase (gp - 1) = gp_phase gp"
proof -
  have "gp_nest (gp - 1) < 2 ^ 32 - 1"
  proof (rule ccontr)
    assume "\<not> gp_nest (gp - 1) < 2 ^ 32 - 1"
    then have m: "unat (gp - 1) mod 2 ^ 32 = 2 ^ 32 - 1"
      using gp_nest_bound [of "gp - 1"] by (simp add: gp_nest_def)
    have "gp_nest (gp - 1 + 1) = (unat (gp - 1) + 1) mod 2 ^ 64 mod 2 ^ 32"
      unfolding gp_nest_def by (subst unat_word_ariths) simp
    also have "\<dots> = 0"
    proof -
      have "(w + 1) mod 2 ^ 64 mod 2 ^ 32 = 0" if "w mod 2 ^ 32 = 2 ^ 32 - 1" for w :: nat
        using that by (simp add: mod_mod_cancel mod_Suc)
      with m show ?thesis by blast
    qed
    finally show False using assms by simp
  qed
  from gp_incr [OF this] show "gp_nest (gp - 1) = gp_nest gp - 1" "gp_phase (gp - 1) = gp_phase gp"
    by simp_all
qed

lemma next_gp_nest [word_facts]: "gp_nest (next_gp gp) = gp_nest gp"
proof -
  have "bit ((gp XOR push_bit 32 1) AND mask 32) n = bit (gp AND mask 32) n" for n
    by (simp only: bit_and_iff bit_xor_iff bit_mask_iff bit_push_bit_iff) auto
  then have "(gp XOR push_bit 32 1) AND mask 32 = gp AND mask 32"
    by (intro bit_eqI) blast
  then show ?thesis
    by (simp add: next_gp_def flip: unat_and_mask)
qed

lemma next_gp_phase [word_facts]: "gp_phase (next_gp gp) \<longleftrightarrow> \<not> gp_phase gp"
  by (simp add: gp_phase_bit next_gp_def bit_xor_iff bit_phase)

lemma next_gp_next_gp [simp]: "next_gp (next_gp gp) = gp"
  by (simp add: next_gp_def xor.assoc)

section \<open>The abstract reader\<close>

text \<open>A depth and, inside a critical section, the phase it runs in.\<close>

record reader =
  depth :: nat
  in_phase :: bool

definition abs_reader :: "u64 \<Rightarrow> reader" where
  "abs_reader gp = \<lparr>depth = gp_nest gp, in_phase = gp_phase gp\<rparr>"

definition abs_lock :: "bool \<Rightarrow> reader \<Rightarrow> reader" where
  "abs_lock ph r = (if depth r = 0 then \<lparr>depth = 1, in_phase = ph\<rparr> else r\<lparr>depth := Suc (depth r)\<rparr>)"

definition abs_unlock :: "reader \<Rightarrow> reader" where
  "abs_unlock r = r\<lparr>depth := depth r - 1\<rparr>"

text \<open>
  The writer's word: one count and a phase, at initialisation and after every grace period.
\<close>

definition data_gp_ok :: "u64 \<Rightarrow> bool" where
  "data_gp_ok gp \<longleftrightarrow> gp_nest gp = 1"

lemma data_gp_init: "data_gp_ok MTHPC_GP_COUNT" "\<not> gp_phase MTHPC_GP_COUNT"
  by (simp_all add: data_gp_ok_def gp_nest_def gp_phase_def)

lemma data_gp_next: "data_gp_ok gp \<Longrightarrow> data_gp_ok (next_gp gp)"
  by (simp add: data_gp_ok_def word_facts)

lemma read_lock_abs:
  assumes "data_gp_ok data_gp" "gp_nest gp < 2 ^ 32 - 1"
  shows "abs_reader (read_lock_gp data_gp gp) = abs_lock (gp_phase data_gp) (abs_reader gp)"
  using assms gp_incr [OF assms(2)]
  by (auto simp: read_lock_gp_def abs_lock_def abs_reader_def data_gp_ok_def word_facts)

lemma read_unlock_abs:
  "0 < gp_nest gp \<Longrightarrow> abs_reader (read_unlock_gp gp) = abs_unlock (abs_reader gp)"
  using gp_decr [of gp] by (simp add: read_unlock_gp_def abs_unlock_def abs_reader_def)

text \<open>
  A run of locks and unlocks, each with the writer's word of its time.
\<close>

datatype read_op = Lock u64 | Unlock

fun run_gp :: "read_op list \<Rightarrow> u64 \<Rightarrow> u64" where
  "run_gp [] gp = gp"
| "run_gp (Lock d # ops) gp = run_gp ops (read_lock_gp d gp)"
| "run_gp (Unlock # ops) gp = run_gp ops (read_unlock_gp gp)"

fun run_reader :: "read_op list \<Rightarrow> reader \<Rightarrow> reader" where
  "run_reader [] r = r"
| "run_reader (Lock d # ops) r = run_reader ops (abs_lock (gp_phase d) r)"
| "run_reader (Unlock # ops) r = run_reader ops (abs_unlock r)"

text \<open>No unlock without a lock, and fewer than \<open>2\<^sup>3\<^sup>2\<close> locks at a time.\<close>

fun balanced :: "nat \<Rightarrow> read_op list \<Rightarrow> bool" where
  "balanced d [] \<longleftrightarrow> True"
| "balanced d (Lock g # ops) \<longleftrightarrow> data_gp_ok g \<and> d < 2 ^ 32 - 1 \<and> balanced (Suc d) ops"
| "balanced d (Unlock # ops) \<longleftrightarrow> 0 < d \<and> balanced (d - 1) ops"

text \<open>
  C33. The read side on words: any balanced run of \<open>read_lock\<close> and
  \<open>read_unlock\<close> on the word of a node acts as on the abstract reader, a nesting
  depth and the phase of its outermost lock, for fewer than 2^32 nested locks.
\<close>

theorem run_gp_refines_reader:
  assumes "balanced (gp_nest gp) ops"
  shows "abs_reader (run_gp ops gp) = run_reader ops (abs_reader gp)"
  using assms
proof (induction ops arbitrary: gp)
  case (Cons op ops)
  show ?case
  proof (cases op)
    case (Lock d)
    with Cons.prems have d: "data_gp_ok d" "gp_nest gp < 2 ^ 32 - 1"
      and b: "balanced (Suc (gp_nest gp)) ops"
      by simp_all
    have "gp_nest (read_lock_gp d gp) = Suc (gp_nest gp)"
      using d gp_incr [OF d(2)] by (auto simp: read_lock_gp_def data_gp_ok_def word_facts)
    with Cons.IH [of "read_lock_gp d gp"] b Lock read_lock_abs [OF d] show ?thesis by simp
  next
    case Unlock
    with Cons.prems have d: "0 < gp_nest gp" and b: "balanced (gp_nest gp - 1) ops"
      by simp_all
    have "gp_nest (read_unlock_gp gp) = gp_nest gp - 1"
      using gp_decr [OF d] by (simp add: read_unlock_gp_def)
    with Cons.IH [of "read_unlock_gp gp"] b Unlock read_unlock_abs [OF d] show ?thesis by simp
  qed
qed simp

lemma run_gp_refines_reader_witness:
  "abs_reader (run_gp [Lock 1, Lock 1, Unlock] 0) = run_reader [Lock 1, Lock 1, Unlock] (abs_reader 0)"
  by (rule run_gp_refines_reader) (simp add: data_gp_ok_def gp_nest_def)

end
