(* ===== verification/Rcu_Grace.thy ===== *)
theory Rcu_Grace
  imports Rcu_Read
begin

text \<open>
  The grace period: \<open>mthpc_synchronize_rcu_internal\<close> and \<open>mthpc_wait_for_readers\<close> of
  \<open>src/rcu/rcu.c\<close> beside the readers of \<open>include/mthpc/rcu.h\<close>, as a step relation with one
  rule for each access to a shared word. There are \<open>N\<close> readers, one for each node of the
  list of the \<open>mthpc_rcu_data\<close>; the list does not change, since registration takes the lock
  that the writer holds. The writers exclude each other by the same lock, so one program
  counter stands for the writer that holds it.

  Three ghost fields do not influence the steps: the number \<open>sect\<close> of outermost critical
  sections a reader has entered, whether the phase that the reader published was the
  current one when it published it (\<open>fresh\<close>), and the sections that were open when the
  writer took the lock (\<open>snap\<close>).
\<close>

section \<open>Readers and writer\<close>

datatype reader_pc =
    Run
  | LockLoaded u64 \<comment> \<open>\<open>read_lock\<close> has loaded \<open>node->gp_seq\<close>\<close>
  | LockGot u64 \<comment> \<open>\<open>read_lock\<close> has loaded \<open>node->data->gp_seq\<close>\<close>
  | UnlockLoaded u64 \<comment> \<open>\<open>read_unlock\<close> has loaded \<open>node->gp_seq\<close>\<close>

datatype writer_pc =
    Idle
  | Locked \<comment> \<open>holds \<open>data->lock\<close>\<close>
  | Wait1 u64 nat \<comment> \<open>first wait, with \<open>curr_gp\<close> and the number of nodes passed\<close>
  | Flip u64
  | Wait2 u64 nat \<comment> \<open>second wait\<close>
  | Release \<comment> \<open>before \<open>spin_unlock\<close>: the grace period is over\<close>

record rcu_sys =
  gp_seq :: u64
  node_gp :: "nat \<Rightarrow> u64"
  rpc :: "nat \<Rightarrow> reader_pc"
  wpc :: writer_pc
  sect :: "nat \<Rightarrow> nat"
  fresh :: "nat \<Rightarrow> bool"
  snap :: "nat \<Rightarrow> nat option"

definition rcu_start :: "rcu_sys \<Rightarrow> bool" where
  "rcu_start s \<longleftrightarrow> gp_seq s = MTHPC_GP_COUNT \<and> node_gp s = (\<lambda>_. 0) \<and> rpc s = (\<lambda>_. Run) \<and>
     wpc s = Idle \<and> sect s = (\<lambda>_. 0) \<and> snap s = (\<lambda>_. None)"

text \<open>The test with which \<open>mthpc_wait_for_readers\<close> passes a node.\<close>

definition passes :: "u64 \<Rightarrow> u64 \<Rightarrow> bool" where
  "passes c n \<longleftrightarrow> \<not> gp_active n \<or> gp_other_phase n c"

inductive reader_step :: "nat \<Rightarrow> rcu_sys \<Rightarrow> rcu_sys \<Rightarrow> bool" for i :: nat where
  lock_load:
    "rpc s i = Run \<Longrightarrow> gp_nest (node_gp s i) < 2 ^ 32 - 1 \<Longrightarrow>
     reader_step i s (s\<lparr>rpc := (rpc s)(i := LockLoaded (node_gp s i))\<rparr>)"
| lock_data:
    "rpc s i = LockLoaded v \<Longrightarrow> \<not> gp_active v \<Longrightarrow>
     reader_step i s (s\<lparr>rpc := (rpc s)(i := LockGot (gp_seq s))\<rparr>)"
| lock_store:
    "rpc s i = LockGot g \<Longrightarrow>
     reader_step i s (s\<lparr>rpc := (rpc s)(i := Run), node_gp := (node_gp s)(i := g),
       sect := (sect s)(i := Suc (sect s i)),
       fresh := (fresh s)(i := (gp_phase g = gp_phase (gp_seq s)))\<rparr>)"
| lock_nest:
    "rpc s i = LockLoaded v \<Longrightarrow> gp_active v \<Longrightarrow>
     reader_step i s (s\<lparr>rpc := (rpc s)(i := Run),
       node_gp := (node_gp s)(i := node_gp s i + MTHPC_GP_COUNT)\<rparr>)"
| unlock_load:
    "rpc s i = Run \<Longrightarrow> gp_active (node_gp s i) \<Longrightarrow>
     reader_step i s (s\<lparr>rpc := (rpc s)(i := UnlockLoaded (node_gp s i))\<rparr>)"
| unlock_add:
    "rpc s i = UnlockLoaded v \<Longrightarrow>
     reader_step i s (s\<lparr>rpc := (rpc s)(i := Run),
       node_gp := (node_gp s)(i := read_unlock_gp (node_gp s i))\<rparr>)"

inductive writer_step :: "nat \<Rightarrow> rcu_sys \<Rightarrow> rcu_sys \<Rightarrow> bool" for N :: nat where
  sync_lock:
    "wpc s = Idle \<Longrightarrow>
     writer_step N s (s\<lparr>wpc := Locked,
       snap := (\<lambda>i. if gp_active (node_gp s i) then Some (sect s i) else None)\<rparr>)"
| sync_curr: "wpc s = Locked \<Longrightarrow> writer_step N s (s\<lparr>wpc := Wait1 (gp_seq s) 0\<rparr>)"
| sync_wait1:
    "wpc s = Wait1 c k \<Longrightarrow> k < N \<Longrightarrow> passes c (node_gp s k) \<Longrightarrow>
     writer_step N s (s\<lparr>wpc := Wait1 c (Suc k)\<rparr>)"
| sync_wait1_end: "wpc s = Wait1 c k \<Longrightarrow> N \<le> k \<Longrightarrow> writer_step N s (s\<lparr>wpc := Flip c\<rparr>)"
| sync_flip:
    "wpc s = Flip c \<Longrightarrow>
     writer_step N s (s\<lparr>gp_seq := next_gp (gp_seq s), wpc := Wait2 c 0\<rparr>)"
| sync_wait2:
    "wpc s = Wait2 c k \<Longrightarrow> k < N \<Longrightarrow> passes c (node_gp s k) \<Longrightarrow>
     writer_step N s (s\<lparr>wpc := Wait2 c (Suc k)\<rparr>)"
| sync_wait2_end: "wpc s = Wait2 c k \<Longrightarrow> N \<le> k \<Longrightarrow> writer_step N s (s\<lparr>wpc := Release\<rparr>)"
| sync_unlock: "wpc s = Release \<Longrightarrow> writer_step N s (s\<lparr>wpc := Idle\<rparr>)"

inductive rcu_step :: "nat \<Rightarrow> rcu_sys \<Rightarrow> rcu_sys \<Rightarrow> bool" for N :: nat where
  by_reader: "i < N \<Longrightarrow> reader_step i s t \<Longrightarrow> rcu_step N s t"
| by_writer: "writer_step N s t \<Longrightarrow> rcu_step N s t"

inductive_cases reader_stepE: "reader_step i s t"
inductive_cases writer_stepE: "writer_step N s t"
inductive_cases rcu_stepE: "rcu_step N s t"

section \<open>The invariant\<close>

text \<open>A reader is inside the section that was open when the writer took the lock.\<close>

definition held_over :: "rcu_sys \<Rightarrow> nat \<Rightarrow> bool" where
  "held_over s i \<longleftrightarrow> snap s i = Some (sect s i) \<and> gp_active (node_gp s i)"

definition reader_ok :: "rcu_sys \<Rightarrow> nat \<Rightarrow> bool" where
  "reader_ok s i \<longleftrightarrow>
     (case rpc s i of
        Run \<Rightarrow> True
      | LockLoaded v \<Rightarrow> v = node_gp s i \<and> gp_nest v < 2 ^ 32 - 1
      | LockGot g \<Rightarrow> data_gp_ok g \<and> \<not> gp_active (node_gp s i)
      | UnlockLoaded v \<Rightarrow> v = node_gp s i \<and> gp_active v)"

definition in_current_phase :: "rcu_sys \<Rightarrow> nat \<Rightarrow> bool" where
  "in_current_phase s i \<longleftrightarrow>
     (gp_active (node_gp s i) \<and> fresh s i \<longrightarrow> gp_phase (node_gp s i) = gp_phase (gp_seq s))"

definition waited_for :: "rcu_sys \<Rightarrow> nat \<Rightarrow> bool" where
  "waited_for s i \<longleftrightarrow> (held_over s i \<longrightarrow> \<not> fresh s i)"

definition writer_ok :: "nat \<Rightarrow> rcu_sys \<Rightarrow> bool" where
  "writer_ok N s \<longleftrightarrow>
     (case wpc s of
        Idle \<Rightarrow> (\<forall>i<N. in_current_phase s i)
      | Locked \<Rightarrow> (\<forall>i<N. in_current_phase s i)
      | Wait1 c k \<Rightarrow> c = gp_seq s \<and> (\<forall>i<N. in_current_phase s i) \<and> (\<forall>i<k. waited_for s i)
      | Flip c \<Rightarrow> c = gp_seq s \<and> (\<forall>i<N. in_current_phase s i) \<and> (\<forall>i<N. waited_for s i)
      | Wait2 c k \<Rightarrow> gp_seq s = next_gp c \<and> (\<forall>i<k. in_current_phase s i) \<and> (\<forall>i<N. waited_for s i)
      | Release \<Rightarrow> (\<forall>i<N. in_current_phase s i) \<and> (\<forall>i<N. waited_for s i))"

definition rcu_inv :: "nat \<Rightarrow> rcu_sys \<Rightarrow> bool" where
  "rcu_inv N s \<longleftrightarrow> data_gp_ok (gp_seq s) \<and> (\<forall>i<N. reader_ok s i) \<and>
     (\<forall>i c. snap s i = Some c \<longrightarrow> c \<le> sect s i) \<and> writer_ok N s"

lemma rcu_inv_start: "rcu_start s \<Longrightarrow> rcu_inv N s"
  using data_gp_init
  by (auto simp: rcu_start_def rcu_inv_def reader_ok_def writer_ok_def in_current_phase_def
      gp_active_def)

text \<open>A reader's step keeps its own state, the phases and what has been waited for.\<close>

lemma reader_step_frame:
  assumes "reader_step i s t"
  shows "gp_seq t = gp_seq s" "wpc t = wpc s" "snap t = snap s"
    "j \<noteq> i \<Longrightarrow> node_gp t j = node_gp s j" "j \<noteq> i \<Longrightarrow> sect t j = sect s j"
    "j \<noteq> i \<Longrightarrow> fresh t j = fresh s j" "j \<noteq> i \<Longrightarrow> rpc t j = rpc s j"
    "sect s j \<le> sect t j"
  using assms by (auto elim!: reader_stepE)

lemma reader_step_own:
  assumes "reader_step i s t" "reader_ok s i" "data_gp_ok (gp_seq s)"
  shows "reader_ok t i"
    and "in_current_phase s i \<Longrightarrow> in_current_phase t i"
    and "sect t i = sect s i \<Longrightarrow> gp_active (node_gp t i) \<Longrightarrow> gp_active (node_gp s i) \<and> fresh t i = fresh s i"
  using assms gp_incr [of "node_gp s i"] gp_decr [of "node_gp s i"]
  by (auto elim!: reader_stepE
      simp: reader_ok_def in_current_phase_def read_unlock_gp_def word_facts)

lemma reader_step_inv:
  assumes step: "reader_step i s t" and i: "i < N" and inv: "rcu_inv N s"
  shows "rcu_inv N t"
proof -
  note frame = reader_step_frame [OF step]
  have ok: "reader_ok s i" "data_gp_ok (gp_seq s)"
    using inv i by (auto simp: rcu_inv_def)
  note own = reader_step_own [OF step ok]
  have sn: "\<And>j c. snap s j = Some c \<Longrightarrow> c \<le> sect s j"
    using inv by (simp add: rcu_inv_def)
  have phase: "in_current_phase t j" if "in_current_phase s j" for j
    using that own(2) frame(1,4,6) by (cases "j = i") (auto simp: in_current_phase_def)
  have wait: "waited_for t j" if "waited_for s j" for j
  proof (cases "j = i")
    case True
    have "sect t i = sect s i" if "snap t i = Some (sect t i)"
      using that sn [of i "sect t i"] frame(3) frame(8) [of i] by simp
    with that own(3) frame(3) True show ?thesis
      by (auto simp: waited_for_def held_over_def)
  next
    case False
    with that frame show ?thesis by (simp add: waited_for_def held_over_def)
  qed
  have "j \<noteq> i \<Longrightarrow> reader_ok t j = reader_ok s j" for j
    by (simp add: reader_ok_def frame(4,7) split: reader_pc.split)
  then have "reader_ok t j" if "j < N" for j
    using that own(1) inv by (cases "j = i") (auto simp: rcu_inv_def)
  moreover have "writer_ok N t"
    using inv phase wait frame(1,2)
    by (auto simp: rcu_inv_def writer_ok_def split: writer_pc.splits)
  moreover have "c \<le> sect t j" if "snap t j = Some c" for j c
    using sn [of j c] that frame(3) frame(8) [of j] by simp
  ultimately show ?thesis
    using frame(1) ok(2) by (simp add: rcu_inv_def)
qed

lemma writer_step_inv:
  assumes "writer_step N s t" "rcu_inv N s"
  shows "rcu_inv N t"
  using assms
  by (auto elim!: writer_stepE simp: rcu_inv_def writer_ok_def reader_ok_def passes_def
      in_current_phase_def waited_for_def held_over_def word_facts data_gp_next less_Suc_eq
      split: reader_pc.splits if_splits)

lemma writer_frame:
  assumes "writer_step N g h"
  shows "sect h = sect g" "fresh h = fresh g" "node_gp h = node_gp g" "rpc h = rpc g"
    "wpc g \<noteq> Idle \<Longrightarrow> snap h = snap g" "wpc g \<noteq> Release \<Longrightarrow> wpc h \<noteq> Idle" "wpc g = Release \<Longrightarrow> wpc h = Idle"
    "wpc g = Idle \<Longrightarrow> gp_active (node_gp g i) \<Longrightarrow> snap h i = Some (sect h i)"
  using assms by (cases, auto)+

text \<open>A reader on its way into a section, and out of it.\<close>

definition not_entering :: "rcu_sys \<Rightarrow> nat \<Rightarrow> bool" where
  "not_entering s i \<longleftrightarrow> (\<forall>v. rpc s i \<noteq> LockLoaded v \<and> rpc s i \<noteq> LockGot v)"

lemma reader_step_enter:
  assumes "reader_step i s t" "reader_ok s i" "\<not> gp_active (node_gp s i)" "gp_active (node_gp t i)"
  shows "not_entering t i"
  using assms by (auto elim!: reader_stepE simp: not_entering_def reader_ok_def)

lemma reader_step_leave:
  assumes "reader_step i s t" "not_entering s i" "\<forall>v. rpc t i \<noteq> LockLoaded v"
  shows "not_entering t i" "sect t i = sect s i" "fresh t i = fresh s i"
  using assms by (auto elim!: reader_stepE simp: not_entering_def)

interpretation rcu: inductive_invariant rcu_start "rcu_step N" "rcu_inv N" for N
proof
  show "rcu_start s \<Longrightarrow> rcu_inv N s" for s
    by (rule rcu_inv_start)
  show "rcu_inv N s \<Longrightarrow> rcu_step N s t \<Longrightarrow> rcu_inv N t" for s t
    by (auto elim: rcu_stepE intro: reader_step_inv writer_step_inv)
qed

section \<open>What a grace period waits for\<close>

text \<open>
  C5. RCU grace period, safety: in every reachable interleaving of the writer with any number
  of readers, when \<open>mthpc_synchronize_rcu_internal\<close> is about to return, no reader
  is still inside the critical section that was open when the writer took the lock, provided
  the reader published the phase that was current at that moment (\<open>fresh\<close>).
\<close>

theorem grace_period_fresh_readers:
  assumes "reachable rcu_start (rcu_step N) s" "wpc s = Release" "i < N" "fresh s i"
  shows "\<not> (snap s i = Some (sect s i) \<and> gp_active (node_gp s i))"
  using rcu.inv_reachable [OF assms(1)] assms(2-4)
  by (auto simp: rcu_inv_def writer_ok_def waited_for_def held_over_def)

section \<open>A whole call of the writer\<close>

text \<open>When every node passes, both waits run to their end.\<close>

abbreviation writer_moves :: "nat \<Rightarrow> rcu_sys \<Rightarrow> rcu_sys \<Rightarrow> bool" where
  "writer_moves N s t \<equiv> writer_step N s t \<and> wpc s \<noteq> Release"

lemma wait1_run:
  assumes "\<forall>i<N. passes c (node_gp s i)"
  shows "(writer_moves N)\<^sup>*\<^sup>* (s\<lparr>wpc := Wait1 c k\<rparr>) (s\<lparr>wpc := Flip c\<rparr>)"
proof (induction "N - k" arbitrary: k)
  case 0
  then show ?case
    using sync_wait1_end [of "s\<lparr>wpc := Wait1 c k\<rparr>" c k N] by auto
next
  case (Suc m)
  have "writer_moves N (s\<lparr>wpc := Wait1 c k\<rparr>) (s\<lparr>wpc := Wait1 c (Suc k)\<rparr>)"
    using sync_wait1 [of "s\<lparr>wpc := Wait1 c k\<rparr>" c k N] assms Suc.hyps(2) by simp
  with Suc.hyps(1) [of "Suc k"] Suc.hyps(2) show ?case
    by (simp add: converse_rtranclp_into_rtranclp)
qed

lemma wait2_run:
  assumes "\<forall>i<N. passes c (node_gp s i)"
  shows "(writer_moves N)\<^sup>*\<^sup>* (s\<lparr>wpc := Wait2 c k\<rparr>) (s\<lparr>wpc := Release\<rparr>)"
proof (induction "N - k" arbitrary: k)
  case 0
  then show ?case
    using sync_wait2_end [of "s\<lparr>wpc := Wait2 c k\<rparr>" c k N] by auto
next
  case (Suc m)
  have "writer_moves N (s\<lparr>wpc := Wait2 c k\<rparr>) (s\<lparr>wpc := Wait2 c (Suc k)\<rparr>)"
    using sync_wait2 [of "s\<lparr>wpc := Wait2 c k\<rparr>" c k N] assms Suc.hyps(2) by simp
  with Suc.hyps(1) [of "Suc k"] Suc.hyps(2) show ?case
    by (simp add: converse_rtranclp_into_rtranclp)
qed

definition locked :: "rcu_sys \<Rightarrow> rcu_sys" where
  "locked s = s\<lparr>wpc := Locked, snap := (\<lambda>i. if gp_active (node_gp s i) then Some (sect s i) else None)\<rparr>"

definition synced :: "rcu_sys \<Rightarrow> rcu_sys" where
  "synced s = s\<lparr>snap := (\<lambda>i. if gp_active (node_gp s i) then Some (sect s i) else None),
     gp_seq := next_gp (gp_seq s), wpc := Release\<rparr>"

lemma locked_run:
  assumes pass: "\<forall>i<N. passes (gp_seq s) (node_gp s i)"
  shows "(writer_moves N)\<^sup>*\<^sup>* (locked s) (synced s)"
proof -
  let ?sn = "\<lambda>i. if gp_active (node_gp s i) then Some (sect s i) else None"
  let ?g = "gp_seq s" and ?s1 = "locked s"
  let ?s2 = "s\<lparr>snap := ?sn, gp_seq := next_gp ?g\<rparr>"
  have "(writer_moves N)\<^sup>*\<^sup>* ?s1 (?s1\<lparr>wpc := Wait1 ?g 0\<rparr>)"
    using sync_curr [of ?s1 N] by (auto simp: locked_def)
  also have "(writer_moves N)\<^sup>*\<^sup>* (?s1\<lparr>wpc := Wait1 ?g 0\<rparr>) (?s1\<lparr>wpc := Flip ?g\<rparr>)"
    using pass by (intro wait1_run) (simp add: locked_def)
  also have "(writer_moves N)\<^sup>*\<^sup>* (?s1\<lparr>wpc := Flip ?g\<rparr>) (?s2\<lparr>wpc := Wait2 ?g 0\<rparr>)"
    using sync_flip [of "?s1\<lparr>wpc := Flip ?g\<rparr>" ?g N] by (auto simp: locked_def)
  also have "(writer_moves N)\<^sup>*\<^sup>* (?s2\<lparr>wpc := Wait2 ?g 0\<rparr>) (?s2\<lparr>wpc := Release\<rparr>)"
    using pass by (intro wait2_run) simp
  finally show ?thesis by (simp add: synced_def)
qed

lemma sync_run:
  assumes "wpc s = Idle" "\<forall>i<N. passes (gp_seq s) (node_gp s i)"
  shows "(writer_step N)\<^sup>*\<^sup>* s (synced s)"
proof -
  have "writer_step N s (locked s)" unfolding locked_def using assms(1) by (rule sync_lock)
  moreover have "(writer_step N)\<^sup>*\<^sup>* (locked s) (synced s)"
    by (rule mono_rtranclp [rule_format, OF _ locked_run [OF assms(2)]]) simp
  ultimately show ?thesis by (rule converse_rtranclp_into_rtranclp)
qed

lemma writer_steps: "(writer_step N)\<^sup>*\<^sup>* s t \<Longrightarrow> (rcu_step N)\<^sup>*\<^sup>* s t"
  by (induction rule: rtranclp_induct) (auto intro: by_writer rtranclp.rtrancl_into_rtrancl)

text \<open>
  From every state in which no reader is active the writer has a run of its own steps to
  its return, which flips the phase once.
\<close>

theorem synchronize_returns:
  assumes "wpc s = Idle" "\<forall>i<N. \<not> gp_active (node_gp s i)"
  shows "\<exists>t. (rcu_step N)\<^sup>*\<^sup>* s t \<and> wpc t = Idle \<and> gp_seq t = next_gp (gp_seq s) \<and>
    node_gp t = node_gp s \<and> rpc t = rpc s"
proof -
  have "\<forall>i<N. passes (gp_seq s) (node_gp s i)"
    using assms(2) by (simp add: passes_def)
  from writer_steps [OF sync_run [OF assms(1) this]]
  have "(rcu_step N)\<^sup>*\<^sup>* s (synced s)" .
  moreover have "rcu_step N (synced s) ((synced s)\<lparr>wpc := Idle\<rparr>)"
    by (intro by_writer sync_unlock) (simp add: synced_def)
  ultimately have "(rcu_step N)\<^sup>*\<^sup>* s ((synced s)\<lparr>wpc := Idle\<rparr>)"
    by (rule rtranclp.rtrancl_into_rtrancl)
  then show ?thesis
    by (intro exI conjI) (assumption, simp_all add: synced_def)
qed

section \<open>A reader that the grace period misses\<close>

text \<open>
  Without the condition on the reader the promise fails. A reader loads the writer's word
  and is preempted; a whole grace period passes and flips the phase; the reader publishes
  the old phase. Both waits of the next grace period pass every node whose phase is not the
  one the writer has read, so neither waits for this reader.
\<close>

lemma reader_steps0: "reader_step 0 s t \<Longrightarrow> (rcu_step 1)\<^sup>*\<^sup>* s t"
  by (auto intro: by_reader)

definition rcu_boot :: rcu_sys where
  "rcu_boot = \<lparr>gp_seq = MTHPC_GP_COUNT, node_gp = \<lambda>_. 0, rpc = \<lambda>_. Run, wpc = Idle,
     sect = \<lambda>_. 0, fresh = \<lambda>_. False, snap = \<lambda>_. None\<rparr>"

lemma boot_reachable: "reachable rcu_start (rcu_step N) rcu_boot"
  by (rule reach_init) (simp add: rcu_start_def rcu_boot_def)

text \<open>
  RCU grace period, the gap: without that proviso the promise fails. There is a run in
  which a reader loads the phase, a whole grace period passes, the reader publishes the stale
  phase and enters its section, and the next grace period ends while that section is still
  open, because both waits compare with the same \<open>curr_gp\<close>.
\<close>

theorem grace_period_misses_reader:
  "\<exists>s. reachable rcu_start (rcu_step 1) s \<and> wpc s = Release \<and>
     snap s 0 = Some (sect s 0) \<and> gp_active (node_gp s 0)"
proof -
  obtain a where a: "a = rcu_boot\<lparr>rpc := (rpc rcu_boot)(0 := LockLoaded 0)\<rparr>"
    by simp
  obtain b where b: "b = a\<lparr>rpc := (rpc a)(0 := LockGot (gp_seq a))\<rparr>"
    by simp
  obtain c where c: "c = (synced b)\<lparr>wpc := Idle\<rparr>"
    by simp
  obtain d where d: "d = c\<lparr>rpc := (rpc c)(0 := Run), node_gp := (node_gp c)(0 := gp_seq a),
    sect := (sect c)(0 := Suc (sect c 0)),
    fresh := (fresh c)(0 := (gp_phase (gp_seq a) = gp_phase (gp_seq c)))\<rparr>"
    by simp
  note fields = a b c d synced_def rcu_boot_def
  have n: "gp_nest 0 = 0" "gp_nest 1 = 1" "gp_phase 1 = False"
    by (simp_all add: gp_nest_def gp_phase_def)
  have "(rcu_step 1)\<^sup>*\<^sup>* rcu_boot a"
    using lock_load [of rcu_boot 0] n unfolding a by (intro reader_steps0) (simp add: rcu_boot_def)
  also have "(rcu_step 1)\<^sup>*\<^sup>* a b"
    unfolding b by (intro reader_steps0 lock_data [where v = 0]) (simp_all add: a word_facts n)
  also have "(rcu_step 1)\<^sup>*\<^sup>* b (synced b)"
    by (intro writer_steps sync_run) (simp_all add: a b rcu_boot_def passes_def word_facts n)
  also have "(rcu_step 1)\<^sup>*\<^sup>* (synced b) c"
    unfolding c by (intro r_into_rtranclp by_writer sync_unlock) (simp add: synced_def)
  also have "(rcu_step 1)\<^sup>*\<^sup>* c d"
    unfolding d by (intro reader_steps0 lock_store) (simp add: a b c synced_def)
  also have "(rcu_step 1)\<^sup>*\<^sup>* d (synced d)"
    by (intro writer_steps sync_run) (simp_all add: fields passes_def word_facts n)
  finally have "reachable rcu_start (rcu_step 1) (synced d)"
    using boot_reachable by (rule reachable_steps)
  moreover have "wpc (synced d) = Release" "snap (synced d) 0 = Some (sect (synced d) 0)"
    "gp_active (node_gp (synced d) 0)"
    by (simp_all add: fields word_facts n)
  ultimately show ?thesis by blast
qed

section \<open>Runs that satisfy the hypotheses\<close>

lemma synchronize_returns_witness:
  "\<exists>t. (rcu_step 2)\<^sup>*\<^sup>* rcu_boot t \<and> wpc t = Idle \<and> gp_seq t = next_gp (gp_seq rcu_boot) \<and>
    node_gp t = node_gp rcu_boot \<and> rpc t = rpc rcu_boot"
  by (rule synchronize_returns) (simp_all add: rcu_boot_def gp_active_def)

text \<open>A reader enters and leaves a section before the grace period.\<close>

lemma grace_period_fresh_readers_witness:
  "\<exists>s :: rcu_sys. wpc s = Release \<and> sect s 0 = 1 \<and> fresh s 0 \<and> \<not> (snap s 0 = Some (sect s 0) \<and> gp_active (node_gp s 0))"
proof -
  obtain a where a: "a = rcu_boot\<lparr>rpc := (rpc rcu_boot)(0 := LockLoaded 0)\<rparr>"
    by simp
  obtain b where b: "b = a\<lparr>rpc := (rpc a)(0 := LockGot (gp_seq a))\<rparr>"
    by simp
  obtain c where c: "c = b\<lparr>rpc := (rpc b)(0 := Run), node_gp := (node_gp b)(0 := gp_seq a),
    sect := (sect b)(0 := Suc (sect b 0)), fresh := (fresh b)(0 := (gp_phase (gp_seq a) = gp_phase (gp_seq b)))\<rparr>"
    by simp
  obtain d where d: "d = c\<lparr>rpc := (rpc c)(0 := UnlockLoaded (node_gp c 0))\<rparr>"
    by simp
  obtain e where e: "e = d\<lparr>rpc := (rpc d)(0 := Run), node_gp := (node_gp d)(0 := read_unlock_gp (node_gp d 0))\<rparr>"
    by simp
  have n: "gp_nest 0 = 0" "gp_nest 1 = 1" "gp_phase 1 = False" "read_unlock_gp 1 = 0"
    by (simp_all add: gp_nest_def gp_phase_def read_unlock_gp_def)
  have "(rcu_step 1)\<^sup>*\<^sup>* rcu_boot a"
    using lock_load [of rcu_boot 0] n unfolding a by (intro reader_steps0) (simp add: rcu_boot_def)
  also have "(rcu_step 1)\<^sup>*\<^sup>* a b"
    unfolding b by (intro reader_steps0 lock_data [where v = 0]) (simp_all add: a word_facts n)
  also have "(rcu_step 1)\<^sup>*\<^sup>* b c"
    unfolding c by (intro reader_steps0 lock_store) (simp add: a b)
  also have "(rcu_step 1)\<^sup>*\<^sup>* c d"
    unfolding d by (intro reader_steps0 unlock_load) (simp_all add: a b c rcu_boot_def word_facts n)
  also have "(rcu_step 1)\<^sup>*\<^sup>* d e"
    unfolding e by (intro reader_steps0 unlock_add) (simp add: d)
  also have "(rcu_step 1)\<^sup>*\<^sup>* e (synced e)"
    by (intro writer_steps sync_run) (simp_all add: a b c d e rcu_boot_def passes_def word_facts n)
  finally have r: "reachable rcu_start (rcu_step 1) (synced e)"
    using boot_reachable by (rule reachable_steps)
  have f: "wpc (synced e) = Release" "fresh (synced e) 0" "sect (synced e) 0 = 1"
    by (simp_all add: a b c d e synced_def rcu_boot_def)
  have "\<not> (snap (synced e) 0 = Some (sect (synced e) 0) \<and> gp_active (node_gp (synced e) 0))"
    by (rule grace_period_fresh_readers [OF r f(1) _ f(2)]) simp
  with f show ?thesis by - (rule exI [of _ "synced e"], simp)
qed

end
