(* ===== verification/Rcu_Reclaim.thy ===== *)
theory Rcu_Reclaim
  imports Rculist Rcu_Grace
begin

text \<open>
  Reclaiming the nodes of an RCU list: readers that traverse the list with
  \<open>mthpc_list_for_each_entry_rcu\<close> inside their critical sections, beside one updater that adds
  nodes with \<open>mthpc_list_add_rcu\<close> or \<open>mthpc_list_add_tail_rcu\<close> and removes them with
  \<open>mthpc_list_del_rcu\<close>, \<open>mthpc_synchronize_rcu\<close> and \<open>free\<close>. There is one rule for each load of a
  reader and each store of the updater; critical sections and grace periods are those of
  \<open>Rcu_Grace\<close>.
\<close>

section \<open>Readers and updater\<close>

datatype visit_pc =
    VOut \<comment> \<open>before the critical section, or in \<open>mthpc_rcu_read_lock\<close>\<close>
  | VAt nat \<comment> \<open>inside, before the load of \<open>next\<close> of this node\<close>
  | VEnd \<comment> \<open>in \<open>mthpc_rcu_read_unlock\<close>\<close>

datatype upd_pc =
    UIdle
  | UAdd "nat list_write list" nat \<comment> \<open>adds the node; these stores are left\<close>
  | UDel "nat list_write list" nat \<comment> \<open>removes the node; these stores are left\<close>
  | USync nat \<comment> \<open>before \<open>mthpc_synchronize_rcu\<close>\<close>
  | UWait nat \<comment> \<open>in \<open>mthpc_synchronize_rcu\<close>\<close>
  | UFree nat \<comment> \<open>before \<open>free\<close>\<close>

record reclaim =
  grace :: rcu_sys
  heap :: "nat list_heap"
  items :: "nat list" \<comment> \<open>the nodes of the list when the stores that are left are done\<close>
  vpc :: "nat \<Rightarrow> visit_pc"
  upc :: upd_pc

definition reclaim_start :: "nat \<Rightarrow> reclaim \<Rightarrow> bool" where
  "reclaim_start l s \<longleftrightarrow> rcu_start (grace s) \<and> clist (heap s) l (items s) \<and> vpc s = (\<lambda>_. VOut) \<and> upc s = UIdle"

inductive visit_step :: "nat \<Rightarrow> nat \<Rightarrow> reclaim \<Rightarrow> reclaim \<Rightarrow> bool" for l i :: nat where
  enter:
    "vpc s i = VOut \<Longrightarrow> \<not> gp_active (node_gp (grace s) i) \<Longrightarrow> reader_step i (grace s) g \<Longrightarrow>
     visit_step l i s (s\<lparr>grace := g\<rparr>)"
| entered:
    "vpc s i = VOut \<Longrightarrow> gp_active (node_gp (grace s) i) \<Longrightarrow>
     visit_step l i s (s\<lparr>vpc := (vpc s)(i := VAt l)\<rparr>)"
| visit:
    "vpc s i = VAt p \<Longrightarrow> ld_next (heap s) p = Some q \<Longrightarrow>
     visit_step l i s (s\<lparr>vpc := (vpc s)(i := if q = l then VEnd else VAt q)\<rparr>)"
| stop: "vpc s i = VAt p \<Longrightarrow> visit_step l i s (s\<lparr>vpc := (vpc s)(i := VEnd)\<rparr>)"
| exit:
    "vpc s i = VEnd \<Longrightarrow> gp_active (node_gp (grace s) i) \<Longrightarrow> reader_step i (grace s) g \<Longrightarrow>
     (\<forall>v. rpc g i \<noteq> LockLoaded v) \<Longrightarrow>
     visit_step l i s (s\<lparr>grace := g\<rparr>)"
| exited:
    "vpc s i = VEnd \<Longrightarrow> \<not> gp_active (node_gp (grace s) i) \<Longrightarrow>
     visit_step l i s (s\<lparr>vpc := (vpc s)(i := VOut)\<rparr>)"

text \<open>A new node is memory that \<open>malloc\<close> returns, with any contents.\<close>

inductive update_step :: "nat \<Rightarrow> nat \<Rightarrow> reclaim \<Rightarrow> reclaim \<Rightarrow> bool" for l N :: nat where
  add:
    "upc s = UIdle \<Longrightarrow> heap s new = None \<Longrightarrow> ld_next (heap s) l = Some n \<Longrightarrow>
     update_step l N s (s\<lparr>heap := (heap s)(new \<mapsto> junk), items := new # items s,
       upc := UAdd (raw_list_add_rcu new l n) new\<rparr>)"
| add_tail:
    "upc s = UIdle \<Longrightarrow> heap s new = None \<Longrightarrow> ld_prev (heap s) l = Some p \<Longrightarrow>
     update_step l N s (s\<lparr>heap := (heap s)(new \<mapsto> junk), items := items s @ [new],
       upc := UAdd (raw_list_add_rcu new p l) new\<rparr>)"
| add_store:
    "upc s = UAdd (w # ws) new \<Longrightarrow> exec_write w (heap s) = Some h \<Longrightarrow>
     update_step l N s (s\<lparr>heap := h, upc := UAdd ws new\<rparr>)"
| added: "upc s = UAdd [] new \<Longrightarrow> update_step l N s (s\<lparr>upc := UIdle\<rparr>)"
| del:
    "upc s = UIdle \<Longrightarrow> x \<in> set (items s) \<Longrightarrow> ld_prev (heap s) x = Some p \<Longrightarrow> ld_next (heap s) x = Some n \<Longrightarrow>
     update_step l N s (s\<lparr>items := remove1 x (items s), upc := UDel (list_del_rcu_writes x p n) x\<rparr>)"
| del_store:
    "upc s = UDel (w # ws) x \<Longrightarrow> exec_write w (heap s) = Some h \<Longrightarrow>
     update_step l N s (s\<lparr>heap := h, upc := UDel ws x\<rparr>)"
| deleted: "upc s = UDel [] x \<Longrightarrow> update_step l N s (s\<lparr>upc := USync x\<rparr>)"
| sync_begin:
    "upc s = USync x \<Longrightarrow> wpc (grace s) = Idle \<Longrightarrow> writer_step N (grace s) g \<Longrightarrow>
     update_step l N s (s\<lparr>upc := UWait x, grace := g\<rparr>)"
| sync:
    "upc s = UWait x \<Longrightarrow> wpc (grace s) \<noteq> Release \<Longrightarrow> writer_step N (grace s) g \<Longrightarrow>
     update_step l N s (s\<lparr>grace := g\<rparr>)"
| sync_end:
    "upc s = UWait x \<Longrightarrow> wpc (grace s) = Release \<Longrightarrow> writer_step N (grace s) g \<Longrightarrow>
     update_step l N s (s\<lparr>upc := UFree x, grace := g\<rparr>)"
| free:
    "upc s = UFree x \<Longrightarrow> x \<in> dom (heap s) \<Longrightarrow>
     update_step l N s (s\<lparr>heap := (heap s)(x := None), upc := UIdle\<rparr>)"

inductive reclaim_step :: "nat \<Rightarrow> nat \<Rightarrow> reclaim \<Rightarrow> reclaim \<Rightarrow> bool" for l N :: nat where
  by_visitor: "i < N \<Longrightarrow> visit_step l i s t \<Longrightarrow> reclaim_step l N s t"
| by_updater: "update_step l N s t \<Longrightarrow> reclaim_step l N s t"

section \<open>The memory\<close>

text \<open>Every node of the set leads to another one of it.\<close>

definition closed :: "nat list_heap \<Rightarrow> nat set \<Rightarrow> bool" where
  "closed h V \<longleftrightarrow> (\<forall>p\<in>V. \<exists>q\<in>V. ld_next h p = Some q)"

text \<open>Some of the stores have been done, \<open>ws\<close> are left.\<close>

definition stored :: "nat list_heap \<Rightarrow> nat list_write list \<Rightarrow> nat \<Rightarrow> nat list_write list \<Rightarrow> nat list_heap \<Rightarrow> bool" where
  "stored h0 WS k ws h \<longleftrightarrow> ws = drop k WS \<and> k \<le> length WS \<and> fold_opt exec_write (take k WS) h0 = Some h"

definition adding :: "nat \<Rightarrow> nat list_write list \<Rightarrow> nat \<Rightarrow> nat list_heap \<Rightarrow> nat list \<Rightarrow> nat set \<Rightarrow> bool" where
  "adding l ws new h xs V \<longleftrightarrow> (\<exists>h0 as bs k. clist h0 l (as @ bs) \<and> (as = [] \<or> bs = []) \<and>
     new \<in> dom h0 \<and> new \<notin> set (l # as @ bs) \<and>
     stored h0 (raw_list_add_rcu new (last (l # as)) (hd (bs @ [l]))) k ws h \<and> xs = as @ new # bs \<and>
     V = set (l # as @ bs) \<union> (if 4 \<le> k then {new} else {}))"

definition deleting :: "nat \<Rightarrow> nat list_write list \<Rightarrow> nat \<Rightarrow> nat list_heap \<Rightarrow> nat list \<Rightarrow> nat set \<Rightarrow> bool" where
  "deleting l ws x h xs V \<longleftrightarrow> (\<exists>h0 as bs k. clist h0 l (as @ x # bs) \<and>
     stored h0 (list_del_rcu_writes x (last (l # as)) (hd (bs @ [l]))) k ws h \<and> xs = as @ bs \<and>
     V = set (l # as @ x # bs))"

definition unlinked :: "nat \<Rightarrow> nat \<Rightarrow> nat list_heap \<Rightarrow> nat list \<Rightarrow> bool" where
  "unlinked l x h xs \<longleftrightarrow> clist h l xs \<and> x \<notin> set (l # xs) \<and> (\<exists>q\<in>set (l # xs). ld_next h x = Some q)"

text \<open>\<open>V\<close> are the nodes that a reader can be at.\<close>

fun mem_ok :: "nat \<Rightarrow> upd_pc \<Rightarrow> nat list_heap \<Rightarrow> nat list \<Rightarrow> nat set \<Rightarrow> bool" where
  "mem_ok l UIdle h xs V \<longleftrightarrow> clist h l xs \<and> V = set (l # xs)"
| "mem_ok l (UAdd ws new) h xs V \<longleftrightarrow> adding l ws new h xs V"
| "mem_ok l (UDel ws x) h xs V \<longleftrightarrow> deleting l ws x h xs V"
| "mem_ok l (UFree x) h xs V \<longleftrightarrow> unlinked l x h xs \<and> V = set (l # xs)"
| "mem_ok l (USync x) h xs V \<longleftrightarrow> unlinked l x h xs \<and> V = set (l # x # xs)"
| "mem_ok l (UWait x) h xs V \<longleftrightarrow> unlinked l x h xs \<and> V = set (l # x # xs)"

lemma stored_step:
  assumes "stored h0 WS k (w # ws) h" "exec_write w h = Some h'"
  shows "stored h0 WS (Suc k) ws h'"
proof -
  have k: "k < length WS" using assms(1) by (cases "k < length WS") (auto simp: stored_def)
  then have "WS ! k # drop (Suc k) WS = w # ws"
    using assms(1) Cons_nth_drop_Suc [OF k] by (simp add: stored_def)
  then have "w = WS ! k" "ws = drop (Suc k) WS" by simp_all
  then show ?thesis
    using assms k by (simp add: stored_def take_Suc_conv_app_nth fold_opt_append)
qed

lemma stored_end: "stored h0 WS k [] h \<Longrightarrow> k = length WS \<and> fold_opt exec_write WS h0 = Some h"
  by (auto simp: stored_def)

lemma stored_begin: "stored h WS 0 WS h"
  by (simp add: stored_def)

lemma stored_dom:
  assumes "stored h0 WS k ws h" "write_target ` set WS \<subseteq> dom h0"
  shows "dom h = dom h0" "write_target ` set ws \<subseteq> dom h"
proof -
  have "write_target ` set (take k WS) \<subseteq> dom h0" using assms(2) set_take_subset [of k WS] by fastforce
  then have "h = fold do_write (take k WS) h0" using assms(1) exec_writes_Some by (fastforce simp: stored_def)
  moreover have "dom (fold do_write ws h0) = dom h0" for ws
    by (induction ws arbitrary: h0) (simp_all add: dom_do_write)
  ultimately show d: "dom h = dom h0" by simp
  show "write_target ` set ws \<subseteq> dom h"
    using assms set_drop_subset [of k WS] unfolding d by (fastforce simp: stored_def)
qed

lemma clist_closed:
  assumes "clist h l xs"
  shows "closed h (set (l # xs))"
  unfolding closed_def
proof
  fix p assume "p \<in> set (l # xs)"
  then obtain ys zs where split: "l # xs = ys @ p # zs" by (meson split_list)
  then have "ld_next h p = Some (hd (zs @ [l]))"
  proof (cases ys)
    case Nil
    then show ?thesis using clist_next_last [of h l "[]" xs] assms split by simp
  next
    case (Cons y as)
    then have "xs = (as @ [p]) @ zs" using split by simp
    then show ?thesis using clist_next_last [of h l "as @ [p]" zs] assms by simp
  qed
  moreover have "set zs \<subseteq> set (l # xs)" unfolding split by auto
  then have "set (zs @ [l]) \<subseteq> set (l # xs)" by simp
  then have "hd (zs @ [l]) \<in> set (l # xs)" using hd_in_set [of "zs @ [l]"] by blast
  ultimately show "\<exists>q\<in>set (l # xs). ld_next h p = Some q" by blast
qed

lemma closed_dom: "closed h V \<Longrightarrow> V \<subseteq> dom h"
  by (auto simp: closed_def dest: ld_next_dom)

lemma closed_next: "closed h V \<Longrightarrow> p \<in> V \<Longrightarrow> ld_next h p = Some q \<Longrightarrow> q \<in> V"
  by (fastforce simp: closed_def)

text \<open>The neighbours of a place in a list.\<close>

lemma place_in:
  "last (l # as) \<in> set (l # as)" "hd (bs @ [l]) \<in> insert l (set bs)"
  using hd_in_set [of "bs @ [l]"] by auto

lemma adding_ok:
  assumes "adding l ws new h xs V"
  shows "closed h V" "l \<in> V" "write_target ` set ws \<subseteq> dom h"
proof -
  obtain h0 as bs k where a: "clist h0 l (as @ bs)" "new \<in> dom h0" "new \<notin> set (l # as @ bs)"
    "stored h0 (raw_list_add_rcu new (last (l # as)) (hd (bs @ [l]))) k ws h"
    "V = set (l # as @ bs) \<union> (if 4 \<le> k then {new} else {})"
    using assms unfolding adding_def by blast
  let ?p = "last (l # as)" and ?n = "hd (bs @ [l])"
  note in_list = place_in(1) [of l as] place_in(2) [of bs l]
  have w: "fold_opt exec_write (take k (raw_list_add_rcu new ?p ?n)) h0 = Some h" using a(4) by (simp add: stored_def)
  note loads = rcu_add_loads [OF a(1-3) refl refl w]
  show l: "l \<in> V" using a(5) by simp
  show "closed h V"
    unfolding closed_def
  proof
    fix q assume q: "q \<in> V"
    consider "q = ?p" | "q = new" "4 \<le> k" | "q \<notin> {?p, new}" "q \<in> set (l # as @ bs)"
      using q a(3,5) by (auto split: if_splits)
    then show "\<exists>r\<in>V. ld_next h q = Some r"
    proof cases
      case 3
      then show ?thesis using clist_closed [OF a(1)] loads(1) a(5) by (auto simp: closed_def)
    qed (use loads(2,3) in_list a(5) in auto)
  qed
  have "write_target ` set (raw_list_add_rcu new ?p ?n) \<subseteq> dom h0"
    using clist_dom [OF a(1)] a(2) in_list by (auto simp: raw_list_add_rcu_def simp del: last.simps)
  then show "write_target ` set ws \<subseteq> dom h" by (rule stored_dom(2) [OF a(4)])
qed

lemma deleting_ok:
  assumes "deleting l ws x h xs V"
  shows "closed h V" "l \<in> V" "write_target ` set ws \<subseteq> dom h"
proof -
  obtain h0 as bs k where a: "clist h0 l (as @ x # bs)"
    "stored h0 (list_del_rcu_writes x (last (l # as)) (hd (bs @ [l]))) k ws h" "V = set (l # as @ x # bs)"
    using assms unfolding deleting_def by blast
  let ?p = "last (l # as)" and ?n = "hd (bs @ [l])"
  note in_list = place_in(1) [of l as] place_in(2) [of bs l]
  have w: "fold_opt exec_write (take k (list_del_rcu_writes x ?p ?n)) h0 = Some h" using a(2) by (simp add: stored_def)
  note loads = rcu_del_loads [OF a(1) refl refl w]
  show l: "l \<in> V" using a(3) by simp
  show "closed h V"
    unfolding closed_def
  proof
    fix q assume q: "q \<in> V"
    show "\<exists>r\<in>V. ld_next h q = Some r"
    proof (cases "q = ?p")
      case True
      then show ?thesis using loads(2) in_list a(3) by auto
    next
      case False
      then show ?thesis using clist_closed [OF a(1)] loads(1) q a(3) by (auto simp: closed_def)
    qed
  qed
  have "write_target ` set (list_del_rcu_writes x ?p ?n) \<subseteq> dom h0"
    using clist_dom [OF a(1)] in_list
    by (auto simp: list_del_rcu_writes_def raw_list_del_rcu_def simp del: last.simps)
  then show "write_target ` set ws \<subseteq> dom h" by (rule stored_dom(2) [OF a(2)])
qed

lemma unlinked_closed:
  assumes "unlinked l x h xs"
  shows "closed h (set (l # xs))" "closed h (set (l # x # xs))"
  using assms clist_closed [of h l xs] by (auto simp: unlinked_def closed_def)

lemma mem_ok_closed:
  assumes "mem_ok l u h xs V"
  shows "closed h V" "l \<in> V"
  using assms by (cases u; auto simp: clist_closed [of h l xs, simplified] adding_ok deleting_ok
      unlinked_closed [of l _ h xs, simplified])+

text \<open>A node that has been unlinked is reached from no other node.\<close>

lemma unlinked_next:
  assumes "unlinked l x h xs" "p \<in> set (l # x # xs)" "ld_next h p = Some q"
  shows "q \<noteq> x" "x \<noteq> l"
proof -
  have "q \<in> set (l # xs)"
  proof (cases "p = x")
    case True
    then show ?thesis using assms by (auto simp: unlinked_def)
  next
    case False
    then have "p \<in> set (l # xs)" using assms(2) by auto
    then show ?thesis by (rule closed_next [OF unlinked_closed(1) [OF assms(1)] _ assms(3)])
  qed
  then show "q \<noteq> x" "x \<noteq> l" using assms(1) by (auto simp: unlinked_def)
qed

section \<open>The steps of the updater on the memory\<close>

lemma clist_fresh:
  assumes "clist h l xs" "h new = None"
  shows "clist (h(new \<mapsto> junk)) l xs" "new \<notin> set (l # xs)"
proof -
  show "new \<notin> set (l # xs)" using clist_dom [OF assms(1)] assms(2) by auto
  then show "clist (h(new \<mapsto> junk)) l xs" by (intro clist_same [OF assms(1)]) auto
qed

lemma adding_begin:
  assumes "clist h l xs" "h new = None"
  shows "ld_next h l = Some n \<Longrightarrow> adding l (raw_list_add_rcu new l n) new (h(new \<mapsto> junk)) (new # xs) (set (l # xs))"
    and "ld_prev h l = Some p \<Longrightarrow> adding l (raw_list_add_rcu new p l) new (h(new \<mapsto> junk)) (xs @ [new]) (set (l # xs))"
proof -
  note fresh = clist_fresh(1) [OF assms, of junk] clist_fresh(2) [OF assms]
  assume "ld_next h l = Some n"
  then have "n = hd (xs @ [l])" using clist_next [OF assms(1)] by (cases xs) auto
  then show "adding l (raw_list_add_rcu new l n) new (h(new \<mapsto> junk)) (new # xs) (set (l # xs))"
    unfolding adding_def using fresh
    by (intro exI [of _ "h(new \<mapsto> junk)"] exI [of _ "[]"] exI [of _ xs] exI [of _ 0]) (auto simp: stored_begin)
next
  note fresh = clist_fresh(1) [OF assms, of junk] clist_fresh(2) [OF assms]
  assume "ld_prev h l = Some p"
  then have "p = last (l # xs)" using clist_prev [OF assms(1)] by simp
  then show "adding l (raw_list_add_rcu new p l) new (h(new \<mapsto> junk)) (xs @ [new]) (set (l # xs))"
    unfolding adding_def using fresh
    by (intro exI [of _ "h(new \<mapsto> junk)"] exI [of _ xs] exI [of _ "[]"] exI [of _ 0]) (auto simp: stored_begin)
qed

lemma adding_store:
  assumes "adding l (w # ws) new h xs V" "exec_write w h = Some h'"
  obtains V' where "adding l ws new h' xs V'" "V \<subseteq> V'"
proof -
  obtain h0 as bs k where a: "clist h0 l (as @ bs)" "as = [] \<or> bs = []" "new \<in> dom h0" "new \<notin> set (l # as @ bs)"
    "stored h0 (raw_list_add_rcu new (last (l # as)) (hd (bs @ [l]))) k (w # ws) h" "xs = as @ new # bs"
    "V = set (l # as @ bs) \<union> (if 4 \<le> k then {new} else {})"
    using assms(1) unfolding adding_def by blast
  have "adding l ws new h' xs (set (l # as @ bs) \<union> (if 4 \<le> Suc k then {new} else {}))"
    unfolding adding_def using a(1-4,6) stored_step [OF a(5) assms(2)] by blast
  then show ?thesis by (rule that) (auto simp: a(7))
qed

lemma adding_end:
  assumes "adding l [] new h xs V"
  shows "clist h l xs" "V = set (l # xs)"
proof -
  obtain h0 as bs k where a: "clist h0 l (as @ bs)" "as = [] \<or> bs = []" "new \<in> dom h0" "new \<notin> set (l # as @ bs)"
    "stored h0 (raw_list_add_rcu new (last (l # as)) (hd (bs @ [l]))) k [] h" "xs = as @ new # bs"
    "V = set (l # as @ bs) \<union> (if 4 \<le> k then {new} else {})"
    using assms unfolding adding_def by blast
  have run: "raw_list_add new (last (l # as)) (hd (bs @ [l])) h0 = Some h" and k: "k = 4"
    using stored_end [OF a(5)] by (simp_all add: add_rcu_eq_add, simp add: raw_list_add_rcu_def)
  show "V = set (l # xs)" using a(6,7) k by auto
  from a(2) show "clist h l xs"
  proof
    assume as: "as = []"
    have "ld_next h0 l = Some (hd (bs @ [l]))" using clist_next_last [OF a(1)] as by simp
    from raw_list_add_front [OF _ a(3) _ this, of bs] show ?thesis using run a(1,4,6) as by auto
  next
    assume bs: "bs = []"
    have "ld_prev h0 l = Some (last (l # as))" using clist_prev [OF a(1)] bs by simp
    from raw_list_add_back [OF _ a(3) _ this, of as] show ?thesis using run a(1,4,6) bs by auto
  qed
qed

lemma deleting_begin:
  assumes "clist h l xs" "x \<in> set xs" "ld_prev h x = Some p" "ld_next h x = Some n"
  shows "deleting l (list_del_rcu_writes x p n) x h (remove1 x xs) (set (l # xs))"
proof -
  obtain as bs where xs: "xs = as @ x # bs" "x \<notin> set as" using assms(2) by (meson split_list_first)
  have c: "clist h x (bs @ l # as)" using clist_rotate assms(1) xs by metis
  then have "p = last (l # as)" using clist_prev [OF c] assms(3) by auto
  moreover have "n = hd (bs @ [l])" using clist_next_last [of h l "as @ [x]" bs] assms(1,4) xs by simp
  moreover have "clist h l (as @ x # bs)" using assms(1) xs by simp
  ultimately show ?thesis
    unfolding deleting_def using stored_begin xs by (intro exI [of _ h] exI [of _ as] exI [of _ bs] exI [of _ 0]) (auto simp: remove1_append)
qed

lemma deleting_store: "deleting l (w # ws) x h xs V \<Longrightarrow> exec_write w h = Some h' \<Longrightarrow> deleting l ws x h' xs V"
  unfolding deleting_def using stored_step by blast

lemma deleting_end:
  assumes "deleting l [] x h xs V"
  shows "unlinked l x h xs" "V = set (l # x # xs)"
proof -
  obtain h0 as bs k where a: "clist h0 l (as @ x # bs)"
    "stored h0 (list_del_rcu_writes x (last (l # as)) (hd (bs @ [l]))) k [] h" "xs = as @ bs" "V = set (l # as @ x # bs)"
    using assms unfolding deleting_def by blast
  show "V = set (l # x # xs)" using a(3,4) by auto
  have c: "clist h0 x (bs @ l # as)" using clist_rotate [OF a(1)] .
  have "ld_prev h0 x = Some (last (l # as))" using clist_prev [OF c] by simp
  moreover have "ld_next h0 x = Some (hd (bs @ [l]))" using clist_next_last [of h0 l "as @ [x]" bs] a(1) by simp
  ultimately have "mthpc_list_del_rcu x h0 = Some h"
    using stored_end [OF a(2)] by (simp add: mthpc_list_del_rcu_def)
  then have "clist h l (as @ bs)" "ld_next h x = Some (hd (bs @ [l]))"
    using mthpc_list_del_rcu_ok [OF a(1)] by (metis option.inject)+
  moreover have "x \<notin> set (l # as @ bs)" using clist_distinct [OF a(1)] by auto
  moreover have "hd (bs @ [l]) \<in> set (l # as @ bs)" using place_in(2) [of bs l] by auto
  ultimately show "unlinked l x h xs" unfolding unlinked_def a(3) by blast
qed

lemma unlinked_free: "unlinked l x h xs \<Longrightarrow> clist (h(x := None)) l xs"
  unfolding unlinked_def by (elim conjE, erule clist_same) auto

section \<open>The invariant\<close>

text \<open>A reader follows the list only inside its critical section.\<close>

definition reading_ok :: "reclaim \<Rightarrow> nat \<Rightarrow> bool" where
  "reading_ok s i \<longleftrightarrow> ((\<exists>p. vpc s i = VAt p) \<longrightarrow> gp_active (node_gp (grace s) i)) \<and>
     (gp_active (node_gp (grace s) i) \<or> vpc s i \<noteq> VOut \<longrightarrow> not_entering (grace s) i)"

definition cursors_in :: "nat \<Rightarrow> reclaim \<Rightarrow> nat set \<Rightarrow> bool" where
  "cursors_in N s V \<longleftrightarrow> (\<forall>i<N. \<forall>p. vpc s i = VAt p \<and> fresh (grace s) i \<longrightarrow> p \<in> V)"

text \<open>A reader at the node that is to be freed was inside its section when the grace period began.\<close>

definition wait_ok :: "nat \<Rightarrow> reclaim \<Rightarrow> bool" where
  "wait_ok N s \<longleftrightarrow> (wpc (grace s) \<noteq> Idle \<longleftrightarrow> (\<exists>x. upc s = UWait x)) \<and>
     (\<forall>x. upc s = UWait x \<longrightarrow>
       (\<forall>i<N. vpc s i = VAt x \<and> fresh (grace s) i \<longrightarrow> snap (grace s) i = Some (sect (grace s) i)))"

definition reclaim_inv :: "nat \<Rightarrow> nat \<Rightarrow> reclaim \<Rightarrow> bool" where
  "reclaim_inv l N s \<longleftrightarrow> rcu_inv N (grace s) \<and> (\<forall>i<N. reading_ok s i) \<and> wait_ok N s \<and>
     (\<exists>V. mem_ok l (upc s) (heap s) (items s) V \<and> cursors_in N s V)"

lemma reclaim_inv_start: "reclaim_start l s \<Longrightarrow> reclaim_inv l N s"
  using rcu_inv_start [of "grace s" N]
  by (auto simp: reclaim_start_def reclaim_inv_def reading_ok_def wait_ok_def cursors_in_def)
    (auto simp: rcu_start_def gp_active_def)

inductive_cases visit_stepE: "visit_step l i s t"
inductive_cases update_stepE: "update_step l N s t"

text \<open>What the step of a reader keeps, for itself and for the others.\<close>

lemma visit_frame:
  assumes "visit_step l i s t"
  shows "heap t = heap s" "items t = items s" "upc t = upc s" "wpc (grace t) = wpc (grace s)" "snap (grace t) = snap (grace s)"
    and "j \<noteq> i \<Longrightarrow> vpc t j = vpc s j \<and> node_gp (grace t) j = node_gp (grace s) j \<and> rpc (grace t) j = rpc (grace s) j \<and>
      sect (grace t) j = sect (grace s) j \<and> fresh (grace t) j = fresh (grace s) j"
  using assms by (cases, auto simp: reader_step_frame)+

lemma visit_own:
  assumes "visit_step l i s t" "reading_ok s i" "reader_ok (grace s) i"
  shows "reading_ok t i"
    and "vpc t i = VAt q \<Longrightarrow> fresh (grace t) i = fresh (grace s) i \<and> sect (grace t) i = sect (grace s) i \<and>
      (q = l \<or> (\<exists>p. vpc s i = VAt p \<and> ld_next (heap s) p = Some q))"
proof -
  show "reading_ok t i"
    using assms(1)
  proof cases
    case (enter g)
    then show ?thesis using reader_step_enter [OF enter(4) assms(3)] by (auto simp: reading_ok_def)
  next
    case (exit g)
    then show ?thesis using reader_step_leave(1) [OF exit(4)] assms(2) by (auto simp: reading_ok_def)
  qed (use assms(2) in \<open>auto simp: reading_ok_def\<close>)
  show "vpc t i = VAt q \<Longrightarrow> fresh (grace t) i = fresh (grace s) i \<and> sect (grace t) i = sect (grace s) i \<and>
      (q = l \<or> (\<exists>p. vpc s i = VAt p \<and> ld_next (heap s) p = Some q))"
    using assms(1) by cases (auto split: if_splits)
qed

lemma visit_inv:
  assumes step: "visit_step l i s t" and i: "i < N" and inv: "reclaim_inv l N s"
  shows "reclaim_inv l N t"
proof -
  obtain V where V: "mem_ok l (upc s) (heap s) (items s) V" "cursors_in N s V"
    using inv by (auto simp: reclaim_inv_def)
  have ok: "rcu_inv N (grace s)" "\<forall>i<N. reading_ok s i" "wait_ok N s" using inv by (simp_all add: reclaim_inv_def)
  then have "reader_ok (grace s) i" "reading_ok s i" using i by (simp_all add: rcu_inv_def)
  note own = visit_own [OF step this(2,1)] and frame = visit_frame [OF step]
  have "rcu_inv N (grace t)"
    using step by cases (use ok(1) reader_step_inv [OF _ i ok(1)] in auto)
  moreover have "reading_ok t j" if "j < N" for j
    using own(1) ok(2) frame(6) [of j] that by (cases "j = i") (simp_all add: reading_ok_def not_entering_def)
  moreover have "cursors_in N t V"
    unfolding cursors_in_def
  proof (intro allI impI)
    fix j q assume j: "j < N" and q: "vpc t j = VAt q \<and> fresh (grace t) j"
    show "q \<in> V"
    proof (cases "j = i")
      case True
      then show ?thesis
        using own(2) [of q] q V i mem_ok_closed [OF V(1)] closed_next [OF mem_ok_closed(1) [OF V(1)]]
        by (auto simp: cursors_in_def)
    qed (use q j frame(6) [of j] V(2) in \<open>auto simp: cursors_in_def\<close>)
  qed
  moreover have "snap (grace t) j = Some (sect (grace t) j)"
    if j: "j < N" "upc t = UWait x" "vpc t j = VAt x \<and> fresh (grace t) j" for x j
  proof (cases "j = i")
    case True
    have u: "unlinked l x (heap s) (items s)" "V = set (l # x # items s)" using V(1) j(2) frame(3) by simp_all
    have "x = l \<or> (\<exists>p. p \<in> V \<and> ld_next (heap s) p = Some x)"
      using own(2) [of x] j(3) True V(2) i by (auto simp: cursors_in_def)
    then have False
      using unlinked_next [OF u(1), folded u(2)] u(1) by (auto simp: unlinked_def)
    then show ?thesis ..
  next
    case False
    then show ?thesis using ok(3) j frame(3,5) frame(6) [OF False] by (auto simp: wait_ok_def)
  qed
  then have "wait_ok N t" using ok(3) frame(3,4) by (auto simp: wait_ok_def)
  ultimately show ?thesis using V(1) frame(1-3) by (auto simp: reclaim_inv_def)
qed

text \<open>The updater.\<close>

lemma cursors_mono: "cursors_in N s V \<Longrightarrow> V \<subseteq> V' \<Longrightarrow> vpc t = vpc s \<Longrightarrow> fresh (grace t) = fresh (grace s) \<Longrightarrow> cursors_in N t V'"
  by (auto simp: cursors_in_def)

text \<open>When the grace period is over, no reader with a fresh phase is at the node any more.\<close>

lemma waited_cursors:
  assumes "rcu_inv N (grace s)" "\<forall>i<N. reading_ok s i" "wait_ok N s" "upc s = UWait x" "wpc (grace s) = Release"
    and "cursors_in N s (set (l # x # xs))"
  shows "cursors_in N s (set (l # xs))"
  unfolding cursors_in_def
proof (intro allI impI)
  fix i p assume i: "i < N" and p: "vpc s i = VAt p \<and> fresh (grace s) i"
  have "p \<noteq> x"
  proof
    assume "p = x"
    then have "held_over (grace s) i"
      using assms(2-4) i p by (auto simp: held_over_def wait_ok_def reading_ok_def)
    then show False using assms(1,5) i p by (auto simp: rcu_inv_def writer_ok_def waited_for_def)
  qed
  then show "p \<in> set (l # xs)" using assms(6) i p by (auto simp: cursors_in_def)
qed

lemma update_mem:
  assumes step: "update_step l N s t" and V: "mem_ok l (upc s) (heap s) (items s) V" "cursors_in N s V"
    and inv: "rcu_inv N (grace s)" "\<forall>i<N. reading_ok s i" "wait_ok N s"
  shows "\<exists>V'. mem_ok l (upc t) (heap t) (items t) V' \<and> cursors_in N t V'"
  using step
proof cases
  case (add new n junk)
  then show ?thesis
    using adding_begin(1) [of "heap s" l "items s" new n junk] V cursors_mono [OF V(2), of V t]
    by (intro exI [of _ V]) simp
next
  case (add_tail new p junk)
  then show ?thesis
    using adding_begin(2) [of "heap s" l "items s" new p junk] V cursors_mono [OF V(2), of V t]
    by (intro exI [of _ V]) simp
next
  case (add_store w ws new h)
  obtain V' where "adding l ws new h (items s) V'" "V \<subseteq> V'"
    by (rule adding_store [of l w ws new "heap s" "items s" V h]) (use V(1) add_store in simp_all)
  then show ?thesis using cursors_mono [OF V(2), of V' t] add_store by (intro exI [of _ V']) simp
next
  case (added new)
  then show ?thesis
    using adding_end [of l new "heap s" "items s" V] V cursors_mono [OF V(2), of V t] by (intro exI [of _ V]) simp
next
  case (del x p n)
  then show ?thesis
    using deleting_begin [of "heap s" l "items s" x p n] V cursors_mono [OF V(2), of V t]
    by (intro exI [of _ V]) simp
next
  case (del_store w ws x h)
  then show ?thesis
    using deleting_store [of l w ws x "heap s" "items s" V h] V cursors_mono [OF V(2), of V t]
    by (intro exI [of _ V]) simp
next
  case (deleted x)
  then show ?thesis
    using deleting_end [of l x "heap s" "items s" V] V cursors_mono [OF V(2), of V t] by (intro exI [of _ V]) simp
next
  case (sync_begin x g)
  then show ?thesis
    using V cursors_mono [OF V(2), of V t] writer_frame(2) [OF sync_begin(4)] by (intro exI [of _ V]) simp
next
  case (sync x g)
  then show ?thesis
    using V cursors_mono [OF V(2), of V t] writer_frame(2) [OF sync(4)] by (intro exI [of _ V]) simp
next
  case (sync_end x g)
  have u: "unlinked l x (heap s) (items s)" "V = set (l # x # items s)" using V(1) sync_end(2) by simp_all
  have "cursors_in N s (set (l # items s))"
    using waited_cursors [OF inv sync_end(2,3)] V(2) u(2) by blast
  then show ?thesis
    using u(1) sync_end(1) cursors_mono [of N s _ _ t] writer_frame(2) [OF sync_end(4)]
    by (intro exI [of _ "set (l # items s)"]) simp
next
  case (free x)
  then show ?thesis
    using V unlinked_free [of l x "heap s" "items s"] cursors_mono [OF V(2), of V t] by (intro exI [of _ V]) simp
qed

lemma update_wait:
  assumes step: "update_step l N s t" and inv: "\<forall>i<N. reading_ok s i" "wait_ok N s"
  shows "wait_ok N t"
  using step
proof cases
  case (sync_begin x g)
  have "snap g i = Some (sect g i)" if "i < N" "vpc s i = VAt x" for i
    using writer_frame(8) [OF sync_begin(4,3), of i] inv(1) that by (auto simp: reading_ok_def)
  then show ?thesis using sync_begin writer_frame(6) [OF sync_begin(4)] by (auto simp: wait_ok_def)
next
  case (sync x g)
  then have "wpc (grace s) \<noteq> Idle" using inv(2) by (auto simp: wait_ok_def)
  then show ?thesis using inv(2) sync writer_frame [OF sync(4)] by (auto simp: wait_ok_def)
next
  case (sync_end x g)
  then show ?thesis using inv(2) writer_frame(7) [OF sync_end(4)] by (auto simp: wait_ok_def)
qed (use inv(2) in \<open>auto simp: wait_ok_def\<close>)

lemma update_inv:
  assumes step: "update_step l N s t" and inv: "reclaim_inv l N s"
  shows "reclaim_inv l N t"
proof -
  obtain V where V: "mem_ok l (upc s) (heap s) (items s) V" "cursors_in N s V"
    using inv by (auto simp: reclaim_inv_def)
  have ok: "rcu_inv N (grace s)" "\<forall>i<N. reading_ok s i" "wait_ok N s" using inv by (simp_all add: reclaim_inv_def)
  have "vpc t = vpc s \<and> (grace t = grace s \<or> writer_step N (grace s) (grace t))" using step by cases auto
  then have "rcu_inv N (grace t)" "\<forall>i<N. reading_ok t i"
    using ok(1,2) writer_step_inv writer_frame(3,4) by (auto simp: reading_ok_def not_entering_def)
  then show ?thesis using update_mem [OF step V ok] update_wait [OF step ok(2,3)] by (simp add: reclaim_inv_def)
qed

interpretation reclaim: inductive_invariant "reclaim_start l" "reclaim_step l N" "reclaim_inv l N" for l N
proof
  show "reclaim_start l s \<Longrightarrow> reclaim_inv l N s" for s by (rule reclaim_inv_start)
  show "reclaim_inv l N s \<Longrightarrow> reclaim_step l N s t \<Longrightarrow> reclaim_inv l N t" for s t
    by (auto elim: reclaim_step.cases intro: visit_inv update_inv)
qed

section \<open>No access to freed memory\<close>

text \<open>
  The updater: no store and no \<open>free\<close> of it faults, and the list is whole whenever it is idle.
\<close>

theorem reclaim_updater_total:
  assumes "reachable (reclaim_start l) (reclaim_step l N) s"
  shows "(upc s = UIdle \<longrightarrow> clist (heap s) l (items s)) \<and>
    (\<forall>w ws x. upc s = UAdd (w # ws) x \<or> upc s = UDel (w # ws) x \<longrightarrow> exec_write w (heap s) \<noteq> None) \<and>
    (\<forall>x. upc s = UFree x \<longrightarrow> x \<in> dom (heap s) \<and> x \<notin> set (l # items s))"
proof -
  obtain V where V: "mem_ok l (upc s) (heap s) (items s) V"
    using reclaim.inv_reachable [OF assms] by (auto simp: reclaim_inv_def)
  have can_store: "exec_write w (heap s) \<noteq> None" if "write_target w \<in> dom (heap s)" for w
    using that by (cases w) (simp_all add: heap_simps)
  show ?thesis
  proof (intro conjI allI impI)
    fix w ws x assume "upc s = UAdd (w # ws) x \<or> upc s = UDel (w # ws) x"
    then have "write_target ` set (w # ws) \<subseteq> dom (heap s)"
      using V adding_ok(3) [of l "w # ws" x "heap s" "items s" V] deleting_ok(3) [of l "w # ws" x "heap s" "items s" V]
      by (elim disjE) simp_all
    then show "exec_write w (heap s) \<noteq> None" by (intro can_store) simp
  qed (use V in \<open>auto simp: unlinked_def dest: ld_next_dom\<close>)
qed

text \<open>
  C1. Reclaiming with RCU, the composition of the lists and the grace periods: in every
  interleaving of any number of readers, which traverse a list inside their critical sections
  load by load, with an updater, which adds nodes at either end and removes, waits for a grace
  period and frees, store by store, a reader whose phase was current when its section began is
  at an allocated node, and the node to which it goes on is allocated.
\<close>

theorem reclaim_readers_safe:
  assumes "reachable (reclaim_start l) (reclaim_step l N) s" "i < N" "vpc s i = VAt p" "fresh (grace s) i"
  shows "p \<in> dom (heap s) \<and> (\<exists>q. ld_next (heap s) p = Some q \<and> q \<in> dom (heap s))"
proof -
  obtain V where V: "mem_ok l (upc s) (heap s) (items s) V" "p \<in> V"
    using reclaim.inv_reachable [OF assms(1)] assms(2-4) by (auto simp: reclaim_inv_def cursors_in_def)
  have c: "closed (heap s) V" by (rule mem_ok_closed [OF V(1)])
  then obtain q where q: "ld_next (heap s) p = Some q" "q \<in> V" using V(2) unfolding closed_def by blast
  have "p \<in> dom (heap s)" "q \<in> dom (heap s)" using closed_dom [OF c] V(2) q(2) by blast+
  then show ?thesis using q(1) by blast
qed

section \<open>Runs\<close>

abbreviation reclaim1 :: "reclaim \<Rightarrow> bool" where
  "reclaim1 \<equiv> reachable (reclaim_start 0) (reclaim_step 0 1)"

lemma reachable_visitor: "reclaim1 s \<Longrightarrow> visit_step 0 0 s t \<Longrightarrow> reclaim1 t"
  by (auto intro: reach_step by_visitor)

lemma reachable_updater: "reclaim1 s \<Longrightarrow> update_step 0 1 s t \<Longrightarrow> reclaim1 t"
  by (auto intro: reach_step by_updater)

definition reclaim_at :: "rcu_sys \<Rightarrow> nat list_heap \<Rightarrow> nat list \<Rightarrow> visit_pc \<Rightarrow> upd_pc \<Rightarrow> reclaim" where
  "reclaim_at g h xs v u = \<lparr>grace = g, heap = h, items = xs, vpc = (\<lambda>_. VOut)(0 := v), upc = u\<rparr>"

lemma reclaim_boot: "reclaim1 (reclaim_at rcu_boot ring_a [1, 2] VOut UIdle)"
  by (rule reach_init)
    (use ring_a_lists in \<open>simp add: reclaim_start_def reclaim_at_def rcu_start_def rcu_boot_def fun_upd_idem\<close>)

lemma reclaim_enter:
  assumes "reclaim1 (reclaim_at g h xs VOut u)" "reader_step 0 g g'" "\<not> gp_active (node_gp g 0)"
  shows "reclaim1 (reclaim_at g' h xs VOut u)"
  using reachable_visitor [OF assms(1) enter [of _ 0 g']] assms(2,3) by (simp add: reclaim_at_def)

text \<open>Deleting a node, when no reader holds the writer up.\<close>

lemma reclaim_delete:
  assumes run: "reclaim1 (reclaim_at g h xs v UIdle)" and x: "x \<in> set xs"
    and del: "mthpc_list_del_rcu x h = Some h'"
    and idle: "wpc g = Idle" and pass: "passes (gp_seq g) (node_gp g 0)"
  shows "reclaim1 (reclaim_at ((synced g)\<lparr>wpc := Idle\<rparr>) (h'(x := None)) (remove1 x xs) v UIdle)"
proof -
  let ?at = "\<lambda>g h. reclaim_at g h (remove1 x xs) v"
  obtain p n where pn: "ld_prev h x = Some p" "ld_next h x = Some n"
    "fold_opt exec_write (list_del_rcu_writes x p n) h = Some h'"
    using del by (auto simp: mthpc_list_del_rcu_def bind_Some_iff)
  have stores: "reclaim1 (?at g k (UDel ws x)) \<Longrightarrow> fold_opt exec_write ws k = Some h' \<Longrightarrow> reclaim1 (?at g h' (UDel [] x))" for ws k
  proof (induction ws arbitrary: k)
    case (Cons w ws)
    then obtain k' where k': "exec_write w k = Some k'" "fold_opt exec_write ws k' = Some h'" by (auto simp: bind_Some_iff)
    have "reclaim1 (?at g k' (UDel ws x))"
      using reachable_updater [OF Cons.prems(1) del_store [of _ w ws x k']] k'(1) by (simp add: reclaim_at_def)
    then show ?case using Cons.IH k'(2) by blast
  qed simp
  have "reclaim1 (?at g h (UDel (list_del_rcu_writes x p n) x))"
    using reachable_updater [OF run update_step.del [of _ x p n]] x pn by (simp add: reclaim_at_def)
  then have "reclaim1 (?at g h' (UDel [] x))" by (rule stores) (rule pn(3))
  then have "reclaim1 (?at g h' (USync x))"
    using reachable_updater [OF _ deleted [of "?at g h' (UDel [] x)"]] by (simp add: reclaim_at_def)
  then have start: "reclaim1 (?at (locked g) h' (UWait x))"
    using reachable_updater [OF _ sync_begin [of "?at g h' (USync x)" x 1 "locked g"]] sync_lock [OF idle, of 1] idle
    by (simp add: reclaim_at_def locked_def)
  have go: "reclaim1 (?at k h' (UWait x))" if "(writer_moves 1)\<^sup>*\<^sup>* (locked g) k" for k
    using that
  proof (induction rule: rtranclp_induct)
    case base
    then show ?case using start .
  next
    case (step k k')
    then show ?case using reachable_updater [OF _ sync [of "?at k h' (UWait x)" x 1 k']] by (simp add: reclaim_at_def)
  qed
  have "reclaim1 (?at (synced g) h' (UWait x))" using pass by (intro go locked_run) simp
  from reachable_updater [OF this sync_end [of _ x 1 "(synced g)\<lparr>wpc := Idle\<rparr>"]] sync_unlock [of "synced g" 1]
  have "reclaim1 (?at ((synced g)\<lparr>wpc := Idle\<rparr>) h' (UFree x))" by (simp add: reclaim_at_def synced_def)
  moreover from this have "x \<in> dom h'" using reclaim_updater_total [of 0 1] by (force simp: reclaim_at_def)
  ultimately show ?thesis
    using reachable_updater [OF _ update_step.free [of "?at ((synced g)\<lparr>wpc := Idle\<rparr>) h' (UFree x)" x]]
    by (simp add: reclaim_at_def)
qed

text \<open>The reader enters a section and visits the first node after the head.\<close>

lemma reclaim_visit:
  assumes run: "reclaim1 (reclaim_at g h xs VOut u)" and act: "gp_active (node_gp g 0)"
    and nx: "ld_next h 0 = Some q" "q \<noteq> 0"
  shows "reclaim1 (reclaim_at g h xs (VAt q) u)"
proof -
  have "reclaim1 (reclaim_at g h xs (VAt 0) u)"
    using reachable_visitor [OF run entered] act by (simp add: reclaim_at_def)
  then show ?thesis
    using reachable_visitor [OF _ visit [of "reclaim_at g h xs (VAt 0) u" 0 0 q]] nx by (simp add: reclaim_at_def)
qed

text \<open>The first two steps of \<open>mthpc_rcu_read_lock\<close>, and its last one.\<close>

definition half_locked :: rcu_sys where
  "half_locked = rcu_boot\<lparr>rpc := (\<lambda>_. Run)(0 := LockGot MTHPC_GP_COUNT)\<rparr>"

definition publish :: "rcu_sys \<Rightarrow> rcu_sys" where
  "publish g = g\<lparr>rpc := (rpc g)(0 := Run), node_gp := (node_gp g)(0 := MTHPC_GP_COUNT), sect := (sect g)(0 := Suc (sect g 0)),
     fresh := (fresh g)(0 := (gp_phase MTHPC_GP_COUNT = gp_phase (gp_seq g)))\<rparr>"

lemma inactive_boot: "\<not> gp_active 0" "gp_active MTHPC_GP_COUNT" "gp_active 1"
  by (simp_all add: word_facts gp_nest_def)

lemma reclaim_half_locked: "reclaim1 (reclaim_at half_locked ring_a [1, 2] VOut UIdle)"
proof -
  let ?g = "rcu_boot\<lparr>rpc := (\<lambda>_. Run)(0 := LockLoaded 0)\<rparr>"
  have "reader_step 0 rcu_boot ?g" using lock_load [of rcu_boot 0] by (simp add: rcu_boot_def gp_nest_def)
  then have "reclaim1 (reclaim_at ?g ring_a [1, 2] VOut UIdle)"
    by (rule reclaim_enter [OF reclaim_boot]) (simp add: rcu_boot_def inactive_boot)
  moreover have "reader_step 0 ?g half_locked"
    using lock_data [of ?g 0 0] inactive_boot by (simp add: half_locked_def rcu_boot_def)
  ultimately show ?thesis by (rule reclaim_enter) (simp add: rcu_boot_def inactive_boot)
qed

lemma publish_step: "rpc g 0 = LockGot MTHPC_GP_COUNT \<Longrightarrow> reader_step 0 g (publish g)"
  unfolding publish_def by (rule lock_store)

lemma reclaim_readers_safe_witness:
  "\<exists>s q. reachable (reclaim_start 0) (reclaim_step 0 1) s \<and> vpc s 0 = VAt 1 \<and> fresh (grace s) 0 \<and>
    ld_next (heap s) 1 = Some q \<and> q \<in> dom (heap s)"
proof -
  let ?g = "publish half_locked"
  have "reclaim1 (reclaim_at ?g ring_a [1, 2] VOut UIdle)"
    by (rule reclaim_enter [OF reclaim_half_locked publish_step])
      (simp_all add: half_locked_def rcu_boot_def inactive_boot)
  then have r: "reclaim1 (reclaim_at ?g ring_a [1, 2] (VAt 1) UIdle)"
    by (rule reclaim_visit) (use ring_a_lists clist_next [of ring_a 0 "[1, 2]"] in \<open>simp_all add: publish_def inactive_boot\<close>)
  have f: "fresh ?g 0" by (simp add: publish_def half_locked_def rcu_boot_def)
  show ?thesis
    using reclaim_readers_safe [OF r, of 0 1] r f by (auto simp: reclaim_at_def intro!: exI [of _ "reclaim_at ?g ring_a [1, 2] (VAt 1) UIdle"])
qed

text \<open>
  C2. Reclaiming with RCU, the gap: without that proviso it fails. There is a run in which one
  reader stands on a node of the list that the updater has removed, has waited for a grace
  period and has freed, so that its next load is from freed memory.
\<close>

theorem reclaim_use_after_free:
  "\<exists>s. reachable (reclaim_start 0) (reclaim_step 0 1) s \<and> vpc s 0 = VAt 2 \<and> heap s 2 = None"
proof -
  let ?g = "(synced half_locked)\<lparr>wpc := Idle\<rparr>" and ?c = "MTHPC_GP_COUNT"
  have c: "gp_phase ?c = False" by (simp add: gp_phase_def)
  obtain h1 where h1: "mthpc_list_del_rcu 1 ring_a = Some h1" "clist h1 0 [2]"
    using mthpc_list_del_rcu_ok [of ring_a 0 "[]" 1 "[2]"] ring_a_lists(1) by auto
  have "reclaim1 (reclaim_at ?g (h1(1 := None)) [2] VOut UIdle)"
    using reclaim_delete [OF reclaim_half_locked _ h1(1)]
    by (simp add: half_locked_def rcu_boot_def passes_def inactive_boot)
  then have "reclaim1 (reclaim_at (publish ?g) (h1(1 := None)) [2] VOut UIdle)"
    by (rule reclaim_enter [OF _ publish_step])
      (simp_all add: synced_def half_locked_def rcu_boot_def inactive_boot)
  moreover have h2: "clist (h1(1 := None)) 0 [2]" by (rule clist_same [OF h1(2)]) auto
  ultimately have r: "reclaim1 (reclaim_at (publish ?g) (h1(1 := None)) [2] (VAt 2) UIdle)"
    using clist_next [OF h2] by (intro reclaim_visit) (simp_all add: publish_def inactive_boot)
  obtain h3 where h3: "mthpc_list_del_rcu 2 (h1(1 := None)) = Some h3"
    using mthpc_list_del_rcu_ok [of "h1(1 := None)" 0 "[]" 2 "[]"] h2 by auto
  let ?h = "(synced (publish ?g))\<lparr>wpc := Idle\<rparr>"
  have "reclaim1 (reclaim_at ?h (h3(2 := None)) (remove1 2 [2]) (VAt 2) UIdle)"
    by (rule reclaim_delete [OF r _ h3])
      (simp_all add: publish_def synced_def half_locked_def rcu_boot_def passes_def word_facts c)
  then show ?thesis by (intro exI conjI) (assumption, simp_all add: reclaim_at_def)
qed

end
