(* ===== verification/Spinlock.thy ===== *)
theory Spinlock
  imports Prelude
begin

text \<open>
  The lock of \<open>include/mthpc/spinlock.h\<close> (a normal pthread mutex) as one thread sees it when
  no other thread runs, and the scoped guards of \<open>include/mthpc/guards.h\<close> and
  \<open>include/mthpc/scoped_lock.h\<close>. Taking a held lock does not return; to unlock a lock that is
  not held, or to destroy a held one, is undefined or ends in \<open>MTHPC_BUG_ON\<close>.
\<close>

section \<open>The lock\<close>

datatype spin = Unlocked | Held | Destroyed

definition spin_lock_init :: spin where
  "spin_lock_init = Unlocked"

definition spin_lock :: "spin \<Rightarrow> spin option" where
  "spin_lock l = (if l = Unlocked then Some Held else None)"

definition spin_unlock :: "spin \<Rightarrow> spin option" where
  "spin_unlock l = (if l = Held then Some Unlocked else None)"

definition spin_lock_destroy :: "spin \<Rightarrow> spin option" where
  "spin_lock_destroy l = (if l = Unlocked then Some Destroyed else None)"

lemma spin_simps [simp]:
  "spin_lock_init = Unlocked"
  "spin_lock Unlocked = Some Held" "spin_lock Held = None" "spin_lock Destroyed = None"
  "spin_unlock Held = Some Unlocked" "spin_unlock Unlocked = None"
  "spin_lock_destroy Unlocked = Some Destroyed" "spin_lock_destroy Held = None"
  by (simp_all add: spin_lock_init_def spin_lock_def spin_unlock_def spin_lock_destroy_def)

section \<open>Scoped guards\<close>

text \<open>
  \<open>MTHPC_DECLARE_GUARD_OBJ\<close> gives a guard type an \<open>init\<close> that runs at the declaration and an
  \<open>exit\<close> that the cleanup attribute runs on leaving the block; both get the lock pointer.
\<close>

record ('l, 's) guard_type =
  g_init :: "'l \<Rightarrow> 's \<Rightarrow> 's option"
  g_exit :: "'l \<Rightarrow> 's \<Rightarrow> 's option"

definition generated_guard_init :: "('l, 's) guard_type \<Rightarrow> 'l \<Rightarrow> 's \<Rightarrow> ('l \<times> 's) option" where
  "generated_guard_init G lock s = do { s \<leftarrow> g_init G lock s; Some (lock, s) }"

definition generated_guard_exit :: "('l, 's) guard_type \<Rightarrow> 'l \<Rightarrow> 's \<Rightarrow> 's option" where
  "generated_guard_exit G g s = g_exit G g s"

text \<open>
  A block that opens with the declarations \<open>mthpc_scoped_lock(type, lock)\<close>: the cleanups
  run in the reverse order of the declarations.
\<close>

fun scoped_block ::
  "(('l, 's) guard_type \<times> 'l) list \<Rightarrow> ('s \<Rightarrow> 's option) \<Rightarrow> 's \<Rightarrow> 's option" where
  "scoped_block [] body s = body s"
| "scoped_block ((G, lock) # gs) body s = do {
     (g, s) \<leftarrow> generated_guard_init G lock s;
     s \<leftarrow> scoped_block gs body s;
     generated_guard_exit G g s }"

text \<open>\<open>MTHPC_DECLARE_GUARD_OBJ(spinlock_t, spinlock, spin_lock, spin_unlock)\<close> over a store of locks.\<close>

definition lock_at :: "'l \<Rightarrow> ('l \<Rightarrow> spin) \<times> 's \<Rightarrow> (('l \<Rightarrow> spin) \<times> 's) option" where
  "lock_at p = (\<lambda>(L, s). do { l \<leftarrow> spin_lock (L p); Some (L(p := l), s) })"

definition unlock_at :: "'l \<Rightarrow> ('l \<Rightarrow> spin) \<times> 's \<Rightarrow> (('l \<Rightarrow> spin) \<times> 's) option" where
  "unlock_at p = (\<lambda>(L, s). do { l \<leftarrow> spin_unlock (L p); Some (L(p := l), s) })"

definition spinlock_guard :: "('l, ('l \<Rightarrow> spin) \<times> 's) guard_type" where
  "spinlock_guard = \<lparr>g_init = lock_at, g_exit = unlock_at\<rparr>"

definition hold_all :: "'l list \<Rightarrow> ('l \<Rightarrow> spin) \<Rightarrow> 'l \<Rightarrow> spin" where
  "hold_all ps L = (\<lambda>p. if p \<in> set ps then Held else L p)"

lemma hold_all_simps:
  "hold_all [] L = L"
  "p \<notin> set ps \<Longrightarrow> hold_all ps (L(p := Held)) = hold_all (p # ps) L"
  by (auto simp: hold_all_def)

text \<open>
  A block scoped by distinct free spin locks runs its body with all of them held and
  leaves every lock as it was; if it takes the first lock again it never gets into its body.
\<close>

theorem scoped_spinlocks:
  assumes "distinct ps" "\<And>p. p \<in> set ps \<Longrightarrow> L p = Unlocked"
    and "\<And>s. body (hold_all ps L, s) = Some (hold_all ps L, f s)"
  shows "scoped_block (map (\<lambda>p. (spinlock_guard, p)) ps) body (L, s) = Some (L, f s) \<and>
    (ps \<noteq> [] \<longrightarrow> scoped_block (map (\<lambda>p. (spinlock_guard, p)) (ps @ [hd ps])) body (L, s) = None)"
proof
  show "scoped_block (map (\<lambda>p. (spinlock_guard, p)) ps) body (L, s) = Some (L, f s)"
    using assms
  proof (induction ps arbitrary: L)
    case (Cons p ps)
    have "scoped_block (map (\<lambda>p. (spinlock_guard, p)) ps) body (L(p := Held), s) =
      Some (L(p := Held), f s)"
    proof (rule Cons.IH)
      have eq: "hold_all ps (L(p := Held)) = hold_all (p # ps) L"
        using Cons.prems(1) by (simp add: hold_all_simps(2))
      show "body (hold_all ps (L(p := Held)), s) = Some (hold_all ps (L(p := Held)), f s)" for s
        unfolding eq by (rule Cons.prems(3))
    qed (use Cons.prems in auto)
    moreover have "L p = Unlocked" using Cons.prems(2) by simp
    ultimately show ?case
      by (simp add: generated_guard_init_def generated_guard_exit_def spinlock_guard_def
          lock_at_def unlock_at_def fun_upd_idem)
  qed (simp add: hold_all_simps)
  have held: "scoped_block (map (\<lambda>p. (spinlock_guard, p)) (qs @ [q])) body (K, s) = None"
    if "K q = Held" for qs q K
    using that
    by (induction qs arbitrary: K)
      (auto simp: generated_guard_init_def spinlock_guard_def lock_at_def spin_lock_def)
  show "ps \<noteq> [] \<longrightarrow> scoped_block (map (\<lambda>p. (spinlock_guard, p)) (ps @ [hd ps])) body (L, s) = None"
    using held [of "L(hd ps := Held)" "hd ps" "tl ps"] assms(2)
    by (cases ps) (auto simp: generated_guard_init_def spinlock_guard_def lock_at_def)
qed

lemma scoped_spinlocks_witness:
  "scoped_block (map (\<lambda>p. (spinlock_guard, p)) [0, 1::nat]) (\<lambda>(L, s). Some (L, Suc s))
     (\<lambda>_. Unlocked, 0::nat) = Some (\<lambda>_. Unlocked, Suc 0) \<and>
   scoped_block (map (\<lambda>p. (spinlock_guard, p)) [0, 1::nat, 0])
      (\<lambda>(L, s). Some (L, Suc s)) (\<lambda>_. Unlocked, 0::nat) = None"
  using scoped_spinlocks [of "[0, 1::nat]" "\<lambda>_. Unlocked" "\<lambda>(L, s). Some (L, Suc s)" Suc 0]
  by (simp del: scoped_block.simps)

end
