(* ===== verification/Slist.thy ===== *)
theory Slist
  imports Prelude
begin

text \<open>
  Singly linked lists threaded through a \<open>next\<close> member, walked with an indirect pointer as
  \<open>src/rcu/rcu.c\<close> does: \<open>indirect\<close> points at the root pointer or at the \<open>next\<close> member of a
  node. The null pointer is \<open>0\<close>.
\<close>

section \<open>Indirect pointers\<close>

datatype slot = Root | Next nat

definition load_slot :: "nat \<Rightarrow> (nat \<rightharpoonup> nat) \<Rightarrow> slot \<Rightarrow> nat option" where
  "load_slot root f s = (case s of Root \<Rightarrow> Some root | Next a \<Rightarrow> f a)"

text \<open>\<open>while (*indirect) { if (stop(*indirect)) break; indirect = &(*indirect)->next; }\<close>\<close>

partial_function (option) find_slot ::
  "nat \<Rightarrow> (nat \<rightharpoonup> nat) \<Rightarrow> (nat \<Rightarrow> bool option) \<Rightarrow> slot \<Rightarrow> slot option" where
  "find_slot root f stop s = do {
     p \<leftarrow> load_slot root f s;
     if p = 0 then Some s
     else do {
       b \<leftarrow> stop p;
       if b then Some s else find_slot root f stop (Next p) } }"

section \<open>Chains\<close>

fun chain :: "(nat \<rightharpoonup> nat) \<Rightarrow> nat \<Rightarrow> nat list \<Rightarrow> bool" where
  "chain f p [] \<longleftrightarrow> p = 0"
| "chain f p (q # qs) \<longleftrightarrow> p = q \<and> q \<noteq> 0 \<and> (\<exists>n. f q = Some n \<and> chain f n qs)"

definition slot_after :: "slot \<Rightarrow> nat list \<Rightarrow> slot" where
  "slot_after s ps = (if ps = [] then s else Next (last ps))"

definition first_of :: "nat list \<Rightarrow> nat" where
  "first_of ps = (case ps of [] \<Rightarrow> 0 | p # _ \<Rightarrow> p)"

lemma slot_after_simps [simp]:
  "slot_after s [] = s" "slot_after s (p # ps) = slot_after (Next p) ps"
  by (auto simp: slot_after_def)

lemma first_of_simps [simp]: "first_of [] = 0" "first_of (p # ps) = p"
  by (simp_all add: first_of_def)

lemma chain_first: "chain f p ps \<Longrightarrow> p = first_of ps"
  by (cases ps) auto

lemma chain_dom: "chain f p ps \<Longrightarrow> set ps \<subseteq> dom f \<and> 0 \<notin> set ps"
  by (induction ps arbitrary: p) auto

lemma chain_off: "chain f p ps \<Longrightarrow> (\<And>q. q \<in> set ps \<Longrightarrow> g q = f q) \<Longrightarrow> chain g p ps"
  by (induction ps arbitrary: p) auto

lemma chain_suffix: "chain f p (as @ bs) \<Longrightarrow> \<exists>q. chain f q bs"
  by (induction as arbitrary: p) auto

lemma load_slot_after:
  assumes "load_slot root f s = Some p" "chain f p (as @ bs)"
  shows "load_slot root f (slot_after s as) = Some (first_of bs)"
  using assms
proof (induction as arbitrary: s p)
  case Nil
  then show ?case using chain_first by auto
next
  case (Cons a as)
  then obtain n where "f a = Some n" "chain f n (as @ bs)" by auto
  with Cons.IH [of "Next a" n] show ?case by (simp add: load_slot_def)
qed

lemma find_slot_after:
  assumes "load_slot root f s = Some p" "chain f p (as @ bs)"
    and "\<And>a. a \<in> set as \<Longrightarrow> stop a = Some False"
    and "bs \<noteq> [] \<Longrightarrow> stop (hd bs) = Some True"
  shows "find_slot root f stop s = Some (slot_after s as)"
  using assms
proof (induction as arbitrary: s p)
  case Nil
  then show ?case by (cases bs) (subst find_slot.simps, simp)+
next
  case (Cons a as)
  then obtain n where n: "f a = Some n" "chain f n (as @ bs)" "p = a" "a \<noteq> 0" by auto
  have "find_slot root f stop (Next a) = Some (slot_after (Next a) as)"
    by (rule Cons.IH [OF _ n(2)]) (use n Cons.prems in \<open>auto simp: load_slot_def\<close>)
  with Cons.prems n show ?case by (subst find_slot.simps) simp
qed

text \<open>A store through a slot replaces what follows it.\<close>

lemma chain_store_root: "chain f v xs \<Longrightarrow> chain f v ([] @ xs)"
  by simp

lemma chain_store_next:
  assumes "chain f p (as @ a # bs)" "a \<notin> set as" "chain f v xs" "a \<notin> set xs"
  shows "chain (f(a \<mapsto> v)) p ((as @ [a]) @ xs)"
  using assms(1,2)
proof (induction as arbitrary: p)
  case Nil
  have "chain (f(a \<mapsto> v)) v xs"
    by (rule chain_off [OF assms(3)]) (use assms(4) in auto)
  with Nil show ?case by (auto simp: fun_upd_def)
qed auto

end
