(* ===== verification/Rcu_Registry.thy ===== *)
theory Rcu_Registry
  imports Rcu_Read Spinlock Slist
begin

text \<open>
  The registry of the RCU, \<open>src/rcu/rcu.c\<close>: the \<open>mthpc_rcu_data\<close> objects on the list of
  \<open>mthpc_rcu_meta\<close>, the reader nodes on the list of each of them, registration and
  removal of nodes and of data objects, the thread-local node pointer, and the writer's call
  as it runs when no reader moves meanwhile (\<open>Rcu_Grace\<close> interleaves it with the readers).

  An address is a natural number and \<open>0\<close> is \<open>NULL\<close>. The address that \<open>malloc\<close> returns is an
  argument of the call (\<open>0\<close> when it fails). Every function walks its list with the lock
  held, so a call is one step.
\<close>

section \<open>The memory\<close>

record rcu_node =
  nid :: u64
  ngp :: u64 \<comment> \<open>\<open>gp_seq\<close>\<close>
  nnext :: nat
  ndata :: nat

record rcu_data =
  dlock :: spin
  dhead :: nat
  dtype :: u32
  dgp :: u64 \<comment> \<open>\<open>gp_seq\<close>\<close>
  dnext :: nat

record rcu_mem =
  nodes :: "nat \<rightharpoonup> rcu_node"
  datas :: "nat \<rightharpoonup> rcu_data"
  blocks :: "nat set" \<comment> \<open>data objects that are heap blocks of their own\<close>
  meta_head :: nat
  meta_lock :: spin
  node_ptr :: "u64 \<Rightarrow> nat" \<comment> \<open>\<open>mthpc_rcu_node_ptr\<close> of each thread\<close>
  warned :: nat \<comment> \<open>the number of warnings printed\<close>

definition MTHPC_RCU_USR :: u32 where
  "MTHPC_RCU_USR = 1"

definition usr_data :: nat where \<comment> \<open>the address of the static \<open>mthpc_rcu_data\<close>\<close>
  "usr_data = 1"

definition node_next :: "rcu_mem \<Rightarrow> nat \<rightharpoonup> nat" where
  "node_next m = (\<lambda>a. map_option nnext (nodes m a))"

definition data_next :: "rcu_mem \<Rightarrow> nat \<rightharpoonup> nat" where
  "data_next m = (\<lambda>a. map_option dnext (datas m a))"

definition warn :: "bool \<Rightarrow> rcu_mem \<Rightarrow> rcu_mem" where
  "warn b m = (if b then m\<lparr>warned := Suc (warned m)\<rparr> else m)"

lemma warn_simps [simp]:
  "nodes (warn b m) = nodes m" "datas (warn b m) = datas m" "blocks (warn b m) = blocks m"
  "meta_head (warn b m) = meta_head m" "meta_lock (warn b m) = meta_lock m"
  "node_ptr (warn b m) = node_ptr m" "warned (warn b m) = (if b then Suc (warned m) else warned m)"
  by (simp_all add: warn_def)

definition upd_data :: "nat \<Rightarrow> (rcu_data \<Rightarrow> rcu_data option) \<Rightarrow> rcu_mem \<Rightarrow> rcu_mem option" where
  "upd_data d f m = do {
     r \<leftarrow> datas m d;
     r \<leftarrow> f r;
     Some (m\<lparr>datas := (datas m)(d \<mapsto> r)\<rparr>) }"

definition lock_data :: "nat \<Rightarrow> rcu_mem \<Rightarrow> rcu_mem option" where
  "lock_data d = upd_data d (\<lambda>r. do { l \<leftarrow> spin_lock (dlock r); Some (r\<lparr>dlock := l\<rparr>) })"

definition unlock_data :: "nat \<Rightarrow> rcu_mem \<Rightarrow> rcu_mem option" where
  "unlock_data d = upd_data d (\<lambda>r. do { l \<leftarrow> spin_unlock (dlock r); Some (r\<lparr>dlock := l\<rparr>) })"

definition lock_meta :: "rcu_mem \<Rightarrow> rcu_mem option" where
  "lock_meta m = do { l \<leftarrow> spin_lock (meta_lock m); Some (m\<lparr>meta_lock := l\<rparr>) }"

definition unlock_meta :: "rcu_mem \<Rightarrow> rcu_mem option" where
  "unlock_meta m = do { l \<leftarrow> spin_unlock (meta_lock m); Some (m\<lparr>meta_lock := l\<rparr>) }"

definition free_node :: "nat \<Rightarrow> rcu_mem \<Rightarrow> rcu_mem option" where
  "free_node a m = do { _ \<leftarrow> nodes m a; Some (m\<lparr>nodes := (nodes m)(a := None)\<rparr>) }"

text \<open>\<open>free(data)\<close> is undefined unless the object is a heap block of its own.\<close>

definition free_data :: "nat \<Rightarrow> rcu_mem \<Rightarrow> rcu_mem option" where
  "free_data d m = do {
     _ \<leftarrow> guard_opt (d \<in> blocks m);
     Some (m\<lparr>datas := (datas m)(d := None), blocks := blocks m - {d}\<rparr>) }"

text \<open>\<open>*indirect\<close> and its assignment, for the list of nodes of \<open>d\<close>.\<close>

definition node_slot :: "nat \<Rightarrow> slot \<Rightarrow> rcu_mem \<Rightarrow> nat option" where
  "node_slot d s m = do { r \<leftarrow> datas m d; load_slot (dhead r) (node_next m) s }"

definition set_node_slot :: "nat \<Rightarrow> slot \<Rightarrow> nat \<Rightarrow> rcu_mem \<Rightarrow> rcu_mem option" where
  "set_node_slot d s v m = (case s of
     Root \<Rightarrow> upd_data d (\<lambda>r. Some (r\<lparr>dhead := v\<rparr>)) m
   | Next a \<Rightarrow> do { n \<leftarrow> nodes m a; Some (m\<lparr>nodes := (nodes m)(a \<mapsto> n\<lparr>nnext := v\<rparr>)\<rparr>) })"

definition find_node :: "nat \<Rightarrow> u64 \<Rightarrow> rcu_mem \<Rightarrow> slot option" where
  "find_node d i m = do {
     r \<leftarrow> datas m d;
     find_slot (dhead r) (node_next m) (\<lambda>p. map_option (\<lambda>n. nid n = i) (nodes m p)) Root }"

section \<open>Registration of a node\<close>

text \<open>
  The second component is what the call stores to \<open>*rev\<close>, if it stores. The parameter \<open>id\<close>
  is an \<open>unsigned int\<close>, the member an \<open>unsigned long\<close>.
\<close>

definition mthpc_rcu_add :: "nat \<Rightarrow> nat \<Rightarrow> u32 \<Rightarrow> rcu_mem \<Rightarrow> (rcu_mem \<times> nat option) option" where
  "mthpc_rcu_add node data i m = (if node = 0 then Some (warn True m, None) else do {
     let m = m\<lparr>nodes := (nodes m)(node \<mapsto>
       \<lparr>nid = ucast i, ngp = 0, nnext = 0, ndata = data\<rparr>)\<rparr>;
     m \<leftarrow> lock_data data m;
     s \<leftarrow> find_node data (ucast i) m;
     p \<leftarrow> node_slot data s m;
     if p \<noteq> 0 then do {
       m \<leftarrow> unlock_data data m;
       m \<leftarrow> free_node node m;
       let m = warn True m;
       p \<leftarrow> node_slot data s m;
       Some (m, Some p) }
     else do {
       m \<leftarrow> set_node_slot data s node m;
       m \<leftarrow> unlock_data data m;
       Some (m, Some node) } })"

definition mthpc_rcu_del :: "nat \<Rightarrow> u32 \<Rightarrow> nat \<Rightarrow> rcu_mem \<Rightarrow> rcu_mem option" where
  "mthpc_rcu_del data i node m = do {
     m \<leftarrow> lock_data data m;
     s \<leftarrow> find_node data (ucast i) m;
     target \<leftarrow> node_slot data s m;
     if target \<noteq> 0 then do {
       let m = warn (node \<noteq> 0 \<and> target \<noteq> node) m;
       n \<leftarrow> nodes m target;
       m \<leftarrow> set_node_slot data s (nnext n) m;
       m \<leftarrow> unlock_data data m;
       free_node target m }
     else do {
       m \<leftarrow> unlock_data data m;
       Some (warn True m) } }"

text \<open>The thread whose \<open>pthread_self()\<close> is \<open>self\<close>; the argument narrows to 32 bits.\<close>

definition mthpc_rcu_thread_init :: "nat \<Rightarrow> u64 \<Rightarrow> rcu_mem \<Rightarrow> rcu_mem option" where
  "mthpc_rcu_thread_init node self m = (if node_ptr m self \<noteq> 0 then Some m else do {
     (m, rev) \<leftarrow> mthpc_rcu_add node usr_data (ucast self) m;
     Some (case rev of None \<Rightarrow> m | Some p \<Rightarrow> m\<lparr>node_ptr := (node_ptr m)(self := p)\<rparr>) })"

definition mthpc_rcu_thread_exit :: "u64 \<Rightarrow> rcu_mem \<Rightarrow> rcu_mem option" where
  "mthpc_rcu_thread_exit self m = (if node_ptr m self = 0 then Some m else do {
     m \<leftarrow> mthpc_rcu_del usr_data (ucast self) (node_ptr m self) m;
     Some (m\<lparr>node_ptr := (node_ptr m)(self := 0)\<rparr>) })"

section \<open>The read side on a node\<close>

definition upd_node_gp :: "nat \<Rightarrow> (u64 \<Rightarrow> u64) \<Rightarrow> rcu_mem \<Rightarrow> rcu_mem option" where
  "upd_node_gp a f m = do {
     n \<leftarrow> nodes m a;
     Some (m\<lparr>nodes := (nodes m)(a \<mapsto> n\<lparr>ngp := f (ngp n)\<rparr>)\<rparr>) }"

definition mthpc_rcu_read_lock_internal :: "nat \<Rightarrow> rcu_mem \<Rightarrow> rcu_mem option" where
  "mthpc_rcu_read_lock_internal node m = do {
     n \<leftarrow> nodes m node;
     if \<not> gp_active (ngp n) then do {
       r \<leftarrow> datas m (ndata n);
       upd_node_gp node (read_lock_gp (dgp r)) m }
     else upd_node_gp node (\<lambda>g. g + MTHPC_GP_COUNT) m }"

definition mthpc_rcu_read_unlock_internal :: "nat \<Rightarrow> rcu_mem \<Rightarrow> rcu_mem option" where
  "mthpc_rcu_read_unlock_internal node m = upd_node_gp node read_unlock_gp m"

definition mthpc_rcu_read_lock :: "nat \<Rightarrow> u64 \<Rightarrow> rcu_mem \<Rightarrow> rcu_mem option" where
  "mthpc_rcu_read_lock fresh self m = do {
     m \<leftarrow> (if node_ptr m self = 0 then mthpc_rcu_thread_init fresh self m else Some m);
     mthpc_rcu_read_lock_internal (node_ptr m self) m }"

definition mthpc_rcu_read_unlock :: "u64 \<Rightarrow> rcu_mem \<Rightarrow> rcu_mem option" where
  "mthpc_rcu_read_unlock self m = mthpc_rcu_read_unlock_internal (node_ptr m self) m"

section \<open>The writer, when no reader moves\<close>

text \<open>
  \<open>mthpc_wait_for_readers\<close>: the poll of a node that does not pass never ends.
\<close>

partial_function (option) mthpc_wait_for_readers :: "nat \<Rightarrow> u64 \<Rightarrow> rcu_mem \<Rightarrow> unit option" where
  "mthpc_wait_for_readers node gp_seq m = (if node = 0 then Some () else do {
     n \<leftarrow> nodes m node;
     if \<not> gp_active (ngp n) \<or> gp_other_phase (ngp n) gp_seq
     then mthpc_wait_for_readers (nnext n) gp_seq m
     else mthpc_wait_for_readers node gp_seq m })"

definition mthpc_synchronize_rcu_internal :: "nat \<Rightarrow> rcu_mem \<Rightarrow> rcu_mem option" where
  "mthpc_synchronize_rcu_internal data m = do {
     m \<leftarrow> lock_data data m;
     r \<leftarrow> datas m data;
     let curr_gp = dgp r;
     _ \<leftarrow> mthpc_wait_for_readers (dhead r) curr_gp m;
     m \<leftarrow> upd_data data (\<lambda>r. Some (r\<lparr>dgp := next_gp (dgp r)\<rparr>)) m;
     r \<leftarrow> datas m data;
     _ \<leftarrow> mthpc_wait_for_readers (dhead r) curr_gp m;
     unlock_data data m }"

definition mthpc_synchronize_rcu :: "rcu_mem \<Rightarrow> rcu_mem option" where
  "mthpc_synchronize_rcu = mthpc_synchronize_rcu_internal usr_data"

partial_function (option) synchronize_from :: "nat \<Rightarrow> rcu_mem \<Rightarrow> rcu_mem option" where
  "synchronize_from data m = (if data = 0 then Some m else do {
     m \<leftarrow> mthpc_synchronize_rcu_internal data m;
     r \<leftarrow> datas m data;
     synchronize_from (dnext r) m })"

definition mthpc_synchronize_rcu_all :: "rcu_mem \<Rightarrow> rcu_mem option" where
  "mthpc_synchronize_rcu_all m = do {
     m \<leftarrow> lock_meta m;
     m \<leftarrow> synchronize_from (meta_head m) m;
     unlock_meta m }"

section \<open>Data objects\<close>

text \<open>The object may be fresh memory, so nothing is read from it.\<close>

definition mthpc_rcu_data_init :: "nat \<Rightarrow> u32 \<Rightarrow> rcu_mem \<Rightarrow> rcu_mem option" where
  "mthpc_rcu_data_init data type m = do {
     m \<leftarrow> lock_meta m;
     let m = m\<lparr>datas := (datas m)(data \<mapsto> \<lparr>dlock = spin_lock_init, dhead = 0, dtype = type,
       dgp = MTHPC_GP_COUNT, dnext = meta_head m\<rparr>), meta_head := data\<rparr>;
     unlock_meta m }"

partial_function (option) free_nodes :: "nat \<Rightarrow> rcu_mem \<Rightarrow> rcu_mem option" where
  "free_nodes node m = (if node = 0 then Some m else do {
     n \<leftarrow> nodes m node;
     m \<leftarrow> free_node node m;
     free_nodes (nnext n) m })"

definition set_data_slot :: "slot \<Rightarrow> nat \<Rightarrow> rcu_mem \<Rightarrow> rcu_mem option" where
  "set_data_slot s v m = (case s of
     Root \<Rightarrow> Some (m\<lparr>meta_head := v\<rparr>)
   | Next a \<Rightarrow> upd_data a (\<lambda>r. Some (r\<lparr>dnext := v\<rparr>)) m)"

text \<open>The loop of the exit that takes \<open>data\<close> off the list of \<open>mthpc_rcu_meta\<close>.\<close>

definition unlink_data :: "nat \<Rightarrow> rcu_mem \<Rightarrow> rcu_mem option" where
  "unlink_data data m = do {
     s \<leftarrow> find_slot (meta_head m) (data_next m) (\<lambda>p. Some (p = data)) Root;
     p \<leftarrow> load_slot (meta_head m) (data_next m) s;
     if p = data then do { r \<leftarrow> datas m p; set_data_slot s (dnext r) m } else Some m }"

definition rcu_data_exit :: "nat \<Rightarrow> bool \<Rightarrow> rcu_mem \<Rightarrow> rcu_mem option" where
  "rcu_data_exit data is_static m = do {
     m \<leftarrow> lock_data data m;
     r \<leftarrow> datas m data;
     m \<leftarrow> free_nodes (dhead r) m;
     m \<leftarrow> upd_data data (\<lambda>r. Some (r\<lparr>dhead := 0\<rparr>)) m;
     m \<leftarrow> unlock_data data m;
     m \<leftarrow> upd_data data (\<lambda>r. do { l \<leftarrow> spin_lock_destroy (dlock r); Some (r\<lparr>dlock := l\<rparr>) }) m;
     m \<leftarrow> lock_meta m;
     m \<leftarrow> unlink_data data m;
     m \<leftarrow> unlock_meta m;
     if \<not> is_static then free_data data m else Some m }"

definition mthpc_rcu_data_exit :: "nat \<Rightarrow> rcu_mem \<Rightarrow> rcu_mem option" where
  "mthpc_rcu_data_exit data = rcu_data_exit data False"

definition mthpc_rcu_init :: "rcu_mem \<Rightarrow> rcu_mem option" where
  "mthpc_rcu_init m =
     mthpc_rcu_data_init usr_data MTHPC_RCU_USR (m\<lparr>meta_head := 0, meta_lock := spin_lock_init\<rparr>)"

definition mthpc_rcu_exit :: "rcu_mem \<Rightarrow> rcu_mem option" where
  "mthpc_rcu_exit m = do {
     m \<leftarrow> mthpc_synchronize_rcu_all m;
     m \<leftarrow> rcu_data_exit usr_data True m;
     l \<leftarrow> spin_lock_destroy (meta_lock m);
     Some (m\<lparr>meta_lock := l\<rparr>) }"

section \<open>The list of a data object\<close>

definition on_list :: "(nat \<rightharpoonup> rcu_node) \<Rightarrow> nat \<Rightarrow> nat \<Rightarrow> nat list \<Rightarrow> bool" where
  "on_list N d p ps \<longleftrightarrow> chain (\<lambda>a. map_option nnext (N a)) p ps \<and>
     distinct (map (\<lambda>a. nid (the (N a))) ps) \<and> (\<forall>a\<in>set ps. \<exists>n. N a = Some n \<and> ndata n = d)"

text \<open>The object \<open>d\<close> is unlocked and its list is the nodes \<open>ps\<close>, with distinct ids.\<close>

definition registry :: "rcu_mem \<Rightarrow> nat \<Rightarrow> nat list \<Rightarrow> bool" where
  "registry m d ps \<longleftrightarrow>
     (\<exists>r. datas m d = Some r \<and> dlock r = Unlocked \<and> on_list (nodes m) d (dhead r) ps)"

text \<open>The abstract registry: a map from ids to nodes.\<close>

definition rcu_lookup :: "nat \<Rightarrow> rcu_mem \<Rightarrow> u64 \<rightharpoonup> nat" where
  "rcu_lookup d m i = do {
     s \<leftarrow> find_node d i m;
     p \<leftarrow> node_slot d s m;
     if p = 0 then None else Some p }"

definition id_map :: "(nat \<rightharpoonup> rcu_node) \<Rightarrow> nat list \<Rightarrow> u64 \<rightharpoonup> nat" where
  "id_map N ps = map_of (map (\<lambda>a. (nid (the (N a)), a)) ps)"

lemma on_list_dom:
  assumes "on_list N d p ps"
  shows "set ps \<subseteq> dom N \<and> 0 \<notin> set ps \<and> distinct ps"
proof -
  have "chain (\<lambda>a. map_option nnext (N a)) p ps" "distinct (map (\<lambda>a. nid (the (N a))) ps)"
    "\<forall>a\<in>set ps. \<exists>n. N a = Some n"
    using assms by (simp_all add: on_list_def) blast
  then show ?thesis
    using chain_dom [of "\<lambda>a. map_option nnext (N a)" p ps] by (auto simp: distinct_map)
qed

lemma on_list_suffix:
  assumes "on_list N d p (as @ bs)"
  shows "on_list N d (first_of bs) bs"
proof -
  obtain q where "chain (\<lambda>a. map_option nnext (N a)) q bs"
    using assms chain_suffix unfolding on_list_def by blast
  with chain_first [OF this] assms show ?thesis
    unfolding on_list_def map_append distinct_append set_append by blast
qed

lemma on_list_first: "on_list N d p ps \<Longrightarrow> p = first_of ps"
  unfolding on_list_def using chain_first by blast

lemma on_list_off:
  assumes "on_list N d p ps" "\<And>a. a \<in> set ps \<Longrightarrow> N' a = N a"
  shows "on_list N' d p ps"
proof -
  have "map (\<lambda>a. nid (the (N' a))) ps = map (\<lambda>a. nid (the (N a))) ps"
    using assms(2) by simp
  moreover have "chain (\<lambda>a. map_option nnext (N' a)) p ps"
    by (rule chain_off [of "\<lambda>a. map_option nnext (N a)"]) (use assms in \<open>auto simp: on_list_def\<close>)
  ultimately show ?thesis
    using assms unfolding on_list_def by metis
qed

lemma id_map_None: "id_map N ps i = None \<longleftrightarrow> (\<forall>a\<in>set ps. nid (the (N a)) \<noteq> i)"
  by (force simp: id_map_def map_of_eq_None_iff)

lemma id_map_split:
  assumes "id_map N ps i = Some q"
  obtains as bs where "ps = as @ q # bs" "nid (the (N q)) = i" "\<forall>a\<in>set as. nid (the (N a)) \<noteq> i"
proof -
  have "\<exists>as bs. ps = as @ q # bs \<and> nid (the (N q)) = i \<and> (\<forall>a\<in>set as. nid (the (N a)) \<noteq> i)"
    using assms
  proof (induction ps)
    case (Cons a ps)
    show ?case
    proof (cases "nid (the (N a)) = i")
      case True
      with Cons.prems have "a # ps = [] @ q # ps \<and> nid (the (N q)) = i" by (simp add: id_map_def)
      then show ?thesis by fastforce
    next
      case False
      with Cons.prems have "id_map N ps i = Some q" by (simp add: id_map_def)
      with Cons.IH obtain as bs where "ps = as @ q # bs" "nid (the (N q)) = i"
        "\<forall>a\<in>set as. nid (the (N a)) \<noteq> i" by blast
      with False have "a # ps = (a # as) @ q # bs \<and> (\<forall>a\<in>set (a # as). nid (the (N a)) \<noteq> i)"
        by simp
      with \<open>nid (the (N q)) = i\<close> show ?thesis by blast
    qed
  qed (simp add: id_map_def)
  with that show ?thesis by blast
qed

lemma find_node_on:
  assumes "on_list (nodes m) d (dhead r) (as @ bs)" "datas m d = Some r"
    and "\<forall>a\<in>set as. nid (the (nodes m a)) \<noteq> i"
    and "bs \<noteq> [] \<Longrightarrow> nid (the (nodes m (hd bs))) = i"
  shows "find_node d i m = Some (slot_after Root as)"
    and "node_slot d (slot_after Root as) m = Some (first_of bs)"
proof -
  have c: "chain (node_next m) (dhead r) (as @ bs)"
    using assms(1) by (simp add: on_list_def node_next_def)
  have n: "\<exists>n. nodes m a = Some n" if "a \<in> set (as @ bs)" for a
    using assms(1) that by (auto simp: on_list_def)
  have "find_slot (dhead r) (node_next m) (\<lambda>p. map_option (\<lambda>n. nid n = i) (nodes m p)) Root =
    Some (slot_after Root as)"
  proof (rule find_slot_after [OF _ c])
    show "map_option (\<lambda>n. nid n = i) (nodes m a) = Some False" if "a \<in> set as" for a
      using n [of a] assms(3) that by auto
    show "map_option (\<lambda>n. nid n = i) (nodes m (hd bs)) = Some True" if "bs \<noteq> []"
      using n [of "hd bs"] assms(4) that by auto
  qed (simp add: load_slot_def)
  then show "find_node d i m = Some (slot_after Root as)"
    using assms(2) by (simp add: find_node_def)
  show "node_slot d (slot_after Root as) m = Some (first_of bs)"
    using load_slot_after [OF _ c, of _ Root] assms(2) by (simp add: node_slot_def load_slot_def)
qed

lemma rcu_lookup_map:
  assumes "registry m d ps"
  shows "rcu_lookup d m = id_map (nodes m) ps"
proof
  fix i
  obtain r where r: "datas m d = Some r" "on_list (nodes m) d (dhead r) ps"
    using assms by (auto simp: registry_def)
  show "rcu_lookup d m i = id_map (nodes m) ps i"
  proof (cases "id_map (nodes m) ps i")
    case None
    then show ?thesis
      using find_node_on [of m d r ps "[]" i] r None [unfolded id_map_None] by (simp add: rcu_lookup_def None)
  next
    case (Some q)
    then obtain as bs where s: "ps = as @ q # bs" "nid (the (nodes m q)) = i"
      "\<forall>a\<in>set as. nid (the (nodes m a)) \<noteq> i" by (rule id_map_split)
    moreover have "q \<noteq> 0" using on_list_dom [OF r(2)] s(1) by auto
    ultimately show ?thesis
      using find_node_on [of m d r as "q # bs" i] r Some by (simp add: rcu_lookup_def)
  qed
qed

text \<open>A store through the slot after \<open>as\<close>.\<close>

lemma set_node_slot_on:
  assumes o: "on_list (nodes m) d (dhead r) (as @ bs)" and r: "datas m d = Some r"
    and xs: "on_list (nodes m) d v xs"
    and dj: "distinct (map (\<lambda>a. nid (the (nodes m a))) (as @ xs))"
  obtains N' p' where
    "set_node_slot d (slot_after Root as) v m =
       Some (m\<lparr>datas := (datas m)(d \<mapsto> r\<lparr>dhead := p'\<rparr>), nodes := N'\<rparr>)"
    "on_list N' d p' (as @ xs)" "\<And>a. map_option nid (N' a) = map_option nid (nodes m a)"
    "\<And>a. map_option ngp (N' a) = map_option ngp (nodes m a)"
    "\<And>a. a \<notin> set as \<Longrightarrow> N' a = nodes m a"
proof (cases as rule: rev_cases)
  case Nil
  show ?thesis
    by (rule that [of "nodes m" v]) (use Nil r xs in \<open>simp_all add: set_node_slot_def upd_data_def\<close>)
next
  case (snoc cs c)
  obtain n where n: "nodes m c = Some n" "ndata n = d"
    using o snoc by (auto simp: on_list_def)
  let ?N = "(nodes m)(c \<mapsto> n\<lparr>nnext := v\<rparr>)"
  have nxt: "(\<lambda>a. map_option nnext (?N a)) = (\<lambda>a. map_option nnext (nodes m a))(c \<mapsto> v)"
    by (auto intro!: ext)
  have ids: "nid (the (?N a)) = nid (the (nodes m a))" for a
    using n(1) by simp
  have d: "c \<notin> set cs" "c \<notin> set xs"
    using dj [unfolded distinct_map] snoc by auto
  have "chain (\<lambda>a. map_option nnext (?N a)) (dhead r) ((cs @ [c]) @ xs)"
    unfolding nxt
  proof (rule chain_store_next)
    show "chain (\<lambda>a. map_option nnext (nodes m a)) (dhead r) (cs @ c # bs)"
      using o snoc by (simp add: on_list_def)
  qed (use d xs in \<open>auto simp: on_list_def\<close>)
  then have "on_list ?N d (dhead r) (as @ xs)"
    using o xs dj n snoc unfolding on_list_def ids by auto
  moreover have "set_node_slot d (slot_after Root as) v m =
    Some (m\<lparr>datas := (datas m)(d \<mapsto> r\<lparr>dhead := dhead r\<rparr>), nodes := ?N\<rparr>)"
    using snoc n r by (simp add: set_node_slot_def slot_after_def fun_upd_idem)
  ultimately show ?thesis
    by (intro that [of ?N "dhead r"]) (use n snoc in auto)
qed

end
