(* ===== verification/Rcu_Register.thy ===== *)
theory Rcu_Register
  imports Rcu_Registry
begin

text \<open>
  What \<open>mthpc_rcu_add\<close> and \<open>mthpc_rcu_del\<close> of \<open>src/rcu/rcu.c\<close> promise to their clients (the
  threads of \<open>rcu.c\<close> itself and the safe pointers): the nodes of a data object are a map
  from ids to nodes, an insertion keeps an existing entry, a removal clears it, and the
  lock is free again on every path.
\<close>

section \<open>Insertion and removal\<close>

lemma map_of_snoc_new: "k \<notin> fst ` set xs \<Longrightarrow> map_of (xs @ [(k, v)]) = (map_of xs)(k \<mapsto> v)"
  by (induction xs) (auto intro!: ext)

lemma map_of_remove_mid:
  "k \<notin> fst ` set (xs @ ys) \<Longrightarrow> map_of (xs @ ys) = (map_of (xs @ (k, v) # ys))(k := None)"
proof (induction xs)
  case Nil
  then have "map_of ys k = None" by (simp add: map_of_eq_None_iff)
  then show ?case by (auto intro!: ext)
qed (auto intro!: ext dest: fun_cong)

lemma distinct_map_mid: "distinct (map f (as @ q # bs)) \<Longrightarrow> b \<in> set (as @ bs) \<Longrightarrow> f b \<noteq> f q"
  by (auto simp: image_iff)

lemma on_list_mid:
  "on_list N d p (as @ q # bs) \<Longrightarrow> b \<in> set (as @ bs) \<Longrightarrow> nid (the (N b)) \<noteq> nid (the (N q))"
  unfolding on_list_def by (blast dest: distinct_map_mid [of "\<lambda>a. nid (the (N a))"])

lemma same_nid: "map_option nid x = map_option nid y \<Longrightarrow> y \<noteq> None \<Longrightarrow> nid (the x) = nid (the y)"
  by (cases x; cases y) auto

lemma id_map_cong:
  "(\<And>b. b \<in> set ps \<Longrightarrow> nid (the (N' b)) = nid (the (N b))) \<Longrightarrow> id_map N' ps = id_map N ps"
  unfolding id_map_def by (metis (no_types, lifting) map_cong)

lemma id_map_snoc:
  assumes "\<forall>b\<in>set ps. nid (the (N b)) \<noteq> i" "nid (the (N a)) = i"
  shows "id_map N (ps @ [a]) = (id_map N ps)(i \<mapsto> a)"
  unfolding id_map_def map_append list.map assms(2)
  by (rule map_of_snoc_new) (use assms(1) in force)

lemma id_map_remove:
  assumes "\<forall>b\<in>set (as @ bs). nid (the (N b)) \<noteq> i" "nid (the (N q)) = i"
  shows "id_map N (as @ bs) = (id_map N (as @ q # bs))(i := None)"
  unfolding id_map_def map_append list.map assms(2)
  by (rule map_of_remove_mid) (use assms(1) in force)

lemma lock_data_eq:
  "datas m d = Some r \<Longrightarrow> dlock r = Unlocked \<Longrightarrow>
   lock_data d m = Some (m\<lparr>datas := (datas m)(d \<mapsto> r\<lparr>dlock := Held\<rparr>)\<rparr>)"
  by (simp add: lock_data_def upd_data_def)

lemma unlock_data_eq:
  "datas m d = Some r \<Longrightarrow> dlock r = Held \<Longrightarrow>
   unlock_data d m = Some (m\<lparr>datas := (datas m)(d \<mapsto> r\<lparr>dlock := Unlocked\<rparr>)\<rparr>)"
  by (simp add: unlock_data_def upd_data_def)

lemma on_list_single:
  "N a = Some \<lparr>nid = i, ngp = g, nnext = 0, ndata = d\<rparr> \<Longrightarrow> a \<noteq> 0 \<Longrightarrow> on_list N d a [a]"
  by (simp add: on_list_def)

definition new_node :: "nat \<Rightarrow> u64 \<Rightarrow> rcu_node" where
  "new_node d i = \<lparr>nid = i, ngp = 0, nnext = 0, ndata = d\<rparr>"

text \<open>What a call may not change: every other node's contents, the meta list, the counters.\<close>

definition same_rest :: "nat \<Rightarrow> nat set \<Rightarrow> rcu_mem \<Rightarrow> rcu_mem \<Rightarrow> bool" where
  "same_rest d S m m' \<longleftrightarrow> meta_head m' = meta_head m \<and> meta_lock m' = meta_lock m \<and>
     node_ptr m' = node_ptr m \<and> blocks m' = blocks m \<and>
     (\<forall>e. e \<noteq> d \<longrightarrow> datas m' e = datas m e) \<and>
     (\<exists>r h. datas m d = Some r \<and> datas m' d = Some (r\<lparr>dhead := h\<rparr>)) \<and>
     (\<forall>a. a \<notin> S \<longrightarrow> nodes m' a = nodes m a)"

lemma rcu_add_new:
  assumes reg: "registry m d ps" and a: "a \<noteq> 0" "nodes m a = None"
    and new: "rcu_lookup d m (ucast i) = None"
  obtains m' where "mthpc_rcu_add a d i m = Some (m', Some a)" "registry m' d (ps @ [a])"
    "rcu_lookup d m' = (rcu_lookup d m)(ucast i \<mapsto> a)" "same_rest d (insert a (set ps)) m m'"
    "warned m' = warned m" "nodes m' a = Some (new_node d (ucast i))"
    "\<And>b. b \<noteq> a \<Longrightarrow> map_option ngp (nodes m' b) = map_option ngp (nodes m b)"
proof -
  obtain r where r: "datas m d = Some r" "dlock r = Unlocked" "on_list (nodes m) d (dhead r) ps"
    using reg by (auto simp: registry_def)
  let ?n = "new_node d (ucast i)"
  let ?r = "r\<lparr>dlock := Held\<rparr>"
  let ?m = "m\<lparr>nodes := (nodes m)(a \<mapsto> ?n), datas := (datas m)(d \<mapsto> ?r)\<rparr>"
  have as: "a \<notin> set ps" using on_list_dom [OF r(3)] a(2) by auto
  have ids: "nid (the (nodes m b)) \<noteq> ucast i" if "b \<in> set ps" for b
    using new rcu_lookup_map [OF reg] that by (simp add: id_map_None)
  have "on_list (nodes ?m) d (dhead r) ps"
    by (rule on_list_off [OF r(3)]) (use as in auto)
  then have o: "on_list (nodes ?m) d (dhead ?r) (ps @ [])" by simp
  have ids': "\<forall>b\<in>set ps. nid (the (nodes ?m b)) \<noteq> ucast i"
    using ids as by auto
  have m1: "datas ?m d = Some ?r" by simp
  have find: "find_node d (ucast i) ?m = Some (slot_after Root ps)"
    "node_slot d (slot_after Root ps) ?m = Some 0"
    using find_node_on [OF o m1 ids'] by simp_all
  have sing: "on_list (nodes ?m) d a [a]"
    by (rule on_list_single [of _ _ "ucast i" 0]) (use a in \<open>simp_all add: new_node_def\<close>)
  have dj: "distinct (map (\<lambda>b. nid (the (nodes ?m b))) (ps @ [a]))"
    using o ids' by (auto simp: on_list_def new_node_def)
  obtain N' p' where st: "set_node_slot d (slot_after Root ps) a ?m =
       Some (?m\<lparr>datas := (datas ?m)(d \<mapsto> ?r\<lparr>dhead := p'\<rparr>), nodes := N'\<rparr>)"
    and on: "on_list N' d p' (ps @ [a])"
    and nids: "\<And>b. map_option nid (N' b) = map_option nid (nodes ?m b)"
    and ngps: "\<And>b. map_option ngp (N' b) = map_option ngp (nodes ?m b)"
    and off: "\<And>b. b \<notin> set ps \<Longrightarrow> N' b = nodes ?m b"
    by (rule set_node_slot_on [OF o m1 sing dj], rule that)
  let ?m' = "m\<lparr>nodes := N', datas := (datas m)(d \<mapsto> r\<lparr>dhead := p'\<rparr>)\<rparr>"
  have rr: "r\<lparr>dhead := p', dlock := Unlocked\<rparr> = r\<lparr>dhead := p'\<rparr>" using r(2) by simp
  show ?thesis
  proof (rule that [of ?m'])
    show "mthpc_rcu_add a d i m = Some (?m', Some a)"
      using a r(1,2) find st unfolding new_node_def
      by (simp add: mthpc_rcu_add_def lock_data_eq unlock_data_eq rr)
    show reg': "registry ?m' d (ps @ [a])"
      using on r(2) by (simp add: registry_def)
    have nid_eq: "nid (the (N' b)) = nid (the (nodes m b))" if "b \<in> set ps" for b
    proof (rule same_nid)
      show "nodes m b \<noteq> None" using on_list_dom [OF r(3)] that by blast
      show "map_option nid (N' b) = map_option nid (nodes m b)" using nids [of b] that as by auto
    qed
    then have "id_map N' ps = id_map (nodes m) ps" by (rule id_map_cong)
    moreover have "id_map N' (ps @ [a]) = (id_map N' ps)(ucast i \<mapsto> a)"
      by (rule id_map_snoc) (use nid_eq ids off as in \<open>simp_all add: new_node_def\<close>)
    ultimately show "rcu_lookup d ?m' = (rcu_lookup d m)(ucast i \<mapsto> a)"
      by (simp add: rcu_lookup_map [OF reg'] rcu_lookup_map [OF reg])
    show "same_rest d (insert a (set ps)) m ?m'"
      using off r(1) by (auto simp: same_rest_def)
    show "map_option ngp (nodes ?m' b) = map_option ngp (nodes m b)" if "b \<noteq> a" for b
      using ngps [of b] that by simp
  qed (use off as in simp_all)
qed

lemma rcu_add_old:
  assumes reg: "registry m d ps" and a: "a \<noteq> 0" "nodes m a = None"
    and old: "rcu_lookup d m (ucast i) = Some q"
  shows "mthpc_rcu_add a d i m = Some (warn True m, Some q)"
proof -
  obtain r where r: "datas m d = Some r" "dlock r = Unlocked" "on_list (nodes m) d (dhead r) ps"
    using reg by (auto simp: registry_def)
  obtain as bs where s: "ps = as @ q # bs" "nid (the (nodes m q)) = ucast i"
    "\<forall>b\<in>set as. nid (the (nodes m b)) \<noteq> ucast i"
    using old rcu_lookup_map [OF reg] by (auto elim: id_map_split)
  have ap: "a \<notin> set ps" and q: "q \<noteq> 0" using on_list_dom [OF r(3)] a(2) s(1) by auto
  have find: "find_node d (ucast i) k = Some (slot_after Root as)"
      "node_slot d (slot_after Root as) k = Some q"
    if k: "datas k d = Some r'" "dhead r' = dhead r" "\<And>b. b \<noteq> a \<Longrightarrow> nodes k b = nodes m b" for k r'
  proof -
    have eq: "nodes k b = nodes m b" if "b \<in> set ps" for b
      using k(3) ap that by metis
    have "on_list (nodes k) d (dhead r) ps"
      by (rule on_list_off [OF r(3)]) (rule eq)
    then have o: "on_list (nodes k) d (dhead r') (as @ q # bs)" by (simp add: k(2) s(1))
    have "\<forall>b\<in>set as. nid (the (nodes k b)) \<noteq> ucast i" "nid (the (nodes k (hd (q # bs)))) = ucast i"
      using eq s by auto
    with find_node_on [OF o k(1), of "ucast i"]
    show "find_node d (ucast i) k = Some (slot_after Root as)"
      "node_slot d (slot_after Root as) k = Some q" by simp_all
  qed
  have "r\<lparr>dlock := Unlocked\<rparr> = r" using r(2) by simp
  with r have same: "(datas m)(d \<mapsto> r\<lparr>dlock := Unlocked\<rparr>) = datas m" by (simp add: fun_upd_idem)
  have undo: "(nodes m)(a := None) = nodes m" using a(2) by (simp add: fun_upd_idem)
  let ?n = "\<lparr>nid = ucast i, ngp = 0, nnext = 0, ndata = d\<rparr>"
  let ?m = "m\<lparr>nodes := (nodes m)(a \<mapsto> ?n), datas := (datas m)(d \<mapsto> r\<lparr>dlock := Held\<rparr>)\<rparr>"
  have f1: "find_node d (ucast i) ?m = Some (slot_after Root as)"
      "node_slot d (slot_after Root as) ?m = Some q"
    using find [of ?m "r\<lparr>dlock := Held\<rparr>"] by simp_all
  have f2: "node_slot d (slot_after Root as) (warn True m) = Some q"
    using find [of "warn True m" r] r(1) by (simp add: warn_def)
  show ?thesis
    using a q r(1,2) f1 f2 same undo
    by (simp add: mthpc_rcu_add_def lock_data_eq unlock_data_eq free_node_def warn_def)
qed

text \<open>Unlinking: \<open>*indirect\<close> is set to the next node, and the map of the ids loses one entry.\<close>

lemma rcu_unlink:
  assumes o: "on_list (nodes k) d (dhead r) (as @ q # bs)" and k: "datas k d = Some r" "nodes k q = Some n"
  obtains N p where "set_node_slot d (slot_after Root as) (nnext n) k =
      Some (k\<lparr>datas := (datas k)(d \<mapsto> r\<lparr>dhead := p\<rparr>), nodes := N\<rparr>)"
    "on_list (N(q := None)) d p (as @ bs)" "\<And>b. map_option ngp (N b) = map_option ngp (nodes k b)"
    "\<And>b. b \<notin> set as \<Longrightarrow> N b = nodes k b"
    "id_map (N(q := None)) (as @ bs) = (id_map (nodes k) (as @ q # bs))(nid n := None)"
proof -
  have q: "q \<notin> set (as @ bs)" using on_list_dom [OF o] by auto
  have ids: "nid (the (nodes k b)) \<noteq> nid n" if "b \<in> set (as @ bs)" for b
    using on_list_mid [OF o that] k(2) by simp
  have qb: "on_list (nodes k) d q (q # bs)" using on_list_suffix [OF o] by simp
  then have "nnext n = first_of bs" using k(2) chain_first by (auto simp: on_list_def)
  moreover have "on_list (nodes k) d (first_of bs) bs"
    using on_list_suffix [of "nodes k" d _ "[q]" bs] qb by simp
  ultimately have tail: "on_list (nodes k) d (nnext n) bs" by simp
  have dj: "distinct (map (\<lambda>b. nid (the (nodes k b))) (as @ bs))"
    using o by (auto simp: on_list_def)
  obtain N p where N: "set_node_slot d (slot_after Root as) (nnext n) k =
      Some (k\<lparr>datas := (datas k)(d \<mapsto> r\<lparr>dhead := p\<rparr>), nodes := N\<rparr>)"
    "on_list N d p (as @ bs)" "\<And>b. map_option nid (N b) = map_option nid (nodes k b)"
    "\<And>b. map_option ngp (N b) = map_option ngp (nodes k b)" "\<And>b. b \<notin> set as \<Longrightarrow> N b = nodes k b"
    by (rule set_node_slot_on [OF o k(1) tail dj], rule that)
  have "nid (the (N b)) = nid (the (nodes k b))" if "b \<in> set (as @ bs)" for b
    by (rule same_nid) (use on_list_dom [OF o] that N(3) [of b] in auto)
  then have "id_map (N(q := None)) (as @ bs) = id_map (nodes k) (as @ bs)"
    by (intro id_map_cong) (use q in auto)
  also have "\<dots> = (id_map (nodes k) (as @ q # bs))(nid n := None)"
    by (rule id_map_remove) (use ids k(2) in auto)
  finally have "id_map (N(q := None)) (as @ bs) = (id_map (nodes k) (as @ q # bs))(nid n := None)" .
  moreover have "on_list (N(q := None)) d p (as @ bs)"
    by (rule on_list_off [OF N(2)]) (use q in auto)
  ultimately show ?thesis using that N(1,4,5) by blast
qed

lemma rcu_del_found:
  assumes reg: "registry m d (as @ q # bs)" and i: "nid (the (nodes m q)) = ucast i"
  obtains m' where "mthpc_rcu_del d i node m = Some m'" "registry m' d (as @ bs)"
    "rcu_lookup d m' = (rcu_lookup d m)(ucast i := None)"
    "same_rest d (set (as @ q # bs)) m m'" "nodes m' q = None"
    "warned m' = (if node \<noteq> 0 \<and> q \<noteq> node then Suc (warned m) else warned m)"
    "\<And>b. b \<noteq> q \<Longrightarrow> map_option ngp (nodes m' b) = map_option ngp (nodes m b)"
proof -
  obtain r where r: "datas m d = Some r" "dlock r = Unlocked"
    "on_list (nodes m) d (dhead r) (as @ q # bs)"
    using reg by (auto simp: registry_def)
  obtain n where n: "nodes m q = Some n" "nid n = ucast i" using r(3) i by (auto simp: on_list_def)
  have dq: "q \<noteq> 0" "q \<notin> set (as @ bs)" using on_list_dom [OF r(3)] by auto
  have ids: "nid (the (nodes m b)) \<noteq> ucast i" if "b \<in> set (as @ bs)" for b
    using on_list_mid [OF r(3) that] i by simp
  let ?r = "r\<lparr>dlock := Held\<rparr>"
  obtain w where w: "(0 < node \<and> q \<noteq> node) = w" by simp
  let ?m = "warn w (m\<lparr>datas := (datas m)(d \<mapsto> ?r)\<rparr>)"
  have find: "find_node d (ucast i) (m\<lparr>datas := (datas m)(d \<mapsto> ?r)\<rparr>) = Some (slot_after Root as)"
    "node_slot d (slot_after Root as) (m\<lparr>datas := (datas m)(d \<mapsto> ?r)\<rparr>) = Some q"
    using find_node_on [of "m\<lparr>datas := (datas m)(d \<mapsto> ?r)\<rparr>" d ?r as "q # bs" "ucast i"] r(3) ids i
    by simp_all
  obtain N p where N: "set_node_slot d (slot_after Root as) (nnext n) ?m =
      Some (?m\<lparr>datas := (datas ?m)(d \<mapsto> ?r\<lparr>dhead := p\<rparr>), nodes := N\<rparr>)"
    "on_list (N(q := None)) d p (as @ bs)" "\<And>b. map_option ngp (N b) = map_option ngp (nodes ?m b)"
    "\<And>b. b \<notin> set as \<Longrightarrow> N b = nodes ?m b"
    "id_map (N(q := None)) (as @ bs) = (id_map (nodes ?m) (as @ q # bs))(nid n := None)"
    by (rule rcu_unlink [of ?m d ?r as q bs n]) (use r(3) n in \<open>auto intro: that\<close>)
  let ?m' = "warn w (m\<lparr>datas := (datas m)(d \<mapsto> r\<lparr>dhead := p\<rparr>), nodes := N(q := None)\<rparr>)"
  have rr: "r\<lparr>dhead := p, dlock := Unlocked\<rparr> = r\<lparr>dhead := p\<rparr>" using r(2) by simp
  have Nq: "N q = Some n" using N(4) [of q] dq(2) n by simp
  show ?thesis
  proof (rule that [of ?m'])
    show "mthpc_rcu_del d i node m = Some ?m'"
      using r(1,2) find N(1) n dq(1) Nq
      by (cases w) (simp_all add: mthpc_rcu_del_def lock_data_eq unlock_data_eq free_node_def w
          warn_def rr)
    show reg': "registry ?m' d (as @ bs)" using N(2) r(2) by (simp add: registry_def warn_def)
    show "rcu_lookup d ?m' = (rcu_lookup d m)(ucast i := None)"
      using N(5) n(2) by (simp add: rcu_lookup_map [OF reg'] rcu_lookup_map [OF reg])
    show "same_rest d (set (as @ q # bs)) m ?m'"
      using N(4) r(1) by (auto simp: same_rest_def warn_def)
    show "map_option ngp (nodes ?m' b) = map_option ngp (nodes m b)" if "b \<noteq> q" for b
      using N(3) [of b] that by simp
  qed (simp_all add: w)
qed

lemma rcu_del_missing:
  assumes reg: "registry m d ps" and none: "rcu_lookup d m (ucast i) = None"
  shows "mthpc_rcu_del d i node m = Some (warn True m)"
proof -
  obtain r where r: "datas m d = Some r" "dlock r = Unlocked" "on_list (nodes m) d (dhead r) ps"
    using reg by (auto simp: registry_def)
  let ?m = "m\<lparr>datas := (datas m)(d \<mapsto> r\<lparr>dlock := Held\<rparr>)\<rparr>"
  have "find_node d (ucast i) ?m = Some (slot_after Root ps)"
    "node_slot d (slot_after Root ps) ?m = Some 0"
    using find_node_on [of ?m d "r\<lparr>dlock := Held\<rparr>" ps "[]" "ucast i"] r none
      rcu_lookup_map [OF reg] by (simp_all add: id_map_None)
  moreover have "r\<lparr>dlock := Unlocked\<rparr> = r" using r(2) by simp
  ultimately show ?thesis
    using r by (simp add: mthpc_rcu_del_def lock_data_eq unlock_data_eq fun_upd_idem)
qed

section \<open>The interface of the registry\<close>

text \<open>
  What the clients of the registry rely on: \<open>add\<close> gives the node of an id, the new one or the
  one that is already there, and \<open>del\<close> clears the id; both return, and leave the registry usable.
\<close>

locale id_registry =
  fixes valid :: "'s \<Rightarrow> bool"
    and fresh :: "nat \<Rightarrow> 's \<Rightarrow> bool"
    and lookup :: "'s \<Rightarrow> u64 \<rightharpoonup> nat"
    and add :: "nat \<Rightarrow> u32 \<Rightarrow> 's \<Rightarrow> ('s \<times> nat option) option"
    and del :: "u32 \<Rightarrow> nat \<Rightarrow> 's \<Rightarrow> 's option"
  assumes add_law: "valid s \<Longrightarrow> fresh a s \<Longrightarrow> q = (case lookup s (ucast i) of None \<Rightarrow> a | Some q \<Rightarrow> q) \<Longrightarrow>
      \<exists>s'. add a i s = Some (s', Some q) \<and> valid s' \<and> lookup s' = (lookup s)(ucast i \<mapsto> q)"
    and del_law: "valid s \<Longrightarrow>
      \<exists>s'. del i p s = Some s' \<and> valid s' \<and> lookup s' = (lookup s)(ucast i := None)"
begin

lemma add_again:
  assumes "valid s" "fresh a s" "add a i s = Some (s1, r)" "fresh b s1"
  shows "\<exists>s2. add b i s1 = Some (s2, r) \<and> valid s2 \<and> lookup s2 = lookup s1"
proof -
  let ?q = "case lookup s (ucast i) of None \<Rightarrow> a | Some q \<Rightarrow> q"
  have s1: "valid s1" "lookup s1 = (lookup s)(ucast i \<mapsto> ?q)" "r = Some ?q"
    using add_law [OF assms(1,2) refl, of i] assms(3) by auto
  show ?thesis
    using add_law [OF s1(1) assms(4), of ?q i] s1 by (auto simp: fun_upd_idem)
qed

lemma add_del:
  assumes "valid s" "fresh a s" "lookup s (ucast i) = None"
  shows "\<exists>s1 s2. add a i s = Some (s1, Some a) \<and> del i p s1 = Some s2 \<and> valid s2 \<and>
    lookup s2 = lookup s"
proof -
  obtain s1 where s1: "add a i s = Some (s1, Some a)" "valid s1" "lookup s1 = (lookup s)(ucast i \<mapsto> a)"
    using add_law [OF assms(1,2), of a i] assms(3) by auto
  with del_law [OF s1(2), of i p] assms(3) show ?thesis by (auto simp: fun_upd_idem)
qed

end

definition registry_valid :: "nat \<Rightarrow> rcu_mem \<Rightarrow> bool" where
  "registry_valid d m \<longleftrightarrow> (\<exists>ps. registry m d ps)"

definition fresh_node :: "nat \<Rightarrow> rcu_mem \<Rightarrow> bool" where
  "fresh_node a m \<longleftrightarrow> a \<noteq> 0 \<and> nodes m a = None"

lemma registry_warn [simp]: "registry (warn b m) d ps = registry m d ps"
  by (simp add: registry_def)

lemma rcu_lookup_warn: "registry m d ps \<Longrightarrow> rcu_lookup d (warn b m) = rcu_lookup d m"
  using rcu_lookup_map [of m d ps] rcu_lookup_map [of "warn b m" d ps] by simp

lemma rcu_add_law:
  assumes "registry_valid d m" "fresh_node a m"
    and "q = (case rcu_lookup d m (ucast i) of None \<Rightarrow> a | Some q \<Rightarrow> q)"
  shows "\<exists>m'. mthpc_rcu_add a d i m = Some (m', Some q) \<and> registry_valid d m' \<and>
    rcu_lookup d m' = (rcu_lookup d m)(ucast i \<mapsto> q)"
proof -
  obtain ps where reg: "registry m d ps" using assms(1) by (auto simp: registry_valid_def)
  have a: "a \<noteq> 0" "nodes m a = None" using assms(2) by (simp_all add: fresh_node_def)
  show ?thesis
  proof (cases "rcu_lookup d m (ucast i)")
    case None
    from rcu_add_new [OF reg a None] obtain m' where
      "mthpc_rcu_add a d i m = Some (m', Some a)" "registry m' d (ps @ [a])"
      "rcu_lookup d m' = (rcu_lookup d m)(ucast i \<mapsto> a)" by metis
    with None assms(3) show ?thesis by (auto simp: registry_valid_def)
  next
    case (Some p)
    with rcu_add_old [OF reg a Some] reg assms(3) show ?thesis
      by (auto simp: registry_valid_def rcu_lookup_warn [OF reg] fun_upd_idem)
  qed
qed

lemma rcu_del_law:
  assumes "registry_valid d m"
  shows "\<exists>m'. mthpc_rcu_del d i node m = Some m' \<and> registry_valid d m' \<and>
    rcu_lookup d m' = (rcu_lookup d m)(ucast i := None)"
proof -
  obtain ps where reg: "registry m d ps" using assms by (auto simp: registry_valid_def)
  show ?thesis
  proof (cases "rcu_lookup d m (ucast i)")
    case None
    with rcu_del_missing [OF reg None] reg show ?thesis
      by (auto simp: registry_valid_def rcu_lookup_warn [OF reg] fun_upd_idem)
  next
    case (Some q)
    then obtain as bs where s: "ps = as @ q # bs" "nid (the (nodes m q)) = ucast i"
      using rcu_lookup_map [OF reg] by (metis id_map_split)
    from rcu_del_found [OF reg [unfolded s(1)] s(2)] obtain m' where
      "mthpc_rcu_del d i node m = Some m'" "registry m' d (as @ bs)"
      "rcu_lookup d m' = (rcu_lookup d m)(ucast i := None)" by metis
    then show ?thesis by (auto simp: registry_valid_def)
  qed
qed

interpretation reg: id_registry "registry_valid d" fresh_node "rcu_lookup d"
  "\<lambda>a. mthpc_rcu_add a d" "mthpc_rcu_del d" for d
  by unfold_locales (rule rcu_add_law rcu_del_law; assumption)+

end
