(* ===== verification/Rcu_Threads.thy ===== *)
theory Rcu_Threads
  imports Rcu_Register
begin

text \<open>
  The properties of the registry of \<open>src/rcu/rcu.c\<close> that threads see: what
  \<open>mthpc_rcu_add\<close> and \<open>mthpc_rcu_del\<close> do, and the session of a thread between
  \<open>mthpc_rcu_thread_init\<close> and \<open>mthpc_rcu_thread_exit\<close>.
\<close>

section \<open>An example memory\<close>

text \<open>The memory right after \<open>mthpc_rcu_init\<close>, for the witnesses.\<close>

definition rcu_mem0 :: rcu_mem where
  "rcu_mem0 = \<lparr>nodes = Map.empty, datas = Map.empty, blocks = {}, meta_head = 0,
     meta_lock = Unlocked, node_ptr = \<lambda>_. 0, warned = 0\<rparr>"

definition rcu_mem1 :: rcu_mem where
  "rcu_mem1 = rcu_mem0\<lparr>datas := [usr_data \<mapsto> \<lparr>dlock = Unlocked, dhead = 0, dtype = 1, dgp = 1,
     dnext = 0\<rparr>], meta_head := usr_data\<rparr>"

definition rcu_mem2 :: rcu_mem where
  "rcu_mem2 = rcu_mem0\<lparr>datas := [usr_data \<mapsto> \<lparr>dlock = Unlocked, dhead = 8, dtype = 1, dgp = 1,
     dnext = 0\<rparr>], nodes := [8 \<mapsto> new_node usr_data 3], meta_head := usr_data\<rparr>"

lemma registry_mem1: "registry rcu_mem1 usr_data []"
  by (simp add: registry_def rcu_mem1_def on_list_def)

lemma registry_mem2: "registry rcu_mem2 usr_data [8]"
  by (simp add: registry_def rcu_mem2_def on_list_def new_node_def)

lemma lookup_mem1: "rcu_lookup usr_data rcu_mem1 = Map.empty"
  by (simp add: rcu_lookup_map [OF registry_mem1] id_map_def)

lemma lookup_mem2: "rcu_lookup usr_data rcu_mem2 = [3 \<mapsto> 8]"
  unfolding rcu_lookup_map [OF registry_mem2] by (simp add: id_map_def rcu_mem2_def new_node_def)

lemma mem1_simps: "nodes rcu_mem1 = Map.empty" "node_ptr rcu_mem1 = (\<lambda>_. 0)"
  by (simp_all add: rcu_mem1_def rcu_mem0_def)

lemma mem1_valid: "registry_valid usr_data rcu_mem1" "a \<noteq> 0 \<Longrightarrow> fresh_node a rcu_mem1"
  using registry_mem1 by (auto simp: registry_valid_def fresh_node_def mem1_simps)

section \<open>Insertion and removal\<close>

text \<open>
  C29. \<open>mthpc_rcu_add\<close> implements the insertion into a map from ids to nodes: a
  new id is appended with an inactive node and returned, an id that exists is left alone and
  its node is returned with a warning; the lock is free on both paths.
\<close>

theorem rcu_add_refines_map:
  assumes "registry m d ps" "a \<noteq> 0" "nodes m a = None"
  shows "case rcu_lookup d m (ucast i) of
      None \<Rightarrow> \<exists>m'. mthpc_rcu_add a d i m = Some (m', Some a) \<and> registry m' d (ps @ [a]) \<and>
        rcu_lookup d m' = (rcu_lookup d m)(ucast i \<mapsto> a) \<and>
        nodes m' a = Some (new_node d (ucast i)) \<and> warned m' = warned m
    | Some q \<Rightarrow> mthpc_rcu_add a d i m = Some (warn True m, Some q)"
proof (cases "rcu_lookup d m (ucast i)")
  case None
  from rcu_add_new [OF assms None] show ?thesis unfolding None option.case by metis
next
  case (Some q)
  with rcu_add_old [OF assms Some] show ?thesis by simp
qed

lemma rcu_add_refines_map_witness:
  "(case rcu_lookup usr_data rcu_mem1 (ucast (3 :: u32)) of
      None \<Rightarrow> \<exists>m'. mthpc_rcu_add 8 usr_data 3 rcu_mem1 = Some (m', Some 8) \<and>
        registry m' usr_data ([] @ [8]) \<and>
        rcu_lookup usr_data m' = (rcu_lookup usr_data rcu_mem1)(ucast (3 :: u32) \<mapsto> 8) \<and>
        nodes m' 8 = Some (new_node usr_data (ucast (3 :: u32))) \<and> warned m' = warned rcu_mem1
    | Some q \<Rightarrow> mthpc_rcu_add 8 usr_data 3 rcu_mem1 = Some (warn True rcu_mem1, Some q))"
  by (rule rcu_add_refines_map [OF registry_mem1]) (simp_all add: rcu_mem1_def rcu_mem0_def)

text \<open>
  C30. \<open>mthpc_rcu_del\<close> implements the removal from the map: the node of the id is
  unlinked and freed, every other entry stays, a missing id or another node than the expected
  one only warns; the lock is free on both paths.
\<close>

theorem rcu_del_refines_map:
  assumes "registry m d ps"
  shows "case rcu_lookup d m (ucast i) of
      None \<Rightarrow> mthpc_rcu_del d i node m = Some (warn True m)
    | Some q \<Rightarrow> \<exists>m'. mthpc_rcu_del d i node m = Some m' \<and> registry m' d (remove1 q ps) \<and>
        rcu_lookup d m' = (rcu_lookup d m)(ucast i := None) \<and> nodes m' q = None \<and>
        warned m' = (if node \<noteq> 0 \<and> q \<noteq> node then Suc (warned m) else warned m)"
proof (cases "rcu_lookup d m (ucast i)")
  case None
  with rcu_del_missing [OF assms None] show ?thesis by simp
next
  case (Some q)
  then obtain as bs where s: "ps = as @ q # bs" "nid (the (nodes m q)) = ucast i"
    using rcu_lookup_map [OF assms] by (metis id_map_split)
  have "distinct ps" using assms on_list_dom by (auto simp: registry_def)
  then have r: "remove1 q ps = as @ bs" by (simp add: s(1) remove1_append)
  show ?thesis
    using rcu_del_found [OF assms [unfolded s(1)] s(2)] unfolding Some option.case r by metis
qed

lemma rcu_del_refines_map_witness:
  "(case rcu_lookup usr_data rcu_mem2 (ucast (3 :: u32)) of
      None \<Rightarrow> mthpc_rcu_del usr_data 3 8 rcu_mem2 = Some (warn True rcu_mem2)
    | Some q \<Rightarrow> \<exists>m'. mthpc_rcu_del usr_data 3 8 rcu_mem2 = Some m' \<and>
        registry m' usr_data (remove1 q [8]) \<and>
        rcu_lookup usr_data m' = (rcu_lookup usr_data rcu_mem2)(ucast (3 :: u32) := None) \<and>
        nodes m' q = None \<and>
        warned m' = (if (8::nat) \<noteq> 0 \<and> q \<noteq> 8 then Suc (warned rcu_mem2) else warned rcu_mem2))"
  by (rule rcu_del_refines_map [OF registry_mem2])

section \<open>The session of a thread\<close>

lemma rcu_lookup_node_ptr [simp]: "rcu_lookup d (m\<lparr>node_ptr := f\<rparr>) = rcu_lookup d m"
proof -
  have "node_next (m\<lparr>node_ptr := f\<rparr>) = node_next m" by (simp add: node_next_def)
  then show ?thesis by (auto simp: rcu_lookup_def find_node_def node_slot_def intro!: ext)
qed

lemma registry_node_ptr [simp]: "registry (m\<lparr>node_ptr := f\<rparr>) d ps = registry m d ps"
  by (simp add: registry_def)

lemma registry_valid_node_ptr [simp]: "registry_valid d (m\<lparr>node_ptr := f\<rparr>) = registry_valid d m"
  by (simp add: registry_valid_def)

lemma upd_data_node_ptr: "upd_data d f m = Some m' \<Longrightarrow> node_ptr m' = node_ptr m"
  by (auto simp: upd_data_def bind_Some_iff)

lemma set_node_slot_node_ptr: "set_node_slot d s v m = Some m' \<Longrightarrow> node_ptr m' = node_ptr m"
  by (auto simp: set_node_slot_def bind_Some_iff upd_data_node_ptr split: slot.splits)

lemma free_node_node_ptr: "free_node a m = Some m' \<Longrightarrow> node_ptr m' = node_ptr m"
  by (auto simp: free_node_def bind_Some_iff)

lemmas node_ptr_kept = upd_data_node_ptr set_node_slot_node_ptr free_node_node_ptr

lemma rcu_add_node_ptr: "mthpc_rcu_add a d i m = Some (m', r) \<Longrightarrow> node_ptr m' = node_ptr m"
  by (auto simp: mthpc_rcu_add_def bind_Some_iff lock_data_def unlock_data_def Let_def
      dest!: node_ptr_kept split: if_splits)

lemma rcu_del_node_ptr: "mthpc_rcu_del d i a m = Some m' \<Longrightarrow> node_ptr m' = node_ptr m"
  by (auto simp: mthpc_rcu_del_def bind_Some_iff lock_data_def unlock_data_def Let_def
      dest!: node_ptr_kept split: if_splits)

lemma thread_init_done:
  assumes "registry_valid usr_data m" "fresh_node a m" "node_ptr m self = 0"
    and "q = (case rcu_lookup usr_data m (ucast (ucast self :: u32)) of None \<Rightarrow> a | Some q \<Rightarrow> q)"
  obtains m1 where "mthpc_rcu_thread_init a self m = Some (m1\<lparr>node_ptr := (node_ptr m)(self := q)\<rparr>)"
    "mthpc_rcu_add a usr_data (ucast self) m = Some (m1, Some q)" "registry_valid usr_data m1"
    "rcu_lookup usr_data m1 = (rcu_lookup usr_data m)(ucast (ucast self :: u32) \<mapsto> q)"
    "node_ptr m1 = node_ptr m"
proof -
  from reg.add_law [OF assms(1,2,4)] obtain m1 where m1:
    "mthpc_rcu_add a usr_data (ucast self) m = Some (m1, Some q)" "registry_valid usr_data m1"
    "rcu_lookup usr_data m1 = (rcu_lookup usr_data m)(ucast (ucast self :: u32) \<mapsto> q)" by blast
  with that [OF _ m1 rcu_add_node_ptr [OF m1(1)]] assms(3) show ?thesis
    by (simp add: mthpc_rcu_thread_init_def rcu_add_node_ptr [OF m1(1)])
qed

text \<open>
  C31. A thread session: \<open>mthpc_rcu_thread_init\<close> registers the thread once however
  often it is called, \<open>mthpc_rcu_thread_exit\<close> restores the registry and the
  thread-local pointer, and a second exit changes nothing.
\<close>

theorem thread_session:
  assumes "registry_valid usr_data m" "fresh_node a m" "node_ptr m self = 0"
    and "rcu_lookup usr_data m (ucast (ucast self :: u32)) = None"
  shows "\<exists>m1 m2. mthpc_rcu_thread_init a self m = Some m1 \<and> node_ptr m1 = (node_ptr m)(self := a) \<and>
    rcu_lookup usr_data m1 = (rcu_lookup usr_data m)(ucast (ucast self :: u32) \<mapsto> a) \<and>
    mthpc_rcu_thread_init b self m1 = Some m1 \<and>
    mthpc_rcu_thread_exit self m1 = Some m2 \<and> node_ptr m2 = node_ptr m \<and>
    rcu_lookup usr_data m2 = rcu_lookup usr_data m \<and> registry_valid usr_data m2 \<and>
    mthpc_rcu_thread_exit self m2 = Some m2"
proof -
  have a: "a = (case rcu_lookup usr_data m (ucast (ucast self :: u32)) of None \<Rightarrow> a | Some q \<Rightarrow> q)"
    "a \<noteq> 0"
    using assms(2,4) by (simp_all add: fresh_node_def)
  obtain k where k: "mthpc_rcu_thread_init a self m = Some (k\<lparr>node_ptr := (node_ptr m)(self := a)\<rparr>)"
    "registry_valid usr_data k" "node_ptr k = node_ptr m"
    "rcu_lookup usr_data k = (rcu_lookup usr_data m)(ucast (ucast self :: u32) \<mapsto> a)"
    using thread_init_done [OF assms(1-3) a(1)] by metis
  let ?m1 = "k\<lparr>node_ptr := (node_ptr m)(self := a)\<rparr>"
  have v: "registry_valid usr_data ?m1" using k(2) by simp
  obtain j where j: "mthpc_rcu_del usr_data (ucast self) a ?m1 = Some j" "registry_valid usr_data j"
    "rcu_lookup usr_data j = (rcu_lookup usr_data ?m1)(ucast (ucast self :: u32) := None)"
    using reg.del_law [OF v, of "ucast self" a] by blast
  let ?m2 = "j\<lparr>node_ptr := (node_ptr ?m1)(self := 0)\<rparr>"
  have ex: "mthpc_rcu_thread_exit self ?m1 = Some ?m2"
    using j(1) a(2) rcu_del_node_ptr [OF j(1)] by (simp add: mthpc_rcu_thread_exit_def)
  have "rcu_lookup usr_data ?m2 = rcu_lookup usr_data m" "node_ptr ?m2 = node_ptr m"
    using j(3) k(4) assms(3,4) by (simp_all add: fun_upd_idem)
  moreover have "mthpc_rcu_thread_init b self ?m1 = Some ?m1" "mthpc_rcu_thread_exit self ?m2 = Some ?m2"
    using a(2) by (simp_all add: mthpc_rcu_thread_init_def mthpc_rcu_thread_exit_def)
  ultimately show ?thesis
    using k(1,4) ex j(2) by (intro exI [of _ ?m1] exI [of _ ?m2]) simp
qed

lemma thread_session_witness:
  "\<exists>m1 m2. mthpc_rcu_thread_init 8 3 rcu_mem1 = Some m1 \<and>
    node_ptr m1 = (node_ptr rcu_mem1)(3 := 8) \<and>
    rcu_lookup usr_data m1 = (rcu_lookup usr_data rcu_mem1)(ucast (ucast (3::u64) :: u32) \<mapsto> 8) \<and>
    mthpc_rcu_thread_init 9 3 m1 = Some m1 \<and>
    mthpc_rcu_thread_exit 3 m1 = Some m2 \<and> node_ptr m2 = node_ptr rcu_mem1 \<and>
    rcu_lookup usr_data m2 = rcu_lookup usr_data rcu_mem1 \<and> registry_valid usr_data m2 \<and>
    mthpc_rcu_thread_exit 3 m2 = Some m2"
  by (rule thread_session) (simp_all add: mem1_valid mem1_simps lookup_mem1)

text \<open>
  C32. The id is narrowed to 32 bits: two threads whose \<open>pthread_self()\<close> agree on
  the low 32 bits share one node, and when the first exits the read lock of the second uses
  freed memory.
\<close>

theorem thread_id_collision:
  assumes "registry_valid usr_data m" "fresh_node a m" "t \<noteq> u" "(ucast t :: u32) = ucast u"
    and "node_ptr m t = 0" "node_ptr m u = 0"
    and "rcu_lookup usr_data m (ucast (ucast t :: u32)) = None"
    and "fresh_node b m" "b \<noteq> a"
  shows "\<exists>m1 m2 m3. mthpc_rcu_thread_init a t m = Some m1 \<and> mthpc_rcu_thread_init b u m1 = Some m2 \<and>
    node_ptr m2 t = a \<and> node_ptr m2 u = a \<and>
    mthpc_rcu_thread_exit t m2 = Some m3 \<and> node_ptr m3 u = a \<and>
    mthpc_rcu_read_lock c u m3 = None"
proof -
  obtain ps where reg: "registry m usr_data ps" using assms(1) by (auto simp: registry_valid_def)
  have a: "a \<noteq> 0" "nodes m a = None" using assms(2) by (simp_all add: fresh_node_def)
  obtain k where k: "mthpc_rcu_add a usr_data (ucast t) m = Some (k, Some a)"
    "registry k usr_data (ps @ [a])" "same_rest usr_data (insert a (set ps)) m k"
    "rcu_lookup usr_data k = (rcu_lookup usr_data m)(ucast (ucast t :: u32) \<mapsto> a)"
    "nodes k a = Some (new_node usr_data (ucast (ucast t :: u32)))"
    using rcu_add_new [OF reg a assms(7)] by metis
  let ?m1 = "k\<lparr>node_ptr := (node_ptr m)(t := a)\<rparr>"
  have np: "node_ptr k = node_ptr m" using rcu_add_node_ptr [OF k(1)] .
  have i1: "mthpc_rcu_thread_init a t m = Some ?m1"
    using k(1) assms(5) np by (simp add: mthpc_rcu_thread_init_def)
  obtain r :: rcu_data where "on_list (nodes m) usr_data (dhead r) ps" using reg by (auto simp: registry_def)
  then have "b \<notin> set ps" using assms(8) on_list_dom by (fastforce simp: fresh_node_def)
  then have b: "b \<noteq> 0" "nodes ?m1 b = None"
    using k(3) assms(8,9) by (simp_all add: same_rest_def fresh_node_def)
  have r1: "registry ?m1 usr_data (ps @ [a])" using k(2) by simp
  have "rcu_lookup usr_data ?m1 (ucast (ucast u :: u32)) = Some a"
    using k(4) assms(4) by simp
  from rcu_add_old [OF r1 b this] have add2:
    "mthpc_rcu_add b usr_data (ucast u) ?m1 = Some (warn True ?m1, Some a)" .
  let ?m2 = "(warn True ?m1)\<lparr>node_ptr := (node_ptr ?m1)(u := a)\<rparr>"
  have i2: "mthpc_rcu_thread_init b u ?m1 = Some ?m2"
    using add2 assms(3,6) by (simp add: mthpc_rcu_thread_init_def)
  have r2: "registry ?m2 usr_data (ps @ a # [])" using k(2) by simp
  have n2: "nid (the (nodes ?m2 a)) = ucast (ucast t :: u32)"
    using k(5) by (simp add: new_node_def)
  obtain j where j: "mthpc_rcu_del usr_data (ucast t) a ?m2 = Some j" "nodes j a = None"
    using rcu_del_found [OF r2 n2, of a] by metis
  let ?m3 = "j\<lparr>node_ptr := (node_ptr ?m2)(t := 0)\<rparr>"
  have "mthpc_rcu_thread_exit t ?m2 = Some ?m3"
    using j(1) a(1) assms(3) rcu_del_node_ptr [OF j(1)]
    by (simp add: mthpc_rcu_thread_exit_def)
  moreover have "mthpc_rcu_read_lock c u ?m3 = None"
    using j(2) a(1) assms(3) by (simp add: mthpc_rcu_read_lock_def mthpc_rcu_read_lock_internal_def)
  ultimately show ?thesis
    using i1 i2 a(1) assms(3)
    by (intro exI [of _ ?m1] exI [of _ ?m2] exI [of _ ?m3]) simp
qed

lemma thread_id_collision_witness:
  "\<exists>m1 m2 m3. mthpc_rcu_thread_init 8 3 rcu_mem1 = Some m1 \<and>
    mthpc_rcu_thread_init 9 0x100000003 m1 = Some m2 \<and>
    node_ptr m2 3 = 8 \<and> node_ptr m2 0x100000003 = 8 \<and>
    mthpc_rcu_thread_exit 3 m2 = Some m3 \<and> node_ptr m3 0x100000003 = 8 \<and>
    mthpc_rcu_read_lock 10 0x100000003 m3 = None"
  by (rule thread_id_collision) (simp_all add: mem1_valid mem1_simps lookup_mem1)

text \<open>
  If the allocation of the node fails, \<open>mthpc_rcu_thread_init\<close> only warns,
  and \<open>mthpc_rcu_read_lock\<close> then dereferences the null pointer.
\<close>

theorem read_lock_alloc_failure:
  assumes "node_ptr m self = 0" "nodes m 0 = None"
  shows "mthpc_rcu_thread_init 0 self m = Some (warn True m) \<and> mthpc_rcu_read_lock 0 self m = None"
  using assms
  by (simp add: mthpc_rcu_thread_init_def mthpc_rcu_add_def mthpc_rcu_read_lock_def
      mthpc_rcu_read_lock_internal_def)

lemma read_lock_alloc_failure_witness:
  "mthpc_rcu_thread_init 0 3 rcu_mem1 = Some (warn True rcu_mem1) \<and>
   mthpc_rcu_read_lock 0 3 rcu_mem1 = None"
  by (rule read_lock_alloc_failure) (simp_all add: mem1_simps)

end
