(* ===== verification/Rcu_Add_Race.thy ===== *)
theory Rcu_Add_Race
  imports Rcu_Threads
begin

text \<open>
  \<open>mthpc_rcu_add\<close> of \<open>src/rcu/rcu.c\<close> beside another thread, on the path on which the id is
  registered already: the call releases the lock before it reads \<open>*indirect\<close> for its result.
\<close>

section \<open>The call in two parts\<close>

text \<open>Up to \<open>spin_unlock\<close>: the call is through, or it is left with its \<open>indirect\<close>.\<close>

definition rcu_add_locked ::
  "nat \<Rightarrow> nat \<Rightarrow> u32 \<Rightarrow> rcu_mem \<Rightarrow> ((rcu_mem \<times> nat option) + (rcu_mem \<times> slot)) option" where
  "rcu_add_locked node data i m = (if node = 0 then Some (Inl (warn True m, None)) else do {
     let m = m\<lparr>nodes := (nodes m)(node \<mapsto>
       \<lparr>nid = ucast i, ngp = 0, nnext = 0, ndata = data\<rparr>)\<rparr>;
     m \<leftarrow> lock_data data m;
     s \<leftarrow> find_node data (ucast i) m;
     p \<leftarrow> node_slot data s m;
     if p \<noteq> 0 then do {
       m \<leftarrow> unlock_data data m;
       Some (Inr (m, s)) }
     else do {
       m \<leftarrow> set_node_slot data s node m;
       m \<leftarrow> unlock_data data m;
       Some (Inl (m, Some node)) } })"

definition rcu_add_report :: "nat \<Rightarrow> nat \<Rightarrow> slot \<Rightarrow> rcu_mem \<Rightarrow> (rcu_mem \<times> nat option) option" where
  "rcu_add_report node data s m = do {
     m \<leftarrow> free_node node m;
     let m = warn True m;
     p \<leftarrow> node_slot data s m;
     Some (m, Some p) }"

lemma rcu_add_split:
  "mthpc_rcu_add node data i m = do {
     r \<leftarrow> rcu_add_locked node data i m;
     case r of Inl x \<Rightarrow> Some x | Inr (m, s) \<Rightarrow> rcu_add_report node data s m }"
  by (simp add: mthpc_rcu_add_def rcu_add_locked_def rcu_add_report_def Let_def bind_assoc
      if_distrib [of "\<lambda>x. Option.bind x f" for f] cong: if_cong)

section \<open>A deletion in between\<close>

lemma rcu_add_locked_old:
  assumes reg: "registry m d (as @ q # bs)" and i: "nid (the (nodes m q)) = ucast i" and a: "a \<noteq> 0" "nodes m a = None"
  shows "rcu_add_locked a d i m = Some (Inr (m\<lparr>nodes := (nodes m)(a \<mapsto> new_node d (ucast i))\<rparr>, slot_after Root as))"
    and "registry (m\<lparr>nodes := (nodes m)(a \<mapsto> new_node d (ucast i))\<rparr>) d (as @ q # bs)"
proof -
  obtain r where r: "datas m d = Some r" "dlock r = Unlocked" "on_list (nodes m) d (dhead r) (as @ q # bs)"
    using reg by (auto simp: registry_def)
  have ap: "a \<notin> set (as @ q # bs)" and q: "q \<noteq> 0" using on_list_dom [OF r(3)] a(2) by auto
  let ?N = "(nodes m)(a \<mapsto> new_node d (ucast i))"
  have o: "on_list ?N d (dhead r) (as @ q # bs)" by (rule on_list_off [OF r(3)]) (use ap in auto)
  then show "registry (m\<lparr>nodes := ?N\<rparr>) d (as @ q # bs)" using r(1,2) by (simp add: registry_def)
  let ?h = "m\<lparr>nodes := ?N, datas := (datas m)(d \<mapsto> r\<lparr>dlock := Held\<rparr>)\<rparr>"
  have o': "on_list (nodes ?h) d (dhead (r\<lparr>dlock := Held\<rparr>)) (as @ q # bs)" using o by simp
  have "\<forall>b\<in>set as. nid (the (nodes m b)) \<noteq> ucast i" using on_list_mid [OF r(3)] i by auto
  then have ids: "\<forall>b\<in>set as. nid (the (?N b)) \<noteq> ucast i" "nid (the (?N q)) = ucast i" using ap i by auto
  have f: "find_node d (ucast i) ?h = Some (slot_after Root as)" "node_slot d (slot_after Root as) ?h = Some q"
    using find_node_on [OF o', of "ucast i"] ids by simp_all
  have "r\<lparr>dlock := Unlocked\<rparr> = r" using r(2) by simp
  then have "(datas m)(d \<mapsto> r\<lparr>dlock := Unlocked\<rparr>) = datas m" using r(1) by (simp add: fun_upd_idem)
  then show "rcu_add_locked a d i m = Some (Inr (m\<lparr>nodes := ?N\<rparr>, slot_after Root as))"
    using a(1) q r(1,2) f by (simp add: rcu_add_locked_def lock_data_eq unlock_data_eq new_node_def)
qed

text \<open>
  The call goes on with its slot behind \<open>as\<close>, after the node \<open>q\<close> of its id has been deleted, and after
  the node whose \<open>next\<close> is the slot has been deleted.
\<close>

lemma deleted_id_gone:
  assumes reg: "registry m d ps" and none: "rcu_lookup d m j = None" and b: "b \<in> set ps"
  shows "nid (the (nodes m b)) \<noteq> j"
proof -
  have "map_of (map (\<lambda>b. (nid (the (nodes m b)), b)) ps) j = None"
    using none unfolding rcu_lookup_map [OF reg] id_map_def .
  then have "j \<notin> (\<lambda>b. nid (the (nodes m b))) ` set ps"
    unfolding map_of_eq_None_iff by (simp only: set_map image_image fst_conv) simp
  with b show ?thesis by blast
qed

lemma report_after_del:
  assumes reg: "registry m d (as @ q # bs)" and i: "nid (the (nodes m q)) = ucast i"
    and a: "nodes m a \<noteq> None" "a \<notin> set (as @ q # bs)"
  obtains m2 m3 where "mthpc_rcu_del d i q m = Some m2"
    "rcu_add_report a d (slot_after Root as) m2 = Some (m3, Some (first_of bs))"
    "bs \<noteq> [] \<Longrightarrow> nid (the (nodes m3 (hd bs))) \<noteq> ucast i"
proof -
  let ?s = "slot_after Root as"
  obtain m2 where m2: "mthpc_rcu_del d i q m = Some m2" "registry m2 d (as @ bs)"
    "rcu_lookup d m2 = (rcu_lookup d m)(ucast i := None)" "same_rest d (set (as @ q # bs)) m m2"
    by (rule rcu_del_found [OF reg i, of q], rule that)
  obtain r2 where r2: "datas m2 d = Some r2" "on_list (nodes m2) d (dhead r2) (as @ bs)"
    using m2(2) by (auto simp: registry_def)
  let ?m3 = "warn True (m2\<lparr>nodes := (nodes m2)(a := None)\<rparr>)"
  have "nodes m2 a \<noteq> None" using m2(4) a by (simp add: same_rest_def)
  then have free: "free_node a m2 = Some (m2\<lparr>nodes := (nodes m2)(a := None)\<rparr>)" by (auto simp: free_node_def)
  have o3: "on_list (nodes ?m3) d (dhead r2) (as @ bs)"
    by (rule on_list_off [OF r2(2)]) (use a in \<open>auto simp: warn_def\<close>)
  then have "load_slot (dhead r2) (node_next ?m3) ?s = Some (first_of bs)"
    by (intro load_slot_after [where p = "dhead r2"]) (simp_all add: load_slot_def on_list_def node_next_def)
  then have "node_slot d ?s ?m3 = Some (first_of bs)" using r2(1) by (simp add: node_slot_def warn_def)
  then have rep: "rcu_add_report a d ?s m2 = Some (?m3, Some (first_of bs))" by (simp add: rcu_add_report_def free)
  have "nid (the (nodes m2 (hd bs))) \<noteq> ucast i" if "bs \<noteq> []"
    by (rule deleted_id_gone [OF m2(2)]) (use m2(3) that in simp_all)
  then have "nid (the (nodes ?m3 (hd bs))) \<noteq> ucast i" if "bs \<noteq> []"
    using that a hd_in_set [OF that] by (auto simp: warn_def)
  with m2(1) rep show ?thesis by (rule that)
qed

lemma report_reads_freed:
  assumes reg: "registry m d (cs @ p # q # bs)" and j: "nid (the (nodes m p)) = ucast j"
  obtains m2 where "mthpc_rcu_del d j p m = Some m2" "rcu_add_report a d (slot_after Root (cs @ [p])) m2 = None"
proof -
  obtain m2 where m2: "mthpc_rcu_del d j p m = Some m2" "nodes m2 p = None"
    by (rule rcu_del_found [OF reg j, of p], rule that)
  have "node_slot d (slot_after Root (cs @ [p])) (warn True (m2\<lparr>nodes := (nodes m2)(a := None)\<rparr>)) = None"
    using m2(2) by (simp add: node_slot_def node_next_def warn_def load_slot_def slot_after_def bind_eq_None_conv)
  then have "rcu_add_report a d (slot_after Root (cs @ [p])) m2 = None"
    by (auto simp: rcu_add_report_def free_node_def bind_eq_None_conv)
  with m2(1) show ?thesis by (rule that)
qed

text \<open>
  C3. When the id is registered already, \<open>mthpc_rcu_add\<close> releases the lock before
  it reads its result from \<open>*indirect\<close>: if the node of the id is deleted in
  between, the caller gets the next node, which belongs to another id, or a null pointer; if
  the node before it is deleted, the caller reads freed memory.
\<close>

theorem rcu_add_race:
  assumes reg: "registry m d (as @ q # bs)" and i: "nid (the (nodes m q)) = ucast i" and a: "a \<noteq> 0" "nodes m a = None"
  shows "\<exists>m1 s. rcu_add_locked a d i m = Some (Inr (m1, s)) \<and>
    (\<exists>m2 m3. mthpc_rcu_del d i q m1 = Some m2 \<and> rcu_add_report a d s m2 = Some (m3, Some (first_of bs)) \<and>
      (bs \<noteq> [] \<longrightarrow> nid (the (nodes m3 (hd bs))) \<noteq> ucast i)) \<and>
    (\<forall>cs p j. as = cs @ [p] \<and> nid (the (nodes m p)) = ucast j \<longrightarrow>
      (\<exists>m2. mthpc_rcu_del d j p m1 = Some m2 \<and> rcu_add_report a d s m2 = None))"
proof -
  let ?m = "m\<lparr>nodes := (nodes m)(a \<mapsto> new_node d (ucast i))\<rparr>" and ?s = "slot_after Root as"
  note locked = rcu_add_locked_old [OF assms]
  obtain r :: rcu_data where o: "on_list (nodes m) d (dhead r) (as @ q # bs)" using reg by (auto simp: registry_def)
  have ap: "a \<notin> set (as @ q # bs)" using on_list_dom [OF o] a(2) by auto
  then have nid: "nid (the (nodes ?m b)) = nid (the (nodes m b))" if "b \<in> set (as @ q # bs)" for b
    using that by auto
  obtain m2 m3 where m2: "mthpc_rcu_del d i q ?m = Some m2" "rcu_add_report a d ?s m2 = Some (m3, Some (first_of bs))"
    "bs \<noteq> [] \<Longrightarrow> nid (the (nodes m3 (hd bs))) \<noteq> ucast i"
    by (rule report_after_del [OF locked(2), of i a]) (use nid [of q] i ap in \<open>auto intro: that\<close>)
  have "\<exists>m2. mthpc_rcu_del d j p ?m = Some m2 \<and> rcu_add_report a d ?s m2 = None"
    if "as = cs @ [p] \<and> nid (the (nodes m p)) = ucast j" for cs p j
    by (rule report_reads_freed [of ?m d cs p q bs j a]) (use locked(2) that nid [of p] in auto)
  with m2 locked(1) show ?thesis by (intro exI [of _ ?m] exI [of _ ?s]) blast
qed

lemma rcu_add_race_witness:
  "\<exists>m1 s m2 m3. rcu_add_locked 20 usr_data 3 rcu_mem2 = Some (Inr (m1, s)) \<and> mthpc_rcu_del usr_data 3 8 m1 = Some m2 \<and>
    rcu_add_report 20 usr_data s m2 = Some (m3, Some 0)"
proof -
  have "registry rcu_mem2 usr_data ([] @ 8 # [])" using registry_mem2 by simp
  from rcu_add_race [OF this, of 3 20] show ?thesis by (auto simp: rcu_mem2_def rcu_mem0_def new_node_def)
qed

end
