(* ===== verification/Rcu_Data.thy ===== *)
theory Rcu_Data
  imports Rcu_Threads
begin

text \<open>
  The data objects of \<open>src/rcu/rcu.c\<close>: their list, the writer's call on one of them and on all
  of them, and their initialisation and exit.
\<close>

section \<open>Waiting for the readers of one object\<close>

definition node_passes :: "(nat \<rightharpoonup> rcu_node) \<Rightarrow> u64 \<Rightarrow> nat \<Rightarrow> bool" where
  "node_passes N g a = (case N a of None \<Rightarrow> False
     | Some n \<Rightarrow> \<not> gp_active (ngp n) \<or> gp_other_phase (ngp n) g)"

lemma wait_for_readers_pass:
  "chain (\<lambda>a. map_option nnext (nodes m a)) p ps \<Longrightarrow> \<forall>a\<in>set ps. node_passes (nodes m) g a \<Longrightarrow>
   mthpc_wait_for_readers p g m = Some ()"
proof (induction ps arbitrary: p)
  case Nil
  then show ?case by (simp add: mthpc_wait_for_readers.simps)
next
  case (Cons a ps)
  then show ?case
    by (subst mthpc_wait_for_readers.simps) (auto simp: node_passes_def split: option.splits)
qed

lemma wait_for_readers_Some:
  assumes "mthpc_wait_for_readers p g m = Some u"
  shows "\<forall>ps. chain (\<lambda>a. map_option nnext (nodes m a)) p ps \<longrightarrow>
    (\<forall>a\<in>set ps. node_passes (nodes m) g a)"
proof (rule mthpc_wait_for_readers.raw_induct [where P = "\<lambda>p g m u. \<forall>ps.
      chain (\<lambda>a. map_option nnext (nodes m a)) p ps \<longrightarrow> (\<forall>a\<in>set ps. node_passes (nodes m) g a)",
      OF _ assms], intro allI impI)
  fix f :: "nat \<Rightarrow> u64 \<Rightarrow> rcu_mem \<Rightarrow> unit option" and p g m u ps
  assume IH: "\<And>p g m u. f p g m = Some u \<Longrightarrow> \<forall>ps.
      chain (\<lambda>a. map_option nnext (nodes m a)) p ps \<longrightarrow> (\<forall>a\<in>set ps. node_passes (nodes m) g a)"
    and eq: "(if p = 0 then Some () else do {
      n \<leftarrow> nodes m p;
      if \<not> gp_active (ngp n) \<or> gp_other_phase (ngp n) g then f (nnext n) g m else f p g m }) = Some u"
    and c: "chain (\<lambda>a. map_option nnext (nodes m a)) p ps"
  show "\<forall>a\<in>set ps. node_passes (nodes m) g a"
  proof (cases ps)
    case (Cons a qs)
    then obtain n where n: "nodes m p = Some n" "p = a" "p \<noteq> 0"
      "chain (\<lambda>a. map_option nnext (nodes m a)) (nnext n) qs"
      using c by auto
    show ?thesis
    proof (cases "\<not> gp_active (ngp n) \<or> gp_other_phase (ngp n) g")
      case True
      with eq n(1,3) have "f (nnext n) g m = Some u" by auto
      with IH n(4) have "\<forall>a\<in>set qs. node_passes (nodes m) g a" by blast
      with True n Cons show ?thesis by (simp add: node_passes_def)
    next
      case False
      with eq n(1,3) have "f p g m = Some u" by auto
      with IH c show ?thesis by blast
    qed
  qed simp
qed

lemma wait_for_readers_iff:
  assumes "chain (\<lambda>a. map_option nnext (nodes m a)) p ps"
  shows "mthpc_wait_for_readers p g m =
    (if \<forall>a\<in>set ps. node_passes (nodes m) g a then Some () else None)"
proof (cases "mthpc_wait_for_readers p g m")
  case None
  then have "\<not> (\<forall>a\<in>set ps. node_passes (nodes m) g a)"
    using wait_for_readers_pass [OF assms, of g] by auto
  with None show ?thesis by simp
next
  case (Some u)
  with wait_for_readers_Some [OF Some] assms show ?thesis by simp
qed

lemma registry_nodes: "registry m d ps \<Longrightarrow> a \<in> set ps \<Longrightarrow> \<exists>n. nodes m a = Some n \<and> ndata n = d"
  by (auto simp: registry_def on_list_def)

definition flip_gp :: "rcu_data \<Rightarrow> rcu_data" where
  "flip_gp r = r\<lparr>dgp := next_gp (dgp r)\<rparr>"

lemma synchronize_internal_eq:
  assumes "registry m d ps" "datas m d = Some r"
  shows "mthpc_synchronize_rcu_internal d m =
    (if \<forall>a\<in>set ps. node_passes (nodes m) (dgp r) a
     then Some (m\<lparr>datas := (datas m)(d \<mapsto> flip_gp r)\<rparr>) else None)"
proof -
  have c: "chain (\<lambda>a. map_option nnext (nodes m a)) (dhead r) ps" and u: "dlock r = Unlocked"
    using assms by (auto simp: registry_def on_list_def)
  have w: "mthpc_wait_for_readers (dhead r) g (m\<lparr>datas := D\<rparr>) =
    (if \<forall>a\<in>set ps. node_passes (nodes m) g a then Some () else None)" for g D
    using wait_for_readers_iff [of "m\<lparr>datas := D\<rparr>" "dhead r" ps g] c by simp
  have r: "r\<lparr>dgp := g, dlock := Unlocked\<rparr> = r\<lparr>dgp := g\<rparr>" for g using u by simp
  show ?thesis
    using assms(2) u
    by (simp add: mthpc_synchronize_rcu_internal_def lock_data_eq unlock_data_eq upd_data_def w
        flip_gp_def Let_def r)
qed

text \<open>
  When no reader moves meanwhile, \<open>mthpc_synchronize_rcu_internal\<close> fails to
  return exactly if some node is in a critical section of the current phase; otherwise it flips
  the phase, keeps the nesting count and the nodes, and releases the lock.
\<close>

theorem synchronize_internal_blocks:
  assumes "registry m d ps" "datas m d = Some r"
  shows "(mthpc_synchronize_rcu_internal d m = None \<longleftrightarrow>
      (\<exists>a\<in>set ps. \<exists>n. nodes m a = Some n \<and> gp_active (ngp n) \<and> gp_phase (ngp n) = gp_phase (dgp r))) \<and>
    (\<forall>m'. mthpc_synchronize_rcu_internal d m = Some m' \<longrightarrow> registry m' d ps \<and> nodes m' = nodes m \<and>
      (\<exists>r'. datas m' d = Some r' \<and> gp_phase (dgp r') \<noteq> gp_phase (dgp r) \<and> gp_nest (dgp r') = gp_nest (dgp r)))"
proof -
  let ?held = "\<lambda>a. \<exists>n. nodes m a = Some n \<and> gp_active (ngp n) \<and> gp_phase (ngp n) = gp_phase (dgp r)"
  have held: "\<not> node_passes (nodes m) (dgp r) a \<longleftrightarrow> ?held a" if "a \<in> set ps" for a
  proof -
    from registry_nodes [OF assms(1) that] obtain n where "nodes m a = Some n" by blast
    then show ?thesis by (auto simp: node_passes_def gp_other_phase_iff)
  qed
  then have "(\<forall>a\<in>set ps. node_passes (nodes m) (dgp r) a) \<longleftrightarrow> \<not> (\<exists>a\<in>set ps. ?held a)"
    by blast
  with synchronize_internal_eq [OF assms] have eq: "mthpc_synchronize_rcu_internal d m =
      (if \<exists>a\<in>set ps. ?held a then None else Some (m\<lparr>datas := (datas m)(d \<mapsto> flip_gp r)\<rparr>))"
    by presburger
  have "registry (m\<lparr>datas := (datas m)(d \<mapsto> flip_gp r)\<rparr>) d ps"
    using assms by (auto simp: registry_def flip_gp_def)
  then show ?thesis
    unfolding eq by (auto simp: flip_gp_def next_gp_phase next_gp_nest)
qed

lemma synchronize_internal_blocks_witness:
  "mthpc_synchronize_rcu_internal usr_data rcu_mem2 = None \<longleftrightarrow>
    (\<exists>a\<in>set [8]. \<exists>n. nodes rcu_mem2 a = Some n \<and> gp_active (ngp n) \<and>
      gp_phase (ngp n) = gp_phase (dgp (the (datas rcu_mem2 usr_data))))"
  by (rule conjunct1 [OF synchronize_internal_blocks [OF registry_mem2]]) (simp add: rcu_mem2_def)

section \<open>The list of data objects\<close>

definition meta_list :: "rcu_mem \<Rightarrow> nat list \<Rightarrow> bool" where
  "meta_list m ds \<longleftrightarrow> meta_lock m = Unlocked \<and> chain (data_next m) (meta_head m) ds \<and> distinct ds"

definition quiet :: "rcu_mem \<Rightarrow> nat \<Rightarrow> bool" where
  "quiet m d \<longleftrightarrow> (\<exists>ps r. registry m d ps \<and> datas m d = Some r \<and>
     (\<forall>a\<in>set ps. node_passes (nodes m) (dgp r) a))"

definition flip_all :: "nat list \<Rightarrow> rcu_mem \<Rightarrow> rcu_mem" where
  "flip_all ds m = m\<lparr>datas := \<lambda>e. if e \<in> set ds then map_option flip_gp (datas m e) else datas m e\<rparr>"

lemma data_next_flip: "data_next (m\<lparr>datas := (datas m)(d := map_option flip_gp (datas m d))\<rparr>) = data_next m"
  by (auto simp: data_next_def flip_gp_def option.map_comp comp_def intro!: ext)

lemma flip_all_Cons:
  "d \<notin> set ds \<Longrightarrow>
   flip_all ds (m\<lparr>datas := (datas m)(d := map_option flip_gp (datas m d))\<rparr>) = flip_all (d # ds) m"
  by (auto simp: flip_all_def intro!: ext arg_cong [where f = "\<lambda>D. m\<lparr>datas := D\<rparr>"])

lemma quiet_off: "quiet m e \<Longrightarrow> d \<noteq> e \<Longrightarrow> quiet (m\<lparr>datas := (datas m)(d := x)\<rparr>) e"
  by (auto simp: quiet_def registry_def)

lemma synchronize_from_chain:
  assumes "chain (data_next m) p ds" "distinct ds" "\<And>d. d \<in> set ds \<Longrightarrow> quiet m d"
  shows "synchronize_from p m = Some (flip_all ds m)"
  using assms
proof (induction ds arbitrary: p m)
  case Nil
  have "m\<lparr>datas := datas m\<rparr> = m" by simp
  with Nil show ?case by (simp add: synchronize_from.simps flip_all_def)
next
  case (Cons d ds)
  obtain ps r where q: "registry m d ps" "datas m d = Some r"
    "\<forall>a\<in>set ps. node_passes (nodes m) (dgp r) a"
    using Cons.prems(3) [of d] by (auto simp: quiet_def)
  let ?m = "m\<lparr>datas := (datas m)(d := map_option flip_gp (datas m d))\<rparr>"
  have s: "mthpc_synchronize_rcu_internal d m = Some ?m"
    using synchronize_internal_eq [OF q(1,2)] q(2,3) by simp
  have "chain (data_next ?m) (dnext r) ds"
    using Cons.prems(1) q(2) unfolding data_next_flip by (auto simp: data_next_def)
  moreover have "quiet ?m e" if "e \<in> set ds" for e
    using quiet_off [of m e d] Cons.prems(2,3) that by auto
  ultimately have "synchronize_from (dnext r) ?m = Some (flip_all ds ?m)"
    using Cons.IH Cons.prems(2) by simp
  then have "synchronize_from (dnext r) ?m = Some (flip_all (d # ds) m)"
    using flip_all_Cons [of d ds m] Cons.prems(2) by simp
  with Cons.prems(1) q(2) s show ?case
    by (subst synchronize_from.simps) (auto simp: flip_gp_def)
qed

text \<open>
  \<open>mthpc_synchronize_rcu_all\<close> returns when every object of the list is quiet,
  and has then flipped the phase of every one of them, once each.
\<close>

theorem synchronize_all_objects:
  assumes "meta_list m ds" "\<And>d. d \<in> set ds \<Longrightarrow> quiet m d"
  shows "mthpc_synchronize_rcu_all m = Some (flip_all ds m)"
proof -
  let ?h = "m\<lparr>meta_lock := Held\<rparr>"
  have "quiet ?h d" if "d \<in> set ds" for d
    using assms(2) [OF that] by (simp add: quiet_def registry_def)
  then have "synchronize_from (meta_head m) ?h = Some (flip_all ds ?h)"
    using assms(1) by (intro synchronize_from_chain) (simp_all add: meta_list_def data_next_def)
  then show ?thesis
    using assms(1)
    by (simp add: mthpc_synchronize_rcu_all_def lock_meta_def unlock_meta_def meta_list_def flip_all_def
        cong: if_cong)
qed

lemma meta_list_mem2: "meta_list rcu_mem2 [usr_data]"
  by (simp add: meta_list_def rcu_mem2_def rcu_mem0_def data_next_def usr_data_def)

lemma quiet_mem2: "quiet rcu_mem2 usr_data"
  unfolding quiet_def
  by (intro exI [of _ "[8]"] exI [of _ "the (datas rcu_mem2 usr_data)"] conjI registry_mem2)
    (simp_all add: rcu_mem2_def node_passes_def new_node_def gp_active_def)

lemma synchronize_all_objects_witness:
  "mthpc_synchronize_rcu_all rcu_mem2 = Some (flip_all [usr_data] rcu_mem2)"
  by (rule synchronize_all_objects [OF meta_list_mem2]) (simp add: quiet_mem2)

section \<open>Initialisation and exit of an object\<close>

lemma free_nodes_chain:
  "chain (\<lambda>a. map_option nnext (nodes m a)) p ps \<Longrightarrow> distinct ps \<Longrightarrow>
   free_nodes p m = Some (m\<lparr>nodes := \<lambda>a. if a \<in> set ps then None else nodes m a\<rparr>)"
proof (induction ps arbitrary: p m)
  case Nil
  then show ?case by (simp add: free_nodes.simps)
next
  case (Cons q ps)
  then obtain n where n: "p = q" "p \<noteq> 0" "nodes m q = Some n"
    "chain (\<lambda>a. map_option nnext (nodes m a)) (nnext n) ps" by auto
  let ?m = "m\<lparr>nodes := (nodes m)(q := None)\<rparr>"
  have "chain (\<lambda>a. map_option nnext (nodes ?m a)) (nnext n) ps"
    by (rule chain_off [OF n(4)]) (use Cons.prems(2) in auto)
  then have "free_nodes (nnext n) ?m =
    Some (?m\<lparr>nodes := \<lambda>a. if a \<in> set ps then None else nodes ?m a\<rparr>)"
    using Cons.IH Cons.prems(2) by simp
  moreover have "(\<lambda>a. if a \<in> set ps then None else nodes ?m a) =
    (\<lambda>a. if a \<in> set (q # ps) then None else nodes m a)" by auto
  ultimately show ?case
    using n by (subst free_nodes.simps) (simp add: free_node_def)
qed

definition core_of :: "rcu_data option \<Rightarrow> (spin \<times> nat) option" where
  "core_of x = map_option (\<lambda>r. (dlock r, dhead r)) x"

lemma core_of_eq:
  "core_of x = core_of (Some r) \<Longrightarrow> \<exists>r'. x = Some r' \<and> dlock r' = dlock r \<and> dhead r' = dhead r"
  by (cases x) (simp_all add: core_of_def)

lemma unlink_data_chain:
  assumes c: "chain (data_next m) (meta_head m) (as @ d # bs)" and dist: "distinct (as @ d # bs)"
  obtains m' where "unlink_data d m = Some m'" "chain (data_next m') (meta_head m') (as @ bs)"
    "meta_lock m' = meta_lock m" "nodes m' = nodes m" "blocks m' = blocks m"
    "\<And>e. core_of (datas m' e) = core_of (datas m e)"
    "datas m' d = datas m d"
proof -
  have ld: "load_slot (meta_head m) (data_next m) Root = Some (meta_head m)"
    by (simp add: load_slot_def)
  have d: "d \<in> dom (data_next m)" using chain_dom [OF c] by auto
  then obtain r where r: "datas m d = Some r" by (auto simp: data_next_def)
  have find: "find_slot (meta_head m) (data_next m) (\<lambda>p. Some (p = d)) Root = Some (slot_after Root as)"
    by (rule find_slot_after [OF ld c]) (use dist in auto)
  have load: "load_slot (meta_head m) (data_next m) (slot_after Root as) = Some d"
    using load_slot_after [OF ld c] by simp
  obtain q where q: "chain (data_next m) q (d # bs)" using chain_suffix [OF c] by blast
  then have tail: "chain (data_next m) (dnext r) bs" using r by (auto simp: data_next_def)
  show ?thesis
  proof (cases as rule: rev_cases)
    case Nil
    show ?thesis
      by (rule that [of "m\<lparr>meta_head := dnext r\<rparr>"])
        (use find load r tail Nil in \<open>simp_all add: unlink_data_def set_data_slot_def data_next_def\<close>)
  next
    case (snoc cs c)
    have "c \<in> dom (data_next m)" using chain_dom [OF assms(1)] snoc by auto
    then obtain rc where rc: "datas m c = Some rc" by (auto simp: data_next_def)
    let ?m = "m\<lparr>datas := (datas m)(c \<mapsto> rc\<lparr>dnext := dnext r\<rparr>)\<rparr>"
    have nxt: "data_next ?m = (data_next m)(c \<mapsto> dnext r)"
      by (auto simp: data_next_def intro!: ext)
    have "chain (data_next ?m) (meta_head m) ((cs @ [c]) @ bs)"
      unfolding nxt
      by (rule chain_store_next [of _ _ cs c "d # bs"])
        (use assms snoc tail in auto)
    then show ?thesis
      using find load r rc snoc dist
      by (intro that [of ?m])
        (auto simp: unlink_data_def set_data_slot_def slot_after_def upd_data_def core_of_def)
  qed
qed

text \<open>
  \<open>mthpc_rcu_data_init\<close> puts a new object in front of the list of all
  objects, with an empty registry and a free lock, and leaves the other registries as they are.
\<close>

theorem rcu_data_init_ok:
  assumes "meta_list m ds" "d \<noteq> 0" "d \<notin> set ds"
  shows "\<exists>m'. mthpc_rcu_data_init d type m = Some m' \<and> meta_list m' (d # ds) \<and> registry m' d [] \<and>
    rcu_lookup d m' = Map.empty \<and> (\<forall>e ps. e \<noteq> d \<longrightarrow> registry m' e ps = registry m e ps)"
proof -
  let ?r = "\<lparr>dlock = Unlocked, dhead = 0, dtype = type, dgp = MTHPC_GP_COUNT, dnext = meta_head m\<rparr>"
  let ?m = "m\<lparr>datas := (datas m)(d \<mapsto> ?r), meta_head := d\<rparr>"
  have l: "meta_lock m = Unlocked" using assms(1) by (simp add: meta_list_def)
  then have "mthpc_rcu_data_init d type m = Some ?m"
    by (simp add: mthpc_rcu_data_init_def lock_meta_def unlock_meta_def)
  moreover have "chain (data_next ?m) (meta_head m) ds"
    by (rule chain_off [of "data_next m"]) (use assms in \<open>auto simp: meta_list_def data_next_def\<close>)
  then have "meta_list ?m (d # ds)"
    using assms l by (simp add: meta_list_def data_next_def)
  moreover have reg: "registry ?m d []" by (simp add: registry_def on_list_def)
  moreover have "rcu_lookup d ?m = Map.empty"
    unfolding rcu_lookup_map [OF reg] by (simp add: id_map_def)
  moreover have "\<forall>e ps. e \<noteq> d \<longrightarrow> registry ?m e ps = registry m e ps"
    by (simp add: registry_def)
  ultimately show ?thesis by blast
qed

lemma rcu_data_init_ok_witness:
  "\<exists>m'. mthpc_rcu_data_init 5 1 rcu_mem2 = Some m' \<and> meta_list m' (5 # [usr_data]) \<and>
    registry m' 5 [] \<and> rcu_lookup 5 m' = Map.empty \<and>
    (\<forall>e ps. e \<noteq> 5 \<longrightarrow> registry m' e ps = registry rcu_mem2 e ps)"
  by (rule rcu_data_init_ok [OF meta_list_mem2]) (simp_all add: usr_data_def)

lemma registry_other:
  assumes "registry m e qs" "e \<noteq> d"
    and "core_of (datas m' e) = core_of (datas m e)"
    and "\<And>a. nodes m' a = nodes m a \<or> (\<exists>n. nodes m a = Some n \<and> ndata n = d)"
  shows "registry m' e qs"
proof -
  obtain r where r: "datas m e = Some r" "dlock r = Unlocked" "on_list (nodes m) e (dhead r) qs"
    using assms(1) by (auto simp: registry_def)
  have "core_of (datas m' e) = core_of (Some r)" using assms(3) r(1) by simp
  from core_of_eq [OF this] obtain r' where
    "datas m' e = Some r'" "dlock r' = dlock r" "dhead r' = dhead r" by blast
  moreover have "on_list (nodes m') e (dhead r) qs"
  proof (rule on_list_off [OF r(3)])
    fix a assume "a \<in> set qs"
    then show "nodes m' a = nodes m a"
      using registry_nodes [OF assms(1)] assms(2,4) by fastforce
  qed
  ultimately show ?thesis using r by (auto simp: registry_def)
qed

lemma rcu_data_exit_run:
  assumes meta: "meta_list m (as @ d # bs)" and reg: "registry m d ps"
  obtains m' where
    "rcu_data_exit d st m = (if st then Some m' else free_data d m')"
    "meta_list m' (as @ bs)" "blocks m' = blocks m"
    "nodes m' = (\<lambda>a. if a \<in> set ps then None else nodes m a)"
    "\<exists>r. datas m' d = Some r \<and> dlock r = Destroyed"
    "\<And>e qs. e \<noteq> d \<Longrightarrow> registry m e qs \<Longrightarrow> registry m' e qs"
proof -
  obtain r where r: "datas m d = Some r" "dlock r = Unlocked" "on_list (nodes m) d (dhead r) ps"
    using reg by (auto simp: registry_def)
  have c: "chain (\<lambda>a. map_option nnext (nodes m a)) (dhead r) ps" "distinct ps"
    using r(3) on_list_dom [OF r(3)] by (simp_all add: on_list_def)
  let ?N = "\<lambda>a. if a \<in> set ps then None else nodes m a"
  let ?r = "r\<lparr>dhead := 0, dlock := Destroyed\<rparr>"
  let ?k = "m\<lparr>nodes := ?N, datas := (datas m)(d \<mapsto> ?r), meta_lock := Held\<rparr>"
  have fr: "free_nodes (dhead r) (m\<lparr>datas := D\<rparr>) = Some (m\<lparr>datas := D, nodes := ?N\<rparr>)" for D
    using free_nodes_chain [of "m\<lparr>datas := D\<rparr>" "dhead r" ps] c by (simp cong: if_cong)
  have "data_next ?k = data_next m" using r(1) by (auto simp: data_next_def intro!: ext)
  then have ch: "chain (data_next ?k) (meta_head ?k) (as @ d # bs)" "distinct (as @ d # bs)"
    and ml: "meta_lock m = Unlocked"
    using meta by (simp_all add: meta_list_def)
  obtain j where j: "unlink_data d ?k = Some j" "chain (data_next j) (meta_head j) (as @ bs)"
    "meta_lock j = Held" "nodes j = ?N" "blocks j = blocks m" "datas j d = Some ?r"
    and off: "\<And>e. core_of (datas j e) =
      core_of (datas ?k e)"
    by (rule unlink_data_chain [OF ch], rule that) (assumption | simp)+
  let ?j = "j\<lparr>meta_lock := Unlocked\<rparr>"
  show ?thesis
  proof (rule that [of ?j])
    show "rcu_data_exit d st m = (if st then Some ?j else free_data d ?j)"
      using r(1,2) fr j(1,3) ml
      by (simp add: rcu_data_exit_def lock_data_eq unlock_data_eq upd_data_def lock_meta_def
          unlock_meta_def)
    show "meta_list ?j (as @ bs)"
      using j(2) ch(2) by (simp add: meta_list_def data_next_def)
    show "registry ?j e qs" if "e \<noteq> d" "registry m e qs" for e qs
    proof (rule registry_other [OF that(2,1)])
      show "core_of (datas ?j e) = core_of (datas m e)"
        using off [of e] that(1) by simp
      show "nodes ?j a = nodes m a \<or> (\<exists>n. nodes m a = Some n \<and> ndata n = d)" for a
        using j(4) registry_nodes [OF reg, of a] by auto
    qed
  qed (use j in simp_all)
qed

text \<open>
  \<open>__mthpc_rcu_data_exit\<close> frees exactly the nodes of the object, takes it off
  the list of all objects and leaves every other object usable; its lock can no longer be
  taken.
\<close>

theorem rcu_data_exit_ok:
  assumes "meta_list m (as @ d # bs)" "registry m d ps" "st \<or> d \<in> blocks m"
  shows "\<exists>m'. rcu_data_exit d st m = Some m' \<and>
    nodes m' = (\<lambda>a. if a \<in> set ps then None else nodes m a) \<and>
    chain (data_next m') (meta_head m') (as @ bs) \<and> meta_lock m' = Unlocked \<and>
    (\<forall>e qs. e \<noteq> d \<longrightarrow> registry m e qs \<longrightarrow> registry m' e qs) \<and> lock_data d m' = None"
proof -
  obtain j where j: "rcu_data_exit d st m = (if st then Some j else free_data d j)"
    "meta_list j (as @ bs)" "blocks j = blocks m"
    "nodes j = (\<lambda>a. if a \<in> set ps then None else nodes m a)"
    "\<exists>r. datas j d = Some r \<and> dlock r = Destroyed"
    "\<And>e qs. e \<noteq> d \<Longrightarrow> registry m e qs \<Longrightarrow> registry j e qs"
    by (rule rcu_data_exit_run [OF assms(1,2), of st], rule that)
  show ?thesis
  proof (cases st)
    case True
    with j show ?thesis
      by (auto simp: meta_list_def lock_data_def upd_data_def)
  next
    case False
    let ?k = "j\<lparr>datas := (datas j)(d := None), blocks := blocks j - {d}\<rparr>"
    have d: "d \<notin> set (as @ bs)" using assms(1) by (simp add: meta_list_def)
    have jc: "chain (data_next j) (meta_head j) (as @ bs)" "meta_lock j = Unlocked"
      using j(2) by (simp_all add: meta_list_def)
    have "chain (data_next ?k) (meta_head j) (as @ bs)"
    proof (rule chain_off [OF jc(1)])
      show "data_next ?k e = data_next j e" if "e \<in> set (as @ bs)" for e
        using d that by (auto simp: data_next_def)
    qed
    moreover have "registry ?k e qs" if "e \<noteq> d" "registry m e qs" for e qs
      using j(6) [OF that] that(1) by (simp add: registry_def)
    moreover have "rcu_data_exit d st m = Some ?k"
      using False j(1,3) assms(3) by (simp add: free_data_def)
    moreover have "lock_data d ?k = None" by (simp add: lock_data_def upd_data_def)
    ultimately show ?thesis
      using j(4) jc(2) by (intro exI [of _ ?k]) simp
  qed
qed

lemma rcu_data_exit_ok_witness:
  "\<exists>m'. rcu_data_exit usr_data True rcu_mem2 = Some m' \<and>
    nodes m' = (\<lambda>a. if a \<in> set [8] then None else nodes rcu_mem2 a) \<and>
    chain (data_next m') (meta_head m') ([] @ []) \<and> meta_lock m' = Unlocked \<and>
    (\<forall>e qs. e \<noteq> usr_data \<longrightarrow> registry rcu_mem2 e qs \<longrightarrow> registry m' e qs) \<and>
    lock_data usr_data m' = None"
  by (rule rcu_data_exit_ok) (simp_all add: meta_list_mem2 registry_mem2)

end
