(* ===== verification/Scoped_Lock.thy ===== *)
theory Scoped_Lock
  imports Spinlock Rcu_Threads
begin

text \<open>
  \<open>include/mthpc/scoped_lock.h\<close>: blocks that are scoped by spin locks and by critical sections of
  the RCU, in any order and nested in each other. The state is the spin locks, the memory of the
  RCU and the data of the block.
\<close>

section \<open>Guards\<close>

type_synonym 'x scoped = "(nat \<Rightarrow> spin) \<times> rcu_mem \<times> 'x"

definition scoped_lock_rcu_read_lock :: "nat \<Rightarrow> u64 \<Rightarrow> nat \<Rightarrow> 'x scoped \<Rightarrow> 'x scoped option" where
  "scoped_lock_rcu_read_lock fresh self lock = (\<lambda>(L, m, x). do {
     m \<leftarrow> mthpc_rcu_read_lock fresh self m;
     Some (L, m, x) })"

definition scoped_lock_rcu_read_unlock :: "u64 \<Rightarrow> nat \<Rightarrow> 'x scoped \<Rightarrow> 'x scoped option" where
  "scoped_lock_rcu_read_unlock self lock = (\<lambda>(L, m, x). do {
     m \<leftarrow> mthpc_rcu_read_unlock self m;
     Some (L, m, x) })"

definition rcu_guard :: "nat \<Rightarrow> u64 \<Rightarrow> (nat, 'x scoped) guard_type" where
  "rcu_guard fresh self = \<lparr>g_init = scoped_lock_rcu_read_lock fresh self,
     g_exit = scoped_lock_rcu_read_unlock self\<rparr>"

text \<open>\<open>mthpc_scoped_lock(rcu)\<close>, whose lock is \<open>NULL\<close>, and \<open>mthpc_scoped_lock(spinlock, p)\<close>.\<close>

datatype scoped_lock = Rcu_section | Spin nat

fun scoped_guard :: "nat \<Rightarrow> u64 \<Rightarrow> scoped_lock \<Rightarrow> (nat, 'x scoped) guard_type \<times> nat" where
  "scoped_guard fresh self Rcu_section = (rcu_guard fresh self, 0)"
| "scoped_guard fresh self (Spin p) = (spinlock_guard, p)"

fun spins :: "scoped_lock list \<Rightarrow> nat list" where
  "spins [] = []"
| "spins (Spin p # gs) = p # spins gs"
| "spins (Rcu_section # gs) = spins gs"

fun sections :: "scoped_lock list \<Rightarrow> nat" where
  "sections [] = 0"
| "sections (Spin p # gs) = sections gs"
| "sections (Rcu_section # gs) = Suc (sections gs)"

section \<open>Blocks\<close>

text \<open>The memory with another word in the node of the thread.\<close>

definition with_word :: "u64 \<Rightarrow> rcu_mem \<Rightarrow> u64 \<Rightarrow> rcu_mem" where
  "with_word t m w = m\<lparr>nodes := (nodes m)(node_ptr m t \<mapsto> (the (nodes m (node_ptr m t)))\<lparr>ngp := w\<rparr>)\<rparr>"

text \<open>The word of the writer, for a thread that is registered.\<close>

definition thread_data :: "u64 \<Rightarrow> rcu_mem \<Rightarrow> u64 \<Rightarrow> bool" where
  "thread_data t m g \<longleftrightarrow> node_ptr m t \<noteq> 0 \<and>
     (\<exists>n r. nodes m (node_ptr m t) = Some n \<and> datas m (ndata n) = Some r \<and> dgp r = g)"

lemma with_word_lock:
  assumes "thread_data t m g"
  shows "mthpc_rcu_read_lock fresh t (with_word t m w) = Some (with_word t m (read_lock_gp g w))"
    and "mthpc_rcu_read_unlock t (with_word t m w) = Some (with_word t m (read_unlock_gp w))"
  using assms
  by (auto simp: thread_data_def with_word_def mthpc_rcu_read_lock_def mthpc_rcu_read_lock_internal_def
      mthpc_rcu_read_unlock_def mthpc_rcu_read_unlock_internal_def upd_node_gp_def read_lock_gp_def)

lemma guard_steps:
  "thread_data t m g \<Longrightarrow> generated_guard_init (rcu_guard fresh t) l (L, with_word t m w, x) =
     Some (l, L, with_word t m (read_lock_gp g w), x)"
  "thread_data t m g \<Longrightarrow> generated_guard_exit (rcu_guard fresh t) l (L, with_word t m w, x) =
     Some (L, with_word t m (read_unlock_gp w), x)"
  by (simp_all add: generated_guard_init_def generated_guard_exit_def rcu_guard_def scoped_lock_rcu_read_lock_def
      scoped_lock_rcu_read_unlock_def with_word_lock)

lemma scoped_run:
  assumes data: "thread_data t m g"
    and "distinct (spins gs)" "\<And>p. p \<in> set (spins gs) \<Longrightarrow> L p = Unlocked"
    and "body (hold_all (spins gs) L, with_word t m ((read_lock_gp g ^^ sections gs) w), x) =
      Some (hold_all (spins gs) L, with_word t m ((read_lock_gp g ^^ sections gs) w), y)"
  shows "scoped_block (map (scoped_guard fresh t) gs) body (L, with_word t m w, x) =
    Some (L, with_word t m ((read_unlock_gp ^^ sections gs) ((read_lock_gp g ^^ sections gs) w)), y)"
  using assms(2-4)
proof (induction gs arbitrary: L w)
  case (Cons s gs)
  show ?case
  proof (cases s)
    case Rcu_section
    then have "scoped_block (map (scoped_guard fresh t) gs) body (L, with_word t m (read_lock_gp g w), x) =
      Some (L, with_word t m ((read_unlock_gp ^^ sections gs) ((read_lock_gp g ^^ sections gs) (read_lock_gp g w))), y)"
      using Cons.prems by (intro Cons.IH) (simp_all add: funpow_swap1)
    then show ?thesis using Rcu_section data by (simp add: guard_steps funpow_swap1)
  next
    case (Spin p)
    have L: "L p = Unlocked" using Cons.prems(2) Spin by simp
    have eq: "hold_all (spins gs) (L(p := Held)) = hold_all (spins (s # gs)) L"
      using Cons.prems(1) Spin by (simp add: hold_all_simps(2))
    have "scoped_block (map (scoped_guard fresh t) gs) body (L(p := Held), with_word t m w, x) =
      Some (L(p := Held), with_word t m ((read_unlock_gp ^^ sections gs) ((read_lock_gp g ^^ sections gs) w)), y)"
      by (rule Cons.IH, unfold eq) (use Cons.prems Spin in auto)
    then show ?thesis
      using Spin L by (simp add: generated_guard_init_def generated_guard_exit_def spinlock_guard_def
          lock_at_def unlock_at_def fun_upd_idem)
  qed
qed (simp add: hold_all_simps)

text \<open>The depth of the critical sections inside and after the block.\<close>

lemma read_lock_nest: "gp_nest g = 1 \<Longrightarrow> gp_nest w < 2 ^ 32 - 1 \<Longrightarrow> gp_nest (read_lock_gp g w) = Suc (gp_nest w)"
  using gp_incr [of w] by (auto simp: read_lock_gp_def word_facts)

lemma read_lock_nests:
  "gp_nest g = 1 \<Longrightarrow> gp_nest w + k < 2 ^ 32 \<Longrightarrow> gp_nest ((read_lock_gp g ^^ k) w) = gp_nest w + k"
  by (induction k) (simp_all add: read_lock_nest)

lemma read_unlock_nests: "k \<le> gp_nest w \<Longrightarrow> gp_nest ((read_unlock_gp ^^ k) w) = gp_nest w - k"
proof (induction k)
  case (Suc k)
  then have "0 < gp_nest ((read_unlock_gp ^^ k) w)" by simp
  then show ?case using gp_decr(1) Suc by (simp add: read_unlock_gp_def)
qed simp

text \<open>
  C4. A block scoped by spin locks and critical sections of the RCU, in any order: if the locks
  are distinct and free and the thread is registered, the body runs with every lock held and as
  many sections deeper as there are guards, and afterwards every lock is free again and the
  depth is what it was, for fewer than 2^32 sections.
\<close>

theorem scoped_sections:
  assumes data: "thread_data t m g" "data_gp_ok g" and nest: "gp_nest w + sections gs < 2 ^ 32"
    and locks: "distinct (spins gs)" "\<And>p. p \<in> set (spins gs) \<Longrightarrow> L p = Unlocked"
    and body: "\<And>v. gp_nest v = gp_nest w + sections gs \<Longrightarrow>
      body (hold_all (spins gs) L, with_word t m v, x) = Some (hold_all (spins gs) L, with_word t m v, y)"
  shows "\<exists>v. scoped_block (map (scoped_guard fresh t) gs) body (L, with_word t m w, x) = Some (L, with_word t m v, y) \<and>
    gp_nest v = gp_nest w"
proof -
  let ?k = "sections gs" and ?w = "(read_lock_gp g ^^ sections gs) w"
  have inside: "gp_nest ?w = gp_nest w + ?k"
    by (rule read_lock_nests) (use data(2) nest in \<open>simp_all add: data_gp_ok_def\<close>)
  have "scoped_block (map (scoped_guard fresh t) gs) body (L, with_word t m w, x) =
    Some (L, with_word t m ((read_unlock_gp ^^ ?k) ?w), y)"
    by (rule scoped_run [OF data(1) locks]) (use body [OF inside] in auto)
  moreover have "gp_nest ((read_unlock_gp ^^ ?k) ?w) = gp_nest w"
    using read_unlock_nests [of ?k ?w] inside by simp
  ultimately show ?thesis by blast
qed

text \<open>A section, a lock and a section in it.\<close>

lemma scoped_sections_witness:
  "\<exists>v. scoped_block (map (scoped_guard 20 3) [Rcu_section, Spin 5, Rcu_section])
      (\<lambda>(L, m, x). if L 5 = Held \<and> gp_active (ngp (the (nodes m 8))) then Some (L, m, Suc x) else None)
      (\<lambda>_. Unlocked, with_word 3 (rcu_mem2\<lparr>node_ptr := (\<lambda>_. 0)(3 := 8)\<rparr>) 0, 0) =
    Some (\<lambda>_. Unlocked, with_word 3 (rcu_mem2\<lparr>node_ptr := (\<lambda>_. 0)(3 := 8)\<rparr>) v, 1) \<and> gp_nest v = gp_nest 0"
proof (rule scoped_sections [where g = 1])
  show "thread_data 3 (rcu_mem2\<lparr>node_ptr := (\<lambda>_. 0)(3 := 8)\<rparr>) 1"
    by (simp add: thread_data_def rcu_mem2_def rcu_mem0_def new_node_def)
qed (simp_all add: data_gp_ok_def gp_nest_def hold_all_def with_word_def, simp add: word_facts gp_nest_def)

end
