(* ===== verification/CList_Props.thy ===== *)
theory CList_Props
  imports CList
begin

text \<open>
  What the list operations of \<open>include/mthpc/list.h\<close> promise, stated over rings of nodes, and
  the interface of a queue that the workqueues use: insertion at the tail, removal at the
  head.
\<close>

section \<open>Single operations\<close>

text \<open>
  \<open>mthpc_list_add_tail\<close> followed by \<open>mthpc_list_del\<close> of the same
  node restores the list and touches no node outside it.
\<close>

theorem list_add_del_roundtrip:
  assumes "clist h l xs" "new \<in> dom h" "new \<notin> set (l # xs)"
  shows "\<exists>h1 h2. mthpc_list_add_tail new l h = Some h1 \<and> clist h1 l (xs @ [new]) \<and>
    mthpc_list_del new h1 = Some h2 \<and> clist h2 l xs \<and> clist h2 new [] \<and>
    agree_off (set (new # l # xs)) h h2"
proof -
  obtain h1 where h1: "mthpc_list_add_tail new l h = Some h1" "clist h1 l (xs @ [new])"
    "agree_off (set (new # l # xs)) h h1"
    by (rule mthpc_list_add_tail_ok [OF assms])
  obtain h2 where h2: "mthpc_list_del new h1 = Some h2" "clist h2 l (xs @ [])" "clist h2 new []"
    "agree_off (set (l # xs @ [new])) h1 h2"
    by (rule mthpc_list_del_ok [OF h1(2)])
  have "agree_off (set (new # l # xs)) h h2"
    by (rule agree_off_trans_mono [OF h1(3) h2(4)]) auto
  with h1 h2 show ?thesis by auto
qed

lemma list_add_del_roundtrip_witness:
  "\<exists>h1 h2. mthpc_list_add_tail 5 0 ring_a = Some h1 \<and> clist h1 0 ([1, 2] @ [5]) \<and>
    mthpc_list_del 5 h1 = Some h2 \<and> clist h2 0 [1, 2] \<and> clist h2 5 [] \<and>
    agree_off (set (5 # 0 # [1, 2])) ring_a h2"
  by (rule list_add_del_roundtrip) (use ring_a_lists in simp_all)

text \<open>
  \<open>mthpc_list_move\<close> moves a node to the front and keeps the order of the
  others.
\<close>

theorem list_move_to_front:
  assumes "clist h l (as @ x # bs)"
  shows "\<exists>h'. mthpc_list_move x l h = Some h' \<and> clist h' l (x # as @ bs) \<and>
    agree_off (set (l # as @ x # bs)) h h'"
  using mthpc_list_move_ok [OF assms] by metis

lemma list_move_to_front_witness:
  "\<exists>h'. mthpc_list_move 2 0 ring_a = Some h' \<and> clist h' 0 (2 # [1] @ []) \<and>
    agree_off (set (0 # [1] @ 2 # [])) ring_a h'"
  by (rule list_move_to_front) (use ring_a_lists in simp)

text \<open>
  \<open>mthpc_list_replace_init\<close> puts the new node at the place of the old one and
  leaves the old one a list of its own.
\<close>

theorem list_replace_in_place:
  assumes "clist h l (as @ old # bs)" "new \<in> dom h" "new \<notin> set (l # as @ old # bs)"
  shows "\<exists>h'. mthpc_list_replace_init old new h = Some h' \<and> clist h' l (as @ new # bs) \<and>
    clist h' old [] \<and> agree_off (set (new # l # as @ old # bs)) h h'"
  using mthpc_list_replace_init_ok [OF assms] by metis

lemma list_replace_in_place_witness:
  "\<exists>h'. mthpc_list_replace_init 1 5 ring_a = Some h' \<and> clist h' 0 ([] @ 5 # [2]) \<and>
    clist h' 1 [] \<and> agree_off (set (5 # 0 # [] @ 1 # [2])) ring_a h'"
  by (rule list_replace_in_place) (use ring_a_lists in simp_all)

text \<open>
  \<open>mthpc_list_splice\<close> and \<open>mthpc_list_splice_tail\<close> join another
  list, in order, in front of or behind the nodes of a list; an empty source changes nothing.
\<close>

theorem list_splice_both_ends:
  assumes "clist h l xs" "clist h s ys" "set ys \<inter> set (l # xs) = {}"
  shows "(\<exists>h'. mthpc_list_splice s l h = Some h' \<and> clist h' l (ys @ xs)) \<and>
    (\<exists>h'. mthpc_list_splice_tail s l h = Some h' \<and> clist h' l (xs @ ys))"
  using mthpc_list_splice_ok [OF assms] mthpc_list_splice_tail_ok [OF assms] by metis

lemma list_splice_both_ends_witness:
  "(\<exists>h'. mthpc_list_splice 3 0 ring_a = Some h' \<and> clist h' 0 ([4] @ [1, 2])) \<and>
   (\<exists>h'. mthpc_list_splice_tail 3 0 ring_a = Some h' \<and> clist h' 0 ([1, 2] @ [4]))"
  by (rule list_splice_both_ends) (use ring_a_lists in simp_all)

section \<open>Emptying a list while walking it\<close>

lemma fold_del_all:
  "clist h l xs \<Longrightarrow> \<exists>h'. fold_opt mthpc_list_del xs h = Some h' \<and> clist h' l [] \<and>
     (\<forall>x\<in>set xs. clist h' x []) \<and> agree_off (set (l # xs)) h h'"
proof (induction xs arbitrary: h)
  case (Cons x xs)
  have c: "clist h l ([] @ x # xs)" using Cons.prems by simp
  obtain h1 where h1: "mthpc_list_del x h = Some h1" "clist h1 l ([] @ xs)" "clist h1 x []"
    "agree_off (set (l # [] @ x # xs)) h h1"
    by (rule mthpc_list_del_ok [OF c])
  obtain h2 where h2: "fold_opt mthpc_list_del xs h1 = Some h2" "clist h2 l []"
    "\<forall>y\<in>set xs. clist h2 y []" "agree_off (set (l # xs)) h1 h2"
    using Cons.IH [of h1] h1(2) by auto
  have "x \<notin> set (l # xs)" using clist_distinct [OF Cons.prems] by auto
  then have "clist h2 x []"
    using clist_agree [OF h2(4), of x "[]"] h1(3) by auto
  moreover have "agree_off (set (l # x # xs)) h h2"
    by (rule agree_off_trans_mono [OF h1(4) h2(4)]) auto
  ultimately show ?case using h1(1) h2 by auto
qed simp

text \<open>
  \<open>mthpc_list_for_each_safe\<close> with a body that deletes each node visits all of
  them, returns, and leaves an empty list and every node a list of its own.
\<close>

theorem for_each_safe_del_all:
  assumes "clist h l xs"
  shows "\<exists>h'. list_for_each_safe (\<lambda>h. h) mthpc_list_del l h = Some h' \<and> clist h' l [] \<and>
    (\<forall>x\<in>set xs. clist h' x [])"
proof -
  have "list_for_each_safe (\<lambda>h. h) mthpc_list_del l h = fold_opt mthpc_list_del xs h"
  proof (rule list_for_each_safe_fold [where J = "\<lambda>rest s. clist s l rest"])
    fix rest s assume "clist s l rest"
    then show "nexts s (rest @ [l]) \<and> l \<in> dom s"
      using clist_nexts [of s l rest] clist_dom [of s l rest] by (cases rest) auto
  next
    fix x rest s s' assume c: "clist s l (x # rest)" and d: "mthpc_list_del x s = Some s'"
    have "clist s l ([] @ x # rest)" using c by simp
    from mthpc_list_del_ok [OF this] show "clist s' l rest"
      using d by (metis append_Nil option.inject)
  next
    show "l \<notin> set xs" using clist_distinct [OF assms] by simp
    show "ld_next h l = Some (hd (xs @ [l]))"
      using clist_next [OF assms] by (cases xs) auto
  qed (rule assms)
  with fold_del_all [OF assms] show ?thesis by auto
qed

lemma for_each_safe_del_all_witness:
  "\<exists>h'. list_for_each_safe (\<lambda>h. h) mthpc_list_del 0 ring_a = Some h' \<and> clist h' 0 [] \<and>
    (\<forall>x\<in>set [1, 2]. clist h' x [])"
  by (rule for_each_safe_del_all [OF ring_a_lists(1)])

section \<open>The interface of a queue\<close>

text \<open>
  What a workqueue relies on: the items leave in the order in which they came, an item that
  has left can be queued again, and the rest of the heap is not touched.
\<close>

locale fifo =
  fixes items :: "'h \<Rightarrow> 'a list \<Rightarrow> bool"
    and ready :: "'h \<Rightarrow> 'a \<Rightarrow> bool" \<comment> \<open>may be queued\<close>
    and enq :: "'a \<Rightarrow> 'h \<Rightarrow> 'h option"
    and deq :: "'h \<Rightarrow> ('a \<times> 'h) option"
  assumes enq_law: "items h xs \<Longrightarrow> ready h x \<Longrightarrow> x \<notin> set xs \<Longrightarrow>
      \<exists>h'. enq x h = Some h' \<and> items h' (xs @ [x]) \<and> (\<forall>y. ready h' y = ready h y)"
    and deq_law: "items h (x # xs) \<Longrightarrow>
      \<exists>h'. deq h = Some (x, h') \<and> items h' xs \<and> (\<forall>y. ready h' y = ready h y)"
begin

fun enq_all :: "'a list \<Rightarrow> 'h \<Rightarrow> 'h option" where
  "enq_all [] h = Some h"
| "enq_all (x # xs) h = Option.bind (enq x h) (enq_all xs)"

fun deq_n :: "nat \<Rightarrow> 'h \<Rightarrow> ('a list \<times> 'h) option" where
  "deq_n 0 h = Some ([], h)"
| "deq_n (Suc n) h = do { (x, h) \<leftarrow> deq h; (xs, h) \<leftarrow> deq_n n h; Some (x # xs, h) }"

lemma enq_all_ok:
  "items h xs \<Longrightarrow> (\<And>y. y \<in> set ys \<Longrightarrow> ready h y) \<Longrightarrow> distinct (xs @ ys) \<Longrightarrow>
   \<exists>h'. enq_all ys h = Some h' \<and> items h' (xs @ ys)"
proof (induction ys arbitrary: xs h)
  case (Cons y ys)
  obtain h1 where h1: "enq y h = Some h1" "items h1 (xs @ [y])" "\<forall>z. ready h1 z = ready h z"
    using enq_law [of h xs y] Cons.prems by auto
  with Cons.IH [of h1 "xs @ [y]"] Cons.prems show ?case by auto
qed simp

lemma deq_n_ok:
  "items h (xs @ ys) \<Longrightarrow> \<exists>h'. deq_n (length xs) h = Some (xs, h') \<and> items h' ys"
proof (induction xs arbitrary: h)
  case (Cons x xs)
  obtain h1 where h1: "deq h = Some (x, h1)" "items h1 (xs @ ys)"
    using deq_law [of h x "xs @ ys"] Cons.prems by auto
  from Cons.IH [OF h1(2)] h1(1) show ?case by auto
qed simp

lemma fifo_order:
  assumes "items h []" "\<And>y. y \<in> set ys \<Longrightarrow> ready h y" "distinct ys"
  shows "\<exists>h1 h2. enq_all ys h = Some h1 \<and> deq_n (length ys) h1 = Some (ys, h2) \<and> items h2 []"
proof -
  obtain h1 where h1: "enq_all ys h = Some h1" "items h1 ([] @ ys)"
    using enq_all_ok [of h "[]" ys] assms by auto
  then show ?thesis using deq_n_ok [of h1 ys "[]"] by auto
qed

end

text \<open>The queue on the list head \<open>l\<close>: \<open>mthpc_list_add_tail\<close>, and the head's first node deleted.\<close>

definition list_pop :: "'a \<Rightarrow> 'a list_heap \<Rightarrow> ('a \<times> 'a list_heap) option" where
  "list_pop l h = do {
     x \<leftarrow> ld_next h l;
     h \<leftarrow> mthpc_list_del x h;
     Some (x, h) }"

definition list_ready :: "'a \<Rightarrow> 'a list_heap \<Rightarrow> 'a \<Rightarrow> bool" where
  "list_ready l h x \<longleftrightarrow> x \<in> dom h \<and> x \<noteq> l"

lemma list_ready_agree: "agree_off S h h' \<Longrightarrow> list_ready l h' y = list_ready l h y"
  by (simp add: list_ready_def agree_off_dom)

interpretation lq: fifo "\<lambda>h. clist h l" "list_ready l" "\<lambda>x. mthpc_list_add_tail x l" "list_pop l" for l
proof
  fix h xs x assume "clist h l xs" "list_ready l h x" "x \<notin> set xs"
  then have a: "clist h l xs" "x \<in> dom h" "x \<notin> set (l # xs)" by (auto simp: list_ready_def)
  obtain h' where "mthpc_list_add_tail x l h = Some h'" "clist h' l (xs @ [x])"
    "agree_off (set (x # l # xs)) h h'"
    by (rule mthpc_list_add_tail_ok [OF a])
  then show "\<exists>h'. mthpc_list_add_tail x l h = Some h' \<and> clist h' l (xs @ [x]) \<and>
    (\<forall>y. list_ready l h' y = list_ready l h y)"
    by (auto simp: list_ready_agree)
next
  fix h x xs assume "clist h l (x # xs)"
  then have c: "clist h l ([] @ x # xs)" by simp
  obtain h' where "mthpc_list_del x h = Some h'" "clist h' l ([] @ xs)"
    "agree_off (set (l # [] @ x # xs)) h h'"
    by (rule mthpc_list_del_ok [OF c])
  moreover have "ld_next h l = Some x" using clist_next [OF c] by simp
  ultimately show "\<exists>h'. list_pop l h = Some (x, h') \<and> clist h' l xs \<and>
    (\<forall>y. list_ready l h' y = list_ready l h y)"
    by (auto simp: list_pop_def list_ready_agree)
qed

end
