(* ===== verification/Rcu_Calm.thy ===== *)
theory Rcu_Calm
  imports Rcu_Data
begin

text \<open>
  The registry of \<open>src/rcu/rcu.c\<close> as the other components use it: a set of registered threads, none
  of which is in a critical section between two calls. Critical sections, grace periods, and
  threads that come and go keep it so.
\<close>

section \<open>Registered threads\<close>

text \<open>The id of a thread in the registry.\<close>

abbreviation thread_id :: "u64 \<Rightarrow> u64" where
  "thread_id t \<equiv> ucast (ucast t :: u32)"

text \<open>
  The registered threads are exactly \<open>T\<close>, told apart by their ids, and all their nodes are inactive.
\<close>

definition rcu_threads :: "u64 set \<Rightarrow> rcu_mem \<Rightarrow> bool" where
  "rcu_threads T m \<longleftrightarrow> registry_valid usr_data m \<and> inj_on thread_id T \<and>
     (\<forall>t. t \<notin> T \<longrightarrow> node_ptr m t = 0) \<and>
     (\<forall>t\<in>T. rcu_lookup usr_data m (thread_id t) = Some (node_ptr m t)) \<and>
     dom (rcu_lookup usr_data m) = thread_id ` T \<and>
     (\<forall>a\<in>Map.ran (rcu_lookup usr_data m). \<forall>g. map_option ngp (nodes m a) = Some g \<longrightarrow> \<not> gp_active g) \<and>
     (\<forall>r. datas m usr_data = Some r \<longrightarrow> data_gp_ok (dgp r))"

lemma rcu_threadsD:
  assumes "rcu_threads T m"
  shows "registry_valid usr_data m" "inj_on thread_id T" "t \<notin> T \<Longrightarrow> node_ptr m t = 0"
    "t \<in> T \<Longrightarrow> rcu_lookup usr_data m (thread_id t) = Some (node_ptr m t)"
    "dom (rcu_lookup usr_data m) = thread_id ` T"
    "a \<in> Map.ran (rcu_lookup usr_data m) \<Longrightarrow> map_option ngp (nodes m a) = Some g \<Longrightarrow> \<not> gp_active g"
    "datas m usr_data = Some r \<Longrightarrow> data_gp_ok (dgp r)"
  using assms by (auto simp: rcu_threads_def)

lemma registry_not_null: "registry m d ps \<Longrightarrow> 0 \<notin> set ps"
  by (auto simp: registry_def dest: on_list_dom)

lemma ran_lookup:
  assumes "registry m d ps"
  shows "Map.ran (rcu_lookup d m) = set ps"
proof -
  have "distinct (map (\<lambda>a. nid (the (nodes m a))) ps)" using assms by (auto simp: registry_def on_list_def)
  then show ?thesis
    unfolding rcu_lookup_map [OF assms] id_map_def by (subst ran_distinct) (simp_all add: comp_def image_image)
qed

lemma rcu_threads_parts:
  assumes "rcu_threads T m"
  obtains ps r where "registry m usr_data ps" "datas m usr_data = Some r" "data_gp_ok (dgp r)"
    "\<And>a. a \<in> set ps \<Longrightarrow> \<exists>n. nodes m a = Some n \<and> ndata n = usr_data \<and> \<not> gp_active (ngp n)"
    "node_ptr m ` T = set ps"
proof -
  obtain ps where ps: "registry m usr_data ps" using rcu_threadsD(1) [OF assms] by (auto simp: registry_valid_def)
  then obtain r where r: "datas m usr_data = Some r" by (auto simp: registry_def)
  have ran: "Map.ran (rcu_lookup usr_data m) = set ps" by (rule ran_lookup [OF ps])
  have "\<exists>n. nodes m a = Some n \<and> ndata n = usr_data \<and> \<not> gp_active (ngp n)" if "a \<in> set ps" for a
    using registry_nodes [OF ps that] rcu_threadsD(6) [OF assms, of a] ran that by auto
  moreover have "node_ptr m ` T = set ps"
  proof -
    have "Map.ran (rcu_lookup usr_data m) = (\<lambda>i. the (rcu_lookup usr_data m i)) ` dom (rcu_lookup usr_data m)"
      by (force simp: ran_def dom_def image_iff)
    also have "\<dots> = node_ptr m ` T"
      unfolding rcu_threadsD(5) [OF assms] image_image
      by (rule image_cong) (simp_all add: rcu_threadsD(4) [OF assms])
    finally show ?thesis using ran by simp
  qed
  ultimately show ?thesis using ps r rcu_threadsD(7) [OF assms r] by (intro that [of ps r]) simp_all
qed

text \<open>No node is active, so a grace period ends at once.\<close>

lemma rcu_threads_synchronize:
  assumes "rcu_threads T m"
  obtains m' where "mthpc_synchronize_rcu m = Some m'" "rcu_threads T m'" "nodes m' = nodes m" "node_ptr m' = node_ptr m"
proof -
  obtain ps r where p: "registry m usr_data ps" "datas m usr_data = Some r" "data_gp_ok (dgp r)"
    "\<And>a. a \<in> set ps \<Longrightarrow> \<exists>n. nodes m a = Some n \<and> ndata n = usr_data \<and> \<not> gp_active (ngp n)"
    by (rule rcu_threads_parts [OF assms], rule that)
  let ?m = "m\<lparr>datas := (datas m)(usr_data \<mapsto> flip_gp r)\<rparr>"
  have "node_passes (nodes m) (dgp r) a" if "a \<in> set ps" for a
    using p(4) [OF that] by (auto simp: node_passes_def)
  then have run: "mthpc_synchronize_rcu m = Some ?m"
    using synchronize_internal_eq [OF p(1,2)] by (simp add: mthpc_synchronize_rcu_def)
  have reg: "registry ?m usr_data ps" using p(1,2) by (auto simp: registry_def flip_gp_def)
  have "rcu_lookup usr_data ?m = rcu_lookup usr_data m"
    using rcu_lookup_map [OF reg] rcu_lookup_map [OF p(1)] by simp
  then have "rcu_threads T ?m"
    using assms reg data_gp_next [OF p(3)] by (auto simp: rcu_threads_def registry_valid_def flip_gp_def)
  with run show ?thesis by (intro that [of ?m]) simp_all
qed

section \<open>Threads that come and go\<close>

lemma dom_map_option_off:
  assumes "\<And>b. b \<noteq> a \<Longrightarrow> map_option f (N b) = map_option f (M b)"
  shows "dom N - {a} = dom M - {a}"
proof -
  have "N b = None \<longleftrightarrow> M b = None" if "b \<noteq> a" for b
    using assms [OF that] by (metis option.map_disc_iff)
  then have "\<forall>b. b \<noteq> a \<longrightarrow> (N b = None \<longleftrightarrow> M b = None)" by blast
  then show ?thesis by (auto simp: dom_def)
qed

lemma rcu_threads_init:
  assumes T: "rcu_threads T m" and t: "thread_id t \<notin> thread_id ` T" and a: "a \<noteq> 0" "nodes m a = None"
  obtains m' where "mthpc_rcu_thread_init a t m = Some m'" "rcu_threads (insert t T) m'"
    "dom (nodes m') = insert a (dom (nodes m))" "warned m' = warned m"
proof -
  note D = rcu_threadsD [OF T]
  obtain ps where ps: "registry m usr_data ps" using D(1) by (auto simp: registry_valid_def)
  have tT: "t \<notin> T" using t by blast
  have none: "rcu_lookup usr_data m (thread_id t) = None" using D(5) t by blast
  obtain k where k: "mthpc_rcu_add a usr_data (ucast t) m = Some (k, Some a)" "registry k usr_data (ps @ [a])"
    "rcu_lookup usr_data k = (rcu_lookup usr_data m)(thread_id t \<mapsto> a)" "same_rest usr_data (insert a (set ps)) m k"
    "warned k = warned m" "nodes k a = Some (new_node usr_data (thread_id t))"
    "\<And>b. b \<noteq> a \<Longrightarrow> map_option ngp (nodes k b) = map_option ngp (nodes m b)"
    by (rule rcu_add_new [OF ps a none], rule that)
  let ?m = "k\<lparr>node_ptr := (node_ptr m)(t := a)\<rparr>"
  have np: "node_ptr k = node_ptr m" by (rule rcu_add_node_ptr [OF k(1)])
  have run: "mthpc_rcu_thread_init a t m = Some ?m"
    using k(1) D(3) [OF tT] np by (simp add: mthpc_rcu_thread_init_def)
  have dom: "dom (nodes k) = insert a (dom (nodes m))"
    using dom_map_option_off [of a ngp "nodes k" "nodes m", OF k(7)] k(6) by auto
  have inact: "\<not> gp_active g" if b: "b \<in> Map.ran (rcu_lookup usr_data k)" "map_option ngp (nodes k b) = Some g" for b g
  proof (cases "b = a")
    case True
    then show ?thesis using b(2) k(6) by (auto simp: new_node_def gp_active_def)
  next
    case False
    have "b \<in> Map.ran (rcu_lookup usr_data m)"
      using b(1) False unfolding k(3) by (auto simp: ran_def split: if_splits)
    then show ?thesis using D(6) b(2) k(7) [OF False] by metis
  qed
  have "rcu_threads (insert t T) ?m"
    unfolding rcu_threads_def
  proof (intro conjI ballI allI impI)
    show "registry_valid usr_data ?m" using k(2) by (auto simp: registry_valid_def)
    show "inj_on thread_id (insert t T)" unfolding inj_on_insert using D(2) t by blast
    show "dom (rcu_lookup usr_data ?m) = thread_id ` insert t T" using k(3) D(5) by simp
    show "rcu_lookup usr_data ?m (thread_id u) = Some (node_ptr ?m u)" if "u \<in> insert t T" for u
    proof (cases "u = t")
      case False
      then have "thread_id u \<in> thread_id ` T" using that by blast
      with t have "thread_id u \<noteq> thread_id t" by metis
      then show ?thesis using k(3) D(4) that False by simp
    qed (use k(3) in simp)
    show "data_gp_ok (dgp r)" if "datas ?m usr_data = Some r" for r
      using k(4) D(7) that by (auto simp: same_rest_def)
  qed (use D(3) np inact in auto)
  with run dom k(5) show ?thesis by (intro that [of ?m]) simp_all
qed

lemma rcu_threads_exit:
  assumes T: "rcu_threads T m" and t: "t \<in> T"
  obtains m' where "mthpc_rcu_thread_exit t m = Some m'" "rcu_threads (T - {t}) m'"
    "dom (nodes m') = dom (nodes m) - {node_ptr m t}" "warned m' = warned m"
proof -
  note D = rcu_threadsD [OF T]
  let ?a = "node_ptr m t"
  obtain ps where ps: "registry m usr_data ps" using D(1) by (auto simp: registry_valid_def)
  have "id_map (nodes m) ps (thread_id t) = Some ?a" using D(4) [OF t] rcu_lookup_map [OF ps] by simp
  then obtain as bs where s: "ps = as @ ?a # bs" "nid (the (nodes m ?a)) = ucast (ucast t :: u32)" by (rule id_map_split)
  have z: "?a \<noteq> 0" using registry_not_null [OF ps] s(1) by (metis in_set_conv_decomp)
  obtain k where k: "mthpc_rcu_del usr_data (ucast t) ?a m = Some k" "registry k usr_data (as @ bs)"
    "rcu_lookup usr_data k = (rcu_lookup usr_data m)(thread_id t := None)" "same_rest usr_data (set (as @ ?a # bs)) m k"
    "nodes k ?a = None" "warned k = warned m"
    "\<And>b. b \<noteq> ?a \<Longrightarrow> map_option ngp (nodes k b) = map_option ngp (nodes m b)"
    by (rule rcu_del_found [OF ps [unfolded s(1)] s(2), of ?a]) (use that in simp)
  have np: "node_ptr k = node_ptr m" by (rule rcu_del_node_ptr [OF k(1)])
  let ?m = "k\<lparr>node_ptr := (node_ptr m)(t := 0)\<rparr>"
  have run: "mthpc_rcu_thread_exit t m = Some ?m"
    using k(1) z np by (simp add: mthpc_rcu_thread_exit_def)
  have dom: "dom (nodes k) = dom (nodes m) - {?a}"
    using dom_map_option_off [of ?a ngp "nodes k" "nodes m", OF k(7)] k(5) by auto
  have other: "thread_id u \<noteq> thread_id t" if "u \<in> T - {t}" for u
    using D(2) t that by (auto simp: inj_on_def)
  have inact: "\<not> gp_active g" if b: "b \<in> Map.ran (rcu_lookup usr_data k)" "map_option ngp (nodes k b) = Some g" for b g
  proof -
    have "b \<in> Map.ran (rcu_lookup usr_data m)"
      using b(1) unfolding k(3) by (auto simp: ran_def split: if_splits)
    moreover have "b \<noteq> ?a" using b(2) k(5) by auto
    ultimately show ?thesis using D(6) b(2) k(7) by metis
  qed
  have "rcu_threads (T - {t}) ?m"
    unfolding rcu_threads_def
  proof (intro conjI ballI allI impI)
    show "registry_valid usr_data ?m" using k(2) by (auto simp: registry_valid_def)
    show "inj_on thread_id (T - {t})" by (rule inj_on_subset [OF D(2)]) blast
    show "dom (rcu_lookup usr_data ?m) = thread_id ` (T - {t})"
      using k(3) D(5) inj_on_image_set_diff [OF D(2), of T "{t}"] t by simp
    show "rcu_lookup usr_data ?m (thread_id u) = Some (node_ptr ?m u)" if "u \<in> T - {t}" for u
      using k(3) D(4) other [OF that] that by simp
    show "data_gp_ok (dgp r)" if "datas ?m usr_data = Some r" for r
      using k(4) D(7) that by (auto simp: same_rest_def)
  qed (use D(3) inact in auto)
  with run dom k(6) show ?thesis by (intro that [of ?m]) simp_all
qed

section \<open>Critical sections\<close>

text \<open>The thread is registered, so its critical section needs no allocation.\<close>

definition rcu_ready :: "u64 \<Rightarrow> rcu_mem \<Rightarrow> bool" where
  "rcu_ready t m \<longleftrightarrow> node_ptr m t \<noteq> 0 \<and>
     (\<exists>n. nodes m (node_ptr m t) = Some n \<and> datas m (ndata n) \<noteq> None)"

text \<open>A critical section of the thread, from its beginning to its end.\<close>

definition rcu_pass :: "u64 \<Rightarrow> rcu_mem \<Rightarrow> rcu_mem \<Rightarrow> bool" where
  "rcu_pass t m m' \<longleftrightarrow> (\<exists>f k. mthpc_rcu_read_lock f t m = Some k \<and> mthpc_rcu_read_unlock t k = Some m')"

lemma rcu_section_run:
  assumes "node_ptr m t \<noteq> 0" "nodes m (node_ptr m t) = Some n" "datas m (ndata n) = Some r"
  obtains m1 where "mthpc_rcu_read_lock f t m = Some m1"
    "mthpc_rcu_read_unlock t m1 = Some (m\<lparr>nodes := (nodes m)(node_ptr m t \<mapsto>
       n\<lparr>ngp := read_unlock_gp (read_lock_gp (dgp r) (ngp n))\<rparr>)\<rparr>)"
proof -
  let ?m = "\<lambda>g. m\<lparr>nodes := (nodes m)(node_ptr m t \<mapsto> n\<lparr>ngp := g\<rparr>)\<rparr>"
  let ?g = "read_lock_gp (dgp r) (ngp n)"
  have "mthpc_rcu_read_lock f t m = Some (?m ?g)"
    using assms by (simp add: mthpc_rcu_read_lock_def mthpc_rcu_read_lock_internal_def upd_node_gp_def read_lock_gp_def)
  moreover have "mthpc_rcu_read_unlock t (?m ?g) = Some (?m (read_unlock_gp ?g))"
    by (simp add: mthpc_rcu_read_unlock_def mthpc_rcu_read_unlock_internal_def upd_node_gp_def)
  ultimately show ?thesis by (rule that)
qed

lemma rcu_pass_eq:
  assumes "node_ptr m t \<noteq> 0" "nodes m (node_ptr m t) = Some n" "datas m (ndata n) = Some r"
  shows "rcu_pass t m m' \<longleftrightarrow> m' = m\<lparr>nodes := (nodes m)(node_ptr m t \<mapsto>
      n\<lparr>ngp := read_unlock_gp (read_lock_gp (dgp r) (ngp n))\<rparr>)\<rparr>"
proof -
  have "\<exists>k. mthpc_rcu_read_lock f t m = Some k \<and> mthpc_rcu_read_unlock t k = Some (m\<lparr>nodes := (nodes m)(node_ptr m t \<mapsto>
      n\<lparr>ngp := read_unlock_gp (read_lock_gp (dgp r) (ngp n))\<rparr>)\<rparr>)" for f
    by (rule rcu_section_run [OF assms]) blast
  then show ?thesis unfolding rcu_pass_def by (metis option.inject)
qed

lemma rcu_pass_ready: "rcu_pass t m m' \<Longrightarrow> rcu_ready t m \<Longrightarrow> rcu_ready t m'"
  by (auto simp: rcu_ready_def rcu_pass_eq)

lemma rcu_section:
  assumes "rcu_ready t m"
  obtains m1 m2 where "mthpc_rcu_read_lock f t m = Some m1" "mthpc_rcu_read_unlock t m1 = Some m2"
    "rcu_pass t m m2"
proof -
  obtain n r where "node_ptr m t \<noteq> 0" "nodes m (node_ptr m t) = Some n" "datas m (ndata n) = Some r"
    using assms by (auto simp: rcu_ready_def)
  from rcu_section_run [OF this, of f] that show ?thesis unfolding rcu_pass_def by metis
qed

text \<open>A node whose \<open>gp_seq\<close> is written stays where it is.\<close>

lemma registry_upd_gp:
  assumes "registry m d ps" "nodes m a = Some n"
  shows "registry (m\<lparr>nodes := (nodes m)(a \<mapsto> n\<lparr>ngp := g\<rparr>)\<rparr>) d ps"
    "rcu_lookup d (m\<lparr>nodes := (nodes m)(a \<mapsto> n\<lparr>ngp := g\<rparr>)\<rparr>) = rcu_lookup d m"
proof -
  let ?N = "(nodes m)(a \<mapsto> n\<lparr>ngp := g\<rparr>)"
  have e: "(\<lambda>b. map_option nnext (?N b)) = (\<lambda>b. map_option nnext (nodes m b))"
    "(\<lambda>b. nid (the (?N b))) = (\<lambda>b. nid (the (nodes m b)))"
    using assms(2) by auto
  have "(\<exists>k. ?N b = Some k \<and> ndata k = d) \<longleftrightarrow> (\<exists>k. nodes m b = Some k \<and> ndata k = d)" for b
    using assms(2) by auto
  then have "on_list ?N d p ps = on_list (nodes m) d p ps" for p
    by (simp only: on_list_def e)
  then show reg: "registry (m\<lparr>nodes := ?N\<rparr>) d ps" using assms(1) by (simp add: registry_def)
  have "id_map ?N ps = id_map (nodes m) ps" using e(2) by (simp add: id_map_def fun_eq_iff)
  then show "rcu_lookup d (m\<lparr>nodes := ?N\<rparr>) = rcu_lookup d m"
    using rcu_lookup_map [OF reg] rcu_lookup_map [OF assms(1)] by simp
qed

lemma rcu_threads_node:
  assumes "rcu_threads T m" "t \<in> T"
  obtains n r where "node_ptr m t \<noteq> 0" "nodes m (node_ptr m t) = Some n" "datas m (ndata n) = Some r"
    "\<not> gp_active (ngp n)" "data_gp_ok (dgp r)"
proof -
  obtain ps r where p: "registry m usr_data ps" "datas m usr_data = Some r" "data_gp_ok (dgp r)"
    "\<And>a. a \<in> set ps \<Longrightarrow> \<exists>n. nodes m a = Some n \<and> ndata n = usr_data \<and> \<not> gp_active (ngp n)"
    "node_ptr m ` T = set ps"
    by (rule rcu_threads_parts [OF assms(1)], rule that)
  have a: "node_ptr m t \<in> set ps" using p(5) assms(2) by blast
  then have "node_ptr m t \<noteq> 0" using registry_not_null [OF p(1)] by metis
  with p(2,3) p(4) [OF a] that show ?thesis by auto
qed

lemma rcu_threads_ready: "rcu_threads T m \<Longrightarrow> t \<in> T \<Longrightarrow> rcu_ready t m"
  by (rule rcu_threads_node) (auto simp: rcu_ready_def)

lemma rcu_threads_pass:
  assumes T: "rcu_threads T m" and t: "t \<in> T" and pass: "rcu_pass t m m'"
  shows "rcu_threads T m'" "dom (nodes m') = dom (nodes m)"
proof -
  note D = rcu_threadsD [OF T]
  obtain n r where n: "node_ptr m t \<noteq> 0" "nodes m (node_ptr m t) = Some n" "datas m (ndata n) = Some r"
    "\<not> gp_active (ngp n)" "data_gp_ok (dgp r)"
    by (rule rcu_threads_node [OF T t], rule that)
  obtain ps where ps: "registry m usr_data ps" using D(1) by (auto simp: registry_valid_def)
  let ?g = "read_unlock_gp (dgp r)"
  have m': "m' = m\<lparr>nodes := (nodes m)(node_ptr m t \<mapsto> n\<lparr>ngp := ?g\<rparr>)\<rparr>"
    using pass rcu_pass_eq [OF n(1-3)] n(4) by (simp add: read_lock_gp_def)
  have "gp_nest ?g = 0"
    using gp_decr(1) [of "dgp r"] n(5) by (simp add: read_unlock_gp_def data_gp_ok_def)
  then have g: "\<not> gp_active ?g" by (simp add: gp_active_iff)
  have L: "rcu_lookup usr_data m' = rcu_lookup usr_data m" "registry m' usr_data ps"
    unfolding m' by (rule registry_upd_gp [OF ps n(2)])+
  have "\<not> gp_active h" if b: "b \<in> Map.ran (rcu_lookup usr_data m)" "map_option ngp (nodes m' b) = Some h" for b h
  proof (cases "b = node_ptr m t")
    case True
    then show ?thesis using b(2) g m' by simp
  next
    case False
    then show ?thesis using b D(6) [OF b(1)] m' by simp
  qed
  moreover have "datas m' = datas m" "node_ptr m' = node_ptr m" by (simp_all add: m')
  ultimately show "rcu_threads T m'"
    using T L by (auto simp: rcu_threads_def registry_valid_def)
  show "dom (nodes m') = dom (nodes m)" using n(2) m' by auto
qed

end
