(* ===== verification/Workqueue.thy ===== *)
theory Workqueue
  imports CList_Props Rculist Rcu_Calm
begin

text \<open>
  The workqueues, \<open>src/workqueue/workqueue.c\<close>: pools of queues, each queue with a worker
  thread. The lists of a pool and of its queues live in one heap of \<open>mthpc_list_head\<close>s;
  the calls into the RCU act on the registry of \<open>Rcu_Registry\<close>. What the environment
  decides (the results of \<open>malloc\<close> and \<open>sched_getcpu\<close>, the contents of fresh memory) is a
  record of arguments. Here are the definitions; the properties are in \<open>Workqueue_Props\<close>.
\<close>

section \<open>The word of the cpu and the active flag\<close>

definition MTHPC_WQ_NR_CPU :: u32 where "MTHPC_WQ_NR_CPU = 4"
definition MTHPC_WQ_CPU_MASK :: u32 where "MTHPC_WQ_CPU_MASK = MTHPC_WQ_NR_CPU - 1"
definition MTHPC_WQ_ACTIVED_FLAG :: u32 where "MTHPC_WQ_ACTIVED_FLAG = MTHPC_WQ_NR_CPU"

definition mthpc_wq_get_cpu :: "u32 \<Rightarrow> u32" where
  "mthpc_wq_get_cpu ac = ac AND MTHPC_WQ_CPU_MASK"

text \<open>The strong compare-and-exchange fails only if another thread changes the word meanwhile.\<close>

definition mthpc_wq_set_cpu :: "u32 \<Rightarrow> u32 \<Rightarrow> u32" where
  "mthpc_wq_set_cpu ac cpu = (ac AND NOT MTHPC_WQ_CPU_MASK) OR (cpu AND MTHPC_WQ_CPU_MASK)"

definition mthpc_wq_active :: "u32 \<Rightarrow> bool" where
  "mthpc_wq_active ac \<longleftrightarrow> ac AND MTHPC_WQ_ACTIVED_FLAG \<noteq> 0"

definition mthpc_wq_mkactive :: "u32 \<Rightarrow> u32" where
  "mthpc_wq_mkactive ac = ac OR MTHPC_WQ_ACTIVED_FLAG"

definition mthpc_wq_clear_active :: "u32 \<Rightarrow> u32" where
  "mthpc_wq_clear_active ac = ac AND NOT MTHPC_WQ_ACTIVED_FLAG"

section \<open>The futex\<close>

text \<open>
  The wait polls the word: its poll number \<open>t\<close> reads \<open>obs t\<close>, and the call of \<open>futex\<close> that
  follows it returns \<open>ret t\<close>. \<open>WaitReset\<close> also stores \<open>0\<close> to the word.
\<close>

definition EAGAIN :: u32 where "EAGAIN = 11"
definition EINTR :: u32 where "EINTR = 4"
definition EINVAL :: u32 where "EINVAL = 22"
definition ENOMEM :: u32 where "ENOMEM = 12"

datatype wait_exit = WaitDone | WaitReset | WaitBug

partial_function (option) mthpc_wq_futex_wait ::
  "(nat \<Rightarrow> u32) \<Rightarrow> (nat \<Rightarrow> u32) \<Rightarrow> nat \<Rightarrow> (wait_exit \<times> nat) option" where
  "mthpc_wq_futex_wait obs ret t =
     (if obs t \<noteq> 0 then Some (WaitDone, t)
      else if ret t = EAGAIN then Some (WaitReset, t)
      else if ret t = 0 \<or> ret t = EINTR then mthpc_wq_futex_wait obs ret (Suc t)
      else Some (WaitBug, t))"

text \<open>
  The fallback \<open>futex\<close> of \<open>src/futex.c\<close>: \<open>lock\<close> and \<open>unlock\<close> are what the mutex calls return;
  \<open>pthread_cond_wait\<close> returns to the next observation of the word.
\<close>

definition FUTEX_WAIT :: u32 where "FUTEX_WAIT = 1"
definition FUTEX_WAKE :: u32 where "FUTEX_WAKE = 2"

partial_function (option) futex_cond_wait :: "(nat \<Rightarrow> u32) \<Rightarrow> u32 \<Rightarrow> nat \<Rightarrow> nat option" where
  "futex_cond_wait obs val t = (if obs t = val then futex_cond_wait obs val (Suc t) else Some t)"

definition futex :: "(nat \<Rightarrow> u32) \<Rightarrow> u32 \<Rightarrow> u32 \<Rightarrow> u32 \<Rightarrow> u32 \<Rightarrow> nat \<Rightarrow> (u32 \<times> nat) option" where
  "futex obs op val lock unlock t = (if lock \<noteq> 0 then Some (- EAGAIN, t) else do {
     (ret, t) \<leftarrow> (if op = FUTEX_WAIT then do { t \<leftarrow> futex_cond_wait obs val t; Some (0, t) }
       else if op = FUTEX_WAKE then Some (0, t)
       else Some (- EINVAL, t));
     if unlock \<noteq> 0 then Some (- EAGAIN, t) else Some (ret, t) })"

section \<open>Pools, queues and works\<close>

datatype wq_addr =
    WNull
  | PoolHead nat \<comment> \<open>\<open>&wp->head\<close>\<close>
  | QueueNode nat \<comment> \<open>\<open>&wq->node\<close>\<close>
  | QueueHead nat \<comment> \<open>\<open>&wq->head\<close>\<close>
  | WorkNode nat \<comment> \<open>\<open>&work->node\<close>\<close>
  | FreeList

instantiation wq_addr :: zero
begin

definition zero_wq_addr :: wq_addr where
  "zero_wq_addr = WNull"

instance ..

end

record workqueue =
  actived_cpu :: u32
  qlock :: spin
  qfutex :: u32 \<comment> \<open>\<open>int32_t\<close>\<close>
  qcount :: u32
  qtid :: u64 \<comment> \<open>\<open>pthread_t\<close> of the worker\<close>
  qwp :: nat

record work =
  wfunc :: nat
  wwq :: nat

record workpool =
  pcount :: u32
  plock :: spin

record wq_sys =
  wqs :: "nat \<rightharpoonup> workqueue"
  works :: "nat \<rightharpoonup> work"
  pools :: "nat \<rightharpoonup> workpool"
  lh :: "wq_addr list_heap"
  rcu :: rcu_mem
  threads :: "nat list" \<comment> \<open>the queues whose worker thread has been created\<close>
  ran :: "nat list" \<comment> \<open>the works that have been run\<close>
  wq_warned :: nat

definition mthpc_workpool :: nat where "mthpc_workpool = 0"
definition mthpc_thread_wp :: nat where "mthpc_thread_wp = 1"
definition mthpc_taskflow_wp :: nat where "mthpc_taskflow_wp = 2"

definition wq_warn :: "bool \<Rightarrow> wq_sys \<Rightarrow> wq_sys" where
  "wq_warn b s = (if b then s\<lparr>wq_warned := Suc (wq_warned s)\<rparr> else s)"

definition with_lh :: "(wq_addr list_heap \<Rightarrow> wq_addr list_heap option) \<Rightarrow> wq_sys \<Rightarrow> wq_sys option" where
  "with_lh f s = do { h \<leftarrow> f (lh s); Some (s\<lparr>lh := h\<rparr>) }"

definition upd_wq :: "nat \<Rightarrow> (workqueue \<Rightarrow> workqueue option) \<Rightarrow> wq_sys \<Rightarrow> wq_sys option" where
  "upd_wq q f s = do { r \<leftarrow> wqs s q; r \<leftarrow> f r; Some (s\<lparr>wqs := (wqs s)(q \<mapsto> r)\<rparr>) }"

definition upd_pool :: "nat \<Rightarrow> (workpool \<Rightarrow> workpool option) \<Rightarrow> wq_sys \<Rightarrow> wq_sys option" where
  "upd_pool p f s = do { r \<leftarrow> pools s p; r \<leftarrow> f r; Some (s\<lparr>pools := (pools s)(p \<mapsto> r)\<rparr>) }"

definition upd_work :: "nat \<Rightarrow> (work \<Rightarrow> work) \<Rightarrow> wq_sys \<Rightarrow> wq_sys option" where
  "upd_work w f s = do { k \<leftarrow> works s w; Some (s\<lparr>works := (works s)(w \<mapsto> f k)\<rparr>) }"

definition lock_wq :: "nat \<Rightarrow> wq_sys \<Rightarrow> wq_sys option" where
  "lock_wq q = upd_wq q (\<lambda>r. do { l \<leftarrow> spin_lock (qlock r); Some (r\<lparr>qlock := l\<rparr>) })"

definition unlock_wq :: "nat \<Rightarrow> wq_sys \<Rightarrow> wq_sys option" where
  "unlock_wq q = upd_wq q (\<lambda>r. do { l \<leftarrow> spin_unlock (qlock r); Some (r\<lparr>qlock := l\<rparr>) })"

definition lock_pool :: "nat \<Rightarrow> wq_sys \<Rightarrow> wq_sys option" where
  "lock_pool p = upd_pool p (\<lambda>r. do { l \<leftarrow> spin_lock (plock r); Some (r\<lparr>plock := l\<rparr>) })"

definition unlock_pool :: "nat \<Rightarrow> wq_sys \<Rightarrow> wq_sys option" where
  "unlock_pool p = upd_pool p (\<lambda>r. do { l \<leftarrow> spin_unlock (plock r); Some (r\<lparr>plock := l\<rparr>) })"

definition mthpc_wq_futex_wake :: "nat \<Rightarrow> wq_sys \<Rightarrow> wq_sys option" where
  "mthpc_wq_futex_wake q = upd_wq q (\<lambda>r. Some (r\<lparr>qfutex := 1\<rparr>))"

section \<open>Queueing a work\<close>

record sched_env =
  self :: u64 \<comment> \<open>the calling thread\<close>
  rcu_fresh :: nat \<comment> \<open>\<open>malloc\<close> of its RCU node, if it needs one\<close>
  wq_fresh :: nat \<comment> \<open>\<open>malloc\<close> of a workqueue, \<open>0\<close> if it fails\<close>
  garbage :: u32 \<comment> \<open>what that memory holds at \<open>__actived_cpu\<close>\<close>
  sched_cpu :: u32 \<comment> \<open>\<open>sched_getcpu()\<close>\<close>
  wtid :: u64 \<comment> \<open>the thread that \<open>pthread_create\<close> makes, if it is called\<close>
  worker_node :: nat \<comment> \<open>\<open>malloc\<close> of the RCU node of that thread\<close>
  affinity :: "u32 \<Rightarrow> u32" \<comment> \<open>\<open>pthread_setaffinity_np\<close> for the set of one cpu\<close>

definition mthpc_alloc_workqueue :: "nat \<Rightarrow> u32 \<Rightarrow> wq_sys \<Rightarrow> wq_sys option" where
  "mthpc_alloc_workqueue q junk s = (
     let s = s\<lparr>wqs := (wqs s)(q \<mapsto> \<lparr>actived_cpu = junk, qlock = spin_lock_init, qfutex = 0,
           qcount = 0, qtid = 0, qwp = 0\<rparr>),
         lh := (lh s)(QueueHead q \<mapsto> \<lparr>nxt = 0, prv = 0\<rparr>, QueueNode q \<mapsto> \<lparr>nxt = 0, prv = 0\<rparr>)\<rparr> in do {
     s \<leftarrow> with_lh (mthpc_list_init (QueueHead q)) s;
     s \<leftarrow> with_lh (mthpc_list_init (QueueNode q)) s;
     upd_wq q (\<lambda>r. Some (r\<lparr>actived_cpu := mthpc_wq_mkactive (actived_cpu r)\<rparr>)) s })"

definition free_wq :: "nat \<Rightarrow> wq_sys \<Rightarrow> wq_sys option" where
  "free_wq q s = do {
     _ \<leftarrow> wqs s q;
     Some (s\<lparr>wqs := (wqs s)(q := None),
       lh := (lh s)(QueueHead q := None, QueueNode q := None)\<rparr>) }"

definition mthpc_workqueue_add_locked :: "nat \<Rightarrow> nat \<Rightarrow> wq_sys \<Rightarrow> wq_sys option" where
  "mthpc_workqueue_add_locked q w s = do {
     s \<leftarrow> with_lh (mthpc_list_add_tail_rcu (WorkNode w) (QueueHead q)) s;
     s \<leftarrow> upd_wq q (\<lambda>r. Some (r\<lparr>qcount := qcount r + 1\<rparr>)) s;
     r \<leftarrow> wqs s q;
     let s = wq_warn (\<not> mthpc_wq_active (actived_cpu r)) s;
     upd_work w (\<lambda>k. k\<lparr>wwq := q\<rparr>) s }"

text \<open>\<open>container_of(pos, struct mthpc_workqueue, node)\<close>.\<close>

fun queue_of :: "wq_addr \<Rightarrow> nat option" where
  "queue_of (QueueNode q) = Some q"
| "queue_of _ = None"

text \<open>A walk from \<open>pos\<close> to the first queue that matches.\<close>

partial_function (option) find_queue ::
  "wq_addr list_heap \<Rightarrow> (nat \<Rightarrow> bool option) \<Rightarrow> wq_addr \<Rightarrow> wq_addr \<Rightarrow> nat option option" where
  "find_queue h match head pos = (if pos = head then Some None else do {
     q \<leftarrow> queue_of pos;
     b \<leftarrow> match q;
     if b then Some (Some q) else do {
       n \<leftarrow> ld_next h pos;
       find_queue h match head n } })"

definition fast_match :: "u32 \<Rightarrow> (nat \<rightharpoonup> workqueue) \<Rightarrow> nat \<Rightarrow> bool option" where
  "fast_match cpu Q q = map_option (\<lambda>r. cpu = -1 \<or>
     cpu AND MTHPC_WQ_CPU_MASK = mthpc_wq_get_cpu (actived_cpu r)) (Q q)"

definition slow_match :: "u32 \<Rightarrow> (nat \<rightharpoonup> workqueue) \<Rightarrow> nat \<Rightarrow> bool option" where
  "slow_match cpu Q q = map_option (\<lambda>r. cpu = mthpc_wq_get_cpu (actived_cpu r)) (Q q)"

definition add_under_lock :: "nat \<Rightarrow> nat \<Rightarrow> wq_sys \<Rightarrow> wq_sys option" where
  "add_under_lock q w s = do {
     s \<leftarrow> lock_wq q s;
     s \<leftarrow> mthpc_workqueue_add_locked q w s;
     unlock_wq q s }"

definition get_workqueue_fast ::
  "sched_env \<Rightarrow> nat \<Rightarrow> u32 \<Rightarrow> nat \<Rightarrow> wq_sys \<Rightarrow> (nat option \<times> wq_sys) option" where
  "get_workqueue_fast env p cpu w s = do {
     m \<leftarrow> mthpc_rcu_read_lock (rcu_fresh env) (self env) (rcu s);
     let s = s\<lparr>rcu := m\<rparr>;
     pos \<leftarrow> ld_next (lh s) (PoolHead p);
     found \<leftarrow> find_queue (lh s) (fast_match cpu (wqs s)) (PoolHead p) pos;
     s \<leftarrow> (case found of None \<Rightarrow> Some s | Some q \<Rightarrow> add_under_lock q w s);
     m \<leftarrow> mthpc_rcu_read_unlock (self env) (rcu s);
     Some (found, s\<lparr>rcu := m\<rparr>) }"

text \<open>
  The worker thread registers with the RCU before its loop and leaves it afterwards;
  \<open>mthpc_works_handler\<close> creates the thread. Up to its loop the worker touches nothing that the
  creating thread uses, so these steps are taken with the creation.
\<close>

definition mthpc_wq_run_on_cpu :: "(u32 \<Rightarrow> u32) \<Rightarrow> nat \<Rightarrow> wq_sys \<Rightarrow> wq_sys option" where
  "mthpc_wq_run_on_cpu setaffinity q s = do {
     r \<leftarrow> wqs s q;
     Some (wq_warn (setaffinity (mthpc_wq_get_cpu (actived_cpu r)) \<noteq> 0) s) }"

definition worker_begin :: "sched_env \<Rightarrow> nat \<Rightarrow> wq_sys \<Rightarrow> wq_sys option" where
  "worker_begin env q s = do {
     m \<leftarrow> mthpc_rcu_thread_init (worker_node env) (wtid env) (rcu s);
     mthpc_wq_run_on_cpu (affinity env) q (s\<lparr>rcu := m\<rparr>) }"

definition worker_end :: "u64 \<Rightarrow> wq_sys \<Rightarrow> wq_sys option" where
  "worker_end t s = do {
     m \<leftarrow> mthpc_rcu_thread_exit t (rcu s);
     Some (s\<lparr>rcu := m\<rparr>) }"

definition mthpc_works_handler :: "sched_env \<Rightarrow> nat \<Rightarrow> wq_sys \<Rightarrow> wq_sys option" where
  "mthpc_works_handler env q s = do {
     s \<leftarrow> upd_wq q (\<lambda>r. Some (r\<lparr>qtid := wtid env\<rparr>)) s;
     worker_begin env q (s\<lparr>threads := threads s @ [q]\<rparr>) }"

text \<open>
  The slow path first prepares a queue that holds the work, then links it into the pool unless
  another thread has created a queue for this cpu in between.
\<close>

definition prepare_workqueue :: "nat \<Rightarrow> u32 \<Rightarrow> nat \<Rightarrow> u32 \<Rightarrow> nat \<Rightarrow> wq_sys \<Rightarrow> wq_sys option" where
  "prepare_workqueue q junk p cpu w s = do {
     s \<leftarrow> mthpc_alloc_workqueue q junk s;
     s \<leftarrow> upd_wq q (\<lambda>r. Some (r\<lparr>actived_cpu := mthpc_wq_set_cpu (actived_cpu r) cpu, qwp := p\<rparr>)) s;
     mthpc_workqueue_add_locked q w s }"

definition link_workqueue ::
  "sched_env \<Rightarrow> nat \<Rightarrow> nat \<Rightarrow> u32 \<Rightarrow> nat \<Rightarrow> wq_sys \<Rightarrow> (nat option \<times> wq_sys) option" where
  "link_workqueue env q p cpu w s = do {
     s \<leftarrow> lock_pool p s;
     pos \<leftarrow> ld_next (lh s) (PoolHead p);
     found \<leftarrow> find_queue (lh s) (slow_match cpu (wqs s)) (PoolHead p) pos;
     case found of
       Some x \<Rightarrow> do {
         s \<leftarrow> add_under_lock x w s;
         s \<leftarrow> unlock_pool p s;
         s \<leftarrow> free_wq q s;
         Some (Some x, s) }
     | None \<Rightarrow> do {
         s \<leftarrow> with_lh (mthpc_list_add_tail_rcu (QueueNode q) (PoolHead p)) s;
         s \<leftarrow> upd_pool p (\<lambda>r. Some (r\<lparr>pcount := pcount r + 1\<rparr>)) s;
         s \<leftarrow> unlock_pool p s;
         s \<leftarrow> mthpc_works_handler env q s;
         Some (Some q, s) } }"

definition get_workqueue_slow ::
  "sched_env \<Rightarrow> nat \<Rightarrow> u32 \<Rightarrow> nat \<Rightarrow> wq_sys \<Rightarrow> (nat option \<times> wq_sys) option" where
  "get_workqueue_slow env p cpu w s = (let q = wq_fresh env in
     if q = 0 then Some (None, s) else
     let cpu = (if cpu = -1 then (sched_cpu env + 1) AND MTHPC_WQ_CPU_MASK else cpu) in do {
       s \<leftarrow> prepare_workqueue q (garbage env) p cpu w s;
       link_workqueue env q p cpu w s })"

definition mthpc_get_workqueue ::
  "sched_env \<Rightarrow> nat \<Rightarrow> u32 \<Rightarrow> nat \<Rightarrow> wq_sys \<Rightarrow> (nat option \<times> wq_sys) option" where
  "mthpc_get_workqueue env p cpu w s = do {
     (wq, s) \<leftarrow> get_workqueue_fast env p cpu w s;
     case wq of Some q \<Rightarrow> Some (Some q, s) | None \<Rightarrow> get_workqueue_slow env p cpu w s }"

definition schedule_work_on ::
  "sched_env \<Rightarrow> nat \<Rightarrow> u32 \<Rightarrow> nat \<Rightarrow> wq_sys \<Rightarrow> (u32 \<times> wq_sys) option" where
  "schedule_work_on env p cpu w s = do {
     s \<leftarrow> with_lh (mthpc_list_init (WorkNode w)) s;
     (wq, s) \<leftarrow> mthpc_get_workqueue env p cpu w s;
     case wq of None \<Rightarrow> Some (- ENOMEM, s)
     | Some q \<Rightarrow> do { s \<leftarrow> mthpc_wq_futex_wake q s; Some (0, s) } }"

definition mthpc_queue_thread_work :: "sched_env \<Rightarrow> nat \<Rightarrow> wq_sys \<Rightarrow> (u32 \<times> wq_sys) option" where
  "mthpc_queue_thread_work env w = schedule_work_on env mthpc_thread_wp (-1) w"

definition mthpc_schedule_taskflow_work_on ::
  "sched_env \<Rightarrow> u32 \<Rightarrow> nat \<Rightarrow> wq_sys \<Rightarrow> (u32 \<times> wq_sys) option" where
  "mthpc_schedule_taskflow_work_on env cpu w = schedule_work_on env mthpc_taskflow_wp cpu w"

definition mthpc_schedule_work_on :: "sched_env \<Rightarrow> u32 \<Rightarrow> nat \<Rightarrow> wq_sys \<Rightarrow> (u32 \<times> wq_sys) option" where
  "mthpc_schedule_work_on env cpu w = schedule_work_on env mthpc_workpool cpu w"

definition mthpc_queue_work :: "sched_env \<Rightarrow> nat \<Rightarrow> wq_sys \<Rightarrow> (u32 \<times> wq_sys) option" where
  "mthpc_queue_work env w = mthpc_schedule_work_on env (-1) w"

section \<open>The worker\<close>

text \<open>
  One iteration of the loop of \<open>mthpc_worker_run\<close>. An idle worker whose futex word is \<open>0\<close> waits
  until another thread wakes it: \<^term>\<open>None\<close>. Running a work is recorded in \<open>ran\<close>; what its
  function does is outside this model.
\<close>

datatype worker_result = WorkerExit | WorkerIdle | WorkerRan nat

fun work_of :: "wq_addr \<Rightarrow> nat option" where
  "work_of (WorkNode w) = Some w"
| "work_of _ = None"

definition worker_iteration :: "nat \<Rightarrow> wq_sys \<Rightarrow> (worker_result \<times> wq_sys) option" where
  "worker_iteration q s = do {
     r \<leftarrow> wqs s q;
     if \<not> mthpc_wq_active (actived_cpu r) then Some (WorkerExit, s)
     else do {
       s \<leftarrow> lock_wq q s;
       e \<leftarrow> mthpc_list_empty (QueueHead q) (lh s);
       if e then do {
         let s = wq_warn (0 < qcount r) s;
         s \<leftarrow> unlock_wq q s;
         _ \<leftarrow> guard_opt (qfutex r \<noteq> 0);
         Some (WorkerIdle, s) }
       else do {
         n \<leftarrow> ld_next (lh s) (QueueHead q);
         w \<leftarrow> work_of n;
         s \<leftarrow> with_lh (mthpc_list_del (WorkNode w)) s;
         s \<leftarrow> upd_wq q (\<lambda>r. Some (r\<lparr>qcount := qcount r - 1\<rparr>)) s;
         s \<leftarrow> unlock_wq q s;
         Some (WorkerRan w, s\<lparr>ran := ran s @ [w]\<rparr>) } } }"

fun worker_iterations :: "nat \<Rightarrow> nat \<Rightarrow> wq_sys \<Rightarrow> wq_sys option" where
  "worker_iterations 0 q s = Some s"
| "worker_iterations (Suc n) q s = do {
     (_, s) \<leftarrow> worker_iteration q s;
     worker_iterations n q s }"

end
