(* ===== verification/Futex_Async.thy ===== *)
theory Futex_Async
  imports Workqueue
begin

text \<open>
  \<open>futex_async\<close> of \<open>include/mthpc/futex.h\<close>. On Linux it is the system call, and where that is not
  implemented it polls the word; \<open>sys\<close> is the result of the system call with its \<open>errno\<close>,
  \<open>obs\<close> are the values of the word at its observations, \<open>poll\<close> the results of \<open>poll\<close> with their \<open>errno\<close>,
  and \<open>wait\<close> and \<open>wake\<close> the numbers of the two operations in \<open>linux/futex.h\<close>. Without the system call
  it is an error.
\<close>

definition ENOSYS :: u32 where "ENOSYS = 38"

text \<open>\<open>futex\<close> with the system call.\<close>

definition futex_syscall :: "u32 \<times> u32 \<Rightarrow> u32 \<times> u32" where
  "futex_syscall sys = sys"

partial_function (option) futex_poll ::
  "(nat \<Rightarrow> u32) \<Rightarrow> (nat \<Rightarrow> u32 \<times> u32) \<Rightarrow> u32 \<Rightarrow> u32 \<Rightarrow> nat \<Rightarrow> (u32 \<times> u32) option" where
  "futex_poll obs poll val errno t = (if obs t = val
     then (if sint (fst (poll t)) < 0 then Some (- 1, snd (poll t)) else futex_poll obs poll val errno (Suc t))
     else Some (0, errno))"

definition futex_async ::
  "u32 \<Rightarrow> u32 \<Rightarrow> u32 \<times> u32 \<Rightarrow> (nat \<Rightarrow> u32) \<Rightarrow> (nat \<Rightarrow> u32 \<times> u32) \<Rightarrow> u32 \<Rightarrow> u32 \<Rightarrow> (u32 \<times> u32) option" where
  "futex_async wait wake sys obs poll op val = (let (ret, errno) = futex_syscall sys in
     if sint ret < 0 \<and> errno = ENOSYS then
       if op = wait then futex_poll obs poll val errno 0
       else if op = wake then Some (0, errno)
       else Some (- 1, EINVAL)
     else Some (ret, errno))"

definition futex_async_without_syscall :: u32 where
  "futex_async_without_syscall = - EINVAL"

text \<open>
  The poll returns at its first event: the word has another value, or \<open>poll\<close> fails while it has
  not; without any it never returns.
\<close>

lemma futex_poll_run:
  assumes "\<forall>u<t. obs u = val \<and> 0 \<le> sint (fst (poll u))"
  shows "k \<le> t \<Longrightarrow> futex_poll obs poll val errno k = futex_poll obs poll val errno t"
proof (induction "t - k" arbitrary: k)
  case (Suc n)
  then have "obs k = val \<and> \<not> sint (fst (poll k)) < 0" using assms by (simp add: not_less)
  then have "futex_poll obs poll val errno k = futex_poll obs poll val errno (Suc k)"
    by (subst futex_poll.simps) simp
  then show ?case using Suc.hyps(1) [of "Suc k"] Suc.hyps(2) Suc.prems by simp
qed simp

lemma futex_poll_stuck:
  assumes "\<forall>u. obs u = val \<and> 0 \<le> sint (fst (poll u))"
  shows "futex_poll obs poll val errno k = None"
proof -
  have "\<not> (\<forall>u. obs u = val \<and> 0 \<le> sint (fst (poll u)))" if "futex_poll obs poll val errno k = Some r" for r
    by (rule futex_poll.raw_induct [where P = "\<lambda>obs poll val errno t r. \<not> (\<forall>u. obs u = val \<and> 0 \<le> sint (fst (poll u)))",
          OF _ that]) (auto split: if_splits simp: not_le)
  then show ?thesis using assms by (cases "futex_poll obs poll val errno k") auto
qed

text \<open>
  With a wait and the system call not implemented: \<open>0\<close> if the word changes first, \<open>-1\<close> with the
  \<open>errno\<close> of \<open>poll\<close> if that fails first. The fallback of \<open>src/futex.c\<close> agrees as long as no poll fails.
\<close>

theorem futex_async_wait:
  assumes "sint r < 0" "\<forall>u<t. obs u = val \<and> 0 \<le> sint (fst (poll u))"
  shows "obs t \<noteq> val \<Longrightarrow> futex_async wait wake (r, ENOSYS) obs poll wait val = Some (0, ENOSYS)"
    and "obs t = val \<Longrightarrow> sint (fst (poll t)) < 0 \<Longrightarrow>
      futex_async wait wake (r, ENOSYS) obs poll wait val = Some (- 1, snd (poll t))"
proof -
  have run: "futex_async wait wake (r, ENOSYS) obs poll wait val = futex_poll obs poll val ENOSYS t"
    using assms(1) futex_poll_run [OF assms(2), of 0] by (simp add: futex_async_def futex_syscall_def)
  show "obs t \<noteq> val \<Longrightarrow> futex_async wait wake (r, ENOSYS) obs poll wait val = Some (0, ENOSYS)"
    "obs t = val \<Longrightarrow> sint (fst (poll t)) < 0 \<Longrightarrow>
      futex_async wait wake (r, ENOSYS) obs poll wait val = Some (- 1, snd (poll t))"
    unfolding run by (simp_all add: futex_poll.simps)
qed

end
