(* ===== verification/Workqueue_Props.thy ===== *)
theory Workqueue_Props
  imports Workqueue
begin

text \<open>
  The properties of \<open>src/workqueue/workqueue.c\<close>: the word of the cpu and the active flag, the
  futex wait, the invariant of a pool, the scheduling of a work as an update of the abstract
  queues, and the worker that runs the works of its queue in order.
\<close>

section \<open>The word of the cpu and the active flag\<close>

lemma wq_consts [simp]:
  "MTHPC_WQ_NR_CPU = 4" "MTHPC_WQ_CPU_MASK = mask 2" "MTHPC_WQ_ACTIVED_FLAG = push_bit 2 1"
  by (simp_all add: MTHPC_WQ_NR_CPU_def MTHPC_WQ_CPU_MASK_def MTHPC_WQ_ACTIVED_FLAG_def mask_eq_exp_minus_1)

lemma bit_flag: "bit (4 :: int) n \<longleftrightarrow> n = 2" "bit (- 5 :: int) n \<longleftrightarrow> n \<noteq> 2"
proof -
  have "(4 :: int) = push_bit 2 1" by simp
  then show f: "bit (4 :: int) n \<longleftrightarrow> n = 2"
    by (simp only: bit_push_bit_iff) (auto simp: bit_1_iff)
  have "(- 5 :: int) = NOT 4" by simp
  then show "bit (- 5 :: int) n \<longleftrightarrow> n \<noteq> 2"
    by (simp only: bit_not_iff f) simp
qed

lemma wq_active_bit [word_facts]: "mthpc_wq_active ac \<longleftrightarrow> bit ac 2"
proof -
  have "ac AND push_bit 2 1 \<noteq> 0 \<longleftrightarrow> (\<exists>n. bit ac n \<and> bit (push_bit 2 1 :: u32) n)"
    by (auto simp: bit_eq_iff bit_and_iff)
  then show ?thesis by (auto simp: mthpc_wq_active_def bit_flag)
qed

lemma mask_3: "(3 :: u32) = mask 2"
  by (simp add: mask_eq_exp_minus_1)

lemma wq_cpu_facts:
  "mthpc_wq_get_cpu (mthpc_wq_set_cpu ac cpu) = cpu AND 3"
  "mthpc_wq_active (mthpc_wq_set_cpu ac cpu) = mthpc_wq_active ac"
  "mthpc_wq_get_cpu (mthpc_wq_mkactive ac) = mthpc_wq_get_cpu ac"
  "mthpc_wq_active (mthpc_wq_mkactive ac)"
  "mthpc_wq_get_cpu (mthpc_wq_clear_active ac) = mthpc_wq_get_cpu ac"
  "\<not> mthpc_wq_active (mthpc_wq_clear_active ac)"
  unfolding word_facts mthpc_wq_get_cpu_def mthpc_wq_set_cpu_def mthpc_wq_mkactive_def
    mthpc_wq_clear_active_def wq_consts mask_3
  by (auto intro!: bit_eqI simp: bit_and_iff bit_or_iff bit_not_iff bit_mask_iff bit_flag)

text \<open>
  C36. The cpu and the active flag share one word: setting the cpu stores its low two bits and
  keeps the flag, setting and clearing the flag keep the cpu, whatever the other bits hold.
\<close>

theorem wq_cpu_word:
  "mthpc_wq_get_cpu (mthpc_wq_set_cpu ac cpu) = cpu AND 3 \<and>
   mthpc_wq_active (mthpc_wq_set_cpu ac cpu) = mthpc_wq_active ac \<and>
   mthpc_wq_get_cpu (mthpc_wq_mkactive ac) = mthpc_wq_get_cpu ac \<and>
   mthpc_wq_active (mthpc_wq_mkactive ac) \<and>
   mthpc_wq_get_cpu (mthpc_wq_clear_active ac) = mthpc_wq_get_cpu ac \<and>
   \<not> mthpc_wq_active (mthpc_wq_clear_active ac)"
  by (simp add: wq_cpu_facts)

section \<open>The futex\<close>

lemma futex_wait_first: "obs t \<noteq> 0 \<Longrightarrow> mthpc_wq_futex_wait obs ret t = Some (WaitDone, t)"
  by (simp add: mthpc_wq_futex_wait.simps)

lemma futex_cond_wait_returns:
  "obs (t + k) \<noteq> val \<Longrightarrow> (\<And>j. j < k \<Longrightarrow> obs (t + j) = val) \<Longrightarrow> futex_cond_wait obs val t = Some (t + k)"
proof (induction k arbitrary: t)
  case 0
  then show ?case by (simp add: futex_cond_wait.simps)
next
  case (Suc k)
  have "obs t = val" using Suc.prems(2) [of 0] by simp
  moreover have "futex_cond_wait obs val (Suc t) = Some (Suc t + k)"
    using Suc.IH [of "Suc t"] Suc.prems(1) Suc.prems(2) [of "Suc _"] by simp
  ultimately show ?case by (subst futex_cond_wait.simps) simp
qed

text \<open>
  The fallback futex: a wait returns 0 at the first observation at which the word differs
  from the value, a wake returns 0 at once, another operation gives -EINVAL and a failed lock
  -EAGAIN.
\<close>

theorem futex_fallback_wait:
  assumes "obs (t + k) \<noteq> val" "\<And>j. j < k \<Longrightarrow> obs (t + j) = val"
  shows "futex obs FUTEX_WAIT val 0 0 t = Some (0, t + k) \<and>
    futex obs FUTEX_WAKE val 0 0 t = Some (0, t) \<and>
    (op \<notin> {FUTEX_WAIT, FUTEX_WAKE} \<longrightarrow> futex obs op val 0 0 t = Some (- EINVAL, t)) \<and>
    (err \<noteq> 0 \<longrightarrow> futex obs op val err u t = Some (- EAGAIN, t))"
  using futex_cond_wait_returns [of obs t k val, OF assms]
  by (simp add: futex_def FUTEX_WAIT_def FUTEX_WAKE_def)

lemma futex_fallback_wait_witness:
  "futex (\<lambda>t. of_nat (t div 3)) FUTEX_WAIT 0 0 0 0 = Some (0, 3) \<and>
    futex (\<lambda>t. of_nat (t div 3)) FUTEX_WAKE 0 0 0 0 = Some (0, 0) \<and>
    futex (\<lambda>t. of_nat (t div 3)) 7 0 0 0 0 = Some (- EINVAL, 0) \<and>
    futex (\<lambda>t. of_nat (t div 3)) 7 0 1 0 0 = Some (- EAGAIN, 0)"
  using futex_fallback_wait [of "\<lambda>t. of_nat (t div 3)" 0 3 0 7 1 0]
  by (simp add: FUTEX_WAIT_def FUTEX_WAKE_def)

text \<open>
  The wait of the workqueue compares the result of \<open>futex\<close> with the positive
  error numbers, so each of its negative error results ends the program in
  \<open>MTHPC_BUG_ON\<close> instead of being handled.
\<close>

theorem futex_wait_error_exits:
  assumes "obs t = 0" "ret t = - EAGAIN \<or> ret t = - EINTR \<or> ret t = - 1"
  shows "mthpc_wq_futex_wait obs ret t = Some (WaitBug, t)"
  using assms by (subst mthpc_wq_futex_wait.simps) (auto simp: EAGAIN_def EINTR_def)

lemma futex_wait_error_exits_witness:
  "mthpc_wq_futex_wait (\<lambda>_. 0) (\<lambda>_. - EAGAIN) 0 = Some (WaitBug, 0)"
  by (rule futex_wait_error_exits) simp_all

section \<open>The invariant of a pool\<close>

definition queue_ok :: "wq_sys \<Rightarrow> nat \<Rightarrow> nat \<Rightarrow> nat list \<Rightarrow> bool" where
  "queue_ok s p q ws \<longleftrightarrow> (\<exists>r. wqs s q = Some r \<and> qlock r = Unlocked \<and> qwp r = p \<and>
     mthpc_wq_active (actived_cpu r) \<and> qcount r = of_nat (length ws)) \<and>
     length ws < 2 ^ 32 \<and> clist (lh s) (QueueHead q) (map WorkNode ws) \<and>
     (\<forall>w\<in>set ws. works s w \<noteq> None)"

definition pool_ok :: "wq_sys \<Rightarrow> nat \<Rightarrow> nat list \<Rightarrow> (nat \<Rightarrow> nat list) \<Rightarrow> bool" where
  "pool_ok s p qs W \<longleftrightarrow> (\<exists>r. pools s p = Some r \<and> plock r = Unlocked \<and> pcount r = of_nat (length qs)) \<and>
     clist (lh s) (PoolHead p) (map QueueNode qs) \<and> (\<forall>q\<in>set qs. q \<noteq> 0 \<and> queue_ok s p q (W q)) \<and>
     (\<forall>q\<in>set qs. \<forall>x\<in>set qs. q \<noteq> x \<longrightarrow> set (W q) \<inter> set (W x) = {})"

text \<open>The work may be queued: it exists and is in no queue.\<close>

definition work_free :: "wq_sys \<Rightarrow> nat list \<Rightarrow> (nat \<Rightarrow> nat list) \<Rightarrow> nat \<Rightarrow> bool" where
  "work_free s qs W w \<longleftrightarrow> works s w \<noteq> None \<and> WorkNode w \<in> dom (lh s) \<and> (\<forall>q\<in>set qs. w \<notin> set (W q))"

lemma pool_distinct: "pool_ok s p qs W \<Longrightarrow> distinct qs"
  unfolding pool_ok_def using clist_distinct by (fastforce simp: distinct_map)

lemma clist_keep:
  assumes "clist h l xs" "agree_off S h h'" "insert l (set xs) \<inter> S = {}"
  shows "clist h' l xs"
  using clist_agree [OF assms(2,3)] assms(1) by simp

text \<open>The walk of the pool.\<close>

lemma find_queue_list:
  assumes "nexts h (map QueueNode qs @ [PoolHead p])" "\<And>q. q \<in> set qs \<Longrightarrow> match q = Some (P q)"
  shows "find_queue h match (PoolHead p) (hd (map QueueNode qs @ [PoolHead p])) = Some (find P qs)"
  using assms
proof (induction qs)
  case Nil
  then show ?case by (simp add: find_queue.simps)
next
  case (Cons q qs)
  have n: "ld_next h (QueueNode q) = Some (hd (map QueueNode qs @ [PoolHead p]))"
    "nexts h (map QueueNode qs @ [PoolHead p])"
    using Cons.prems(1) nexts_Cons [of h "QueueNode q" "map QueueNode qs" "PoolHead p"] by simp_all
  show ?case
    using Cons.IH [OF n(2)] Cons.prems(2) n(1) by (subst find_queue.simps) auto
qed

lemma find_queue_pool:
  assumes "clist h (PoolHead p) (map QueueNode qs)" "\<And>q. q \<in> set qs \<Longrightarrow> match q = Some (P q)"
  obtains pos where "ld_next h (PoolHead p) = Some pos"
    "find_queue h match (PoolHead p) pos = Some (find P qs)"
proof (rule that)
  have n: "nexts h (PoolHead p # map QueueNode qs @ [PoolHead p])"
    using clist_nexts [OF assms(1)] .
  then show "ld_next h (PoolHead p) = Some (hd (map QueueNode qs @ [PoolHead p]))"
    by (simp add: nexts_Cons)
  show "find_queue h match (PoolHead p) (hd (map QueueNode qs @ [PoolHead p])) = Some (find P qs)"
    using n by (intro find_queue_list assms(2)) (simp_all add: nexts_Cons)
qed

section \<open>What a call leaves alone\<close>

text \<open>The worker and the cpu of a queue.\<close>

definition wq_ident :: "workqueue \<Rightarrow> u64 \<times> u32" where
  "wq_ident r = (qtid r, actived_cpu r)"

lemma wq_ident_upd [simp]:
  "wq_ident (r\<lparr>qlock := l\<rparr>) = wq_ident r" "wq_ident (r\<lparr>qfutex := f\<rparr>) = wq_ident r"
  "wq_ident (r\<lparr>qcount := c\<rparr>) = wq_ident r"
  by (simp_all add: wq_ident_def)

text \<open>
  A call that works on the pool \<open>p\<close>, its queues \<open>Q\<close> and the works \<open>A\<close>: everything else in
  memory is as it was, and every queue keeps its worker and its cpu.
\<close>

definition wq_frame :: "nat \<Rightarrow> nat set \<Rightarrow> nat set \<Rightarrow> wq_sys \<Rightarrow> wq_sys \<Rightarrow> bool" where
  "wq_frame p Q A s s' \<longleftrightarrow> (\<forall>x. x \<noteq> p \<longrightarrow> pools s' x = pools s x) \<and> (\<forall>q. q \<notin> Q \<longrightarrow> wqs s' q = wqs s q) \<and>
     (\<forall>a. a \<notin> insert (PoolHead p) (QueueNode ` Q \<union> QueueHead ` Q \<union> WorkNode ` A) \<longrightarrow> lh s' a = lh s a) \<and>
     (\<forall>q r. wqs s q = Some r \<longrightarrow> map_option wq_ident (wqs s' q) = Some (wq_ident r)) \<and>
     dom (lh s) \<subseteq> dom (lh s') \<and> dom (works s') = dom (works s) \<and> ran s' = ran s \<and> wq_warned s' = wq_warned s"

lemma wq_frame_refl [simp]: "wq_frame p Q A s s"
  by (simp add: wq_frame_def)

lemma wq_frame_trans:
  assumes "wq_frame p Q A s k" "wq_frame p Q A k t"
  shows "wq_frame p Q A s t"
proof -
  have "dom (lh s) \<subseteq> dom (lh k)" "dom (lh k) \<subseteq> dom (lh t)" using assms by (simp_all add: wq_frame_def)
  then have "dom (lh s) \<subseteq> dom (lh t)" by (rule subset_trans)
  moreover have "map_option wq_ident (wqs t q) = Some (wq_ident r)" if "wqs s q = Some r" for q r
  proof -
    have "map_option wq_ident (wqs k q) = Some (wq_ident r)" using assms(1) that by (simp add: wq_frame_def)
    then obtain z where z: "wqs k q = Some z" "wq_ident z = wq_ident r" by auto
    have "map_option wq_ident (wqs t q) = Some (wq_ident z)" using assms(2) z(1) by (simp add: wq_frame_def)
    then show ?thesis by (simp only: z(2))
  qed
  ultimately show ?thesis using assms by (simp add: wq_frame_def)
qed

lemma wq_frame_mono: "wq_frame p Q A s t \<Longrightarrow> Q \<subseteq> R \<Longrightarrow> A \<subseteq> B \<Longrightarrow> wq_frame p R B s t"
proof -
  assume w: "wq_frame p Q A s t" and sub: "Q \<subseteq> R" "A \<subseteq> B"
  have "lh t a = lh s a" if "a \<notin> insert (PoolHead p) (QueueNode ` R \<union> QueueHead ` R \<union> WorkNode ` B)" for a
  proof -
    have "a \<notin> insert (PoolHead p) (QueueNode ` Q \<union> QueueHead ` Q \<union> WorkNode ` A)" using that sub by blast
    then show ?thesis using w by (simp add: wq_frame_def)
  qed
  moreover have "wqs t q = wqs s q" if "q \<notin> R" for q
    using that sub(1) w by (auto simp: wq_frame_def)
  ultimately show ?thesis using w by (simp add: wq_frame_def)
qed

lemma wq_frame_rcu [simp]:
  "wq_frame p Q A (s\<lparr>rcu := m\<rparr>) t = wq_frame p Q A s t" "wq_frame p Q A s (t\<lparr>rcu := m\<rparr>) = wq_frame p Q A s t"
  by (simp_all add: wq_frame_def)

lemma wq_frame_futex:
  assumes "wq_frame p Q A s s'" "wqs s' q = Some r" "q \<in> Q"
  shows "wq_frame p Q A s (s'\<lparr>wqs := (wqs s')(q \<mapsto> r\<lparr>qfutex := v\<rparr>)\<rparr>)"
proof (rule wq_frame_trans [OF assms(1)])
  show "wq_frame p Q A s' (s'\<lparr>wqs := (wqs s')(q \<mapsto> r\<lparr>qfutex := v\<rparr>)\<rparr>)"
    using assms(2,3) by (auto simp: wq_frame_def)
qed

lemma wq_frameD:
  assumes "wq_frame p Q A s t"
  shows "x \<noteq> p \<Longrightarrow> pools t x = pools s x" "q \<notin> Q \<Longrightarrow> wqs t q = wqs s q"
    "a \<notin> insert (PoolHead p) (QueueNode ` Q \<union> QueueHead ` Q \<union> WorkNode ` A) \<Longrightarrow> lh t a = lh s a"
    "dom (lh s) \<subseteq> dom (lh t)" "dom (works t) = dom (works s)" "ran t = ran s" "wq_warned t = wq_warned s"
    "wqs s q = Some r \<Longrightarrow> map_option wq_ident (wqs t q) = Some (wq_ident r)"
  using assms by (simp_all add: wq_frame_def)

section \<open>Adding a work to a queue\<close>

lemma add_locked_ok:
  assumes "wqs s q = Some r" "mthpc_wq_active (actived_cpu r)"
    and "clist (lh s) (QueueHead q) (map WorkNode ws)"
    and "works s w = Some k" "WorkNode w \<in> dom (lh s)" "w \<notin> set ws"
  obtains h where "mthpc_workqueue_add_locked q w s = Some (s\<lparr>lh := h,
       wqs := (wqs s)(q \<mapsto> r\<lparr>qcount := qcount r + 1\<rparr>), works := (works s)(w \<mapsto> k\<lparr>wwq := q\<rparr>)\<rparr>)"
    "clist h (QueueHead q) (map WorkNode (ws @ [w]))"
    "agree_off (insert (QueueHead q) (WorkNode ` insert w (set ws))) (lh s) h"
proof -
  have "WorkNode w \<notin> set (QueueHead q # map WorkNode ws)" using assms(6) by auto
  from mthpc_list_add_tail_ok [OF assms(3,5) this] obtain h where h:
    "mthpc_list_add_tail (WorkNode w) (QueueHead q) (lh s) = Some h"
    "clist h (QueueHead q) (map WorkNode ws @ [WorkNode w])"
    "agree_off (set (WorkNode w # QueueHead q # map WorkNode ws)) (lh s) h" by metis
  show ?thesis
  proof (rule that [of h])
    show "mthpc_workqueue_add_locked q w s = Some (s\<lparr>lh := h,
       wqs := (wqs s)(q \<mapsto> r\<lparr>qcount := qcount r + 1\<rparr>), works := (works s)(w \<mapsto> k\<lparr>wwq := q\<rparr>)\<rparr>)"
      using h(1) assms(1,2,4)
      by (simp add: mthpc_workqueue_add_locked_def mthpc_list_add_tail_rcu_eq with_lh_def upd_wq_def
          upd_work_def wq_warn_def)
    show "agree_off (insert (QueueHead q) (WorkNode ` insert w (set ws))) (lh s) h"
      using h(3) by (simp add: insert_commute)
  qed (use h(2) in simp)
qed

lemma queue_ok_frame:
  assumes "queue_ok s p x ws" "wqs s' x = wqs s x"
    and "agree_off S (lh s) (lh s')" "QueueHead x \<notin> S" "WorkNode ` set ws \<inter> S = {}"
    and "\<And>w. works s w \<noteq> None \<Longrightarrow> works s' w \<noteq> None"
  shows "queue_ok s' p x ws"
proof -
  have "clist (lh s') (QueueHead x) (map WorkNode ws)"
    by (rule clist_keep [OF _ assms(3)]) (use assms in \<open>auto simp: queue_ok_def\<close>)
  then show ?thesis using assms(1,2,6) by (auto simp: queue_ok_def)
qed

text \<open>The pool after \<open>w\<close> has gone to its queue \<open>q\<close>.\<close>

lemma pool_ok_add:
  assumes pool: "pool_ok s p qs W" and q: "q \<in> set qs" and w: "work_free s qs W w"
    and room: "length (W q) < 2 ^ 32 - 1" and r: "wqs s q = Some r"
    and s': "wqs s' = (wqs s)(q \<mapsto> r\<lparr>qcount := qcount r + 1\<rparr>)" "pools s' = pools s"
      "\<And>x. works s x \<noteq> None \<Longrightarrow> works s' x \<noteq> None"
    and h: "clist (lh s') (QueueHead q) (map WorkNode (W q @ [w]))"
      "agree_off (insert (QueueHead q) (WorkNode ` insert w (set (W q)))) (lh s) (lh s')"
  shows "pool_ok s' p qs (W(q := W q @ [w]))"
proof -
  have wn: "works s w \<noteq> None" "w \<notin> set (W x)" if "x \<in> set qs" for x
    using w that by (simp_all add: work_free_def)
  have ap: "set (W x) \<inter> set (W y) = {}" if "x \<in> set qs" "y \<in> set qs" "x \<noteq> y" for x y
    using pool that by (simp add: pool_ok_def)
  have qok: "x \<noteq> 0 \<and> queue_ok s p x (W x)" if "x \<in> set qs" for x
    using pool that by (simp add: pool_ok_def)
  have "clist (lh s') (PoolHead p) (map QueueNode qs)"
    by (rule clist_keep [OF _ h(2)]) (use pool in \<open>auto simp: pool_ok_def\<close>)
  moreover have "queue_ok s' p q (W q @ [w])"
    using qok [OF q] r s' h(1) room wn(1) [OF q] by (auto simp: queue_ok_def)
  moreover have "queue_ok s' p x (W x)" if "x \<in> set qs" "x \<noteq> q" for x
    by (rule queue_ok_frame [OF _ _ h(2)]) (use qok ap [OF that(1) q that(2)] wn s' that in \<open>auto\<close>)
  moreover have "set ((W(q := W q @ [w])) x) \<inter> set ((W(q := W q @ [w])) y) = {}"
    if "x \<in> set qs" "y \<in> set qs" "x \<noteq> y" for x y
    using ap [OF that] wn(2) [OF that(1)] wn(2) [OF that(2)] that(3) by auto
  ultimately show ?thesis using pool qok s'(2) by (auto simp: pool_ok_def)
qed

lemma add_under_lock_pool:
  assumes pool: "pool_ok s p qs W" and q: "q \<in> set qs" and w: "work_free s qs W w"
    and room: "length (W q) < 2 ^ 32 - 1"
  obtains s' where "add_under_lock q w s = Some s'" "pool_ok s' p qs (W(q := W q @ [w]))"
    "rcu s' = rcu s" "threads s' = threads s" "wq_frame p {q} (insert w (set (W q))) s s'"
    "map_option wwq (works s' w) = Some q" "\<And>x. map_option qfutex (wqs s' x) = map_option qfutex (wqs s x)"
proof -
  have "queue_ok s p q (W q)" using pool q by (simp add: pool_ok_def)
  then obtain r where r: "wqs s q = Some r" "qlock r = Unlocked" "mthpc_wq_active (actived_cpu r)"
    and c: "clist (lh s) (QueueHead q) (map WorkNode (W q))"
    by (auto simp: queue_ok_def)
  obtain k where k: "works s w = Some k" and d: "WorkNode w \<in> dom (lh s)" and n: "w \<notin> set (W q)"
    using w q by (auto simp: work_free_def)
  let ?l = "s\<lparr>wqs := (wqs s)(q \<mapsto> r\<lparr>qlock := Held\<rparr>)\<rparr>"
  have l: "wqs ?l q = Some (r\<lparr>qlock := Held\<rparr>)" "mthpc_wq_active (actived_cpu (r\<lparr>qlock := Held\<rparr>))"
    "clist (lh ?l) (QueueHead q) (map WorkNode (W q))" "works ?l w = Some k" "WorkNode w \<in> dom (lh ?l)"
    using r(3) c k d by simp_all
  obtain h where h: "mthpc_workqueue_add_locked q w ?l = Some (?l\<lparr>lh := h,
       wqs := (wqs ?l)(q \<mapsto> (r\<lparr>qlock := Held\<rparr>)\<lparr>qcount := qcount (r\<lparr>qlock := Held\<rparr>) + 1\<rparr>),
       works := (works ?l)(w \<mapsto> k\<lparr>wwq := q\<rparr>)\<rparr>)"
    "clist h (QueueHead q) (map WorkNode (W q @ [w]))"
    "agree_off (insert (QueueHead q) (WorkNode ` insert w (set (W q)))) (lh ?l) h"
    by (rule add_locked_ok [OF l n])
  let ?s = "s\<lparr>lh := h, wqs := (wqs s)(q \<mapsto> r\<lparr>qcount := qcount r + 1\<rparr>), works := (works s)(w \<mapsto> k\<lparr>wwq := q\<rparr>)\<rparr>"
  have rr: "r\<lparr>qlock := Unlocked, qcount := c\<rparr> = r\<lparr>qcount := c\<rparr>"
    "r\<lparr>qcount := c, qlock := Unlocked\<rparr> = r\<lparr>qcount := c\<rparr>" for c
    using r(2) by simp_all
  have "add_under_lock q w s = Some ?s"
    using h(1) r(1,2) by (simp add: add_under_lock_def lock_wq_def unlock_wq_def upd_wq_def rr)
  moreover have "pool_ok ?s p qs (W(q := W q @ [w]))"
    by (rule pool_ok_add [OF pool q w room r(1)]) (use h(2,3) in simp_all)
  moreover have "wq_frame p {q} (insert w (set (W q))) s ?s"
  proof -
    have "h a = lh s a" if "a \<notin> insert (QueueHead q) (WorkNode ` insert w (set (W q)))" for a
      using h(3) that by (simp add: agree_off_def)
    moreover have "dom h = dom (lh s)" using agree_off_dom [OF h(3)] by simp
    ultimately show ?thesis using k r(1) by (auto simp: wq_frame_def)
  qed
  ultimately show ?thesis
    using r(1) k by (intro that [of ?s]) auto
qed

section \<open>Scheduling\<close>

lemma pool_ok_rcu [simp]: "pool_ok (s\<lparr>rcu := m\<rparr>) p qs W = pool_ok s p qs W"
  by (simp add: pool_ok_def queue_ok_def)

lemma pool_ok_threads [simp]: "pool_ok (s\<lparr>threads := t\<rparr>) p qs W = pool_ok s p qs W"
  by (simp add: pool_ok_def queue_ok_def)

lemma work_free_rcu [simp]: "work_free (s\<lparr>rcu := m\<rparr>) qs W w = work_free s qs W w"
  by (simp add: work_free_def)

text \<open>The queue that the fast path takes.\<close>

definition pick_queue :: "u32 \<Rightarrow> (nat \<rightharpoonup> workqueue) \<Rightarrow> nat list \<Rightarrow> nat option" where
  "pick_queue cpu Q qs = find (\<lambda>q. fast_match cpu Q q = Some True) qs"

lemma find_cong_set: "(\<And>q. q \<in> set qs \<Longrightarrow> P q = R q) \<Longrightarrow> find P qs = find R qs"
  by (induction qs) auto

lemma pool_wqs: "pool_ok s p qs W \<Longrightarrow> q \<in> set qs \<Longrightarrow> \<exists>r. wqs s q = Some r"
  by (auto simp: pool_ok_def queue_ok_def)

lemma get_workqueue_fast_ok:
  assumes pool: "pool_ok s p qs W" and w: "work_free s qs W w" and rr: "rcu_ready (self env) (rcu s)"
    and room: "\<forall>q\<in>set qs. length (W q) < 2 ^ 32 - 1"
  obtains s' where "get_workqueue_fast env p cpu w s = Some (pick_queue cpu (wqs s) qs, s')"
    "rcu_pass (self env) (rcu s) (rcu s')" "threads s' = threads s"
    "\<And>x. map_option qfutex (wqs s' x) = map_option qfutex (wqs s x)"
    "case pick_queue cpu (wqs s) qs of None \<Rightarrow> \<exists>m. s' = s\<lparr>rcu := m\<rparr>
     | Some q \<Rightarrow> pool_ok s' p qs (W(q := W q @ [w])) \<and> map_option wwq (works s' w) = Some q \<and>
         wq_frame p {q} (insert w (set (W q))) s s'"
proof -
  obtain m1 m2 where m: "mthpc_rcu_read_lock (rcu_fresh env) (self env) (rcu s) = Some m1"
    "mthpc_rcu_read_unlock (self env) m1 = Some m2" "rcu_pass (self env) (rcu s) m2"
    by (rule rcu_section [OF rr])
  let ?P = "\<lambda>q. fast_match cpu (wqs s) q = Some True"
  have match: "fast_match cpu (wqs s) q = Some (?P q)" if "q \<in> set qs" for q
    using pool_wqs [OF pool that] by (auto simp: fast_match_def)
  have c: "clist (lh s) (PoolHead p) (map QueueNode qs)" using pool by (simp add: pool_ok_def)
  obtain pos where pos: "ld_next (lh s) (PoolHead p) = Some pos"
    "find_queue (lh s) (fast_match cpu (wqs s)) (PoolHead p) pos = Some (find ?P qs)"
    by (rule find_queue_pool [OF c match], assumption, rule that)
  show ?thesis
  proof (cases "pick_queue cpu (wqs s) qs")
    case None
    then show ?thesis
      using m pos by (intro that [of "s\<lparr>rcu := m2\<rparr>"])
        (auto simp: get_workqueue_fast_def pick_queue_def)
  next
    case (Some q)
    then have q: "q \<in> set qs" by (auto simp: pick_queue_def find_Some_iff)
    have "pool_ok (s\<lparr>rcu := m1\<rparr>) p qs W" "work_free (s\<lparr>rcu := m1\<rparr>) qs W w" using pool w by simp_all
    note add = add_under_lock_pool [OF this(1) q this(2)]
    have "length (W q) < 2 ^ 32 - 1" using room q by blast
    obtain s' where s':
      "add_under_lock q w (s\<lparr>rcu := m1\<rparr>) = Some s'" "pool_ok s' p qs (W(q := W q @ [w]))"
      "rcu s' = rcu (s\<lparr>rcu := m1\<rparr>)" "threads s' = threads (s\<lparr>rcu := m1\<rparr>)"
      "wq_frame p {q} (insert w (set (W q))) (s\<lparr>rcu := m1\<rparr>) s'" "map_option wwq (works s' w) = Some q"
      "\<And>x. map_option qfutex (wqs s' x) = map_option qfutex (wqs (s\<lparr>rcu := m1\<rparr>) x)"
      by (rule add [OF \<open>length (W q) < 2 ^ 32 - 1\<close>], rule that)
    then show ?thesis
      using m pos Some by (intro that [of "s'\<lparr>rcu := m2\<rparr>"])
        (simp_all add: get_workqueue_fast_def pick_queue_def)
  qed
qed

lemma queue_ok_same:
  assumes "queue_ok s p x ws" "wqs s' x = wqs s x"
    and "\<And>a. a \<in> insert (QueueHead x) (WorkNode ` set ws) \<Longrightarrow> lh s' a = lh s a"
    and "\<And>w. w \<in> set ws \<Longrightarrow> works s w \<noteq> None \<Longrightarrow> works s' w \<noteq> None"
  shows "queue_ok s' p x ws"
proof -
  have "clist (lh s') (QueueHead x) (map WorkNode ws)"
    by (rule clist_same [of "lh s"]) (use assms in \<open>auto simp: queue_ok_def\<close>)
  then show ?thesis using assms(1,2,4) by (auto simp: queue_ok_def)
qed

lemma alloc_workqueue_ok:
  obtains h where "mthpc_alloc_workqueue q junk s = Some (s\<lparr>wqs := (wqs s)(q \<mapsto>
       \<lparr>actived_cpu = mthpc_wq_mkactive junk, qlock = Unlocked, qfutex = 0, qcount = 0, qtid = 0, qwp = 0\<rparr>),
       lh := h\<rparr>)"
    "clist h (QueueHead q) []" "QueueNode q \<in> dom h"
    "\<And>a. a \<notin> {QueueHead q, QueueNode q} \<Longrightarrow> h a = lh s a"
proof -
  let ?h = "(lh s)(QueueHead q \<mapsto> \<lparr>nxt = 0, prv = 0\<rparr>, QueueNode q \<mapsto> \<lparr>nxt = 0, prv = 0\<rparr>)"
  have "QueueHead q \<in> dom ?h" by simp
  from mthpc_list_init_ok [OF this] obtain h1 where h1: "mthpc_list_init (QueueHead q) ?h = Some h1"
    "clist h1 (QueueHead q) []" "agree_off {QueueHead q} ?h h1" by metis
  have "QueueNode q \<in> dom h1" using h1(3) by (auto simp: agree_off_def)
  from mthpc_list_init_ok [OF this] obtain h2 where h2: "mthpc_list_init (QueueNode q) h1 = Some h2"
    "agree_off {QueueNode q} h1 h2" by metis
  show ?thesis
  proof (rule that [of h2])
    show "mthpc_alloc_workqueue q junk s = Some (s\<lparr>wqs := (wqs s)(q \<mapsto>
       \<lparr>actived_cpu = mthpc_wq_mkactive junk, qlock = Unlocked, qfutex = 0, qcount = 0, qtid = 0, qwp = 0\<rparr>),
       lh := h2\<rparr>)"
      using h1(1) h2(1) by (simp add: mthpc_alloc_workqueue_def with_lh_def upd_wq_def del: fun_upd_apply)
        (simp add: fun_upd_upd)
    show "clist h2 (QueueHead q) []"
      by (rule clist_keep [OF h1(2) h2(2)]) simp
    show "QueueNode q \<in> dom h2" using h1(3) h2(2) by (auto simp: agree_off_def)
    show "h2 a = lh s a" if "a \<notin> {QueueHead q, QueueNode q}" for a
      using h1(3) h2(2) that by (auto simp: agree_off_def)
  qed
qed

text \<open>No queue of the pool matches, so the slow path adds the queue it has prepared.\<close>

definition new_cpu :: "sched_env \<Rightarrow> u32 \<Rightarrow> u32" where
  "new_cpu env cpu = (if cpu = -1 then (sched_cpu env + 1) AND 3 else cpu AND 3)"

definition wq_is_fresh :: "wq_sys \<Rightarrow> nat \<Rightarrow> bool" where
  "wq_is_fresh s q \<longleftrightarrow> wqs s q = None \<and> QueueHead q \<notin> dom (lh s) \<and> QueueNode q \<notin> dom (lh s)"

lemma pick_none_slow:
  assumes "pick_queue cpu Q qs = None" "q \<in> set qs" "Q q = Some r"
  shows "cpu \<noteq> -1" "slow_match cpu Q q = Some False"
proof -
  have n: "fast_match cpu Q q \<noteq> Some True"
    using assms(1,2) by (auto simp: pick_queue_def find_None_iff)
  with assms(3) show "cpu \<noteq> -1" by (auto simp: fast_match_def)
  have "cpu AND mask 2 \<noteq> actived_cpu r AND mask 2"
    using n assms(3) by (auto simp: fast_match_def mthpc_wq_get_cpu_def)
  then have "cpu \<noteq> actived_cpu r AND mask 2"
    by (auto simp: and.assoc)
  then show "slow_match cpu Q q = Some False"
    using assms(3) by (simp add: slow_match_def mthpc_wq_get_cpu_def)
qed

lemma prepare_workqueue_ok:
  assumes k: "works s w = Some k" and d: "WorkNode w \<in> dom (lh s)"
  obtains h ac where "prepare_workqueue q junk p cpu w s = Some (s\<lparr>lh := h,
       wqs := (wqs s)(q \<mapsto> \<lparr>actived_cpu = ac, qlock = Unlocked, qfutex = 0, qcount = 1, qtid = 0, qwp = p\<rparr>),
       works := (works s)(w \<mapsto> k\<lparr>wwq := q\<rparr>)\<rparr>)"
    "mthpc_wq_active ac" "mthpc_wq_get_cpu ac = cpu AND 3" "clist h (QueueHead q) [WorkNode w]"
    "\<And>a. a \<notin> {QueueHead q, QueueNode q, WorkNode w} \<Longrightarrow> h a = lh s a"
    "dom h = dom (lh s) \<union> {QueueHead q, QueueNode q}"
proof -
  obtain h1 where al: "mthpc_alloc_workqueue q junk s = Some (s\<lparr>wqs := (wqs s)(q \<mapsto>
       \<lparr>actived_cpu = mthpc_wq_mkactive junk, qlock = Unlocked, qfutex = 0, qcount = 0, qtid = 0, qwp = 0\<rparr>), lh := h1\<rparr>)"
    and h1: "clist h1 (QueueHead q) []" "QueueNode q \<in> dom h1"
    and off1: "\<And>a. a \<notin> {QueueHead q, QueueNode q} \<Longrightarrow> h1 a = lh s a"
    by (rule alloc_workqueue_ok, rule that)
  obtain ac where ac: "ac = mthpc_wq_set_cpu (mthpc_wq_mkactive junk) cpu" by simp
  have act: "mthpc_wq_active ac" "mthpc_wq_get_cpu ac = cpu AND 3"
    using wq_cpu_facts by (simp_all add: ac mask_3)
  let ?r = "\<lparr>actived_cpu = ac, qlock = Unlocked, qfutex = 0, qcount = 0, qtid = 0, qwp = p\<rparr>"
  let ?s = "s\<lparr>lh := h1, wqs := (wqs s)(q \<mapsto> ?r)\<rparr>"
  have l: "wqs ?s q = Some ?r" "mthpc_wq_active (actived_cpu ?r)"
    "clist (lh ?s) (QueueHead q) (map WorkNode [])" "works ?s w = Some k" "WorkNode w \<in> dom (lh ?s)"
    "w \<notin> set []"
    using act(1) h1(1) k d off1 by (auto simp: dom_def)
  obtain h2 where h2: "mthpc_workqueue_add_locked q w ?s = Some (?s\<lparr>lh := h2,
       wqs := (wqs ?s)(q \<mapsto> ?r\<lparr>qcount := qcount ?r + 1\<rparr>), works := (works ?s)(w \<mapsto> k\<lparr>wwq := q\<rparr>)\<rparr>)"
    "clist h2 (QueueHead q) (map WorkNode ([] @ [w]))"
    "agree_off (insert (QueueHead q) (WorkNode ` insert w (set []))) (lh ?s) h2"
    by (rule add_locked_ok [OF l], rule that)
  have "h2 a = lh s a" if "a \<notin> {QueueHead q, QueueNode q, WorkNode w}" for a
    using h2(3) off1 [of a] that by (simp add: agree_off_def)
  moreover have "dom h1 = dom (lh s) \<union> {QueueHead q, QueueNode q}"
    using off1 h1(2) clist_dom [OF h1(1)] by (auto simp: dom_def) metis+
  ultimately show ?thesis
    using al h2 act agree_off_dom [OF h2(3)]
    by (intro that [where h = h2 and ac = ac]) (simp_all add: prepare_workqueue_def upd_wq_def flip: ac)
qed

text \<open>
  A worker thread can be created: there is memory for its RCU node, its id differs from those of
  the registered threads, and it may run on every cpu.
\<close>

definition worker_env :: "u64 set \<Rightarrow> rcu_mem \<Rightarrow> sched_env \<Rightarrow> bool" where
  "worker_env T m env \<longleftrightarrow> worker_node env \<noteq> 0 \<and> nodes m (worker_node env) = None \<and>
     thread_id (wtid env) \<notin> thread_id ` T \<and> (\<forall>c. affinity env c = 0)"

lemma worker_env_init:
  assumes "rcu_threads T m" "worker_env T m env"
  obtains m' where "mthpc_rcu_thread_init (worker_node env) (wtid env) m = Some m'"
    "rcu_threads (insert (wtid env) T) m'" "dom (nodes m') = insert (worker_node env) (dom (nodes m))"
  by (rule rcu_threads_init [OF assms(1), of "wtid env" "worker_node env"])
    (use assms(2) that in \<open>auto simp: worker_env_def\<close>)

lemma works_handler_ok:
  assumes "wqs s q = Some r" "mthpc_rcu_thread_init (worker_node env) (wtid env) (rcu s) = Some m"
    and "\<forall>c. affinity env c = 0"
  shows "mthpc_works_handler env q s = Some (s\<lparr>wqs := (wqs s)(q \<mapsto> r\<lparr>qtid := wtid env\<rparr>),
    threads := threads s @ [q], rcu := m\<rparr>)"
  using assms by (simp add: mthpc_works_handler_def worker_begin_def mthpc_wq_run_on_cpu_def upd_wq_def wq_warn_def)

lemma link_workqueue_ok:
  assumes pr: "pools s p = Some pr" "plock pr = Unlocked"
    and c: "clist (lh s) (PoolHead p) (map QueueNode qs)" and q: "QueueNode q \<in> dom (lh s)" "q \<notin> set qs"
    and match: "\<And>x. x \<in> set qs \<Longrightarrow> slow_match cpu (wqs s) x = Some False"
    and r: "wqs s q = Some r" and init: "mthpc_rcu_thread_init (worker_node env) (wtid env) (rcu s) = Some m"
    and aff: "\<forall>c. affinity env c = 0"
  obtains h where "link_workqueue env q p cpu w s = Some (Some q, s\<lparr>lh := h,
      pools := (pools s)(p \<mapsto> pr\<lparr>pcount := pcount pr + 1\<rparr>), threads := threads s @ [q],
      wqs := (wqs s)(q \<mapsto> r\<lparr>qtid := wtid env\<rparr>), rcu := m\<rparr>)"
    "clist h (PoolHead p) (map QueueNode (qs @ [q]))"
    "agree_off (set (PoolHead p # map QueueNode (qs @ [q]))) (lh s) h"
proof -
  obtain pos where pos: "ld_next (lh s) (PoolHead p) = Some pos"
    "find_queue (lh s) (slow_match cpu (wqs s)) (PoolHead p) pos = Some (find (\<lambda>_. False) qs)"
    by (rule find_queue_pool [OF c match], assumption, rule that)
  have n: "QueueNode q \<notin> set (PoolHead p # map QueueNode qs)" using q(2) by auto
  obtain h where h: "mthpc_list_add_tail (QueueNode q) (PoolHead p) (lh s) = Some h"
    "clist h (PoolHead p) (map QueueNode qs @ [QueueNode q])"
    "agree_off (set (QueueNode q # PoolHead p # map QueueNode qs)) (lh s) h"
    by (rule mthpc_list_add_tail_ok [OF c q(1) n], rule that)
  have fnd: "find (\<lambda>_. False) qs = None" by (simp add: find_None_iff)
  have plr: "pr\<lparr>pcount := x, plock := Unlocked\<rparr> = pr\<lparr>pcount := x\<rparr>"
    "pr\<lparr>plock := Unlocked, pcount := x\<rparr> = pr\<lparr>pcount := x\<rparr>" for x
    using pr(2) by simp_all
  have "insert (QueueNode q) (insert (PoolHead p) (QueueNode ` set qs)) =
      insert (PoolHead p) (insert (QueueNode q) (QueueNode ` set qs))" by auto
  then show ?thesis
    using pr pos h fnd r init aff by (intro that [of h])
      (simp_all add: link_workqueue_def lock_pool_def unlock_pool_def upd_pool_def with_lh_def
        mthpc_list_add_tail_rcu_eq plr works_handler_ok)
qed

text \<open>The whole slow path, with what it leaves alone.\<close>

lemma get_workqueue_slow_run:
  assumes pool: "pool_ok s p qs W" and w: "work_free s qs W w"
    and none: "pick_queue cpu (wqs s) qs = None"
    and q: "wq_fresh env \<noteq> 0" "wq_is_fresh s (wq_fresh env)"
    and init: "mthpc_rcu_thread_init (worker_node env) (wtid env) (rcu s) = Some m" "\<forall>c. affinity env c = 0"
  obtains h ac k pr where "works s w = Some k" "pools s p = Some pr"
    "get_workqueue_slow env p cpu w s = Some (Some (wq_fresh env), s\<lparr>lh := h,
       wqs := (wqs s)(wq_fresh env \<mapsto>
         \<lparr>actived_cpu = ac, qlock = Unlocked, qfutex = 0, qcount = 1, qtid = wtid env, qwp = p\<rparr>),
       works := (works s)(w \<mapsto> k\<lparr>wwq := wq_fresh env\<rparr>),
       pools := (pools s)(p \<mapsto> pr\<lparr>pcount := pcount pr + 1\<rparr>), threads := threads s @ [wq_fresh env], rcu := m\<rparr>)"
    "mthpc_wq_active ac" "mthpc_wq_get_cpu ac = new_cpu env cpu"
    "clist h (PoolHead p) (map QueueNode (qs @ [wq_fresh env]))" "clist h (QueueHead (wq_fresh env)) [WorkNode w]"
    "\<And>a. a \<notin> {PoolHead p, QueueHead (wq_fresh env), WorkNode w} \<union> QueueNode ` set (qs @ [wq_fresh env]) \<Longrightarrow> h a = lh s a"
    "dom h = dom (lh s) \<union> {QueueHead (wq_fresh env), QueueNode (wq_fresh env)}"
proof -
  let ?q = "wq_fresh env"
  have nq: "?q \<notin> set qs" using q(2) pool_wqs [OF pool] by (fastforce simp: wq_is_fresh_def)
  obtain pr where pr: "pools s p = Some pr" "plock pr = Unlocked"
    and c: "clist (lh s) (PoolHead p) (map QueueNode qs)"
    using pool by (auto simp: pool_ok_def)
  obtain k where k: "works s w = Some k" "WorkNode w \<in> dom (lh s)" using w by (auto simp: work_free_def)
  obtain cp where cp: "cp = (if cpu = -1 then (sched_cpu env + 1) AND MTHPC_WQ_CPU_MASK else cpu)" by simp
  obtain h1 ac where P: "prepare_workqueue ?q (garbage env) p cp w s = Some (s\<lparr>lh := h1,
       wqs := (wqs s)(?q \<mapsto> \<lparr>actived_cpu = ac, qlock = Unlocked, qfutex = 0, qcount = 1, qtid = 0, qwp = p\<rparr>),
       works := (works s)(w \<mapsto> k\<lparr>wwq := ?q\<rparr>)\<rparr>)"
    "mthpc_wq_active ac" "mthpc_wq_get_cpu ac = cp AND 3" "clist h1 (QueueHead ?q) [WorkNode w]"
    "\<And>a. a \<notin> {QueueHead ?q, QueueNode ?q, WorkNode w} \<Longrightarrow> h1 a = lh s a"
    "dom h1 = dom (lh s) \<union> {QueueHead ?q, QueueNode ?q}"
    by (rule prepare_workqueue_ok [OF k], rule that)
  let ?s = "s\<lparr>lh := h1,
       wqs := (wqs s)(?q \<mapsto> \<lparr>actived_cpu = ac, qlock = Unlocked, qfutex = 0, qcount = 1, qtid = 0, qwp = p\<rparr>),
       works := (works s)(w \<mapsto> k\<lparr>wwq := ?q\<rparr>)\<rparr>"
  have c1: "clist (lh ?s) (PoolHead p) (map QueueNode qs)"
  proof (rule clist_same [OF c])
    show "lh ?s a = lh s a" if "a \<in> insert (PoolHead p) (set (map QueueNode qs))" for a
      using P(5) [of a] nq that by auto
  qed
  have match: "slow_match cp (wqs ?s) x = Some False" if x: "x \<in> set qs" for x
  proof -
    obtain r where r: "wqs s x = Some r" using pool_wqs [OF pool x] by blast
    have "x \<noteq> ?q" using x nq by auto
    with pick_none_slow [OF none x r] show ?thesis by (auto simp: slow_match_def cp)
  qed
  have L: "pools ?s p = Some pr" "QueueNode ?q \<in> dom (lh ?s)" using pr(1) P(6) by auto
  let ?r = "\<lparr>actived_cpu = ac, qlock = Unlocked, qfutex = 0, qcount = 1, qtid = 0, qwp = p\<rparr>"
  have R: "wqs ?s ?q = Some ?r" "mthpc_rcu_thread_init (worker_node env) (wtid env) (rcu ?s) = Some m"
    using init(1) by simp_all
  obtain h2 where h2: "link_workqueue env ?q p cp w ?s = Some (Some ?q, ?s\<lparr>lh := h2,
      pools := (pools ?s)(p \<mapsto> pr\<lparr>pcount := pcount pr + 1\<rparr>), threads := threads ?s @ [?q],
      wqs := (wqs ?s)(?q \<mapsto> ?r\<lparr>qtid := wtid env\<rparr>), rcu := m\<rparr>)"
    "clist h2 (PoolHead p) (map QueueNode (qs @ [?q]))"
    "agree_off (set (PoolHead p # map QueueNode (qs @ [?q]))) (lh ?s) h2"
    by (rule link_workqueue_ok [OF L(1) pr(2) c1 L(2) nq match R init(2)], assumption, rule that)
  have "clist h2 (QueueHead ?q) [WorkNode w]" by (rule clist_keep [OF P(4)]) (use h2(3) in auto)
  moreover have "h2 a = lh s a" if "a \<notin> {PoolHead p, QueueHead ?q, WorkNode w} \<union> QueueNode ` set (qs @ [?q])" for a
  proof -
    have "a \<notin> set (PoolHead p # map QueueNode (qs @ [?q]))" "a \<notin> {QueueHead ?q, QueueNode ?q, WorkNode w}"
      using that by auto
    with h2(3) P(5) show ?thesis unfolding agree_off_def by simp
  qed
  ultimately show ?thesis
    using k(1) pr(1) P(1-3,6) h2(1,2) q(1) agree_off_dom [OF h2(3)]
    by (intro that [where h = h2 and ac = ac and k = k and pr = pr])
      (simp_all add: get_workqueue_slow_def Let_def new_cpu_def and.assoc mask_3 flip: cp, auto simp: cp and.assoc)
qed

text \<open>The pool with a new last queue, which holds one work.\<close>

lemma pool_ok_new_queue:
  assumes pool: "pool_ok s p qs W" and w: "work_free s qs W w" and q: "q \<notin> set qs" "q \<noteq> 0"
    and s': "wqs s' = (wqs s)(q \<mapsto> \<lparr>actived_cpu = ac, qlock = Unlocked, qfutex = f, qcount = 1, qtid = t, qwp = p\<rparr>)"
      "mthpc_wq_active ac" "\<And>x. works s x \<noteq> None \<Longrightarrow> works s' x \<noteq> None"
      "pools s p = Some pr" "pools s' p = Some (pr\<lparr>pcount := pcount pr + 1\<rparr>)"
    and h: "clist (lh s') (PoolHead p) (map QueueNode (qs @ [q]))" "clist (lh s') (QueueHead q) [WorkNode w]"
      "\<And>a. a \<notin> {PoolHead p, QueueHead q, WorkNode w} \<union> range QueueNode \<Longrightarrow> lh s' a = lh s a"
  shows "pool_ok s' p (qs @ [q]) (W(q := [w]))"
proof -
  have wn: "w \<notin> set (W x)" if "x \<in> set qs" for x using w that by (simp add: work_free_def)
  have "works s' w \<noteq> None" using w s'(3) by (simp add: work_free_def)
  then have "queue_ok s' p q [w]" using s'(1,2) h(2) by (simp add: queue_ok_def)
  moreover have "queue_ok s' p x (W x)" if x: "x \<in> set qs" for x
  proof (rule queue_ok_same)
    show "queue_ok s p x (W x)" using pool x by (simp add: pool_ok_def)
    show "wqs s' x = wqs s x" using s'(1) x q(1) by auto
    show "lh s' a = lh s a" if "a \<in> insert (QueueHead x) (WorkNode ` set (W x))" for a
      by (rule h(3)) (use that x q(1) wn in auto)
  qed (use s'(3) in simp)
  moreover have "set ((W(q := [w])) x) \<inter> set ((W(q := [w])) y) = {}"
    if "x \<in> set (qs @ [q])" "y \<in> set (qs @ [q])" "x \<noteq> y" for x y
  proof -
    have "x \<in> set qs \<Longrightarrow> y \<in> set qs \<Longrightarrow> set (W x) \<inter> set (W y) = {}"
      using pool that(3) by (simp add: pool_ok_def)
    then show ?thesis using that wn by auto
  qed
  moreover have "\<exists>r. pools s' p = Some r \<and> plock r = Unlocked \<and> pcount r = of_nat (length (qs @ [q]))"
    using pool s'(4,5) by (auto simp: pool_ok_def)
  ultimately show ?thesis
    using pool q h(1) by (auto simp: pool_ok_def)
qed

lemma get_workqueue_slow_ok:
  assumes pool: "pool_ok s p qs W" and w: "work_free s qs W w"
    and none: "pick_queue cpu (wqs s) qs = None"
    and q: "wq_fresh env \<noteq> 0" "wq_is_fresh s (wq_fresh env)"
    and init: "mthpc_rcu_thread_init (worker_node env) (wtid env) (rcu s) = Some m" "\<forall>c. affinity env c = 0"
  obtains s' where "get_workqueue_slow env p cpu w s = Some (Some (wq_fresh env), s')"
    "pool_ok s' p (qs @ [wq_fresh env]) (W(wq_fresh env := [w]))"
    "threads s' = threads s @ [wq_fresh env]" "rcu s' = m" "map_option qtid (wqs s' (wq_fresh env)) = Some (wtid env)"
    "map_option (\<lambda>r. mthpc_wq_get_cpu (actived_cpu r)) (wqs s' (wq_fresh env)) = Some (new_cpu env cpu)"
    "\<And>x. x \<noteq> wq_fresh env \<Longrightarrow> wqs s' x = wqs s x" "wq_frame p (set (qs @ [wq_fresh env])) {w} s s'"
proof -
  let ?q = "wq_fresh env"
  have nq: "?q \<notin> set qs" using q(2) pool_wqs [OF pool] by (fastforce simp: wq_is_fresh_def)
  obtain h ac k pr where r: "works s w = Some k" "pools s p = Some pr"
    "get_workqueue_slow env p cpu w s = Some (Some ?q, s\<lparr>lh := h,
       wqs := (wqs s)(?q \<mapsto> \<lparr>actived_cpu = ac, qlock = Unlocked, qfutex = 0, qcount = 1, qtid = wtid env, qwp = p\<rparr>),
       works := (works s)(w \<mapsto> k\<lparr>wwq := ?q\<rparr>),
       pools := (pools s)(p \<mapsto> pr\<lparr>pcount := pcount pr + 1\<rparr>), threads := threads s @ [?q], rcu := m\<rparr>)"
    "mthpc_wq_active ac" "mthpc_wq_get_cpu ac = new_cpu env cpu"
    "clist h (PoolHead p) (map QueueNode (qs @ [?q]))" "clist h (QueueHead ?q) [WorkNode w]"
    "\<And>a. a \<notin> {PoolHead p, QueueHead ?q, WorkNode w} \<union> QueueNode ` set (qs @ [?q]) \<Longrightarrow> h a = lh s a"
    "dom h = dom (lh s) \<union> {QueueHead ?q, QueueNode ?q}"
    by (rule get_workqueue_slow_run [OF assms], rule that)
  have off: "h a = lh s a" if "a \<notin> insert (PoolHead p) (QueueNode ` set (qs @ [?q]) \<union> QueueHead ` set (qs @ [?q]) \<union> WorkNode ` {w})" for a
    by (rule r(8)) (use that in auto)
  show ?thesis
  proof (rule that [OF r(3)])
    show "wq_frame p (set (qs @ [?q])) {w} s (s\<lparr>lh := h,
       wqs := (wqs s)(?q \<mapsto> \<lparr>actived_cpu = ac, qlock = Unlocked, qfutex = 0, qcount = 1, qtid = wtid env, qwp = p\<rparr>),
       works := (works s)(w \<mapsto> k\<lparr>wwq := ?q\<rparr>),
       pools := (pools s)(p \<mapsto> pr\<lparr>pcount := pcount pr + 1\<rparr>), threads := threads s @ [?q], rcu := m\<rparr>)"
      using off r(1,9) q(2) by (auto simp: wq_frame_def wq_is_fresh_def)
  qed (rule pool_ok_new_queue [OF pool w nq q(1)], use r in \<open>auto simp del: set_map\<close>)
qed

lemma pool_ok_lh:
  assumes "pool_ok s p qs W" "agree_off S (lh s) h"
    and "PoolHead p \<notin> S" "\<And>q. QueueNode q \<notin> S" "\<And>q. QueueHead q \<notin> S"
    and "\<And>q w. q \<in> set qs \<Longrightarrow> w \<in> set (W q) \<Longrightarrow> WorkNode w \<notin> S"
  shows "pool_ok (s\<lparr>lh := h\<rparr>) p qs W"
proof -
  have "clist h (PoolHead p) (map QueueNode qs)"
    by (rule clist_keep [OF _ assms(2)]) (use assms in \<open>auto simp: pool_ok_def\<close>)
  moreover have "queue_ok (s\<lparr>lh := h\<rparr>) p q (W q)" if "q \<in> set qs" for q
    by (rule queue_ok_frame [of s p q "W q" _ S]) (use assms that in \<open>auto simp: pool_ok_def\<close>)
  ultimately show ?thesis using assms(1) by (simp add: pool_ok_def)
qed

lemma pool_ok_futex:
  assumes "pool_ok s p qs W" "wqs s q = Some r"
  shows "pool_ok (s\<lparr>wqs := (wqs s)(q \<mapsto> r\<lparr>qfutex := v\<rparr>)\<rparr>) p qs W"
  using assms by (auto simp: pool_ok_def queue_ok_def)

lemma schedule_init_ok:
  assumes "pool_ok s p qs W" "work_free s qs W w"
  obtains h where "with_lh (mthpc_list_init (WorkNode w)) s = Some (s\<lparr>lh := h\<rparr>)"
    "pool_ok (s\<lparr>lh := h\<rparr>) p qs W" "work_free (s\<lparr>lh := h\<rparr>) qs W w" "agree_off {WorkNode w} (lh s) h"
proof -
  have "WorkNode w \<in> dom (lh s)" using assms(2) by (simp add: work_free_def)
  from mthpc_list_init_ok [OF this] obtain h where h: "mthpc_list_init (WorkNode w) (lh s) = Some h"
    "agree_off {WorkNode w} (lh s) h" by metis
  show ?thesis
  proof (rule that [of h])
    show "pool_ok (s\<lparr>lh := h\<rparr>) p qs W"
      by (rule pool_ok_lh [OF assms(1) h(2)]) (use assms(2) in \<open>auto simp: work_free_def\<close>)
    show "work_free (s\<lparr>lh := h\<rparr>) qs W w"
      using assms(2) h(2) by (simp add: work_free_def agree_off_def)
  qed (use h in \<open>simp_all add: with_lh_def\<close>)
qed

lemma schedule_fast_ok:
  assumes "pool_ok s p qs W" "work_free s qs W w" "rcu_ready (self env) (rcu s)"
    and "\<forall>q\<in>set qs. length (W q) < 2 ^ 32 - 1"
    and "pick_queue cpu (wqs s) qs = Some q"
  obtains s' where "schedule_work_on env p cpu w s = Some (0, s')" "pool_ok s' p qs (W(q := W q @ [w]))"
    "map_option wwq (works s' w) = Some q" "map_option qfutex (wqs s' q) = Some 1"
    "\<And>x. x \<noteq> q \<Longrightarrow> map_option qfutex (wqs s' x) = map_option qfutex (wqs s x)"
    "threads s' = threads s" "rcu_pass (self env) (rcu s) (rcu s')" "wq_frame p {q} (insert w (set (W q))) s s'"
proof -
  obtain h where h: "with_lh (mthpc_list_init (WorkNode w)) s = Some (s\<lparr>lh := h\<rparr>)"
    "pool_ok (s\<lparr>lh := h\<rparr>) p qs W" "work_free (s\<lparr>lh := h\<rparr>) qs W w" "agree_off {WorkNode w} (lh s) h"
    by (rule schedule_init_ok [OF assms(1,2)], rule that)
  let ?t = "s\<lparr>lh := h\<rparr>"
  have rr: "rcu_ready (self env) (rcu ?t)" using assms(3) by simp
  obtain s' where s': "get_workqueue_fast env p cpu w ?t = Some (pick_queue cpu (wqs ?t) qs, s')"
    "rcu_pass (self env) (rcu ?t) (rcu s')" "threads s' = threads ?t"
    "\<And>x. map_option qfutex (wqs s' x) = map_option qfutex (wqs ?t x)"
    "case pick_queue cpu (wqs ?t) qs of None \<Rightarrow> \<exists>m. s' = ?t\<lparr>rcu := m\<rparr>
     | Some q \<Rightarrow> pool_ok s' p qs (W(q := W q @ [w])) \<and> map_option wwq (works s' w) = Some q \<and>
         wq_frame p {q} (insert w (set (W q))) ?t s'"
    by (rule get_workqueue_fast_ok [OF h(2,3) rr assms(4)], rule that)
  have q: "q \<in> set qs" using assms(5) by (auto simp: pick_queue_def find_Some_iff)
  have ok: "pool_ok s' p qs (W(q := W q @ [w]))" "map_option wwq (works s' w) = Some q"
    "wq_frame p {q} (insert w (set (W q))) ?t s'"
    using s'(5) assms(5) by simp_all
  from pool_wqs [OF ok(1) q] obtain r where r: "wqs s' q = Some r" by blast
  let ?s = "s'\<lparr>wqs := (wqs s')(q \<mapsto> r\<lparr>qfutex := 1\<rparr>)\<rparr>"
  have "schedule_work_on env p cpu w s = Some (0, ?s)"
    using h(1) s'(1) assms(5) r
    by (simp add: schedule_work_on_def mthpc_get_workqueue_def mthpc_wq_futex_wake_def upd_wq_def)
  moreover have "wq_frame p {q} (insert w (set (W q))) s ?t"
    using h(4) agree_off_dom [OF h(4)] by (auto simp: wq_frame_def agree_off_def)
  then have "wq_frame p {q} (insert w (set (W q))) s ?s"
    by (intro wq_frame_futex [OF _ r] wq_frame_trans [OF _ ok(3)]) simp_all
  ultimately show ?thesis
    using pool_ok_futex [OF ok(1) r] ok(2) s'(2-4) r by (intro that [of ?s]) simp_all
qed

lemma schedule_no_queue:
  assumes "pool_ok s p qs W" "work_free s qs W w" "rcu_ready (self env) (rcu s)"
    and "\<forall>q\<in>set qs. length (W q) < 2 ^ 32 - 1" "pick_queue cpu (wqs s) qs = None"
  obtains h m where "with_lh (mthpc_list_init (WorkNode w)) s = Some (s\<lparr>lh := h\<rparr>)"
    "get_workqueue_fast env p cpu w (s\<lparr>lh := h\<rparr>) = Some (None, s\<lparr>lh := h, rcu := m\<rparr>)"
    "pool_ok (s\<lparr>lh := h, rcu := m\<rparr>) p qs W" "work_free (s\<lparr>lh := h, rcu := m\<rparr>) qs W w"
    "rcu_pass (self env) (rcu s) m" "agree_off {WorkNode w} (lh s) h"
proof -
  obtain h where h: "with_lh (mthpc_list_init (WorkNode w)) s = Some (s\<lparr>lh := h\<rparr>)"
    "pool_ok (s\<lparr>lh := h\<rparr>) p qs W" "work_free (s\<lparr>lh := h\<rparr>) qs W w" "agree_off {WorkNode w} (lh s) h"
    by (rule schedule_init_ok [OF assms(1,2)], rule that)
  have rr: "rcu_ready (self env) (rcu (s\<lparr>lh := h\<rparr>))" using assms(3) by simp
  have none: "pick_queue cpu (wqs (s\<lparr>lh := h\<rparr>)) qs = None" using assms(5) by simp
  obtain s1 where s1: "get_workqueue_fast env p cpu w (s\<lparr>lh := h\<rparr>) =
      Some (pick_queue cpu (wqs (s\<lparr>lh := h\<rparr>)) qs, s1)" "rcu_pass (self env) (rcu (s\<lparr>lh := h\<rparr>)) (rcu s1)"
    "case pick_queue cpu (wqs (s\<lparr>lh := h\<rparr>)) qs of None \<Rightarrow> \<exists>m. s1 = s\<lparr>lh := h, rcu := m\<rparr>
     | Some q \<Rightarrow> pool_ok s1 p qs (W(q := W q @ [w])) \<and> map_option wwq (works s1 w) = Some q \<and>
         wq_frame p {q} (insert w (set (W q))) (s\<lparr>lh := h\<rparr>) s1"
    by (rule get_workqueue_fast_ok [OF h(2,3) rr assms(4)], rule that)
  from s1(3) none obtain m where m: "s1 = s\<lparr>lh := h, rcu := m\<rparr>" by auto
  show ?thesis by (rule that [of h m]) (use h s1(1,2) none m in simp_all)
qed

lemma schedule_slow_ok:
  assumes "pool_ok s p qs W" "work_free s qs W w" "rcu_threads T (rcu s)"
    and "\<forall>q\<in>set qs. length (W q) < 2 ^ 32 - 1"
    and "pick_queue cpu (wqs s) qs = None" "wq_is_fresh s (wq_fresh env)"
    and "self env \<in> T" "worker_env T (rcu s) env"
  obtains h m where "wq_fresh env = 0" "schedule_work_on env p cpu w s = Some (- ENOMEM, s\<lparr>lh := h, rcu := m\<rparr>)"
    "pool_ok (s\<lparr>lh := h, rcu := m\<rparr>) p qs W" "rcu_pass (self env) (rcu s) m" "agree_off {WorkNode w} (lh s) h"
  | s' where "wq_fresh env \<noteq> 0" "schedule_work_on env p cpu w s = Some (0, s')"
    "pool_ok s' p (qs @ [wq_fresh env]) (W(wq_fresh env := [w]))" "threads s' = threads s @ [wq_fresh env]"
    "map_option qfutex (wqs s' (wq_fresh env)) = Some 1"
    "map_option (\<lambda>r. mthpc_wq_get_cpu (actived_cpu r)) (wqs s' (wq_fresh env)) = Some (new_cpu env cpu)"
    "\<And>x. x \<noteq> wq_fresh env \<Longrightarrow> wqs s' x = wqs s x" "wq_frame p (set (qs @ [wq_fresh env])) {w} s s'"
    "map_option qtid (wqs s' (wq_fresh env)) = Some (wtid env)" "rcu_threads (insert (wtid env) T) (rcu s')"
    "dom (nodes (rcu s')) = insert (worker_node env) (dom (nodes (rcu s)))"
proof -
  let ?q = "wq_fresh env"
  obtain h m where h: "with_lh (mthpc_list_init (WorkNode w)) s = Some (s\<lparr>lh := h\<rparr>)"
    and fast: "get_workqueue_fast env p cpu w (s\<lparr>lh := h\<rparr>) = Some (None, s\<lparr>lh := h, rcu := m\<rparr>)"
    and ok: "pool_ok (s\<lparr>lh := h, rcu := m\<rparr>) p qs W" "work_free (s\<lparr>lh := h, rcu := m\<rparr>) qs W w"
    and pass: "rcu_pass (self env) (rcu s) m" and off: "agree_off {WorkNode w} (lh s) h"
    by (rule schedule_no_queue [OF assms(1,2) rcu_threads_ready [OF assms(3,7)] assms(4,5)], rule that)
  note T = rcu_threads_pass [OF assms(3,7) pass]
  show ?thesis
  proof (cases "?q = 0")
    case True
    show ?thesis
      by (rule that(1) [where h = h and m = m, OF True])
        (use h fast True ok(1) pass off in \<open>simp_all add: schedule_work_on_def mthpc_get_workqueue_def get_workqueue_slow_def\<close>)
  next
    case False
    have p2: "pick_queue cpu (wqs (s\<lparr>lh := h, rcu := m\<rparr>)) qs = None" "wq_is_fresh (s\<lparr>lh := h, rcu := m\<rparr>) ?q"
      using off assms(5,6) by (simp_all add: wq_is_fresh_def agree_off_def)
    have "worker_env T m env" using assms(8) T(2) by (auto simp: worker_env_def)
    then obtain m2 where m2: "mthpc_rcu_thread_init (worker_node env) (wtid env) m = Some m2"
      "rcu_threads (insert (wtid env) T) m2" "dom (nodes m2) = insert (worker_node env) (dom (nodes m))"
      by (rule worker_env_init [OF T(1)]) (rule that)
    have init: "mthpc_rcu_thread_init (worker_node env) (wtid env) (rcu (s\<lparr>lh := h, rcu := m\<rparr>)) = Some m2"
      "\<forall>c. affinity env c = 0"
      using m2(1) assms(8) by (simp_all add: worker_env_def)
    obtain s2 where s2: "get_workqueue_slow env p cpu w (s\<lparr>lh := h, rcu := m\<rparr>) = Some (Some ?q, s2)"
      "pool_ok s2 p (qs @ [?q]) (W(?q := [w]))" "threads s2 = threads (s\<lparr>lh := h, rcu := m\<rparr>) @ [?q]"
      "rcu s2 = m2" "map_option qtid (wqs s2 ?q) = Some (wtid env)"
      "map_option (\<lambda>r. mthpc_wq_get_cpu (actived_cpu r)) (wqs s2 ?q) = Some (new_cpu env cpu)"
      "\<And>x. x \<noteq> ?q \<Longrightarrow> wqs s2 x = wqs (s\<lparr>lh := h, rcu := m\<rparr>) x"
      "wq_frame p (set (qs @ [?q])) {w} (s\<lparr>lh := h, rcu := m\<rparr>) s2"
      by (rule get_workqueue_slow_ok [OF ok p2(1) False p2(2) init], rule that)
    from pool_wqs [OF s2(2), of ?q] obtain r where r: "wqs s2 ?q = Some r" by auto
    let ?s = "s2\<lparr>wqs := (wqs s2)(?q \<mapsto> r\<lparr>qfutex := 1\<rparr>)\<rparr>"
    have run: "schedule_work_on env p cpu w s = Some (0, ?s)"
      using h fast s2(1) r
      by (simp add: schedule_work_on_def mthpc_get_workqueue_def mthpc_wq_futex_wake_def upd_wq_def)
    have "wq_frame p (set (qs @ [?q])) {w} s (s\<lparr>lh := h, rcu := m\<rparr>)"
      using off agree_off_dom [OF off] by (auto simp: wq_frame_def agree_off_def)
    then have "wq_frame p (set (qs @ [?q])) {w} s ?s"
      by (intro wq_frame_futex [OF _ r] wq_frame_trans [OF _ s2(8)]) simp_all
    then show ?thesis
      by (intro that(2) [of ?s, OF False run])
        (use pool_ok_futex [OF s2(2) r] s2(3-) r m2 T(2) in simp_all)
  qed
qed

text \<open>
  C26. Scheduling a work, fast path: if a queue of the pool matches the cpu,
  \<open>__mthpc_schedule_work_on\<close> returns 0, the work is the last one of exactly that
  queue, the other queues and the pool invariant are unchanged, the worker is woken and every
  lock is free again.
\<close>

theorem schedule_on_existing_queue:
  assumes "pool_ok s p qs W" "work_free s qs W w" "rcu_ready (self env) (rcu s)"
    and "\<forall>q\<in>set qs. length (W q) < 2 ^ 32 - 1"
    and "pick_queue cpu (wqs s) qs = Some q"
  shows "\<exists>s'. schedule_work_on env p cpu w s = Some (0, s') \<and> pool_ok s' p qs (W(q := W q @ [w])) \<and>
    map_option wwq (works s' w) = Some q \<and> map_option qfutex (wqs s' q) = Some 1 \<and>
    threads s' = threads s \<and> rcu_ready (self env) (rcu s')"
  by (rule schedule_fast_ok [OF assms]) (use rcu_pass_ready [OF _ assms(3)] in auto)

text \<open>
  C27. Scheduling a work, slow path: if no queue matches, the call adds a new queue with the
  masked cpu that holds just this work and starts its thread, whatever the uninitialised memory
  held; if the allocation fails it returns -ENOMEM and the pool is unchanged.
\<close>

theorem schedule_on_new_queue:
  assumes "pool_ok s p qs W" "work_free s qs W w" "rcu_threads T (rcu s)"
    and "\<forall>q\<in>set qs. length (W q) < 2 ^ 32 - 1"
    and "pick_queue cpu (wqs s) qs = None" "wq_is_fresh s (wq_fresh env)"
    and "self env \<in> T" "worker_env T (rcu s) env"
  shows "if wq_fresh env = 0
    then \<exists>s'. schedule_work_on env p cpu w s = Some (- ENOMEM, s') \<and> pool_ok s' p qs W \<and>
      threads s' = threads s
    else \<exists>s'. schedule_work_on env p cpu w s = Some (0, s') \<and>
      pool_ok s' p (qs @ [wq_fresh env]) (W(wq_fresh env := [w])) \<and>
      threads s' = threads s @ [wq_fresh env] \<and> rcu_threads (insert (wtid env) T) (rcu s') \<and>
      map_option qfutex (wqs s' (wq_fresh env)) = Some 1 \<and>
      map_option (\<lambda>r. mthpc_wq_get_cpu (actived_cpu r)) (wqs s' (wq_fresh env)) = Some (new_cpu env cpu)"
  by (rule schedule_slow_ok [OF assms]) auto

section \<open>Example systems\<close>

definition wq_rcu :: rcu_mem where
  "wq_rcu = rcu_mem2\<lparr>node_ptr := (\<lambda>_. 0)(3 := 8)\<rparr>"

definition wq_sys0 :: wq_sys where
  "wq_sys0 = \<lparr>wqs = Map.empty, works = [7 \<mapsto> \<lparr>wfunc = 0, wwq = 0\<rparr>, 9 \<mapsto> \<lparr>wfunc = 0, wwq = 0\<rparr>],
     pools = [0 \<mapsto> \<lparr>pcount = 0, plock = Unlocked\<rparr>],
     lh = [PoolHead 0 \<mapsto> \<lparr>nxt = PoolHead 0, prv = PoolHead 0\<rparr>,
       WorkNode 7 \<mapsto> \<lparr>nxt = WNull, prv = WNull\<rparr>, WorkNode 9 \<mapsto> \<lparr>nxt = WNull, prv = WNull\<rparr>],
     rcu = wq_rcu, threads = [], ran = [], wq_warned = 0\<rparr>"

text \<open>A pool with one queue on cpu \<open>1\<close> that holds one work.\<close>

definition wq_sys1 :: wq_sys where
  "wq_sys1 = wq_sys0\<lparr>
     wqs := [5 \<mapsto> \<lparr>actived_cpu = 5, qlock = Unlocked, qfutex = 1, qcount = 1, qtid = 50, qwp = 0\<rparr>],
     pools := [0 \<mapsto> \<lparr>pcount = 1, plock = Unlocked\<rparr>], threads := [5],
     lh := [PoolHead 0 \<mapsto> \<lparr>nxt = QueueNode 5, prv = QueueNode 5\<rparr>,
       QueueNode 5 \<mapsto> \<lparr>nxt = PoolHead 0, prv = PoolHead 0\<rparr>,
       QueueHead 5 \<mapsto> \<lparr>nxt = WorkNode 7, prv = WorkNode 7\<rparr>,
       WorkNode 7 \<mapsto> \<lparr>nxt = QueueHead 5, prv = QueueHead 5\<rparr>,
       WorkNode 9 \<mapsto> \<lparr>nxt = WNull, prv = WNull\<rparr>]\<rparr>"

definition wq_env :: sched_env where
  "wq_env = \<lparr>self = 3, rcu_fresh = 20, wq_fresh = 6, garbage = 0xCAFE, sched_cpu = 2,
     wtid = 51, worker_node = 30, affinity = \<lambda>_. 0\<rparr>"

lemma wq_sys0_ok: "pool_ok wq_sys0 0 [] W" "work_free wq_sys0 [] W 7" "rcu_ready 3 (rcu wq_sys0)"
  by (simp_all add: wq_sys0_def pool_ok_def clist_def link_def ld_next_def ld_prev_def work_free_def
      rcu_ready_def wq_rcu_def rcu_mem2_def rcu_mem0_def new_node_def)

lemma wq_sys1_ok: "pool_ok wq_sys1 0 [5] (\<lambda>_. [7])" "work_free wq_sys1 [5] (\<lambda>_. [7]) 9"
    "rcu_ready 3 (rcu wq_sys1)" "pick_queue 1 (wqs wq_sys1) [5] = Some 5"
  by (simp_all add: wq_sys1_def wq_sys0_def pool_ok_def queue_ok_def clist_def link_def ld_next_def
      ld_prev_def work_free_def rcu_ready_def wq_rcu_def rcu_mem2_def rcu_mem0_def new_node_def
      pick_queue_def fast_match_def mthpc_wq_active_def mthpc_wq_get_cpu_def mask_eq_exp_minus_1)

lemma schedule_on_existing_queue_witness:
  "\<exists>s'. schedule_work_on wq_env 0 1 9 wq_sys1 = Some (0, s') \<and>
    pool_ok s' 0 [5] ((\<lambda>_. [7])(5 := [7] @ [9])) \<and>
    map_option wwq (works s' 9) = Some 5 \<and> map_option qfutex (wqs s' 5) = Some 1 \<and>
    threads s' = threads wq_sys1 \<and> rcu_ready (self wq_env) (rcu s')"
  by (rule schedule_on_existing_queue [OF wq_sys1_ok(1,2)])
    (use wq_sys1_ok in \<open>simp_all add: wq_env_def\<close>)

lemma wq_rcu_threads: "rcu_threads {3} wq_rcu"
proof -
  have reg: "registry wq_rcu usr_data [8]" using registry_mem2 by (simp add: wq_rcu_def)
  have look: "rcu_lookup usr_data wq_rcu = [3 \<mapsto> 8]" using lookup_mem2 by (simp add: wq_rcu_def)
  have node: "nodes wq_rcu 8 = Some (new_node usr_data 3)" "node_ptr wq_rcu = (\<lambda>_. 0)(3 := 8)"
    "datas wq_rcu usr_data = Some \<lparr>dlock = Unlocked, dhead = 8, dtype = 1, dgp = 1, dnext = 0\<rparr>"
    by (simp_all add: wq_rcu_def rcu_mem2_def)
  have "\<not> gp_active (ngp (new_node usr_data 3))" by (simp add: gp_active_def new_node_def)
  moreover have "data_gp_ok 1" by (simp add: data_gp_ok_def gp_nest_def)
  ultimately show ?thesis
    using reg look node by (auto simp: rcu_threads_def registry_valid_def ran_def split: if_splits)
qed

lemma wq_env_worker: "worker_env {3} wq_rcu wq_env"
  by (simp add: worker_env_def wq_env_def wq_rcu_def rcu_mem2_def)

lemma schedule_on_new_queue_witness:
  "if wq_fresh wq_env = 0
    then \<exists>s'. schedule_work_on wq_env 0 (-1) 7 wq_sys0 = Some (- ENOMEM, s') \<and> pool_ok s' 0 [] (\<lambda>_. []) \<and>
      threads s' = threads wq_sys0
    else \<exists>s'. schedule_work_on wq_env 0 (-1) 7 wq_sys0 = Some (0, s') \<and>
      pool_ok s' 0 ([] @ [wq_fresh wq_env]) ((\<lambda>_. [])(wq_fresh wq_env := [7])) \<and>
      threads s' = threads wq_sys0 @ [wq_fresh wq_env] \<and> rcu_threads (insert (wtid wq_env) {3}) (rcu s') \<and>
      map_option qfutex (wqs s' (wq_fresh wq_env)) = Some 1 \<and>
      map_option (\<lambda>r. mthpc_wq_get_cpu (actived_cpu r)) (wqs s' (wq_fresh wq_env)) =
        Some (new_cpu wq_env (-1))"
proof -
  have "rcu wq_sys0 = wq_rcu" by (simp add: wq_sys0_def)
  then show ?thesis
    by (intro schedule_on_new_queue [OF wq_sys0_ok(1,2), of "{3}"])
      (use wq_rcu_threads wq_env_worker in \<open>simp_all add: wq_sys0_def pick_queue_def wq_is_fresh_def, simp add: wq_env_def\<close>)
qed

section \<open>The worker\<close>

lemma worker_runs_first:
  assumes "queue_ok s p q (w # ws)"
  obtains s' where "worker_iteration q s = Some (WorkerRan w, s')" "queue_ok s' p q ws"
    "ran s' = ran s @ [w]" "wq_warned s' = wq_warned s"
    "map_option qfutex (wqs s' q) = map_option qfutex (wqs s q)"
    "agree_off (insert (QueueHead q) (WorkNode ` set (w # ws))) (lh s) (lh s')"
    "\<And>x. x \<noteq> q \<Longrightarrow> wqs s' x = wqs s x" "works s' = works s" "pools s' = pools s" "rcu s' = rcu s"
    "map_option wq_ident (wqs s' q) = map_option wq_ident (wqs s q)"
proof -
  obtain r where r: "wqs s q = Some r" "qlock r = Unlocked" "qwp r = p"
    "mthpc_wq_active (actived_cpu r)" "qcount r = of_nat (length (w # ws))"
    and c: "clist (lh s) (QueueHead q) (map WorkNode (w # ws))"
    and n: "length (w # ws) < 2 ^ 32" "\<forall>x\<in>set (w # ws). works s x \<noteq> None"
    using assms by (auto simp: queue_ok_def)
  have c': "clist (lh s) (QueueHead q) ([] @ WorkNode w # map WorkNode ws)" using c by simp
  obtain h where h: "mthpc_list_del (WorkNode w) (lh s) = Some h"
    "clist h (QueueHead q) ([] @ map WorkNode ws)"
    "agree_off (set (QueueHead q # [] @ WorkNode w # map WorkNode ws)) (lh s) h"
    by (rule mthpc_list_del_ok [OF c'], rule that)
  have e: "mthpc_list_empty (QueueHead q) (lh s) = Some False"
    and nx: "ld_next (lh s) (QueueHead q) = Some (WorkNode w)"
    using mthpc_list_empty_iff [OF c] clist_next [OF c] by simp_all
  let ?s = "s\<lparr>lh := h, wqs := (wqs s)(q \<mapsto> r\<lparr>qcount := qcount r - 1\<rparr>), ran := ran s @ [w]\<rparr>"
  have rr: "r\<lparr>qlock := Unlocked, qcount := x\<rparr> = r\<lparr>qcount := x\<rparr>"
    "r\<lparr>qcount := x, qlock := Unlocked\<rparr> = r\<lparr>qcount := x\<rparr>" for x
    using r(2) by simp_all
  show ?thesis
  proof (rule that [of ?s])
    show "worker_iteration q s = Some (WorkerRan w, ?s)"
      using r(1,2,4) e nx h(1)
      by (simp add: worker_iteration_def lock_wq_def unlock_wq_def upd_wq_def with_lh_def rr)
    show "queue_ok ?s p q ws"
      using r(2-5) h(2) n by (simp add: queue_ok_def)
    show "agree_off (insert (QueueHead q) (WorkNode ` set (w # ws))) (lh s) (lh ?s)"
      using h(3) by simp
  qed (use r(1) in simp_all)
qed

lemma worker_idles:
  assumes "queue_ok s p q []" "map_option qfutex (wqs s q) = Some f" "f \<noteq> 0"
  shows "worker_iteration q s = Some (WorkerIdle, s)"
proof -
  obtain r where r: "wqs s q = Some r" "qlock r = Unlocked" "mthpc_wq_active (actived_cpu r)"
    "qcount r = 0" and c: "clist (lh s) (QueueHead q) []"
    using assms(1) by (auto simp: queue_ok_def)
  have rr: "r\<lparr>qlock := Unlocked\<rparr> = r" using r(2) by simp
  have "s\<lparr>wqs := (wqs s)(q \<mapsto> r)\<rparr> = s" using r(1) by (simp add: fun_upd_idem)
  then show ?thesis
    using r assms(2,3) mthpc_list_empty_iff [OF c]
    by (simp add: worker_iteration_def lock_wq_def unlock_wq_def upd_wq_def wq_warn_def rr)
qed

text \<open>
  C28. The worker runs the works of its queue in the order in which they were queued, each
  exactly once, without a warning about the counter, and then finds the queue empty with its
  lock free.
\<close>

theorem worker_drains_queue:
  assumes "queue_ok s p q ws"
  shows "\<exists>s'. worker_iterations (length ws) q s = Some s' \<and> queue_ok s' p q [] \<and>
    ran s' = ran s @ ws \<and> wq_warned s' = wq_warned s \<and>
    agree_off (insert (QueueHead q) (WorkNode ` set ws)) (lh s) (lh s')"
  using assms
proof (induction ws arbitrary: s)
  case (Cons w ws)
  obtain s1 where s1: "worker_iteration q s = Some (WorkerRan w, s1)" "queue_ok s1 p q ws"
    "ran s1 = ran s @ [w]" "wq_warned s1 = wq_warned s"
    "agree_off (insert (QueueHead q) (WorkNode ` set (w # ws))) (lh s) (lh s1)"
    by (rule worker_runs_first [OF Cons.prems], rule that)
  from Cons.IH [OF s1(2)] obtain s2 where s2: "worker_iterations (length ws) q s1 = Some s2"
    "queue_ok s2 p q []" "ran s2 = ran s1 @ ws" "wq_warned s2 = wq_warned s1"
    "agree_off (insert (QueueHead q) (WorkNode ` set ws)) (lh s1) (lh s2)" by blast
  have "agree_off (insert (QueueHead q) (WorkNode ` set (w # ws))) (lh s) (lh s2)"
    by (rule agree_off_trans_mono [OF s1(5) s2(5)]) auto
  with s1 s2 show ?case by simp
qed simp

lemma queue1_ok: "queue_ok wq_sys1 0 5 [7]"
  using wq_sys1_ok(1) by (simp add: pool_ok_def)

lemma worker_drains_queue_witness:
  "\<exists>s'. worker_iterations (length [7::nat]) 5 wq_sys1 = Some s' \<and> queue_ok s' 0 5 [] \<and>
    ran s' = ran wq_sys1 @ [7] \<and> wq_warned s' = wq_warned wq_sys1 \<and>
    agree_off (insert (QueueHead 5) (WorkNode ` set [7])) (lh wq_sys1) (lh s')"
  by (rule worker_drains_queue [OF queue1_ok])

text \<open>
  The futex word is never set back to 0: once a work has been queued, the worker of an
  empty queue goes round its loop any number of times without ever waiting.
\<close>

theorem worker_spins_on_empty_queue:
  assumes "queue_ok s p q []" "map_option qfutex (wqs s q) = Some 1"
  shows "mthpc_list_empty (QueueHead q) (lh s) = Some True \<and> worker_iterations n q s = Some s"
proof
  show "mthpc_list_empty (QueueHead q) (lh s) = Some True"
    using assms(1) mthpc_list_empty_iff [of "lh s" "QueueHead q" "[]"] by (simp add: queue_ok_def)
  show "worker_iterations n q s = Some s"
    by (induction n) (simp_all add: worker_idles [OF assms])
qed

definition wq_sys2 :: wq_sys where
  "wq_sys2 = wq_sys1\<lparr>wqs := [5 \<mapsto> \<lparr>actived_cpu = 5, qlock = Unlocked, qfutex = 1, qcount = 0, qtid = 50, qwp = 0\<rparr>],
     lh := (lh wq_sys1)(QueueHead 5 \<mapsto> \<lparr>nxt = QueueHead 5, prv = QueueHead 5\<rparr>)\<rparr>"

lemma worker_spins_on_empty_queue_witness:
  "mthpc_list_empty (QueueHead 5) (lh wq_sys2) = Some True \<and> worker_iterations 100 5 wq_sys2 = Some wq_sys2"
  by (rule worker_spins_on_empty_queue [where p = 0])
    (simp_all add: wq_sys2_def queue_ok_def clist_def link_def ld_next_def ld_prev_def
      mthpc_wq_active_def)

end
