(* ===== verification/Ring_Heap.thy ===== *)
theory Ring_Heap
  imports CList_Props "HOL-Library.Multiset"
begin

text \<open>
  Several disjoint rings in one heap: \<open>rings h R\<close> says that every head and node list of \<open>R\<close> is a
  ring of \<open>h\<close> and that no node belongs to two of them. Each operation of
  \<open>include/mthpc/list.h\<close> rewrites the first rings of \<open>R\<close> and keeps the rest, whatever they are.
\<close>

type_synonym 'a ring = "'a \<times> 'a list"

definition ring_nodes :: "'a ring list \<Rightarrow> 'a list" where
  "ring_nodes R = concat (map (\<lambda>(l, xs). l # xs) R)"

definition rings :: "'a list_heap \<Rightarrow> 'a ring list \<Rightarrow> bool" where
  "rings h R \<longleftrightarrow> (\<forall>(l, xs)\<in>set R. clist h l xs) \<and> distinct (ring_nodes R)"

lemma ring_nodes_simps [simp]:
  "ring_nodes [] = []" "ring_nodes ((l, xs) # R) = l # xs @ ring_nodes R"
  "ring_nodes (R @ Q) = ring_nodes R @ ring_nodes Q"
  by (simp_all add: ring_nodes_def)

lemma mset_ring_nodes: "mset R = mset Q \<Longrightarrow> mset (ring_nodes R) = mset (ring_nodes Q)"
proof -
  have "mset (ring_nodes R) = (\<Sum>r\<in>#mset R. mset (fst r # snd r))" for R :: "'a ring list"
    by (induction R) auto
  then show "mset R = mset Q \<Longrightarrow> mset (ring_nodes R) = mset (ring_nodes Q)" by simp
qed

lemma rings_perm: "rings h R \<Longrightarrow> mset R = mset Q \<Longrightarrow> rings h Q"
  unfolding rings_def
  using mset_ring_nodes [of R Q] mset_eq_imp_distinct_iff [of "ring_nodes R" "ring_nodes Q"]
    mset_eq_setD [of R Q] by metis

lemma rings_Cons:
  "rings h ((l, xs) # R) \<longleftrightarrow> clist h l xs \<and> rings h R \<and> set (l # xs) \<inter> set (ring_nodes R) = {}"
proof -
  have "clist h l xs \<Longrightarrow> distinct (l # xs)" by (rule clist_distinct)
  then show ?thesis by (auto simp: rings_def)
qed

lemma rings_clist: "rings h R \<Longrightarrow> (l, xs) \<in> set R \<Longrightarrow> clist h l xs"
  by (auto simp: rings_def)

lemma rings_dom: "rings h R \<Longrightarrow> set (ring_nodes R) \<subseteq> dom h"
  by (induction R) (auto simp: rings_Cons dest!: clist_dom)

lemma rings_same:
  assumes "rings h R" "\<And>a. a \<in> set (ring_nodes R) \<Longrightarrow> h' a = h a"
  shows "rings h' R"
  using assms
proof (induction R)
  case (Cons r R)
  obtain l xs where r: "r = (l, xs)" by (cases r)
  have "clist h' l xs"
    by (rule clist_same [of h]) (use Cons.prems r in \<open>auto simp: rings_Cons\<close>)
  with Cons r show ?case by (auto simp: rings_Cons)
qed (simp add: rings_def)

lemma rings_agree:
  assumes "rings h R" "agree_off S h h'" "S \<inter> set (ring_nodes R) = {}"
  shows "rings h' R"
  by (rule rings_same [OF assms(1)]) (use assms(2,3) in \<open>auto simp: agree_off_def\<close>)

section \<open>The operations\<close>

lemma rings_init:
  assumes "rings h R" "s \<in> dom h" "s \<notin> set (ring_nodes R)"
  obtains h' where "mthpc_list_init s h = Some h'" "rings h' ((s, []) # R)" "dom h' = dom h"
    "agree_off {s} h h'"
proof -
  obtain h' where h': "mthpc_list_init s h = Some h'" "clist h' s []" "agree_off {s} h h'"
    by (rule mthpc_list_init_ok [OF assms(2)], rule that)
  have "rings h' R" by (rule rings_agree [OF assms(1) h'(3)]) (use assms(3) in simp)
  with h' assms(3) that show ?thesis by (auto simp: rings_Cons dest: agree_off_dom)
qed

lemma rings_add_facts:
  assumes "rings h ((l, xs) # (x, []) # R)"
  shows "clist h l xs" "x \<in> dom h" "x \<notin> set (l # xs)" "rings h R"
    "set (x # l # xs) \<inter> set (ring_nodes R) = {}"
  using assms clist_dom [of h x "[]"] by (auto simp: rings_Cons)

lemma rings_add:
  assumes "rings h ((l, xs) # (x, []) # R)"
  obtains h' where "mthpc_list_add x l h = Some h'" "rings h' ((l, x # xs) # R)" "dom h' = dom h"
proof -
  note f = rings_add_facts [OF assms]
  obtain h' where h': "mthpc_list_add x l h = Some h'" "clist h' l (x # xs)"
    "agree_off (set (x # l # xs)) h h'"
    by (rule mthpc_list_add_ok [OF f(1-3)], rule that)
  have "rings h' R" by (rule rings_agree [OF f(4) h'(3) f(5)])
  with h' f(5) that show ?thesis by (auto simp: rings_Cons dest: agree_off_dom)
qed

lemma rings_add_tail:
  assumes "rings h ((l, xs) # (x, []) # R)"
  obtains h' where "mthpc_list_add_tail x l h = Some h'" "rings h' ((l, xs @ [x]) # R)" "dom h' = dom h"
proof -
  note f = rings_add_facts [OF assms]
  obtain h' where h': "mthpc_list_add_tail x l h = Some h'" "clist h' l (xs @ [x])"
    "agree_off (set (x # l # xs)) h h'"
    by (rule mthpc_list_add_tail_ok [OF f(1-3)], rule that)
  have "rings h' R" by (rule rings_agree [OF f(4) h'(3) f(5)])
  with h' f(5) that show ?thesis by (auto simp: rings_Cons dest: agree_off_dom)
qed

lemma rings_del:
  assumes "rings h ((l, as @ x # bs) # R)"
  obtains h' where "mthpc_list_del x h = Some h'" "rings h' ((l, as @ bs) # (x, []) # R)" "dom h' = dom h"
proof -
  have c: "clist h l (as @ x # bs)" "rings h R" "set (l # as @ x # bs) \<inter> set (ring_nodes R) = {}"
    using assms by (simp_all only: rings_Cons)
  obtain h' where h': "mthpc_list_del x h = Some h'" "clist h' l (as @ bs)" "clist h' x []"
    "agree_off (set (l # as @ x # bs)) h h'"
    by (rule mthpc_list_del_ok [OF c(1)], rule that)
  have "rings h' R" by (rule rings_agree [OF c(2) h'(4) c(3)])
  moreover have "x \<notin> set (l # as @ bs)" using clist_distinct [OF c(1)] by auto
  ultimately show ?thesis
    using h' c(3) that by (auto simp: rings_Cons dest: agree_off_dom)
qed

text \<open>The head of a ring leaves it: the first node becomes the head of the others.\<close>

lemma rings_del_head:
  assumes "rings h ((x, y # ys) # R)"
  obtains h' where "mthpc_list_del x h = Some h'" "rings h' ((y, ys) # (x, []) # R)" "dom h' = dom h"
proof -
  have c: "clist h x ([] @ y # ys)" "rings h R" "set (x # y # ys) \<inter> set (ring_nodes R) = {}"
    using assms by (simp_all add: rings_Cons)
  then have "clist h y (ys @ x # [])" using clist_rotate [OF c(1)] by simp
  then have "rings h ((y, ys @ x # []) # R)" using c by (auto simp: rings_Cons)
  from rings_del [OF this] that show ?thesis by (metis append_Nil2)
qed

lemma rings_replace_init:
  assumes "rings h ((l, as @ old # bs) # (new, []) # R)"
  obtains h' where "mthpc_list_replace_init old new h = Some h'"
    "rings h' ((l, as @ new # bs) # (old, []) # R)" "dom h' = dom h"
proof -
  note f = rings_add_facts [OF assms]
  obtain h' where h': "mthpc_list_replace_init old new h = Some h'" "clist h' l (as @ new # bs)"
    "clist h' old []" "agree_off (set (new # l # as @ old # bs)) h h'"
    by (rule mthpc_list_replace_init_ok [OF f(1-3)], rule that)
  have "rings h' R" by (rule rings_agree [OF f(4) h'(4) f(5)])
  moreover have "old \<notin> set (l # as @ new # bs)" using clist_distinct [OF f(1)] f(3) by auto
  ultimately show ?thesis
    using h' f(5) that by (auto simp: rings_Cons dest: agree_off_dom)
qed

lemma rings_splice:
  assumes "rings h ((l, xs) # (s, ys) # R)"
  obtains h' where "mthpc_list_splice s l h = Some h'" "rings h' ((l, ys @ xs) # R)" "dom h' = dom h"
    "s \<notin> set (ring_nodes ((l, ys @ xs) # R))"
proof -
  have c: "clist h l xs" "clist h s ys" "set ys \<inter> set (l # xs) = {}" "rings h R"
    "set (l # xs @ ys) \<inter> set (ring_nodes R) = {}" "s \<notin> set (l # xs @ ys)" "s \<notin> set (ring_nodes R)"
    using assms clist_distinct [of h s ys] by (auto simp: rings_Cons)
  obtain h' where h': "mthpc_list_splice s l h = Some h'" "clist h' l (ys @ xs)"
    "agree_off (set (l # xs @ ys)) h h'"
    by (rule mthpc_list_splice_ok [OF c(1-3)], rule that)
  have "rings h' R" by (rule rings_agree [OF c(4) h'(3) c(5)])
  with h'(2) c(5) have "rings h' ((l, ys @ xs) # R)" by (auto simp: rings_Cons)
  then show ?thesis
    by (intro that [of h'] h'(1) agree_off_dom [OF h'(3)]) (use c(6,7) in auto)
qed

lemma rings_splice_tail:
  assumes "rings h ((l, xs) # (s, ys) # R)"
  obtains h' where "mthpc_list_splice_tail s l h = Some h'" "rings h' ((l, xs @ ys) # R)" "dom h' = dom h"
    "s \<notin> set (ring_nodes ((l, xs @ ys) # R))"
proof -
  have c: "clist h l xs" "clist h s ys" "set ys \<inter> set (l # xs) = {}" "rings h R"
    "set (l # xs @ ys) \<inter> set (ring_nodes R) = {}" "s \<notin> set (l # xs @ ys)" "s \<notin> set (ring_nodes R)"
    using assms clist_distinct [of h s ys] by (auto simp: rings_Cons)
  obtain h' where h': "mthpc_list_splice_tail s l h = Some h'" "clist h' l (xs @ ys)"
    "agree_off (set (l # xs @ ys)) h h'"
    by (rule mthpc_list_splice_tail_ok [OF c(1-3)], rule that)
  have "rings h' R" by (rule rings_agree [OF c(4) h'(3) c(5)])
  with h'(2) c(5) have "rings h' ((l, xs @ ys) # R)" by (auto simp: rings_Cons)
  then show ?thesis
    by (intro that [of h'] h'(1) agree_off_dom [OF h'(3)]) (use c(6,7) in auto)
qed

end
