(* ===== verification/Wq_Pools.thy ===== *)
theory Wq_Pools
  imports Workqueue_Props Ring_Heap
begin

text \<open>
  Several pools of \<open>src/workqueue/workqueue.c\<close> beside each other (\<open>pools_live\<close>): their lists are
  rings of one heap that have nothing in common, their works are their own, and every queue has
  the thread of its worker. The steps of workers keep them so and move works to the works that
  have run.
\<close>

section \<open>Rings of a pool\<close>

definition qring :: "(nat \<Rightarrow> nat list) \<Rightarrow> nat \<Rightarrow> wq_addr ring" where
  "qring W q = (QueueHead q, map WorkNode (W q))"

lemma ring_nodes_qring [simp]:
  "ring_nodes (qring W q # R) = QueueHead q # map WorkNode (W q) @ ring_nodes R"
  by (simp add: qring_def)

lemma set_ring_nodes_qring:
  "set (ring_nodes (map (qring W) qs)) = QueueHead ` set qs \<union> WorkNode ` (\<Union>q\<in>set qs. set (W q))"
  by (induction qs) auto

lemma distinct_ring_nodes_qring:
  "distinct qs \<Longrightarrow> (\<And>q. q \<in> set qs \<Longrightarrow> distinct (W q)) \<Longrightarrow>
   (\<And>q x. q \<in> set qs \<Longrightarrow> x \<in> set qs \<Longrightarrow> q \<noteq> x \<Longrightarrow> set (W q) \<inter> set (W x) = {}) \<Longrightarrow>
   distinct (ring_nodes (map (qring W) qs))"
proof (induction qs)
  case (Cons q qs)
  have "set (W q) \<inter> set (W x) = {}" if "x \<in> set qs" for x
    using Cons.prems(1,3) that by fastforce
  with Cons show ?case
    by (simp add: set_ring_nodes_qring distinct_map inj_on_def) blast
qed simp

lemma disjoint_qring:
  "distinct (ring_nodes (map (qring W) qs)) \<Longrightarrow> q \<in> set qs \<Longrightarrow> x \<in> set qs \<Longrightarrow> q \<noteq> x \<Longrightarrow>
   set (W q) \<inter> set (W x) = {}"
proof (induction qs)
  case (Cons y qs)
  have "set (W y) \<inter> set (W z) = {}" if "z \<in> set qs" for z
  proof -
    have "WorkNode ` set (W y) \<inter> WorkNode ` set (W z) = {}"
      using Cons.prems(1) that by (simp add: set_ring_nodes_qring) blast
    then show ?thesis by blast
  qed
  with Cons show ?case by auto
qed simp

lemma rings_qring:
  "rings h (map (qring W) qs) \<longleftrightarrow> (\<forall>q\<in>set qs. clist h (QueueHead q) (map WorkNode (W q))) \<and>
     distinct (ring_nodes (map (qring W) qs))"
  by (auto simp: rings_def qring_def)

text \<open>The queue without its list.\<close>

definition queue_core :: "wq_sys \<Rightarrow> nat \<Rightarrow> nat \<Rightarrow> nat list \<Rightarrow> bool" where
  "queue_core s p q ws \<longleftrightarrow> (\<exists>r. wqs s q = Some r \<and> qlock r = Unlocked \<and> qwp r = p \<and>
     mthpc_wq_active (actived_cpu r) \<and> qcount r = of_nat (length ws) \<and> qfutex r \<noteq> 0) \<and>
     length ws < 2 ^ 32 \<and> (\<forall>w\<in>set ws. works s w \<noteq> None) \<and> q \<noteq> 0"

text \<open>The workers of the queues have work or have been woken once.\<close>

definition pool_live :: "wq_sys \<Rightarrow> nat \<Rightarrow> nat list \<Rightarrow> (nat \<Rightarrow> nat list) \<Rightarrow> bool" where
  "pool_live s p qs W \<longleftrightarrow> pool_ok s p qs W \<and>
     (\<forall>q\<in>set qs. \<exists>r. wqs s q = Some r \<and> qfutex r \<noteq> 0)"

lemma pool_live_core: "pool_live s p qs W \<Longrightarrow> q \<in> set qs \<Longrightarrow> queue_core s p q (W q)"
  unfolding pool_live_def pool_ok_def queue_ok_def queue_core_def by fastforce

text \<open>
  Several pools beside each other: their queues and works are their own.
\<close>

definition queues_of :: "(nat \<times> nat list) list \<Rightarrow> nat list" where
  "queues_of P = concat (map snd P)"

definition works_apart :: "(nat \<Rightarrow> nat list) \<Rightarrow> nat set \<Rightarrow> nat set \<Rightarrow> bool" where
  "works_apart W A B \<longleftrightarrow> (\<forall>q\<in>A. \<forall>x\<in>B. q \<noteq> x \<longrightarrow> set (W q) \<inter> set (W x) = {})"

lemma works_apartD:
  "works_apart W A B \<Longrightarrow> q \<in> A \<Longrightarrow> x \<in> B \<Longrightarrow> q \<noteq> x \<Longrightarrow> set (W q) \<inter> set (W x) = {}"
  by (simp add: works_apart_def)

lemma works_apart_Un:
  "works_apart W (A \<union> B) (A \<union> B) \<longleftrightarrow> works_apart W A A \<and> works_apart W A B \<and> works_apart W B B"
proof -
  have sym: "works_apart W A B \<longleftrightarrow> works_apart W B A"
    unfolding works_apart_def by (metis Int_commute)
  have "works_apart W (C \<union> D) E \<longleftrightarrow> works_apart W C E \<and> works_apart W D E"
    "works_apart W E (C \<union> D) \<longleftrightarrow> works_apart W E C \<and> works_apart W E D" for C D E
    by (simp_all only: works_apart_def ball_Un ball_conj_distrib)
  with sym show ?thesis by auto
qed

lemma works_apart_sub:
  "works_apart W A B \<Longrightarrow> (\<And>q. set (V q) \<subseteq> set (W q)) \<Longrightarrow> C \<subseteq> A \<Longrightarrow> D \<subseteq> B \<Longrightarrow> works_apart V C D"
  unfolding works_apart_def by blast

definition pools_live :: "wq_sys \<Rightarrow> (nat \<times> nat list) list \<Rightarrow> (nat \<Rightarrow> nat list) \<Rightarrow> bool" where
  "pools_live s P W \<longleftrightarrow> (\<forall>(p, qs)\<in>set P. pool_live s p qs W) \<and> distinct (map fst P) \<and>
     works_apart W (set (queues_of P)) (set (queues_of P))"

definition pools_rings :: "(nat \<Rightarrow> nat list) \<Rightarrow> (nat \<times> nat list) list \<Rightarrow> wq_addr ring list" where
  "pools_rings W P = concat (map (\<lambda>(p, qs). (PoolHead p, map QueueNode qs) # map (qring W) qs) P)"

lemma queues_of_simps [simp]: "queues_of [] = []" "queues_of ((p, qs) # P) = qs @ queues_of P"
  by (simp_all add: queues_of_def)

lemma pools_rings_simps [simp]:
  "pools_rings W [] = []"
  "pools_rings W ((p, qs) # P) = (PoolHead p, map QueueNode qs) # map (qring W) qs @ pools_rings W P"
  by (simp_all add: pools_rings_def)

lemma set_pools_rings:
  "set (ring_nodes (pools_rings W P)) = PoolHead ` fst ` set P \<union> QueueNode ` set (queues_of P) \<union>
     QueueHead ` set (queues_of P) \<union> WorkNode ` (\<Union>q\<in>set (queues_of P). set (W q))"
proof (induction P)
  case (Cons e P)
  then show ?case
    by (cases e) (auto simp: set_ring_nodes_qring image_iff)
qed simp

lemma in_pools_rings:
  "n \<in> set (ring_nodes (pools_rings W P)) \<longleftrightarrow> (case n of PoolHead p \<Rightarrow> p \<in> fst ` set P
     | QueueNode q \<Rightarrow> q \<in> set (queues_of P) | QueueHead q \<Rightarrow> q \<in> set (queues_of P)
     | WorkNode w \<Rightarrow> \<exists>q\<in>set (queues_of P). w \<in> set (W q) | _ \<Rightarrow> False)"
  unfolding set_pools_rings by (cases n) (simp_all add: image_iff)

lemma rings_append:
  "rings h (A @ B) \<longleftrightarrow> rings h A \<and> rings h B \<and> set (ring_nodes A) \<inter> set (ring_nodes B) = {}"
  by (auto simp: rings_def)

lemma pool_live_queue:
  "pool_live s p qs W \<Longrightarrow> q \<in> set qs \<Longrightarrow> \<exists>r. wqs s q = Some r \<and> qwp r = p \<and> qfutex r \<noteq> 0"
  unfolding pool_live_def pool_ok_def queue_ok_def by fastforce

lemma pool_live_own_rings:
  assumes "pool_live s p qs W"
  shows "rings (lh s) ((PoolHead p, map QueueNode qs) # map (qring W) qs)"
proof -
  have ok: "pool_ok s p qs W" using assms(1) by (simp add: pool_live_def)
  have d: "distinct qs" by (rule pool_distinct [OF ok])
  have c: "clist (lh s) (QueueHead q) (map WorkNode (W q))" if "q \<in> set qs" for q
    using ok that by (simp add: pool_ok_def queue_ok_def)
  have dw: "distinct (W q)" if "q \<in> set qs" for q
    using clist_distinct [OF c [OF that]] by (simp add: distinct_map)
  have "distinct (ring_nodes (map (qring W) qs))"
    by (rule distinct_ring_nodes_qring [OF d dw]) (use ok in \<open>auto simp: pool_ok_def\<close>)
  then show ?thesis
    using ok c by (auto simp: rings_Cons rings_qring pool_ok_def set_ring_nodes_qring)
qed

lemma pool_live_apart: "pool_live s p qs W \<Longrightarrow> works_apart W (set qs) (set qs)"
  by (simp add: pool_live_def pool_ok_def works_apart_def)

lemma pools_live_Cons:
  "pools_live s ((p, qs) # P) W \<longleftrightarrow> pool_live s p qs W \<and> pools_live s P W \<and> p \<notin> fst ` set P \<and>
     works_apart W (set qs) (set (queues_of P))"
  using pool_live_apart [of s p qs W] by (auto simp: pools_live_def works_apart_Un)

lemma pools_live_queue:
  "pools_live s P W \<Longrightarrow> q \<in> set (queues_of P) \<Longrightarrow> \<exists>r. wqs s q = Some r \<and> qwp r \<in> fst ` set P"
proof -
  assume live: "pools_live s P W" and "q \<in> set (queues_of P)"
  then obtain p qs where p: "(p, qs) \<in> set P" "q \<in> set qs" by (auto simp: queues_of_def)
  then have "pool_live s p qs W" using live by (auto simp: pools_live_def)
  from pool_live_queue [OF this p(2)] p(1) show ?thesis by force
qed

lemma pools_live_queues_apart:
  "pools_live s ((p, qs) # P) W \<Longrightarrow> set qs \<inter> set (queues_of P) = {}"
proof -
  assume "pools_live s ((p, qs) # P) W"
  then have live: "pool_live s p qs W" "pools_live s P W" "p \<notin> fst ` set P"
    by (simp_all add: pools_live_Cons)
  have False if "q \<in> set qs" "q \<in> set (queues_of P)" for q
    using pool_live_queue [OF live(1) that(1)] pools_live_queue [OF live(2) that(2)] live(3) by force
  then show ?thesis by blast
qed

lemma pools_live_rings: "pools_live s P W \<Longrightarrow> rings (lh s) (pools_rings W P)"
proof (induction P)
  case (Cons e P)
  obtain p qs where e: "e = (p, qs)" by (cases e)
  have live: "pool_live s p qs W" "pools_live s P W" "p \<notin> fst ` set P"
    "works_apart W (set qs) (set (queues_of P))"
    using Cons.prems by (simp_all add: e pools_live_Cons)
  have ap: "set qs \<inter> set (queues_of P) = {}"
    by (rule pools_live_queues_apart) (use Cons.prems e in simp)
  have w: "set (W q) \<inter> set (W x) = {}" if "q \<in> set qs" "x \<in> set (queues_of P)" for q x
    by (rule works_apartD [OF live(4) that]) (use ap that in auto)
  let ?A = "pools_rings W [(p, qs)]"
  have "n \<notin> set (ring_nodes (pools_rings W P))" if n: "n \<in> set (ring_nodes ?A)" for n
  proof (cases n)
    case (WorkNode x)
    obtain q where q: "q \<in> set qs" "x \<in> set (W q)"
      using n [unfolded in_pools_rings WorkNode] by auto
    have "x \<notin> set (W y)" if "y \<in> set (queues_of P)" for y using w [OF q(1) that] q(2) by blast
    then show ?thesis unfolding WorkNode in_pools_rings by simp
  qed (use n [unfolded in_pools_rings] live(3) ap in \<open>auto simp: in_pools_rings\<close>)
  then have "set (ring_nodes ?A) \<inter> set (ring_nodes (pools_rings W P)) = {}" by blast
  moreover have "rings (lh s) ?A" using pool_live_own_rings [OF live(1)] by simp
  ultimately have "rings (lh s) (?A @ pools_rings W P)"
    using Cons.IH [OF live(2)] by (simp only: rings_append)
  then show ?case by (simp add: e)
qed (simp add: rings_def)

lemma rings_pool_live:
  assumes "rings (lh s) ((PoolHead p, map QueueNode qs) # map (qring W) qs)"
    and "\<And>q. q \<in> set qs \<Longrightarrow> queue_core s p q (W q)"
    and "pools s p = Some r" "plock r = Unlocked" "pcount r = of_nat (length qs)"
  shows "pool_live s p qs W"
proof -
  have r: "clist (lh s) (PoolHead p) (map QueueNode qs)" "rings (lh s) (map (qring W) qs)"
    using assms(1) by (simp_all add: rings_Cons)
  have "set (W q) \<inter> set (W x) = {}" if "q \<in> set qs" "x \<in> set qs" "q \<noteq> x" for q x
    by (rule disjoint_qring [OF _ that]) (use r(2) in \<open>simp add: rings_qring\<close>)
  moreover have "queue_ok s p q (W q) \<and> q \<noteq> 0 \<and> (\<exists>r. wqs s q = Some r \<and> qfutex r \<noteq> 0)"
    if "q \<in> set qs" for q
    using assms(2) [OF that] r(2) that by (auto simp: queue_core_def queue_ok_def rings_qring)
  ultimately show ?thesis
    using assms(3-5) r(1) by (auto simp: pool_live_def pool_ok_def)
qed

section \<open>The threads of the workers\<close>

definition wq_tid :: "wq_sys \<Rightarrow> nat \<Rightarrow> u64" where
  "wq_tid s q = qtid (the (wqs s q))"

definition wq_cpu :: "wq_sys \<Rightarrow> nat \<Rightarrow> u32" where
  "wq_cpu s q = mthpc_wq_get_cpu (actived_cpu (the (wqs s q)))"

lemma wq_ident_tid:
  "map_option wq_ident (wqs s' q) = map_option wq_ident (wqs s q) \<Longrightarrow>
   wq_tid s' q = wq_tid s q \<and> wq_cpu s' q = wq_cpu s q \<and> (wqs s' q = None \<longleftrightarrow> wqs s q = None)"
  by (cases "wqs s q"; cases "wqs s' q") (simp_all add: wq_tid_def wq_cpu_def wq_ident_def)

lemma wq_tid_rcu [simp]: "wq_tid (s\<lparr>rcu := m\<rparr>) = wq_tid s"
  by (simp add: wq_tid_def fun_eq_iff)

text \<open>The threads registered with the RCU are those of \<open>U\<close> and one for each queue.\<close>

definition wq_threads :: "u64 set \<Rightarrow> nat list \<Rightarrow> wq_sys \<Rightarrow> bool" where
  "wq_threads U qs s \<longleftrightarrow> rcu_threads (U \<union> wq_tid s ` set qs) (rcu s) \<and> inj_on (wq_tid s) (set qs) \<and>
     U \<inter> wq_tid s ` set qs = {}"

lemma wq_threadsD:
  assumes "wq_threads U qs s"
  shows "rcu_threads (U \<union> wq_tid s ` set qs) (rcu s)" "inj_on (wq_tid s) (set qs)" "U \<inter> wq_tid s ` set qs = {}"
  using assms by (simp_all add: wq_threads_def)

lemma wq_threads_keep:
  assumes "wq_threads U qs s" "rcu s' = rcu s" "\<And>q. q \<in> set qs \<Longrightarrow> wq_tid s' q = wq_tid s q" "set qs' = set qs"
  shows "wq_threads U qs' s'"
proof -
  have "wq_tid s' ` set qs = wq_tid s ` set qs" by (rule image_cong) (simp_all add: assms(3))
  moreover have "inj_on (wq_tid s') (set qs) = inj_on (wq_tid s) (set qs)" by (rule inj_on_cong) (rule assms(3))
  ultimately show ?thesis using assms(1,2,4) by (simp add: wq_threads_def)
qed

text \<open>The workers of the queues \<open>B\<close> have left.\<close>

lemma wq_threads_leave:
  assumes wt: "wq_threads U qs s" and B: "set qs = set ks \<union> B" "set ks \<inter> B = {}"
    and tid: "\<And>q. q \<in> set ks \<Longrightarrow> wq_tid s' q = wq_tid s q"
    and rcu: "rcu_threads (U \<union> wq_tid s ` set qs - wq_tid s ` B) (rcu s')"
  shows "wq_threads U ks s'"
proof -
  note w = wq_threadsD [OF wt, unfolded B(1)]
  have apart: "wq_tid s ` set ks \<inter> wq_tid s ` B = {}"
    using inj_on_image_Int [OF w(2), of "set ks" B] B(2) by simp
  have img: "wq_tid s' ` set ks = wq_tid s ` set ks" by (rule image_cong) (simp_all add: tid)
  have "U \<union> wq_tid s ` set qs - wq_tid s ` B = U \<union> wq_tid s' ` set ks"
    using apart w(3) unfolding img B(1) by blast
  moreover have "inj_on (wq_tid s') (set ks)"
    using inj_on_subset [OF w(2), of "set ks"] inj_on_cong [of "set ks" "wq_tid s'" "wq_tid s"] tid by blast
  moreover have "U \<inter> wq_tid s' ` set ks = {}" using w(3) unfolding img by blast
  ultimately show ?thesis using rcu by (simp add: wq_threads_def)
qed

section \<open>The steps of the workers\<close>

text \<open>A thread that has ended makes no step.\<close>

definition run_worker :: "nat \<Rightarrow> wq_sys \<Rightarrow> wq_sys option" where
  "run_worker q s = (case wqs s q of None \<Rightarrow> Some s | Some _ \<Rightarrow> do {
     (_, s) \<leftarrow> worker_iteration q s;
     Some s })"

text \<open>What the steps of workers leave alone.\<close>

definition workers_keep :: "wq_sys \<Rightarrow> wq_sys \<Rightarrow> bool" where
  "workers_keep s s' \<longleftrightarrow> pools s' = pools s \<and> rcu s' = rcu s \<and> dom (lh s') = dom (lh s) \<and>
     wq_warned s' = wq_warned s \<and> works s' = works s \<and>
     (\<forall>x. map_option wq_ident (wqs s' x) = map_option wq_ident (wqs s x))"

lemma workers_keep_wqs:
  assumes "workers_keep s s'"
  shows "wqs s' x = None \<longleftrightarrow> wqs s x = None" "wq_tid s' x = wq_tid s x" "wq_cpu s' x = wq_cpu s x"
  using wq_ident_tid [of s' x s] assms by (simp_all add: workers_keep_def)

lemma workers_keep_trans: "workers_keep s k \<Longrightarrow> workers_keep k t \<Longrightarrow> workers_keep s t"
  by (simp add: workers_keep_def)

lemma pools_live_pool: "pools_live s P W \<Longrightarrow> (p, qs) \<in> set P \<Longrightarrow> pool_live s p qs W"
  by (auto simp: pools_live_def)

lemma in_queues_of: "q \<in> set (queues_of P) \<longleftrightarrow> (\<exists>p qs. (p, qs) \<in> set P \<and> q \<in> set qs)"
  unfolding queues_of_def by force

lemma pool_live_step:
  assumes live: "pool_live s p qs W" and W: "W q = w # ws"
    and step: "agree_off (insert (QueueHead q) (WorkNode ` set (w # ws))) (lh s) (lh s')"
      "\<And>x. x \<noteq> q \<Longrightarrow> wqs s' x = wqs s x" "works s' = works s" "pools s' = pools s"
    and this_q: "q \<in> set qs \<Longrightarrow> queue_ok s' p q ws \<and> (\<exists>r. wqs s' q = Some r \<and> qfutex r \<noteq> 0)"
    and apart: "\<And>x. x \<in> set qs \<Longrightarrow> x \<noteq> q \<Longrightarrow> set (W x) \<inter> set (W q) = {}"
  shows "pool_live s' p qs (W(q := ws))"
proof -
  have ok: "pool_ok s p qs W" using live by (simp add: pool_live_def)
  have "clist (lh s') (PoolHead p) (map QueueNode qs)"
    by (rule clist_keep [OF _ step(1)]) (use ok in \<open>auto simp: pool_ok_def\<close>)
  moreover have "queue_ok s' p x (W x)" if "x \<in> set qs" "x \<noteq> q" for x
  proof (rule queue_ok_frame [OF _ step(2) [OF that(2)] step(1)])
    show "WorkNode ` set (W x) \<inter> insert (QueueHead q) (WorkNode ` set (w # ws)) = {}"
      using apart [OF that] W by auto
  qed (use ok that step(3) in \<open>auto simp: pool_ok_def\<close>)
  moreover have "works_apart (W(q := ws)) (set qs) (set qs)"
    by (rule works_apart_sub [OF pool_live_apart [OF live]]) (use W in auto)
  ultimately have "pool_ok s' p qs (W(q := ws))"
    using ok this_q step(4) by (auto simp: pool_ok_def works_apart_def)
  moreover have "\<exists>r. wqs s' x = Some r \<and> qfutex r \<noteq> 0" if "x \<in> set qs" for x
    using that this_q step(2) live by (cases "x = q") (auto simp: pool_live_def)
  ultimately show ?thesis by (simp add: pool_live_def)
qed

lemma worker_pools_step:
  assumes live: "pools_live s P W" and q: "q \<in> set (queues_of P)"
  obtains s' where "run_worker q s = Some s'" "pools_live s' P (W(q := tl (W q)))"
    "ran s' = ran s @ take 1 (W q)" "workers_keep s s'"
proof -
  obtain p0 qs0 where p0: "(p0, qs0) \<in> set P" "q \<in> set qs0" using q by (auto simp: in_queues_of)
  have own: "pool_live s p0 qs0 W" by (rule pools_live_pool [OF live p0(1)])
  have qok: "queue_ok s p0 q (W q)" using own p0(2) by (simp add: pool_live_def pool_ok_def)
  obtain r where r: "wqs s q = Some r" "qwp r = p0" "qfutex r \<noteq> 0" using pool_live_queue [OF own p0(2)] by auto
  show ?thesis
  proof (cases "W q")
    case Nil
    have "run_worker q s = Some s"
      using worker_idles [of s p0 q "qfutex r"] qok r Nil by (simp add: run_worker_def)
    moreover have "W(q := tl (W q)) = W" using Nil by (simp add: fun_upd_idem)
    ultimately show ?thesis using live Nil by (intro that [of s]) (simp_all add: workers_keep_def)
  next
    case (Cons w ws)
    obtain s' where s': "worker_iteration q s = Some (WorkerRan w, s')" "queue_ok s' p0 q ws"
      "ran s' = ran s @ [w]" "wq_warned s' = wq_warned s"
      "map_option qfutex (wqs s' q) = map_option qfutex (wqs s q)"
      "agree_off (insert (QueueHead q) (WorkNode ` set (w # ws))) (lh s) (lh s')"
      "\<And>x. x \<noteq> q \<Longrightarrow> wqs s' x = wqs s x" "works s' = works s" "pools s' = pools s" "rcu s' = rcu s"
      "map_option wq_ident (wqs s' q) = map_option wq_ident (wqs s q)"
      by (rule worker_runs_first [OF qok [unfolded Cons]], rule that)
    have "pool_live s' p qs (W(q := ws))" if p: "(p, qs) \<in> set P" for p qs
    proof (rule pool_live_step [OF pools_live_pool [OF live p] Cons s'(6-9)])
      show "queue_ok s' p q ws \<and> (\<exists>r. wqs s' q = Some r \<and> qfutex r \<noteq> 0)" if "q \<in> set qs"
        using pool_live_queue [OF pools_live_pool [OF live p] that] r s'(2,5) by auto
      show "set (W x) \<inter> set (W q) = {}" if "x \<in> set qs" "x \<noteq> q" for x
        by (rule works_apartD [where A = "set (queues_of P)" and B = "set (queues_of P)"])
          (use live q that p in \<open>auto simp: pools_live_def in_queues_of\<close>)
    qed
    moreover have "works_apart (W(q := ws)) (set (queues_of P)) (set (queues_of P))"
      by (rule works_apart_sub [of W]) (use live Cons in \<open>auto simp: pools_live_def\<close>)
    ultimately have "pools_live s' P (W(q := tl (W q)))"
      using live Cons by (auto simp: pools_live_def)
    moreover have "run_worker q s = Some s'" using s'(1) r(1) by (simp add: run_worker_def)
    moreover have "map_option wq_ident (wqs s' x) = map_option wq_ident (wqs s x)" for x
      using s'(7) [of x] s'(11) by (cases "x = q") simp_all
    then have "workers_keep s s'"
      using s'(4,8-10) agree_off_dom [OF s'(6)] by (simp add: workers_keep_def)
    ultimately show ?thesis using s'(3) Cons by (intro that [of s']) simp_all
  qed
qed

fun drained :: "nat list \<Rightarrow> (nat \<Rightarrow> nat list) \<Rightarrow> nat \<Rightarrow> nat list" where
  "drained [] W = W"
| "drained (q # ts) W = drained ts (W(q := tl (W q)))"

text \<open>The works that are still to run.\<close>

definition pending :: "nat list \<Rightarrow> (nat \<Rightarrow> nat list) \<Rightarrow> nat multiset" where
  "pending qs W = (\<Sum>q\<in>set qs. mset (W q))"

lemma pending_upd:
  "q \<in> set qs \<Longrightarrow> pending qs W = mset (take 1 (W q)) + pending qs (W(q := tl (W q)))"
proof -
  assume q: "q \<in> set qs"
  have "mset (W q) = mset (take 1 (W q)) + mset (tl (W q))" by (cases "W q") simp_all
  then show ?thesis
    using q by (simp add: pending_def sum.remove [where x = q])
qed

lemma pending_upd_other: "q \<notin> set qs \<Longrightarrow> pending qs (W(q := x)) = pending qs W"
  unfolding pending_def by (rule sum.cong) auto

lemma pending_empty: "pending qs W = {#} \<longleftrightarrow> (\<forall>q\<in>set qs. W q = [])"
proof
  assume e: "pending qs W = {#}"
  show "\<forall>q\<in>set qs. W q = []"
  proof
    fix q assume "q \<in> set qs"
    from pending_upd [OF this, of W] e show "W q = []" by (cases "W q") simp_all
  qed
qed (simp add: pending_def)

lemma workers_run:
  assumes "pools_live s P W" "\<And>q. q \<in> set ts \<Longrightarrow> q \<in> set (queues_of P) \<or> wqs s q = None"
  obtains s' ts' where "fold_opt run_worker ts s = Some s'" "ts' = filter (\<lambda>q. q \<in> set (queues_of P)) ts"
    "pools_live s' P (drained ts' W)"
    "mset (ran s') + pending (queues_of P) (drained ts' W) = mset (ran s) + pending (queues_of P) W"
    "workers_keep s s'"
proof -
  let ?f = "filter (\<lambda>q. q \<in> set (queues_of P))" and ?p = "pending (queues_of P)"
  have "\<exists>s'. fold_opt run_worker ts s = Some s' \<and> pools_live s' P (drained (?f ts) W) \<and>
    mset (ran s') + ?p (drained (?f ts) W) = mset (ran s) + ?p W \<and> workers_keep s s'"
    using assms
  proof (induction ts arbitrary: s W)
    case Nil
    then show ?case by (simp add: workers_keep_def)
  next
    case (Cons q ts)
    show ?case
    proof (cases "q \<in> set (queues_of P)")
      case True
      obtain k where k: "run_worker q s = Some k" "pools_live k P (W(q := tl (W q)))"
        "ran k = ran s @ take 1 (W q)" "workers_keep s k"
        by (rule worker_pools_step [OF Cons.prems(1) True], rule that)
      have ts: "x \<in> set (queues_of P) \<or> wqs k x = None" if "x \<in> set ts" for x
        using Cons.prems(2) [of x] that workers_keep_wqs(1) [OF k(4)] by auto
      from Cons.IH [OF k(2) ts] k(4) obtain s' where s': "fold_opt run_worker ts k = Some s'"
        "pools_live s' P (drained (?f ts) (W(q := tl (W q))))"
        "mset (ran s') + ?p (drained (?f ts) (W(q := tl (W q)))) = mset (ran k) + ?p (W(q := tl (W q)))"
        "workers_keep s s'"
        using workers_keep_trans by blast
      show ?thesis
        using s' k(1,3) True pending_upd [OF True, of W] by simp
    next
      case False
      then have "run_worker q s = Some s" using Cons.prems(2) [of q] by (simp add: run_worker_def)
      with Cons.IH [OF Cons.prems(1)] Cons.prems(2) False show ?thesis by simp
    qed
  qed
  with that show ?thesis by blast
qed

lemma pending_step: "pending qs (W(q := tl (W q))) \<subseteq># pending qs W"
  using pending_upd [of q qs W] pending_upd_other [of q qs W] by (cases "q \<in> set qs") simp_all

lemma pending_drained: "pending qs (drained ts W) \<subseteq># pending qs W"
proof (induction ts arbitrary: W)
  case (Cons q ts)
  have "pending qs (drained ts (W(q := tl (W q)))) \<subseteq># pending qs (W(q := tl (W q)))" by (rule Cons.IH)
  also have "\<dots> \<subseteq># pending qs W" by (rule pending_step)
  finally show ?case by simp
qed simp

lemma pending_step_same:
  assumes "size (pending qs (W(q := tl (W q)))) = size (pending qs W)" "q \<in> set qs"
  shows "W q = []"
proof -
  have "size (pending qs W) = size (mset (take 1 (W q)) + pending qs (W(q := tl (W q))))"
    by (rule arg_cong [OF pending_upd [OF assms(2)]])
  then show ?thesis using assms(1) by (cases "W q") (simp_all only: size_union, simp_all)
qed

lemma drained_same:
  "size (pending qs (drained ts W)) = size (pending qs W) \<Longrightarrow>
   (\<forall>q\<in>set qs. drained ts W q = W q) \<and> (\<forall>q\<in>set ts \<inter> set qs. W q = [])"
proof (induction ts arbitrary: W)
  case (Cons q ts)
  let ?W = "W(q := tl (W q))"
  have "size (pending qs (drained ts ?W)) \<le> size (pending qs ?W)"
    by (rule size_mset_mono [OF pending_drained])
  moreover have "size (pending qs ?W) \<le> size (pending qs W)"
    by (rule size_mset_mono [OF pending_step])
  ultimately have e: "size (pending qs ?W) = size (pending qs W)"
    "size (pending qs (drained ts ?W)) = size (pending qs ?W)"
    using Cons.prems by simp_all
  have q: "W q = []" if "q \<in> set qs" by (rule pending_step_same [OF e(1) that])
  have W: "?W x = W x" if "x \<in> set qs" for x using q that by (cases "x = q") auto
  have IH: "\<forall>x\<in>set qs. drained ts ?W x = ?W x" "\<forall>x\<in>set ts \<inter> set qs. ?W x = []"
    by (rule Cons.IH [OF e(2), THEN conjunct1], rule Cons.IH [OF e(2), THEN conjunct2])
  have "\<forall>x\<in>set qs. drained (q # ts) W x = W x"
    using IH(1) W by (simp del: fun_upd_apply)
  moreover have "\<forall>x\<in>set (q # ts) \<inter> set qs. W x = []"
    using IH(2) W q by (auto simp del: fun_upd_apply)
  ultimately show ?case by blast
qed simp

end
