(* ===== verification/Wq_Join.thy ===== *)
theory Wq_Join
  imports Wq_Pools
begin

text \<open>
  The end of the workers, \<open>mthpc_workqueues_join\<close> of \<open>src/workqueue/workqueue.c\<close>: it takes idle
  queues off a pool, joins their workers and frees them, while the other workers go on. Between
  two passes of its loop the workers of a list of queues, of any pool, make one iteration each;
  the lists are an argument.

  The proofs follow the pool that ends beside the other pools (\<open>pools_live\<close>): one worker step,
  one pass over the queues, and the loop, by induction on the works that are left.
\<close>

section \<open>Joining the workers of a pool\<close>

text \<open>The body of the first loop, under the lock of the pool.\<close>

definition join_take :: "wq_addr \<Rightarrow> wq_sys \<Rightarrow> wq_sys option" where
  "join_take pos s = do {
     q \<leftarrow> queue_of pos;
     s \<leftarrow> lock_wq q s;
     r \<leftarrow> wqs s q;
     s \<leftarrow> (if qcount r = 0 then do {
         s \<leftarrow> with_lh (mthpc_list_del_rcu (QueueNode q)) s;
         m \<leftarrow> mthpc_synchronize_rcu (rcu s);
         s \<leftarrow> with_lh (mthpc_list_add (QueueNode q) FreeList) (s\<lparr>rcu := m\<rparr>);
         upd_wq q (\<lambda>r. Some (r\<lparr>actived_cpu := mthpc_wq_clear_active (actived_cpu r)\<rparr>)) s }
       else Some s);
     unlock_wq q s }"

text \<open>
  \<open>pthread_join(wq->tid, NULL)\<close>: the worker leaves its loop when it finds the queue inactive, and
  then the RCU. A worker that waits for its futex word is not woken, and the join does not return.
\<close>

definition join_worker :: "nat \<Rightarrow> wq_sys \<Rightarrow> wq_sys option" where
  "join_worker q s = do {
     r \<leftarrow> wqs s q;
     _ \<leftarrow> guard_opt (\<not> mthpc_wq_active (actived_cpu r));
     _ \<leftarrow> guard_opt (qfutex r \<noteq> 0);
     worker_end (qtid r) s }"

definition join_free :: "nat \<Rightarrow> wq_addr \<Rightarrow> wq_sys \<Rightarrow> wq_sys option" where
  "join_free p pos s = do {
     q \<leftarrow> queue_of pos;
     s \<leftarrow> join_worker q s;
     r \<leftarrow> wqs s q;
     let s = wq_warn (0 < qcount r) s;
     s \<leftarrow> upd_wq q (\<lambda>r. do { l \<leftarrow> spin_lock_destroy (qlock r); Some (r\<lparr>qlock := l\<rparr>) }) s;
     s \<leftarrow> free_wq q s;
     upd_pool p (\<lambda>r. Some (r\<lparr>pcount := pcount r + (- 1)\<rparr>)) s }"

definition join_pass :: "nat \<Rightarrow> u32 \<Rightarrow> wq_sys \<Rightarrow> (u32 \<times> wq_sys) option" where
  "join_pass p progress s = do {
     s \<leftarrow> with_lh (mthpc_list_init FreeList) s;
     s \<leftarrow> lock_pool p s;
     s \<leftarrow> list_for_each_safe lh join_take (PoolHead p) s;
     s \<leftarrow> unlock_pool p s;
     e \<leftarrow> mthpc_list_empty FreeList (lh s);
     (progress, s) \<leftarrow> (if \<not> e
       then do { s \<leftarrow> list_for_each_safe lh (join_free p) FreeList s; Some (progress, s) }
       else Some (progress + 7, s));
     Some (progress + 1, s) }"

text \<open>\<open>sched t\<close> are the workers that run before the pass number \<open>t\<close>.\<close>

partial_function (option) mthpc_workqueues_join ::
  "(nat \<Rightarrow> nat list) \<Rightarrow> nat \<Rightarrow> nat \<Rightarrow> u32 \<Rightarrow> wq_sys \<Rightarrow> wq_sys option" where
  "mthpc_workqueues_join sched t p progress s = do {
     r \<leftarrow> pools s p;
     if pcount r = 0 then Some s else do {
       s \<leftarrow> fold_opt run_worker (sched t) s;
       if 32 \<le> progress then mthpc_workqueues_join sched (Suc t) p 0 s
       else do {
         (progress, s) \<leftarrow> join_pass p progress s;
         mthpc_workqueues_join sched (Suc t) p progress s } } }"

section \<open>Taking idle queues off the pool\<close>

text \<open>The lists of a pool during a pass, beside lists \<open>E\<close> that do not concern it.\<close>

definition pool_rings ::
  "wq_addr ring list \<Rightarrow> nat \<Rightarrow> nat list \<Rightarrow> nat list \<Rightarrow> (nat \<Rightarrow> nat list) \<Rightarrow> wq_addr ring list" where
  "pool_rings E p qs fl W =
     (PoolHead p, map QueueNode qs) # (FreeList, map QueueNode fl) # map (qring W) qs @ E"

lemma rings_del_rcu:
  assumes "rings h ((l, as @ x # bs) # R)"
  obtains h' where "mthpc_list_del_rcu x h = Some h'" "rings h' ((l, as @ bs) # R)" "dom h' = dom h"
    "x \<in> dom h'" "x \<notin> set (ring_nodes ((l, as @ bs) # R))"
proof -
  have c: "clist h l (as @ x # bs)" "rings h R" "set (l # as @ x # bs) \<inter> set (ring_nodes R) = {}"
    using assms by (simp_all only: rings_Cons)
  obtain h' where h': "mthpc_list_del_rcu x h = Some h'" "clist h' l (as @ bs)"
    "agree_off (set (l # as @ x # bs)) h h'"
    by (rule mthpc_list_del_rcu_ok [OF c(1)], rule that)
  have "rings h' R" by (rule rings_agree [OF c(2) h'(3) c(3)])
  moreover have "x \<notin> set (l # as @ bs)" using clist_distinct [OF c(1)] by auto
  moreover have "dom h' = dom h" by (rule agree_off_dom [OF h'(3)])
  moreover have "x \<in> dom h" using clist_dom [OF c(1)] by auto
  ultimately show ?thesis
    using h' c(3) that by (auto simp: rings_Cons)
qed

lemma rings_add_new:
  assumes "rings h ((l, xs) # R)" "x \<in> dom h" "x \<notin> set (ring_nodes ((l, xs) # R))"
  obtains h' where "mthpc_list_add x l h = Some h'" "rings h' ((l, x # xs) # R)" "dom h' = dom h"
proof -
  have c: "clist h l xs" "rings h R" "set (x # l # xs) \<inter> set (ring_nodes R) = {}" "x \<notin> set (l # xs)"
    using assms by (auto simp: rings_Cons)
  obtain h' where h': "mthpc_list_add x l h = Some h'" "clist h' l (x # xs)"
    "agree_off (set (x # l # xs)) h h'"
    by (rule mthpc_list_add_ok [OF c(1) assms(2) c(4)], rule that)
  have "rings h' R" by (rule rings_agree [OF c(2) h'(3) c(3)])
  with h' c(3) that show ?thesis by (auto simp: rings_Cons dest: agree_off_dom)
qed

lemma rings_drop: "rings h (A @ r # B) \<Longrightarrow> rings h (A @ B)"
proof -
  assume "rings h (A @ r # B)"
  then have "rings h (r # A @ B)" by (rule rings_perm) simp
  then show ?thesis by (cases r) (simp add: rings_Cons)
qed

text \<open>An idle queue that the pool has given up.\<close>

definition queue_stopped :: "wq_sys \<Rightarrow> nat \<Rightarrow> bool" where
  "queue_stopped s q \<longleftrightarrow> (\<exists>r. wqs s q = Some r \<and> qlock r = Unlocked \<and> \<not> mthpc_wq_active (actived_cpu r) \<and>
     qcount r = 0 \<and> qfutex r \<noteq> 0)"

lemma join_take_busy:
  assumes "queue_core s p q (W q)" "W q \<noteq> []"
  shows "join_take (QueueNode q) s = Some s"
proof -
  obtain r where r: "wqs s q = Some r" "qlock r = Unlocked" "qcount r = of_nat (length (W q))"
    "length (W q) < 2 ^ 32"
    using assms(1) by (auto simp: queue_core_def)
  have "qcount r \<noteq> 0"
    using r(3,4) assms(2) by (simp add: of_nat_u32_0)
  moreover have same: "r\<lparr>qlock := Unlocked\<rparr> = r" using r(2) by simp
  moreover have "s\<lparr>wqs := (wqs s)(q \<mapsto> r\<lparr>qlock := Unlocked\<rparr>)\<rparr> = s"
    using r(1) unfolding same by (simp add: fun_upd_idem)
  ultimately show ?thesis
    using r(1,2) by (simp add: join_take_def lock_wq_def unlock_wq_def upd_wq_def)
qed

lemma join_take_idle:
  assumes "queue_core s p q []" "rcu_threads T (rcu s)"
    and "rings (lh s) ((PoolHead p, as @ QueueNode q # bs) # (FreeList, xs) # R)"
  obtains h m r where "join_take (QueueNode q) s = Some (s\<lparr>wqs := (wqs s)(q \<mapsto> r), lh := h, rcu := m\<rparr>)"
    "rings h ((PoolHead p, as @ bs) # (FreeList, QueueNode q # xs) # R)" "dom h = dom (lh s)"
    "rcu_threads T m" "queue_stopped (s\<lparr>wqs := (wqs s)(q \<mapsto> r)\<rparr>) q"
    "map_option qtid (wqs s q) = Some (qtid r)"
proof -
  obtain r where r: "wqs s q = Some r" "qlock r = Unlocked" "qcount r = 0" "qfutex r \<noteq> 0"
    using assms(1) by (auto simp: queue_core_def)
  obtain h1 where h1: "mthpc_list_del_rcu (QueueNode q) (lh s) = Some h1"
    "rings h1 ((PoolHead p, as @ bs) # (FreeList, xs) # R)" "dom h1 = dom (lh s)"
    "QueueNode q \<in> dom h1" "QueueNode q \<notin> set (ring_nodes ((PoolHead p, as @ bs) # (FreeList, xs) # R))"
    by (rule rings_del_rcu [OF assms(3)], rule that)
  have "rings h1 ((FreeList, xs) # (PoolHead p, as @ bs) # R)" by (rule rings_perm [OF h1(2)]) simp
  then obtain h2 where h2: "mthpc_list_add (QueueNode q) FreeList h1 = Some h2"
    "rings h2 ((FreeList, QueueNode q # xs) # (PoolHead p, as @ bs) # R)" "dom h2 = dom h1"
    by (rule rings_add_new [OF _ h1(4)]) (use h1(5) in \<open>auto intro: that\<close>)
  obtain m where m: "mthpc_synchronize_rcu (rcu s) = Some m" "rcu_threads T m"
    by (rule rcu_threads_synchronize [OF assms(2)], rule that)
  let ?r = "r\<lparr>actived_cpu := mthpc_wq_clear_active (actived_cpu r)\<rparr>"
  have rr: "r\<lparr>actived_cpu := x, qlock := Unlocked\<rparr> = r\<lparr>actived_cpu := x\<rparr>" for x
    using r(2) by simp
  show ?thesis
  proof (rule that [where r = ?r and h = h2 and m = m])
    show "join_take (QueueNode q) s = Some (s\<lparr>wqs := (wqs s)(q \<mapsto> ?r), lh := h2, rcu := m\<rparr>)"
      using r h1(1) h2(1) m(1)
      by (simp add: join_take_def lock_wq_def unlock_wq_def upd_wq_def with_lh_def rr)
    show "rings h2 ((PoolHead p, as @ bs) # (FreeList, QueueNode q # xs) # R)"
      by (rule rings_perm [OF h2(2)]) simp
  qed (use r h1(3) h2(3) m(2) in \<open>simp_all add: queue_stopped_def wq_cpu_facts\<close>)
qed

lemma queue_core_frame:
  "wqs s' q = wqs s q \<Longrightarrow> works s' = works s \<Longrightarrow> queue_core s' p q ws = queue_core s p q ws"
  by (simp add: queue_core_def)

lemma queue_stopped_frame: "wqs s' q = wqs s q \<Longrightarrow> queue_stopped s' q = queue_stopped s q"
  by (simp add: queue_stopped_def)

text \<open>The invariant of the loop, with the nodes \<open>xs\<close> still to visit.\<close>

definition busy :: "(nat \<Rightarrow> nat list) \<Rightarrow> nat list \<Rightarrow> nat list" where
  "busy W qs = filter (\<lambda>q. W q \<noteq> []) qs"

definition idle :: "(nat \<Rightarrow> nat list) \<Rightarrow> nat list \<Rightarrow> nat list" where
  "idle W qs = filter (\<lambda>q. W q = []) qs"

lemma busy_idle_simps [simp]:
  "busy W [] = []" "idle W [] = []" "busy W (as @ bs) = busy W as @ busy W bs"
  "idle W (as @ bs) = idle W as @ idle W bs"
  "busy W (q # qs) = (if W q = [] then busy W qs else q # busy W qs)"
  "idle W (q # qs) = (if W q = [] then q # idle W qs else idle W qs)"
  by (simp_all add: busy_def idle_def)

lemma set_busy_idle: "set (busy W qs) \<subseteq> set qs" "set (idle W qs) \<subseteq> set qs"
  "set (busy W qs) \<union> set (idle W qs) = set qs"
  by (auto simp: busy_def idle_def)

definition wq_moved :: "wq_sys \<Rightarrow> wq_sys \<Rightarrow> bool" where
  "wq_moved s s' \<longleftrightarrow> (\<exists>w h m. s' = s\<lparr>wqs := w, lh := h, rcu := m\<rparr>)"

lemma wq_movedI: "wq_moved s k \<Longrightarrow> wq_moved s (k\<lparr>wqs := w, lh := h, rcu := m\<rparr>)"
  unfolding wq_moved_def
  by (elim exE, rule exI [of _ w], rule exI [of _ h], rule exI [of _ m]) simp

lemma wq_moved_refl: "wq_moved s s"
  unfolding wq_moved_def
  by (rule exI [of _ "wqs s"], rule exI [of _ "lh s"], rule exI [of _ "rcu s"]) simp

definition taking :: "wq_addr ring list \<Rightarrow> u64 set \<Rightarrow> wq_sys \<Rightarrow> nat \<Rightarrow> (nat \<Rightarrow> nat list) \<Rightarrow> nat list \<Rightarrow> nat list \<Rightarrow> wq_sys \<Rightarrow> bool" where
  "taking E T s0 p W seen rest s \<longleftrightarrow>
     rings (lh s) (pool_rings E p (busy W seen @ rest) (rev (idle W seen)) W) \<and>
     (\<forall>q\<in>set (busy W seen @ rest). queue_core s p q (W q)) \<and>
     (\<forall>q\<in>set (idle W seen). queue_stopped s q) \<and> rcu_threads T (rcu s) \<and>
     dom (lh s) = dom (lh s0) \<and> wq_moved s0 s \<and> (\<forall>x. wq_tid s x = wq_tid s0 x) \<and>
     (\<forall>x. x \<notin> set (seen @ rest) \<longrightarrow> wqs s x = wqs s0 x)"

definition take_inv :: "wq_addr ring list \<Rightarrow> u64 set \<Rightarrow> wq_sys \<Rightarrow> nat \<Rightarrow> (nat \<Rightarrow> nat list) \<Rightarrow> nat list \<Rightarrow> wq_addr list \<Rightarrow> wq_sys \<Rightarrow> bool" where
  "take_inv E T s0 p W qs xs s \<longleftrightarrow>
     (\<exists>seen rest. qs = seen @ rest \<and> xs = map QueueNode rest \<and> taking E T s0 p W seen rest s)"

lemma taking_busy:
  assumes "taking E T s0 p W seen (q # rest) s" "W q \<noteq> []"
  shows "join_take (QueueNode q) s = Some s \<and> taking E T s0 p W (seen @ [q]) rest s"
  using assms join_take_busy [of s p q W] by (auto simp: taking_def)

lemma taking_idle:
  assumes tk: "taking E T s0 p W seen (q # rest) s" and idle: "W q = []" and d: "distinct (seen @ q # rest)"
  shows "\<exists>s'. join_take (QueueNode q) s = Some s' \<and> taking E T s0 p W (seen @ [q]) rest s'"
proof -
  note K = tk [unfolded taking_def]
  have qc: "queue_core s p q []" and rcu: "rcu_threads T (rcu s)" using K idle by auto
  have "rings (lh s) ((PoolHead p, map QueueNode (busy W seen) @ QueueNode q # map QueueNode rest) #
      (FreeList, map QueueNode (rev (idle W seen))) # map (qring W) (busy W seen @ q # rest) @ E)"
    using K by (simp add: pool_rings_def)
  then obtain h m r where t: "join_take (QueueNode q) s = Some (s\<lparr>wqs := (wqs s)(q \<mapsto> r), lh := h, rcu := m\<rparr>)"
    "rings h ((PoolHead p, map QueueNode (busy W seen) @ map QueueNode rest) #
      (FreeList, QueueNode q # map QueueNode (rev (idle W seen))) # map (qring W) (busy W seen @ q # rest) @ E)"
    "dom h = dom (lh s)" "rcu_threads T m" "queue_stopped (s\<lparr>wqs := (wqs s)(q \<mapsto> r)\<rparr>) q"
    "map_option qtid (wqs s q) = Some (qtid r)"
    by (rule join_take_idle [OF qc rcu]) (rule that)
  let ?s = "s\<lparr>wqs := (wqs s)(q \<mapsto> r), lh := h, rcu := m\<rparr>"
  have ring: "rings (lh ?s) (pool_rings E p (busy W (seen @ [q]) @ rest) (rev (idle W (seen @ [q]))) W)"
    using rings_drop [of h "(PoolHead p, map QueueNode (busy W seen) @ map QueueNode rest) #
      (FreeList, QueueNode q # map QueueNode (rev (idle W seen))) # map (qring W) (busy W seen)"
        "qring W q" "map (qring W) rest @ E"] t(2) idle
    by (simp add: pool_rings_def)
  have other: "wqs ?s y = wqs s y" if "y \<in> set (busy W seen @ rest) \<union> set (idle W seen)" for y
  proof -
    have "y \<noteq> q" using that d set_busy_idle(1,2) [of W seen] by auto
    then show ?thesis by simp
  qed
  have "queue_core ?s p y (W y)" if "y \<in> set (busy W (seen @ [q]) @ rest)" for y
    using queue_core_frame [of ?s y s p "W y", OF other] K that idle by auto
  moreover have "queue_stopped ?s y" if "y \<in> set (idle W seen)" for y
    using queue_stopped_frame [of ?s y s, OF other] K that by blast
  moreover have "queue_stopped ?s q" using t(5) by (simp add: queue_stopped_def)
  moreover have "wq_moved s0 ?s" using K by (intro wq_movedI) blast
  moreover have "wq_tid ?s y = wq_tid s y" for y using t(6) by (cases "y = q") (auto simp: wq_tid_def)
  then have "\<forall>y. wq_tid ?s y = wq_tid s0 y" using K by simp
  ultimately have "taking E T s0 p W (seen @ [q]) rest ?s"
    using ring t(3,4) K idle by (simp add: taking_def)
  with t(1) show ?thesis by blast
qed

lemma take_inv_step:
  assumes d: "distinct qs" and inv: "take_inv E T s0 p W qs (x # xs) s"
  shows "\<exists>s'. join_take x s = Some s' \<and> take_inv E T s0 p W qs xs s'"
proof -
  obtain seen q rest where q: "qs = seen @ q # rest" "x = QueueNode q" "xs = map QueueNode rest"
    and tk: "taking E T s0 p W seen (q # rest) s"
    using inv by (auto simp: take_inv_def Cons_eq_map_conv)
  have "\<exists>s'. join_take x s = Some s' \<and> taking E T s0 p W (seen @ [q]) rest s'"
    using taking_busy [OF tk] taking_idle [OF tk] d q(1,2) by (cases "W q = []") auto
  with q show ?thesis by (metis take_inv_def append.assoc append_Cons append_Nil)
qed

lemma take_loop:
  assumes "distinct qs" "rings (lh s) (pool_rings E p qs [] W)" "\<forall>q\<in>set qs. queue_core s p q (W q)"
    and "rcu_threads T (rcu s)"
  obtains s' where "list_for_each_safe lh join_take (PoolHead p) s = Some s'"
    "rings (lh s') (pool_rings E p (busy W qs) (rev (idle W qs)) W)"
    "\<forall>q\<in>set (busy W qs). queue_core s' p q (W q)" "\<forall>q\<in>set (idle W qs). queue_stopped s' q"
    "rcu_threads T (rcu s')" "dom (lh s') = dom (lh s)" "wq_moved s s'"
    "\<forall>x. x \<notin> set qs \<longrightarrow> wqs s' x = wqs s x" "\<forall>x. wq_tid s' x = wq_tid s x"
proof -
  let ?J = "take_inv E T s p W qs"
  have "taking E T s p W [] qs s" using assms(2-4) wq_moved_refl [of s] by (simp add: taking_def)
  then have J0: "?J (map QueueNode qs) s"
    unfolding take_inv_def by (intro exI [of _ "[]"] exI [of _ qs]) simp
  have "list_for_each_safe lh join_take (PoolHead p) s = fold_opt join_take (map QueueNode qs) s"
  proof (rule list_for_each_safe_fold [where J = ?J])
    fix rest t assume "?J rest t"
    then obtain seen todo where t: "rest = map QueueNode todo"
      "rings (lh t) (pool_rings E p (busy W seen @ todo) (rev (idle W seen)) W)"
      unfolding take_inv_def taking_def by blast
    have c: "clist (lh t) (PoolHead p) (map QueueNode (busy W seen) @ rest)"
      using t by (simp add: pool_rings_def rings_Cons)
    have n: "nexts (lh t) ((PoolHead p # map QueueNode (busy W seen)) @ rest @ [PoolHead p])"
      using clist_nexts [OF c] by simp
    have "nexts (lh t) (rest @ [PoolHead p])"
    proof (cases rest)
      case (Cons a as)
      have "nexts (lh t) ((PoolHead p # map QueueNode (busy W seen)) @ a # as @ [PoolHead p])"
        using n Cons by simp
      from nexts_appendD [OF this] show ?thesis using Cons by simp
    qed simp
    then show "nexts (lh t) (rest @ [PoolHead p]) \<and> PoolHead p \<in> dom (lh t)"
      using clist_dom [OF c] by auto
  next
    show "?J rest t'" if "?J (y # rest) t" "join_take y t = Some t'" for y rest t t'
      using take_inv_step [OF assms(1) that(1)] that(2) by auto
    have c: "clist (lh s) (PoolHead p) (map QueueNode qs)"
      using assms(2) by (simp add: pool_rings_def rings_Cons)
    then show "ld_next (lh s) (PoolHead p) = Some (hd (map QueueNode qs @ [PoolHead p]))"
      using clist_nexts [OF c] by (simp add: nexts_Cons)
  qed (use J0 in auto)
  moreover obtain s' where s': "fold_opt join_take (map QueueNode qs) s = Some s'" "?J [] s'"
    by (rule fold_opt_invariant [of ?J, OF J0 take_inv_step [OF assms(1)]]) (assumption, rule that)
  moreover from s'(2) have "rings (lh s') (pool_rings E p (busy W qs) (rev (idle W qs)) W)"
    "\<forall>q\<in>set (busy W qs). queue_core s' p q (W q)" "\<forall>q\<in>set (idle W qs). queue_stopped s' q"
    "rcu_threads T (rcu s')" "dom (lh s') = dom (lh s)" "wq_moved s s'"
    "\<forall>x. x \<notin> set qs \<longrightarrow> wqs s' x = wqs s x" "\<forall>x. wq_tid s' x = wq_tid s x"
    unfolding take_inv_def taking_def by simp_all
  ultimately show ?thesis by (intro that [of s']) simp_all
qed

section \<open>Freeing them\<close>

lemma nexts_same: "(\<And>a. a \<in> set (butlast zs) \<Longrightarrow> h' a = h a) \<Longrightarrow> nexts h' zs = nexts h zs"
  by (induction h zs rule: nexts.induct) (auto simp: ld_next_def)

definition free_inv :: "wq_addr ring list \<Rightarrow> u64 set \<Rightarrow> wq_sys \<Rightarrow> nat \<Rightarrow> workpool \<Rightarrow> nat list \<Rightarrow> (nat \<Rightarrow> nat list) \<Rightarrow> nat list \<Rightarrow>
    wq_addr list \<Rightarrow> wq_sys \<Rightarrow> bool" where
  "free_inv E T s0 p r ks W fl xs s \<longleftrightarrow> (\<exists>rest. xs = map QueueNode rest \<and> set rest \<subseteq> set fl \<and> distinct rest \<and>
     nexts (lh s) (xs @ [FreeList]) \<and> FreeList \<in> dom (lh s) \<and>
     rings (lh s) ((PoolHead p, map QueueNode ks) # map (qring W) ks @ E) \<and>
     (\<forall>q\<in>set rest. wqs s q = wqs s0 q) \<and> (\<forall>q\<in>set fl - set rest. wqs s q = None) \<and>
     pools s = (pools s0)(p \<mapsto> r\<lparr>pcount := of_nat (length ks + length rest)\<rparr>) \<and>
     works s = works s0 \<and> ran s = ran s0 \<and> wq_warned s = wq_warned s0 \<and>
     rcu_threads (T - wq_tid s0 ` (set fl - set rest)) (rcu s) \<and>
     (\<forall>x. x \<notin> set fl \<longrightarrow> wqs s x = wqs s0 x))"

lemma join_free_ok:
  assumes "queue_stopped s q" "pools s p = Some r" "mthpc_rcu_thread_exit (wq_tid s q) (rcu s) = Some m"
  shows "join_free p (QueueNode q) s = Some (s\<lparr>wqs := (wqs s)(q := None),
    lh := (lh s)(QueueHead q := None, QueueNode q := None),
    pools := (pools s)(p \<mapsto> r\<lparr>pcount := pcount r + (- 1)\<rparr>), rcu := m\<rparr>)"
proof -
  obtain k where k: "wqs s q = Some k" "qlock k = Unlocked" "\<not> mthpc_wq_active (actived_cpu k)"
    "qcount k = 0" "qfutex k \<noteq> 0"
    using assms(1) by (auto simp: queue_stopped_def)
  have "join_worker q s = Some (s\<lparr>rcu := m\<rparr>)"
    using k assms(3) by (simp add: join_worker_def worker_end_def wq_tid_def)
  then show ?thesis
    using k(1,2,4) assms(2)
    by (simp add: join_free_def wq_warn_def upd_wq_def free_wq_def upd_pool_def)
qed

lemma free_inv_step:
  assumes "set fl \<inter> set ks = {}" "QueueNode ` set fl \<inter> set (ring_nodes E) = {}"
    "QueueHead ` set fl \<inter> set (ring_nodes E) = {}" "\<forall>q\<in>set fl. queue_stopped s0 q"
    "inj_on (wq_tid s0) (set fl)" "wq_tid s0 ` set fl \<subseteq> T" "free_inv E T s0 p r ks W fl (x # xs) s"
  shows "\<exists>s'. join_free p x s = Some s' \<and> free_inv E T s0 p r ks W fl xs s'"
proof -
  obtain rest0 where rest0: "x # xs = map QueueNode rest0" "set rest0 \<subseteq> set fl" "distinct rest0"
    and nx: "nexts (lh s) ((x # xs) @ [FreeList])" and fd: "FreeList \<in> dom (lh s)"
    and rg: "rings (lh s) ((PoolHead p, map QueueNode ks) # map (qring W) ks @ E)"
    and kept: "\<forall>q\<in>set rest0. wqs s q = wqs s0 q" and gone: "\<forall>q\<in>set fl - set rest0. wqs s q = None"
    and pl: "pools s = (pools s0)(p \<mapsto> r\<lparr>pcount := of_nat (length ks + length rest0)\<rparr>)"
    and same: "works s = works s0" "ran s = ran s0" "wq_warned s = wq_warned s0"
    and rcu: "rcu_threads (T - wq_tid s0 ` (set fl - set rest0)) (rcu s)"
    and off: "\<forall>x. x \<notin> set fl \<longrightarrow> wqs s x = wqs s0 x"
    using assms(7) unfolding free_inv_def by (elim exE conjE) (rule that; assumption)
  obtain q rest where q: "rest0 = q # rest" "x = QueueNode q" "xs = map QueueNode rest"
    using rest0(1) by (cases rest0) auto
  let ?h = "(lh s)(QueueHead q := None, QueueNode q := None)"
  let ?r = "r\<lparr>pcount := of_nat (length ks + length rest)\<rparr>"
  have qfl: "q \<in> set fl" using rest0(2) q(1) by simp
  have "wq_tid s0 q \<in> T - wq_tid s0 ` (set fl - set rest0)"
    using assms(5,6) qfl q(1) by (auto dest: inj_onD)
  then obtain m where m: "mthpc_rcu_thread_exit (wq_tid s0 q) (rcu s) = Some m"
    "rcu_threads (T - wq_tid s0 ` (set fl - set rest0) - {wq_tid s0 q}) m"
    by (rule rcu_threads_exit [OF rcu]) (rule that)
  have left: "T - wq_tid s0 ` (set fl - set rest0) - {wq_tid s0 q} = T - wq_tid s0 ` (set fl - set rest)"
    using qfl q(1) rest0(3) by auto
  have same_q: "wqs s q = wqs s0 q" using kept q(1) by simp
  then have tid: "mthpc_rcu_thread_exit (wq_tid s q) (rcu s) = Some m" using m(1) by (simp add: wq_tid_def)
  have st: "queue_stopped s q" using assms(4) qfl by (simp only: queue_stopped_frame [OF same_q])
  let ?s = "s\<lparr>wqs := (wqs s)(q := None), lh := ?h, pools := (pools s0)(p \<mapsto> ?r), rcu := m\<rparr>"
  have qk: "q \<notin> set ks" "q \<notin> set rest" using assms(1) rest0(2,3) q(1) by auto
  have ps: "pools s p = Some (r\<lparr>pcount := of_nat (length ks + length rest0)\<rparr>)" using pl by simp
  have "join_free p x s = Some ?s"
    using join_free_ok [OF st ps tid] q(1,2) pl by simp
  moreover have "nexts ?h (xs @ [FreeList])"
  proof -
    have "nexts (lh s) (xs @ [FreeList])" using nx by (simp add: nexts_Cons)
    moreover have "nexts ?h (xs @ [FreeList]) = nexts (lh s) (xs @ [FreeList])"
      by (rule nexts_same) (use q(3) qk(2) in \<open>auto simp: butlast_append\<close>)
    ultimately show ?thesis by simp
  qed
  moreover have "rings ?h ((PoolHead p, map QueueNode ks) # map (qring W) ks @ E)"
    by (rule rings_same [OF rg]) (use qk(1) assms(2,3) rest0(2) q(1) in \<open>auto simp: set_ring_nodes_qring\<close>)
  moreover have "\<forall>y\<in>set rest. wqs ?s y = wqs s0 y" using kept qk(2) q(1) by auto
  moreover have "\<forall>y\<in>set fl - set rest. wqs ?s y = None" using gone q(1) by auto
  moreover have "\<forall>y. y \<notin> set fl \<longrightarrow> wqs ?s y = wqs s0 y" using off rest0(2) q(1) by auto
  ultimately have "free_inv E T s0 p r ks W fl xs ?s"
    unfolding free_inv_def using rest0(2,3) fd same q m(2) left
    by - (rule exI [of _ rest], simp)
  with \<open>join_free p x s = Some ?s\<close> show ?thesis by blast
qed

lemma free_loop:
  assumes "rings (lh s) (pool_rings E p ks fl W)" "\<forall>q\<in>set fl. queue_stopped s q" "pools s p = Some r"
    and "pcount r = of_nat (length ks + length fl)" "QueueHead ` set fl \<inter> set (ring_nodes E) = {}"
    and "inj_on (wq_tid s) (set fl)" "wq_tid s ` set fl \<subseteq> T" "rcu_threads T (rcu s)"
  obtains s' where "list_for_each_safe lh (join_free p) FreeList s = Some s'"
    "rings (lh s') ((PoolHead p, map QueueNode ks) # map (qring W) ks @ E)" "FreeList \<in> dom (lh s')"
    "pools s' = (pools s)(p \<mapsto> r\<lparr>pcount := of_nat (length ks)\<rparr>)" "works s' = works s" "ran s' = ran s"
    "wq_warned s' = wq_warned s" "rcu_threads (T - wq_tid s ` set fl) (rcu s')" "\<forall>q\<in>set fl. wqs s' q = None"
    "\<forall>x. x \<notin> set fl \<longrightarrow> wqs s' x = wqs s x"
proof -
  let ?J = "free_inv E T s p r ks W fl"
  have c: "clist (lh s) FreeList (map QueueNode fl)"
    and rg: "rings (lh s) ((PoolHead p, map QueueNode ks) # map (qring W) ks @ E)"
    and dj: "QueueNode ` set ks \<inter> QueueNode ` set fl = {}"
    and djE: "QueueNode ` set fl \<inter> set (ring_nodes E) = {}"
    using assms(1) by (auto simp: pool_rings_def rings_Cons)
  have disj: "set fl \<inter> set ks = {}" using dj by blast
  have d: "distinct fl" using clist_distinct [OF c] by (simp add: distinct_map)
  have nx: "ld_next (lh s) FreeList = Some (hd (map QueueNode fl @ [FreeList]))"
    "nexts (lh s) (map QueueNode fl @ [FreeList])"
    using clist_nexts [OF c] by (simp_all add: nexts_Cons)
  have "pools s = (pools s)(p \<mapsto> r\<lparr>pcount := of_nat (length ks + length fl)\<rparr>)"
  proof -
    have "r\<lparr>pcount := of_nat (length ks + length fl)\<rparr> = r" using assms(4) by simp
    then show ?thesis using assms(3) by (simp add: fun_upd_idem)
  qed
  then have J0: "?J (map QueueNode fl) s"
    unfolding free_inv_def using rg d nx(2) assms(8) clist_dom [OF c]
    by - (rule exI [of _ fl], simp)
  have "list_for_each_safe lh (join_free p) FreeList s = fold_opt (join_free p) (map QueueNode fl) s"
  proof (rule list_for_each_safe_fold [where J = ?J])
    show "nexts (lh t) (rest @ [FreeList]) \<and> FreeList \<in> dom (lh t)" if "?J rest t" for rest t
      using that unfolding free_inv_def by blast
    show "?J rest t'" if "?J (y # rest) t" "join_free p y t = Some t'" for y rest t t'
      using free_inv_step [OF disj djE assms(5,2,6,7) that(1)] that(2) by auto
  qed (use J0 nx in auto)
  moreover obtain s' where s': "fold_opt (join_free p) (map QueueNode fl) s = Some s'" "?J [] s'"
    by (rule fold_opt_invariant [of ?J, OF J0 free_inv_step [OF disj djE assms(5,2,6,7)]]) (assumption, rule that)
  ultimately have run: "list_for_each_safe lh (join_free p) FreeList s = Some s'" by simp
  have "rings (lh s') ((PoolHead p, map QueueNode ks) # map (qring W) ks @ E)" "FreeList \<in> dom (lh s')"
    "pools s' = (pools s)(p \<mapsto> r\<lparr>pcount := of_nat (length ks)\<rparr>)" "works s' = works s" "ran s' = ran s"
    "wq_warned s' = wq_warned s" "rcu_threads (T - wq_tid s ` set fl) (rcu s')" "\<forall>q\<in>set fl. wqs s' q = None"
    "\<forall>x. x \<notin> set fl \<longrightarrow> wqs s' x = wqs s x"
    using s'(2) unfolding free_inv_def by simp_all
  with run show ?thesis by (rule that)
qed

section \<open>A pass\<close>

lemma length_busy_idle: "length qs = length (busy W qs) + length (idle W qs)"
  by (induction qs) auto

lemma wq_moved_simps:
  "wq_moved s k \<Longrightarrow> pools k = pools s \<and> works k = works s \<and> ran k = ran s \<and> wq_warned k = wq_warned s"
  by (auto simp: wq_moved_def)

lemma pools_live_keep:
  assumes "pools_live s P W" "rings (lh s') (pools_rings W P)" "works s' = works s"
    and "\<And>p. p \<in> fst ` set P \<Longrightarrow> pools s' p = pools s p"
    and "\<And>q. q \<in> set (queues_of P) \<Longrightarrow> wqs s' q = wqs s q"
  shows "pools_live s' P W"
proof -
  have "pool_live s' p qs W" if p: "(p, qs) \<in> set P" for p qs
  proof -
    have live: "pool_live s p qs W" by (rule pools_live_pool [OF assms(1) p])
    have c: "clist (lh s') l xs" if "(l, xs) \<in> set ((PoolHead p, map QueueNode qs) # map (qring W) qs)" for l xs
      by (rule rings_clist [OF assms(2)]) (use that p in \<open>auto simp: pools_rings_def\<close>)
    have q: "wqs s' q = wqs s q" if "q \<in> set qs" for q
      using assms(5) that p by (auto simp: in_queues_of)
    have "pools s' p = pools s p" using assms(4) p by force
    moreover have "queue_ok s' p q (W q)" if "q \<in> set qs" for q
      using live that q [OF that] c [of "QueueHead q" "map WorkNode (W q)"] assms(3)
      by (auto simp: pool_live_def pool_ok_def queue_ok_def qring_def)
    ultimately show ?thesis
      using live q c [of "PoolHead p"] by (auto simp: pool_live_def pool_ok_def)
  qed
  then show ?thesis using assms(1) by (auto simp: pools_live_def)
qed

lemma pools_live_free_list:
  assumes "pools_live s ((p, qs) # P) W" "FreeList \<in> dom (lh s)"
  obtains h where "mthpc_list_init FreeList (lh s) = Some h"
    "rings h (pool_rings (pools_rings W P) p qs [] W)" "dom h = dom (lh s)"
proof -
  have "rings (lh s) (pools_rings W ((p, qs) # P))" by (rule pools_live_rings [OF assms(1)])
  moreover have "FreeList \<notin> set (ring_nodes (pools_rings W ((p, qs) # P)))"
    unfolding in_pools_rings by simp
  ultimately obtain h where h: "mthpc_list_init FreeList (lh s) = Some h"
    "rings h ((FreeList, []) # pools_rings W ((p, qs) # P))" "dom h = dom (lh s)"
    by (rule rings_init [OF _ assms(2)]) (rule that)
  have "rings h (pool_rings (pools_rings W P) p qs [] W)"
    by (rule rings_perm [OF h(2)]) (simp add: pool_rings_def)
  with h that show ?thesis by blast
qed

text \<open>The pool after a pass, and the pools beside it.\<close>

lemma pass_pools_live:
  assumes "pools_live s ((p, qs) # P) W" "set ks \<subseteq> set qs"
    and "rings (lh s') ((PoolHead p, map QueueNode ks) # map (qring W) ks @ pools_rings W P)"
    and "\<And>q. q \<in> set ks \<Longrightarrow> queue_core s' p q (W q)" "works s' = works s"
    and "pools s' = (pools s)(p \<mapsto> r)" "plock r = Unlocked" "pcount r = of_nat (length ks)"
    and "\<And>x. x \<notin> set qs \<Longrightarrow> wqs s' x = wqs s x"
  shows "pools_live s' ((p, ks) # P) W"
proof -
  have live: "pools_live s P W" "p \<notin> fst ` set P" "works_apart W (set qs) (set (queues_of P))"
    using assms(1) by (simp_all add: pools_live_Cons)
  have r: "rings (lh s') ((PoolHead p, map QueueNode ks) # map (qring W) ks)" "rings (lh s') (pools_rings W P)"
    using rings_append [of "lh s'" "(PoolHead p, map QueueNode ks) # map (qring W) ks"] assms(3) by simp_all
  have "pool_live s' p ks W" by (rule rings_pool_live [OF r(1) assms(4)]) (use assms(6-8) in simp_all)
  moreover have "pools_live s' P W"
    by (rule pools_live_keep [OF live(1) r(2) assms(5)])
      (use assms(6,9) live(2) pools_live_queues_apart [OF assms(1)] in auto)
  moreover have "works_apart W (set ks) (set (queues_of P))"
    by (rule works_apart_sub [OF live(3)]) (use assms(2) in auto)
  ultimately show ?thesis using live(2) by (simp add: pools_live_Cons)
qed

text \<open>What ending the pool \<open>p\<close> leaves alone, in addition.\<close>

definition join_keeps :: "nat \<Rightarrow> wq_sys \<Rightarrow> wq_sys \<Rightarrow> bool" where
  "join_keeps p s s' \<longleftrightarrow> wq_warned s' = wq_warned s \<and> (\<forall>x. x \<noteq> p \<longrightarrow> pools s' x = pools s x)"

lemma join_keeps_refl [simp]: "join_keeps p s s"
  by (simp add: join_keeps_def)

lemma join_keeps_trans: "join_keeps p s k \<Longrightarrow> join_keeps p k t \<Longrightarrow> join_keeps p s t"
  by (simp add: join_keeps_def)

text \<open>Between the two loops: the idle queues are on the free list, their workers have ended.\<close>

definition join_taken ::
  "u64 set \<Rightarrow> nat \<Rightarrow> nat list \<Rightarrow> (nat \<times> nat list) list \<Rightarrow> (nat \<Rightarrow> nat list) \<Rightarrow> wq_sys \<Rightarrow> wq_sys \<Rightarrow> bool" where
  "join_taken T p qs P W s k \<longleftrightarrow>
     rings (lh k) (pool_rings (pools_rings W P) p (busy W qs) (rev (idle W qs)) W) \<and>
     (\<forall>q\<in>set (busy W qs). queue_core k p q (W q)) \<and> (\<forall>q\<in>set (idle W qs). queue_stopped k q) \<and>
     rcu_threads T (rcu k) \<and> dom (lh k) = dom (lh s) \<and> (\<forall>x. x \<notin> set qs \<longrightarrow> wqs k x = wqs s x) \<and>
     wq_tid k = wq_tid s \<and> pools k = pools s \<and> works k = works s \<and> ran k = ran s \<and> wq_warned k = wq_warned s"

lemma join_takenD:
  assumes "join_taken T p qs P W s k"
  shows "rings (lh k) (pool_rings (pools_rings W P) p (busy W qs) (rev (idle W qs)) W)"
    "q \<in> set (busy W qs) \<Longrightarrow> queue_core k p q (W q)" "q \<in> set (idle W qs) \<Longrightarrow> queue_stopped k q"
    "rcu_threads T (rcu k)" "dom (lh k) = dom (lh s)" "x \<notin> set qs \<Longrightarrow> wqs k x = wqs s x"
    "wq_tid k = wq_tid s" "pools k = pools s" "works k = works s" "ran k = ran s" "wq_warned k = wq_warned s"
  using assms by (simp_all add: join_taken_def)

lemma join_pass_taken:
  assumes pl: "pools_live s ((p, qs) # P) W" and T: "rcu_threads T (rcu s)" and fd: "FreeList \<in> dom (lh s)"
  obtains k where "join_taken T p qs P W s k"
    "join_pass p progress s = (if idle W qs = [] then Some (progress + 8, k)
       else do { j \<leftarrow> list_for_each_safe lh (join_free p) FreeList k; Some (progress + 1, j) })"
proof -
  have live: "pool_live s p qs W" using pl by (simp add: pools_live_Cons)
  obtain r where r: "pools s p = Some r" "plock r = Unlocked"
    using live by (auto simp: pool_live_def pool_ok_def)
  have d: "distinct qs" using live pool_distinct by (auto simp: pool_live_def)
  obtain h where h: "mthpc_list_init FreeList (lh s) = Some h" "rings h (pool_rings (pools_rings W P) p qs [] W)"
    "dom h = dom (lh s)"
    by (rule pools_live_free_list [OF pl fd], rule that)
  let ?t = "s\<lparr>lh := h, pools := (pools s)(p \<mapsto> r\<lparr>plock := Held\<rparr>)\<rparr>"
  have core: "\<forall>q\<in>set qs. queue_core ?t p q (W q)"
    using pool_live_core [OF live] by (simp add: queue_core_def)
  obtain k where k: "list_for_each_safe lh join_take (PoolHead p) ?t = Some k"
    "rings (lh k) (pool_rings (pools_rings W P) p (busy W qs) (rev (idle W qs)) W)"
    "\<forall>q\<in>set (busy W qs). queue_core k p q (W q)" "\<forall>q\<in>set (idle W qs). queue_stopped k q"
    "rcu_threads T (rcu k)" "dom (lh k) = dom (lh ?t)" "wq_moved ?t k"
    "\<forall>x. x \<notin> set qs \<longrightarrow> wqs k x = wqs ?t x" "\<forall>x. wq_tid k x = wq_tid ?t x"
    by (rule take_loop [OF d _ core, where T = T]) (use h(2) T in \<open>auto intro: that\<close>)
  note mv = wq_moved_simps [OF k(7)]
  let ?k = "k\<lparr>pools := pools s\<rparr>"
  have "r\<lparr>plock := Unlocked\<rparr> = r" "(pools s)(p \<mapsto> r) = pools s" using r by (simp_all add: fun_upd_idem)
  then have unlock: "unlock_pool p k = Some ?k"
    using mv by (simp add: unlock_pool_def upd_pool_def)
  have lock: "lock_pool p (s\<lparr>lh := h\<rparr>) = Some ?t"
    using r by (simp add: lock_pool_def upd_pool_def)
  have "clist (lh k) FreeList (map QueueNode (rev (idle W qs)))"
    using k(2) by (simp add: pool_rings_def rings_Cons)
  then have e: "mthpc_list_empty FreeList (lh ?k) = Some (idle W qs = [])"
    using mthpc_list_empty_iff by fastforce
  have "join_taken T p qs P W s ?k"
    using k(2-6,8,9) h(3) mv
    by (simp add: join_taken_def queue_core_def queue_stopped_def wq_tid_def fun_eq_iff)
  then show ?thesis
    by (rule that) (use h(1) lock k(1) unlock e in \<open>simp add: join_pass_def with_lh_def\<close>)
qed

text \<open>No idle queue: the pass changes nothing but the list of free queues.\<close>

lemma join_taken_none:
  assumes pl: "pools_live s ((p, qs) # P) W" and rcu: "wq_threads U (qs @ queues_of P) s"
    and tk: "join_taken T p qs P W s k" "T = U \<union> wq_tid s ` set (qs @ queues_of P)" and none: "idle W qs = []"
  shows "pools_live k ((p, busy W qs) # P) W" "wq_threads U (busy W qs @ queues_of P) k"
proof -
  note D = join_takenD [OF tk(1)]
  obtain r where r: "pools s p = Some r" "plock r = Unlocked" "pcount r = of_nat (length qs)"
    using pl by (auto simp: pools_live_Cons pool_live_def pool_ok_def)
  show "pools_live k ((p, busy W qs) # P) W"
  proof (rule pass_pools_live [OF pl set_busy_idle(1) _ _ _ _ r(2)])
    show "rings (lh k) ((PoolHead p, map QueueNode (busy W qs)) # map (qring W) (busy W qs) @ pools_rings W P)"
      using D(1) none rings_drop [of "lh k" "[(PoolHead p, map QueueNode (busy W qs))]"]
      by (simp add: pool_rings_def)
    show "pools k = (pools s)(p \<mapsto> r)" using D(8) r(1) by (simp add: fun_upd_idem)
    show "pcount r = of_nat (length (busy W qs))" using r(3) none length_busy_idle [of qs W] by simp
  qed (use D in simp_all)
  show "wq_threads U (busy W qs @ queues_of P) k"
  proof (rule wq_threads_keep)
    show "wq_threads U (qs @ queues_of P) (s\<lparr>rcu := rcu k\<rparr>)"
      using rcu D(4) tk(2) by (simp add: wq_threads_def)
    show "set (busy W qs @ queues_of P) = set (qs @ queues_of P)"
      using set_busy_idle(3) [of W qs] none by simp
  qed (use D(7) in \<open>simp_all add: wq_tid_def\<close>)
qed

text \<open>The second loop frees the idle queues, and their workers are no longer registered.\<close>

lemma join_taken_some:
  assumes pl: "pools_live s ((p, qs) # P) W" and rcu: "wq_threads U (qs @ queues_of P) s"
    and tk: "join_taken T p qs P W s k" "T = U \<union> wq_tid s ` set (qs @ queues_of P)"
  obtains j where "list_for_each_safe lh (join_free p) FreeList k = Some j"
    "pools_live j ((p, busy W qs) # P) W" "wq_threads U (busy W qs @ queues_of P) j" "FreeList \<in> dom (lh j)"
    "ran j = ran s" "join_keeps p s j" "\<forall>q\<in>set (idle W qs). wqs j q = None"
    "\<forall>x. x \<notin> set qs \<longrightarrow> wqs j x = wqs s x"
proof -
  note D = join_takenD [OF tk(1)]
  let ?I = "rev (idle W qs)"
  obtain r where r: "pools s p = Some r" "plock r = Unlocked" "pcount r = of_nat (length qs)"
    using pl by (auto simp: pools_live_Cons pool_live_def pool_ok_def)
  have pc: "pools k p = Some r" "pcount r = of_nat (length (busy W qs) + length ?I)"
    using D(8) r(1,3) length_busy_idle [of qs W] by simp_all
  have fh: "QueueHead ` set ?I \<inter> set (ring_nodes (pools_rings W P)) = {}"
    using pools_live_queues_apart [OF pl] set_busy_idle(2) [of W qs] by (auto simp: in_pools_rings)
  have tf: "inj_on (wq_tid k) (set ?I)" "wq_tid k ` set ?I \<subseteq> T"
    using wq_threadsD(2) [OF rcu] set_busy_idle(2) [of W qs] tk(2) unfolding D(7) by (auto intro: inj_on_subset)
  have st: "\<forall>q\<in>set ?I. queue_stopped k q" using D(3) by simp
  obtain j where j: "list_for_each_safe lh (join_free p) FreeList k = Some j"
    "rings (lh j) ((PoolHead p, map QueueNode (busy W qs)) # map (qring W) (busy W qs) @ pools_rings W P)"
    "FreeList \<in> dom (lh j)" "pools j = (pools k)(p \<mapsto> r\<lparr>pcount := of_nat (length (busy W qs))\<rparr>)"
    "works j = works k" "ran j = ran k" "wq_warned j = wq_warned k" "rcu_threads (T - wq_tid k ` set ?I) (rcu j)"
    "\<forall>q\<in>set ?I. wqs j q = None" "\<forall>x. x \<notin> set ?I \<longrightarrow> wqs j x = wqs k x"
    by (rule free_loop [OF D(1) st pc fh tf D(4)], rule that)
  have off: "wqs j x = wqs s x" if "x \<notin> set qs" for x
    using j(10) D(6) [OF that] that set_busy_idle(2) [of W qs] by auto
  have dj: "set (busy W qs @ queues_of P) \<inter> set (idle W qs) = {}"
    using pools_live_queues_apart [OF pl] set_busy_idle(2) [of W qs] by (auto simp: busy_def idle_def)
  have "queue_core j p q (W q)" if "q \<in> set (busy W qs)" for q
  proof -
    have "wqs j q = wqs k q" using j(10) dj that by auto
    with D(2) [OF that] j(5) show ?thesis by (simp add: queue_core_def)
  qed
  then have pl': "pools_live j ((p, busy W qs) # P) W"
    by (rule pass_pools_live [OF pl set_busy_idle(1) j(2), where r = "r\<lparr>pcount := of_nat (length (busy W qs))\<rparr>"])
      (use r(2) D j(4,5) off in simp_all)
  have "wq_threads U (busy W qs @ queues_of P) j"
  proof (rule wq_threads_leave [OF rcu])
    show "set (qs @ queues_of P) = set (busy W qs @ queues_of P) \<union> set (idle W qs)"
      using set_busy_idle(3) [of W qs] by auto
    show "wq_tid j q = wq_tid s q" if "q \<in> set (busy W qs @ queues_of P)" for q
      using j(10) dj that D(7) by (auto simp: wq_tid_def fun_eq_iff)
  qed (use j(8) D(7) tk(2) dj in simp_all)
  with j(1,3,4,6,7,9) pl' off show ?thesis by (intro that [of j]) (simp_all add: join_keeps_def D)
qed

lemma join_pass_ok:
  assumes pl: "pools_live s ((p, qs) # P) W" and rcu: "wq_threads U (qs @ queues_of P) s"
    and fd: "FreeList \<in> dom (lh s)"
  obtains s' where "join_pass p progress s = Some (progress + (if idle W qs = [] then 8 else 1), s')"
    "pools_live s' ((p, busy W qs) # P) W" "wq_threads U (busy W qs @ queues_of P) s'" "FreeList \<in> dom (lh s')" "ran s' = ran s"
    "join_keeps p s s'" "\<forall>q\<in>set (idle W qs). wqs s' q = None"
    "\<forall>x. x \<notin> set qs \<longrightarrow> wqs s' x = wqs s x"
proof -
  let ?T = "U \<union> wq_tid s ` set (qs @ queues_of P)"
  obtain k where k: "join_taken ?T p qs P W s k" and run:
    "join_pass p progress s = (if idle W qs = [] then Some (progress + 8, k)
       else do { j \<leftarrow> list_for_each_safe lh (join_free p) FreeList k; Some (progress + 1, j) })"
    by (rule join_pass_taken [OF pl wq_threadsD(1) [OF rcu] fd], rule that)
  show ?thesis
  proof (cases "idle W qs = []")
    case True
    with run join_taken_none [OF pl rcu k refl True] join_takenD [OF k] fd show ?thesis
      by (intro that [of k]) (simp_all add: join_keeps_def)
  next
    case False
    obtain j where "list_for_each_safe lh (join_free p) FreeList k = Some j"
      "pools_live j ((p, busy W qs) # P) W" "wq_threads U (busy W qs @ queues_of P) j" "FreeList \<in> dom (lh j)"
      "ran j = ran s" "join_keeps p s j" "\<forall>q\<in>set (idle W qs). wqs j q = None"
      "\<forall>x. x \<notin> set qs \<longrightarrow> wqs j x = wqs s x"
      by (rule join_taken_some [OF pl rcu k refl], rule that)
    with run False show ?thesis by (intro that [of j]) simp_all
  qed
qed

section \<open>The whole loop\<close>

text \<open>
  The pool \<open>p\<close> before a pass, beside the pools \<open>P\<close>: \<open>qs\<close> are the queues that are left of it,
  \<open>Q\<close> all queues that there have been.
\<close>

definition joining ::
  "u64 set \<Rightarrow> nat set \<Rightarrow> nat \<Rightarrow> nat list \<Rightarrow> (nat \<times> nat list) list \<Rightarrow> (nat \<Rightarrow> nat list) \<Rightarrow> wq_sys \<Rightarrow> bool" where
  "joining U Q p qs P W s \<longleftrightarrow> pools_live s ((p, qs) # P) W \<and> wq_threads U (qs @ queues_of P) s \<and> FreeList \<in> dom (lh s) \<and>
     length qs < 2 ^ 32 \<and> (\<forall>q\<in>Q - set (qs @ queues_of P). wqs s q = None)"

lemma pending_neutral:
  "set A \<subseteq> set B \<Longrightarrow> (\<And>q. q \<in> set B - set A \<Longrightarrow> W q = []) \<Longrightarrow> pending A W = pending B W"
  unfolding pending_def by (rule sum.mono_neutral_left) auto

lemma pending_busy: "pending (busy W qs @ os) W = pending (qs @ os) W"
  by (rule pending_neutral) (auto simp: busy_def)

definition join_result ::
  "u64 set \<Rightarrow> nat set \<Rightarrow> nat \<Rightarrow> (nat \<times> nat list) list \<Rightarrow> nat multiset \<Rightarrow> wq_sys \<Rightarrow> wq_sys option \<Rightarrow> bool" where
  "join_result U Q p P M s res \<longleftrightarrow> (\<exists>s' W'. res = Some s' \<and> joining U Q p [] P W' s' \<and>
     mset (ran s') + pending (queues_of P) W' = mset (ran s) + M \<and> join_keeps p s s')"

lemma join_done:
  assumes J: "joining U Q p [] P W s"
  shows "join_result U Q p P (pending (queues_of P) W) s (mthpc_workqueues_join sched t p progress s)"
proof -
  obtain r where "pools s p = Some r" "pcount r = 0"
    using J by (auto simp: joining_def pools_live_Cons pool_live_def pool_ok_def)
  then have "mthpc_workqueues_join sched t p progress s = Some s"
    by (subst mthpc_workqueues_join.simps) simp
  with J show ?thesis
    unfolding join_result_def by (intro exI [of _ s] exI [of _ W]) simp
qed

text \<open>One turn of the loop, from \<open>(progress, qs, W, s)\<close> to \<open>(progress1, qs1, W1, s1)\<close>.\<close>

definition join_turned ::
  "(nat \<Rightarrow> nat list) \<Rightarrow> nat \<Rightarrow> nat \<Rightarrow> (nat \<times> nat list) list \<Rightarrow> u32 \<Rightarrow> nat list \<Rightarrow> (nat \<Rightarrow> nat list) \<Rightarrow> wq_sys \<Rightarrow>
   u32 \<Rightarrow> nat list \<Rightarrow> (nat \<Rightarrow> nat list) \<Rightarrow> wq_sys \<Rightarrow> bool" where
  "join_turned sched t p P progress qs W s progress1 qs1 W1 s1 \<longleftrightarrow>
     mthpc_workqueues_join sched t p progress s = mthpc_workqueues_join sched (Suc t) p progress1 s1 \<and>
     W1 = drained (filter (\<lambda>q. q \<in> set (qs @ queues_of P)) (sched t)) W \<and>
     (if 32 \<le> progress then qs1 = qs \<and> progress1 = 0 else qs1 = busy W1 qs) \<and>
     mset (ran s1) + pending (qs1 @ queues_of P) W1 = mset (ran s) + pending (qs @ queues_of P) W \<and>
     join_keeps p s s1"

lemma join_turned_pending:
  assumes "join_turned sched t p P progress qs W s progress1 qs1 W1 s1"
  shows "pending qs1 W1 = pending qs W1" "pending qs W1 \<subseteq># pending qs W" "set qs1 \<subseteq> set qs"
  using assms pending_busy [of W1 qs "[]"] pending_drained set_busy_idle(1) [of W1 qs]
  by (auto simp: join_turned_def split: if_splits)

lemma join_turned_result:
  assumes "join_turned sched t p P progress qs W s progress1 qs1 W1 s1"
    and "join_result U Q p P (pending (qs1 @ queues_of P) W1) s1 (mthpc_workqueues_join sched (Suc t) p progress1 s1)"
  shows "join_result U Q p P (pending (qs @ queues_of P) W) s (mthpc_workqueues_join sched t p progress s)"
  using assms join_keeps_trans unfolding join_turned_def join_result_def by metis

lemma join_turn_workers:
  assumes J: "joining U Q p qs P W s" and Q: "set ts \<subseteq> Q"
  obtains k where "fold_opt run_worker ts s = Some k"
    "joining U Q p qs P (drained (filter (\<lambda>q. q \<in> set (qs @ queues_of P)) ts) W) k"
    "mset (ran k) + pending (qs @ queues_of P) (drained (filter (\<lambda>q. q \<in> set (qs @ queues_of P)) ts) W) =
      mset (ran s) + pending (qs @ queues_of P) W" "join_keeps p s k" "pools k p = pools s p"
proof -
  have live: "pools_live s ((p, qs) # P) W" and rcu: "wq_threads U (qs @ queues_of P) s"
    and gone: "\<forall>q\<in>Q - set (qs @ queues_of P). wqs s q = None"
    using J by (simp_all add: joining_def)
  have ts: "q \<in> set (queues_of ((p, qs) # P)) \<or> wqs s q = None" if "q \<in> set ts" for q
    using bspec [OF gone, of q] subsetD [OF Q that] by (cases "q \<in> set (qs @ queues_of P)") auto
  obtain k ts' where k: "fold_opt run_worker ts s = Some k"
    "ts' = filter (\<lambda>q. q \<in> set (queues_of ((p, qs) # P))) ts" "pools_live k ((p, qs) # P) (drained ts' W)"
    "mset (ran k) + pending (queues_of ((p, qs) # P)) (drained ts' W) =
      mset (ran s) + pending (queues_of ((p, qs) # P)) W" "workers_keep s k"
    by (rule workers_run [OF live ts], assumption, rule that)
  have "wq_threads U (qs @ queues_of P) k"
    by (rule wq_threads_keep [OF rcu]) (use k(5) workers_keep_wqs(2) [OF k(5)] in \<open>simp_all add: workers_keep_def\<close>)
  then have "joining U Q p qs P (drained ts' W) k"
    using J k(3,5) gone workers_keep_wqs(1) [OF k(5)] by (simp add: joining_def workers_keep_def)
  with k show ?thesis by (intro that [of k]) (simp_all add: workers_keep_def join_keeps_def)
qed

lemma join_turn:
  assumes J: "joining U Q p qs P W s" and ne: "qs \<noteq> []" and Q: "set (sched t) \<subseteq> Q"
  obtains s1 qs1 W1 progress1 where
    "join_turned sched t p P progress qs W s progress1 qs1 W1 s1" "joining U Q p qs1 P W1 s1"
proof -
  let ?W = "drained (filter (\<lambda>q. q \<in> set (qs @ queues_of P)) (sched t)) W"
  obtain r where r: "pools s p = Some r" "pcount r = of_nat (length qs)"
    using J by (auto simp: joining_def pools_live_Cons pool_live_def pool_ok_def)
  have nz: "pcount r \<noteq> 0" unfolding r(2) using of_nat_u32_0 [of "length qs"] J ne by (simp add: joining_def)
  obtain k where k: "fold_opt run_worker (sched t) s = Some k" "joining U Q p qs P ?W k"
    "mset (ran k) + pending (qs @ queues_of P) ?W = mset (ran s) + pending (qs @ queues_of P) W"
    "join_keeps p s k" "pools k p = pools s p"
    by (rule join_turn_workers [OF J Q], rule that)
  show ?thesis
  proof (cases "32 \<le> progress")
    case True
    have "mthpc_workqueues_join sched t p progress s = mthpc_workqueues_join sched (Suc t) p 0 k"
      using r(1) nz k(1) True by (subst mthpc_workqueues_join.simps) simp
    with True k show ?thesis by (intro that [of 0 qs ?W k]) (simp_all add: join_turned_def)
  next
    case False
    have K: "pools_live k ((p, qs) # P) ?W" "wq_threads U (qs @ queues_of P) k" "FreeList \<in> dom (lh k)"
      using k(2) by (simp_all add: joining_def)
    obtain s' where s': "join_pass p progress k = Some (progress + (if idle ?W qs = [] then 8 else 1), s')"
      "pools_live s' ((p, busy ?W qs) # P) ?W" "wq_threads U (busy ?W qs @ queues_of P) s'" "FreeList \<in> dom (lh s')" "ran s' = ran k"
      "join_keeps p k s'" "\<forall>q\<in>set (idle ?W qs). wqs s' q = None"
      "\<forall>x. x \<notin> set qs \<longrightarrow> wqs s' x = wqs k x"
      by (rule join_pass_ok [OF K], rule that)
    let ?pr = "progress + (if idle ?W qs = [] then 8 else 1)"
    have "mthpc_workqueues_join sched t p progress s = mthpc_workqueues_join sched (Suc t) p ?pr s'"
      using r(1) nz k(1) False s'(1) by (subst mthpc_workqueues_join.simps) simp
    then have "join_turned sched t p P progress qs W s ?pr (busy ?W qs) ?W s'"
      using False k(3) s'(5) join_keeps_trans [OF k(4) s'(6)] by (simp add: join_turned_def pending_busy)
    moreover have "wqs s' q = None" if "q \<in> Q - set (busy ?W qs @ queues_of P)" for q
      using that s'(7,8) k(2) set_busy_idle(3) [of ?W qs] by (cases "q \<in> set qs") (auto simp: joining_def)
    then have "joining U Q p (busy ?W qs) P ?W s'"
      using s'(2-4) k(2) length_busy_idle [of qs ?W] by (simp add: joining_def)
    ultimately show ?thesis by (rule that)
  qed
qed

lemma join_idle_quick:
  assumes J: "joining U Q p qs P W s" and pe: "pending qs W = {#}" and sched: "\<And>t. set (sched t) \<subseteq> Q"
    and pr: "\<not> 32 \<le> progress"
  shows "join_result U Q p P (pending (qs @ queues_of P) W) s (mthpc_workqueues_join sched t p progress s)"
proof (cases "qs = []")
  case True
  with join_done J show ?thesis by simp
next
  case False
  obtain s1 qs1 W1 progress1 where s1: "join_turned sched t p P progress qs W s progress1 qs1 W1 s1"
    "joining U Q p qs1 P W1 s1"
    by (rule join_turn [OF J False sched], rule that)
  have "pending qs W1 = {#}" using join_turned_pending(2) [OF s1(1)] pe by simp
  then have "qs1 = []" using s1(1) pr by (simp add: join_turned_def busy_def pending_empty filter_empty_conv)
  with join_done s1(2) show ?thesis by (intro join_turned_result [OF s1(1)]) simp
qed

lemma join_idle:
  assumes J: "joining U Q p qs P W s" and pe: "pending qs W = {#}" and sched: "\<And>t. set (sched t) \<subseteq> Q"
  shows "join_result U Q p P (pending (qs @ queues_of P) W) s (mthpc_workqueues_join sched t p progress s)"
proof (cases "32 \<le> progress \<and> qs \<noteq> []")
  case False
  then show ?thesis using join_idle_quick [where sched = sched, OF J pe sched] join_done J by auto
next
  case True
  then have ne: "qs \<noteq> []" by simp
  obtain s1 qs1 W1 progress1 where s1: "join_turned sched t p P progress qs W s progress1 qs1 W1 s1"
    "joining U Q p qs1 P W1 s1"
    by (rule join_turn [OF J ne sched], rule that)
  have "pending qs1 W1 = {#}" using join_turned_pending(1,2) [OF s1(1)] pe by simp
  moreover have "\<not> 32 \<le> progress1" using s1(1) True by (simp add: join_turned_def)
  ultimately show ?thesis
    by (intro join_turned_result [OF s1(1)] join_idle_quick [OF s1(2) _ sched])
qed

text \<open>
  A queue with a work is scheduled after \<open>d\<close> more turns; with every turn either a work has been run or
  the queue is one turn nearer to its own.
\<close>

lemma fair_pending:
  fixes t :: nat
  assumes "pending qs W \<noteq> {#}" "\<forall>q\<in>set qs. \<forall>t. \<exists>u\<ge>t. q \<in> set (sched u)"
  obtains q d where "q \<in> set qs" "W q \<noteq> []" "q \<in> set (sched (t + d))"
proof -
  obtain q where q: "q \<in> set qs" "W q \<noteq> []" using assms(1) by (auto simp: pending_empty)
  with assms(2) obtain u where "t \<le> u" "q \<in> set (sched u)" by blast
  with q show ?thesis by (intro that [of q "u - t"]) simp_all
qed

lemma join_scheduled:
  assumes sched: "\<And>t. set (sched t) \<subseteq> Q"
  shows "joining U Q p qs P W s \<Longrightarrow> \<forall>q\<in>set qs. \<forall>t. \<exists>u\<ge>t. q \<in> set (sched u) \<Longrightarrow>
    q \<in> set qs \<Longrightarrow> W q \<noteq> [] \<Longrightarrow> q \<in> set (sched (t + d)) \<Longrightarrow>
    join_result U Q p P (pending (qs @ queues_of P) W) s (mthpc_workqueues_join sched t p progress s)"
proof (induction "(size (pending qs W), d)" arbitrary: q d qs W s t progress
    rule: wf_induct_rule [OF wf_lex_prod [OF wf_less_than wf_less_than]])
  case less: 1
  have ne: "qs \<noteq> []" using less.prems(3) by auto
  obtain s1 qs1 W1 progress1 where s1: "join_turned sched t p P progress qs W s progress1 qs1 W1 s1"
    "joining U Q p qs1 P W1 s1"
    by (rule join_turn [OF less.prems(1) ne sched], rule that)
  note W1 = join_turned_pending [OF s1(1)]
  have fair: "\<forall>q\<in>set qs1. \<forall>t. \<exists>u\<ge>t. q \<in> set (sched u)" using less.prems(2) W1(3) by blast
  show ?case
  proof (rule join_turned_result [OF s1(1)])
    show "join_result U Q p P (pending (qs1 @ queues_of P) W1) s1 (mthpc_workqueues_join sched (Suc t) p progress1 s1)"
    proof (cases "size (pending qs W1) = size (pending qs W)")
      case True
      have D: "W1 = drained (filter (\<lambda>q. q \<in> set (qs @ queues_of P)) (sched t)) W"
        using s1(1) by (simp add: join_turned_def)
      note same = drained_same [OF True [unfolded D], folded D]
      have q1: "W1 q \<noteq> []" "q \<notin> set (sched t)" using same less.prems(3,4) by auto
      have q2: "q \<in> set qs1" using s1(1) less.prems(3) q1(1) by (auto simp: join_turned_def busy_def split: if_splits)
      obtain e where e: "d = Suc e" using less.prems(5) q1(2) by (cases d) auto
      show ?thesis
        by (rule less.hyps [OF _ s1(2) fair q2 q1(1), where d = e]) (use True W1(1) e less.prems(5) in simp_all)
    next
      case False
      with size_mset_mono [OF W1(2)] W1(1) have lt: "size (pending qs1 W1) < size (pending qs W)" by simp
      show ?thesis
      proof (cases "pending qs1 W1 = {#}")
        case True
        then show ?thesis by (rule join_idle [OF s1(2) _ sched])
      next
        case False
        obtain q' d' where "q' \<in> set qs1" "W1 q' \<noteq> []" "q' \<in> set (sched (Suc t + d'))"
          by (rule fair_pending [OF False fair, of "Suc t"], rule that)
        then show ?thesis using lt by (intro less.hyps [OF _ s1(2) fair]) simp_all
      qed
    qed
  qed
qed

lemma join_drains:
  assumes J: "joining U Q p qs P W s" and sched: "\<And>t. set (sched t) \<subseteq> Q"
    and fair: "\<forall>q\<in>set qs. \<forall>t. \<exists>u\<ge>t. q \<in> set (sched u)"
  shows "join_result U Q p P (pending (qs @ queues_of P) W) s (mthpc_workqueues_join sched t p progress s)"
proof (cases "pending qs W = {#}")
  case True
  then show ?thesis by (rule join_idle [OF J _ sched])
next
  case False
  obtain q d where "q \<in> set qs" "W q \<noteq> []" "q \<in> set (sched (t + d))"
    by (rule fair_pending [OF False fair, of t], rule that)
  then show ?thesis by (rule join_scheduled [OF sched J fair])
qed

end
