(* ===== verification/Wq_Schedule.thy ===== *)
theory Wq_Schedule
  imports Wq_Pools
begin

text \<open>
  Scheduling of \<open>src/workqueue/workqueue.c\<close> seen from outside: a call adds one work to the works
  that are still to run in its pool, whichever queue it takes, and leaves the other pools alone;
  without memory it leaves all of them alone.
\<close>

section \<open>The works of a pool\<close>

lemma pending_size: "q \<in> set qs \<Longrightarrow> length (W q) \<le> size (pending qs W)"
proof -
  assume "q \<in> set qs"
  then have "mset (W q) \<subseteq># pending qs W" by (simp add: pending_def sum.remove)
  then show ?thesis using size_mset_mono by fastforce
qed

lemma in_pending: "w \<in># pending qs W \<longleftrightarrow> (\<exists>q\<in>set qs. w \<in> set (W q))"
  by (simp add: pending_def set_mset_sum)

lemma pending_add: "q \<in> set qs \<Longrightarrow> pending qs (W(q := W q @ [w])) = add_mset w (pending qs W)"
  by (simp add: pending_def sum.remove [where x = q])

lemma pending_new: "q \<notin> set qs \<Longrightarrow> pending (qs @ [q]) (W(q := [w])) = add_mset w (pending qs W)"
  using pending_upd_other [of q qs W "[w]"] by (simp add: pending_def)

lemma pool_live_from_ok:
  assumes "pool_ok s p qs W" "\<And>q. q \<in> set qs \<Longrightarrow> map_option qfutex (wqs s q) \<noteq> Some 0"
  shows "pool_live s p qs W"
  using assms pool_wqs [OF assms(1)] unfolding pool_live_def by fastforce

lemma pool_live_futex: "pool_live s p qs W \<Longrightarrow> q \<in> set qs \<Longrightarrow> map_option qfutex (wqs s q) \<noteq> Some 0"
  by (auto simp: pool_live_def)

text \<open>A pool that a call leaves alone.\<close>

lemma pool_live_frame:
  assumes live: "pool_live s x qs W" and fr: "wq_frame p Q A s s'"
    and off: "x \<noteq> p" "set qs \<inter> Q = {}" "\<And>q. q \<in> set qs \<Longrightarrow> set (W q) \<inter> A = {}"
  shows "pool_live s' x qs W"
proof -
  have ok: "pool_ok s x qs W" using live by (simp add: pool_live_def)
  have q: "wqs s' q = wqs s q" if "q \<in> set qs" for q using wq_frameD(2) [OF fr] off(2) that by blast
  have "queue_ok s' x q (W q)" if qs: "q \<in> set qs" for q
  proof (rule queue_ok_same)
    show "queue_ok s x q (W q)" using ok qs by (simp add: pool_ok_def)
    show "wqs s' q = wqs s q" by (rule q [OF qs])
    show "lh s' a = lh s a" if "a \<in> insert (QueueHead q) (WorkNode ` set (W q))" for a
      by (rule wq_frameD(3) [OF fr]) (use that off(2) off(3) [OF qs] qs in auto)
    show "works s' w \<noteq> None" if "works s w \<noteq> None" for w
      using wq_frameD(5) [OF fr] that by (metis domIff)
  qed
  moreover have "clist (lh s') (PoolHead x) (map QueueNode qs)"
  proof (rule clist_same)
    show "clist (lh s) (PoolHead x) (map QueueNode qs)" using ok by (simp add: pool_ok_def)
    show "lh s' a = lh s a" if "a \<in> insert (PoolHead x) (set (map QueueNode qs))" for a
      by (rule wq_frameD(3) [OF fr]) (use that off(1,2) in auto)
  qed
  moreover have "pools s' x = pools s x" by (rule wq_frameD(1) [OF fr off(1)])
  ultimately have "pool_ok s' x qs W" using ok by (simp add: pool_ok_def)
  then show ?thesis using pool_live_futex [OF live] q by (intro pool_live_from_ok) simp_all
qed

lemma pool_live_cong: "(\<And>q. q \<in> set qs \<Longrightarrow> W q = V q) \<Longrightarrow> pool_live s p qs W = pool_live s p qs V"
  by (simp add: pool_live_def pool_ok_def)

lemma works_apart_cong: "(\<And>q. q \<in> A \<union> B \<Longrightarrow> W q = V q) \<Longrightarrow> works_apart W A B = works_apart V A B"
  by (simp add: works_apart_def)

lemma frame_fresh:
  assumes "wq_frame p Q A s s'" "x \<notin> Q"
  shows "wq_is_fresh s' x = wq_is_fresh s x"
proof -
  have "lh s' (QueueHead x) = lh s (QueueHead x)" "lh s' (QueueNode x) = lh s (QueueNode x)"
    "wqs s' x = wqs s x"
    by (rule wq_frameD [OF assms(1)], use assms(2) in auto)+
  then show ?thesis by (simp add: wq_is_fresh_def domIff)
qed

section \<open>Scheduling in a pool\<close>

text \<open>The call uses the queues of the pool, or adds one whose worker has registered.\<close>

definition sched_queues ::
  "sched_env \<Rightarrow> u32 \<Rightarrow> u64 set \<Rightarrow> nat list \<Rightarrow> wq_sys \<Rightarrow> nat list \<Rightarrow> wq_sys \<Rightarrow> bool" where
  "sched_queues env cpu T qs s qs' s' \<longleftrightarrow>
     (qs' = qs \<and> rcu_threads T (rcu s') \<and> dom (nodes (rcu s')) = dom (nodes (rcu s))) \<or>
     (qs' = qs @ [wq_fresh env] \<and> wq_fresh env \<noteq> 0 \<and> wq_tid s' (wq_fresh env) = wtid env \<and>
      wq_cpu s' (wq_fresh env) = new_cpu env cpu \<and> (\<forall>q\<in>set qs. wq_cpu s q \<noteq> new_cpu env cpu) \<and>
      rcu_threads (insert (wtid env) T) (rcu s') \<and>
      dom (nodes (rcu s')) = insert (worker_node env) (dom (nodes (rcu s))))"

lemma sched_queues_set: "sched_queues env cpu T qs s qs' s' \<Longrightarrow> set qs \<subseteq> set qs' \<and> set qs' \<subseteq> insert (wq_fresh env) (set qs)"
  by (auto simp: sched_queues_def)

text \<open>On the fast path the pool keeps its queues, on the slow path it may have a new one.\<close>

lemma schedule_fast_live:
  assumes live: "pool_live s p qs W" and free: "work_free s qs W w" and T: "rcu_threads T (rcu s)" "self env \<in> T"
    and rm: "\<forall>q\<in>set qs. length (W q) < 2 ^ 32 - 1" and pick: "pick_queue cpu (wqs s) qs = Some q"
  obtains s' where "q \<in> set qs" "schedule_work_on env p cpu w s = Some (0, s')" "pool_live s' p qs (W(q := W q @ [w]))"
    "sched_queues env cpu T qs s qs s'" "wq_frame p (set qs) (set_mset (pending qs (W(q := W q @ [w])))) s s'"
proof -
  let ?W = "W(q := W q @ [w])"
  have ok: "pool_ok s p qs W" using live by (simp add: pool_live_def)
  have q: "q \<in> set qs" using pick by (auto simp: pick_queue_def find_Some_iff)
  obtain s' where s': "schedule_work_on env p cpu w s = Some (0, s')" "pool_ok s' p qs ?W"
    "map_option qfutex (wqs s' q) = Some 1"
    "\<And>x. x \<noteq> q \<Longrightarrow> map_option qfutex (wqs s' x) = map_option qfutex (wqs s x)"
    "rcu_pass (self env) (rcu s) (rcu s')" "wq_frame p {q} (insert w (set (W q))) s s'"
    by (rule schedule_fast_ok [OF ok free rcu_threads_ready [OF T] rm pick], rule that)
  have "pool_live s' p qs ?W"
  proof (rule pool_live_from_ok [OF s'(2)])
    show "map_option qfutex (wqs s' x) \<noteq> Some 0" if "x \<in> set qs" for x
      using s'(3,4) pool_live_futex [OF live that] by (cases "x = q") auto
  qed
  moreover have "wq_frame p (set qs) (set_mset (pending qs ?W)) s s'"
    by (rule wq_frame_mono [OF s'(6)]) (use q in \<open>auto simp: pending_add [OF q] in_pending\<close>)
  moreover have "sched_queues env cpu T qs s qs s'"
    using rcu_threads_pass [OF T s'(5)] by (simp add: sched_queues_def)
  ultimately show ?thesis using that q s'(1) by blast
qed

lemma schedule_slow_live:
  assumes live: "pool_live s p qs W" and free: "work_free s qs W w"
    and T: "rcu_threads T (rcu s)" "self env \<in> T" "worker_env T (rcu s) env"
    and rm: "\<forall>q\<in>set qs. length (W q) < 2 ^ 32 - 1" and fresh: "wq_is_fresh s (wq_fresh env)"
    and pick: "pick_queue cpu (wqs s) qs = None" and nq: "wq_fresh env \<notin> set qs"
  obtains (failed) s' where "wq_fresh env = 0" "schedule_work_on env p cpu w s = Some (- ENOMEM, s')"
      "pool_live s' p qs W" "rcu_threads T (rcu s')" "dom (nodes (rcu s')) = dom (nodes (rcu s))"
      "wq_frame p (set qs) {w} s s'"
  | (queued) s' where "schedule_work_on env p cpu w s = Some (0, s')"
      "pool_live s' p (qs @ [wq_fresh env]) (W(wq_fresh env := [w]))" "sched_queues env cpu T qs s (qs @ [wq_fresh env]) s'"
      "wq_frame p (set (qs @ [wq_fresh env])) (set_mset (pending (qs @ [wq_fresh env]) (W(wq_fresh env := [w])))) s s'"
proof -
  let ?f = "wq_fresh env" and ?W = "W(wq_fresh env := [w])"
  have ok: "pool_ok s p qs W" using live by (simp add: pool_live_def)
  note fut = pool_live_futex [OF live]
  show ?thesis
  proof (rule schedule_slow_ok [OF ok free T(1) rm pick fresh T(2,3)])
    fix h m assume s': "?f = 0" "schedule_work_on env p cpu w s = Some (- ENOMEM, s\<lparr>lh := h, rcu := m\<rparr>)"
      "pool_ok (s\<lparr>lh := h, rcu := m\<rparr>) p qs W" "rcu_pass (self env) (rcu s) m" "agree_off {WorkNode w} (lh s) h"
    have "pool_live (s\<lparr>lh := h, rcu := m\<rparr>) p qs W"
      using fut by (intro pool_live_from_ok [OF s'(3)]) simp
    moreover have "wq_frame p (set qs) {w} s (s\<lparr>lh := h, rcu := m\<rparr>)"
      using s'(5) agree_off_dom [OF s'(5)] by (auto simp: wq_frame_def agree_off_def)
    ultimately show ?thesis
      using s'(1,2) rcu_threads_pass [OF T(1,2) s'(4)] by (intro failed [of "s\<lparr>lh := h, rcu := m\<rparr>"]) simp_all
  next
    fix s' assume s': "schedule_work_on env p cpu w s = Some (0, s')" "?f \<noteq> 0"
      "pool_ok s' p (qs @ [?f]) ?W" "map_option qfutex (wqs s' ?f) = Some 1"
      "\<And>x. x \<noteq> ?f \<Longrightarrow> wqs s' x = wqs s x" "wq_frame p (set (qs @ [?f])) {w} s s'"
      "map_option (\<lambda>r. mthpc_wq_get_cpu (actived_cpu r)) (wqs s' ?f) = Some (new_cpu env cpu)"
      "map_option qtid (wqs s' ?f) = Some (wtid env)" "rcu_threads (insert (wtid env) T) (rcu s')"
      "dom (nodes (rcu s')) = insert (worker_node env) (dom (nodes (rcu s)))"
    have "pool_live s' p (qs @ [?f]) ?W"
    proof (rule pool_live_from_ok [OF s'(3)])
      show "map_option qfutex (wqs s' x) \<noteq> Some 0" if "x \<in> set (qs @ [?f])" for x
        using s'(4,5) fut [of x] that by (cases "x = ?f") auto
    qed
    moreover have "wq_frame p (set (qs @ [?f])) (set_mset (pending (qs @ [?f]) ?W)) s s'"
      by (rule wq_frame_mono [OF s'(6)]) (simp_all add: pending_new [OF nq])
    moreover have "wq_cpu s q \<noteq> new_cpu env cpu" if "q \<in> set qs" for q
      using pick that pool_wqs [OF ok that]
      by (auto simp: pick_queue_def find_None_iff fast_match_def new_cpu_def wq_cpu_def mask_3)
    then have "sched_queues env cpu T qs s (qs @ [?f]) s'"
      using s'(2,7-10) by (auto simp: sched_queues_def wq_tid_def wq_cpu_def)
    ultimately show ?thesis using s'(1) by (intro queued [of s'])
  qed
qed

lemma schedule_live:
  assumes live: "pool_live s p qs W" and w: "works s w \<noteq> None" "WorkNode w \<in> dom (lh s)" "w \<notin># pending qs W"
    and T: "rcu_threads T (rcu s)" "self env \<in> T" "worker_env T (rcu s) env"
    and room: "size (pending qs W) < 2 ^ 32 - 1" and fresh: "wq_is_fresh s (wq_fresh env)"
  obtains (failed) s' where "wq_fresh env = 0" "schedule_work_on env p cpu w s = Some (- ENOMEM, s')"
      "pool_live s' p qs W" "rcu_threads T (rcu s')" "dom (nodes (rcu s')) = dom (nodes (rcu s))"
      "wq_frame p (set qs) {w} s s'"
  | (queued) s' qs' W' where "schedule_work_on env p cpu w s = Some (0, s')" "pool_live s' p qs' W'"
      "pending qs' W' = add_mset w (pending qs W)" "sched_queues env cpu T qs s qs' s'"
      "\<And>q. q \<notin> set qs' \<Longrightarrow> W' q = W q" "wq_frame p (set qs') (set_mset (pending qs' W')) s s'"
proof -
  have free: "work_free s qs W w" using w by (simp add: work_free_def in_pending)
  have rm: "\<forall>q\<in>set qs. length (W q) < 2 ^ 32 - 1" using pending_size [of _ qs W] room by fastforce
  show ?thesis
  proof (cases "pick_queue cpu (wqs s) qs")
    case (Some q)
    obtain s' where "q \<in> set qs" "schedule_work_on env p cpu w s = Some (0, s')"
      "pool_live s' p qs (W(q := W q @ [w]))" "sched_queues env cpu T qs s qs s'"
      "wq_frame p (set qs) (set_mset (pending qs (W(q := W q @ [w])))) s s'"
      by (rule schedule_fast_live [OF live free T(1,2) rm Some], rule that)
    then show ?thesis by (intro queued [of s' qs "W(q := W q @ [w])"]) (auto simp: pending_add)
  next
    case None
    have nq: "wq_fresh env \<notin> set qs" using fresh pool_live_queue [OF live] by (fastforce simp: wq_is_fresh_def)
    show ?thesis
    proof (cases rule: schedule_slow_live [OF live free T rm fresh None nq])
      case (1 s')
      then show ?thesis by (rule failed)
    next
      case (2 s')
      then show ?thesis
        by (intro queued [of s' "qs @ [wq_fresh env]" "W(wq_fresh env := [w])"]) (simp_all add: pending_new [OF nq])
    qed
  qed
qed

section \<open>Scheduling beside other pools\<close>

text \<open>Pools with their queues, given by a function.\<close>

definition pool_list :: "nat list \<Rightarrow> (nat \<Rightarrow> nat list) \<Rightarrow> (nat \<times> nat list) list" where
  "pool_list ps Qs = map (\<lambda>p. (p, Qs p)) ps"

lemma queues_of_pool_list: "set (queues_of (pool_list ps Qs)) = (\<Union>p\<in>set ps. set (Qs p))"
  by (auto simp: queues_of_def pool_list_def)

lemma pools_live_list:
  "pools_live s (pool_list ps Qs) W \<longleftrightarrow> (\<forall>p\<in>set ps. pool_live s p (Qs p) W) \<and> distinct ps \<and>
     works_apart W (\<Union>p\<in>set ps. set (Qs p)) (\<Union>p\<in>set ps. set (Qs p))"
  unfolding pools_live_def queues_of_pool_list by (auto simp: pool_list_def comp_def)

lemma pool_lists_apart:
  assumes "pools_live s (pool_list ps Qs) W" "p \<in> set ps" "x \<in> set ps" "x \<noteq> p"
  shows "set (Qs x) \<inter> set (Qs p) = {}"
proof -
  have "pool_live s p (Qs p) W" "pool_live s x (Qs x) W" using assms(1-3) by (simp_all add: pools_live_list)
  then have "qwp (the (wqs s q)) = p" if "q \<in> set (Qs p)" for q using that by (auto dest: pool_live_queue)
  moreover have "qwp (the (wqs s q)) = x" if "q \<in> set (Qs x)" for q
    using \<open>pool_live s x (Qs x) W\<close> that by (auto dest: pool_live_queue)
  ultimately show ?thesis using assms(4) by blast
qed

lemma pending_pools:
  assumes "pools_live s (pool_list ps Qs) W"
  shows "pending (queues_of (pool_list ps Qs)) W = (\<Sum>p\<in>set ps. pending (Qs p) W)"
  unfolding pending_def queues_of_pool_list
  by (rule sum.UNION_disjoint) (use pool_lists_apart [OF assms] in auto)

lemma pending_pools_upd:
  assumes "pools_live s (pool_list ps Qs) W" "pools_live s' (pool_list ps (Qs(p := qs'))) W'" "p \<in> set ps"
    and "pending qs' W' = add_mset w (pending (Qs p) W)"
    and "\<And>x q. x \<in> set ps \<Longrightarrow> x \<noteq> p \<Longrightarrow> q \<in> set (Qs x) \<Longrightarrow> W' q = W q"
  shows "pending (queues_of (pool_list ps (Qs(p := qs')))) W' = add_mset w (pending (queues_of (pool_list ps Qs)) W)"
proof -
  have "pending (Qs x) W' = pending (Qs x) W" if "x \<in> set ps - {p}" for x
    unfolding pending_def by (rule sum.cong) (use assms(5) that in auto)
  then show ?thesis
    unfolding pending_pools [OF assms(1)] pending_pools [OF assms(2)]
    using assms(3,4) by (simp add: sum.remove [where x = p])
qed

text \<open>The other pools do not notice a call in the pool \<open>p\<close>, which has added the work \<open>w\<close> to it.\<close>

lemma pool_lists_works:
  assumes "pools_live s (pool_list ps Qs) W" "p \<in> set ps" "x \<in> set ps" "x \<noteq> p" "q \<in> set (Qs x)" "y \<in> set (Qs p)"
  shows "set (W q) \<inter> set (W y) = {}"
proof -
  have "set (Qs x) \<inter> set (Qs p) = {}" by (rule pool_lists_apart [OF assms(1-4)])
  then show ?thesis
    by (intro works_apartD [where A = "\<Union>p\<in>set ps. set (Qs p)" and B = "\<Union>p\<in>set ps. set (Qs p)"])
      (use assms in \<open>auto simp: pools_live_list\<close>)
qed

lemma pools_live_failed:
  assumes live: "pools_live s (pool_list ps Qs) W" and p: "p \<in> set ps"
    and w: "w \<notin># pending (queues_of (pool_list ps Qs)) W"
    and s': "pool_live s' p (Qs p) W" "wq_frame p (set (Qs p)) {w} s s'"
  shows "pools_live s' (pool_list ps Qs) W"
proof -
  note L = live [unfolded pools_live_list]
  have "pool_live s' x (Qs x) W" if x: "x \<in> set ps" for x
  proof (cases "x = p")
    case False
    have "w \<notin> set (W q)" if "q \<in> set (Qs x)" for q
      using w x that unfolding in_pending queues_of_pool_list by blast
    then show ?thesis
      by (intro pool_live_frame [OF _ s'(2) False pool_lists_apart [OF live p x False]]) (use L x in auto)
  qed (use s'(1) in simp)
  with L show ?thesis by (simp add: pools_live_list)
qed

lemma pools_live_queued:
  assumes live: "pools_live s (pool_list ps Qs) W" and p: "p \<in> set ps"
    and w: "w \<notin># pending (queues_of (pool_list ps Qs)) W"
    and s': "pool_live s' p qs' W'" "pending qs' W' = add_mset w (pending (Qs p) W)"
      "\<And>x. x \<in> set ps \<Longrightarrow> x \<noteq> p \<Longrightarrow> set (Qs x) \<inter> set qs' = {}" "\<And>q. q \<notin> set qs' \<Longrightarrow> W' q = W q"
      "wq_frame p (set qs') (set_mset (pending qs' W')) s s'"
  shows "pools_live s' (pool_list ps (Qs(p := qs'))) W'"
proof -
  let ?Q = "Qs(p := qs')" and ?R = "\<Union>x\<in>set ps - {p}. set (Qs x)"
  note L = live [unfolded pools_live_list]
  have same: "W' q = W q" if "x \<in> set ps" "x \<noteq> p" "q \<in> set (Qs x)" for x q
    by (rule s'(4)) (use s'(3) [OF that(1,2)] that(3) in blast)
  have cross: "set (W q) \<inter> set_mset (pending qs' W') = {}" if "x \<in> set ps" "x \<noteq> p" "q \<in> set (Qs x)" for x q
  proof -
    have "w \<notin> set (W q)" using w that(1,3) unfolding in_pending queues_of_pool_list by blast
    moreover have "set (W q) \<inter> set_mset (pending (Qs p) W) = {}"
      using pool_lists_works [OF live p that] unfolding disjoint_iff in_pending by blast
    ultimately show ?thesis unfolding s'(2) by simp
  qed
  have "pool_live s' x (?Q x) W'" if x: "x \<in> set ps" for x
  proof (cases "x = p")
    case False
    have "pool_live s' x (Qs x) W"
      by (rule pool_live_frame [OF _ s'(5) False s'(3) [OF x False] cross [OF x False]]) (use L x in simp_all)
    then show ?thesis using same [OF x False] False by (subst pool_live_cong [where V = W]) simp_all
  qed (use s'(1) in simp)
  moreover have "works_apart W' (\<Union>x\<in>set ps. set (?Q x)) (\<Union>x\<in>set ps. set (?Q x))"
  proof -
    have "works_apart W ?R ?R" by (rule works_apart_sub [of W]) (use L in auto)
    then have "works_apart W' ?R ?R" using same by (subst works_apart_cong [where V = W]) auto
    moreover have "set (W' y) \<inter> set (W' q) = {}" if "y \<in> set qs'" "x \<in> set ps - {p}" "q \<in> set (Qs x)" for y x q
    proof -
      have "set (W' y) \<subseteq> set_mset (pending qs' W')" using that(1) by (auto simp: in_pending)
      then show ?thesis using cross [of x q] same [of x q] that by auto
    qed
    then have "works_apart W' (set qs') ?R" by (simp add: works_apart_def)
    moreover have "(\<Union>x\<in>set ps. set (?Q x)) = set qs' \<union> ?R" using p by (auto split: if_splits)
    ultimately show ?thesis using pool_live_apart [OF s'(1)] by (simp only: works_apart_Un)
  qed
  ultimately show ?thesis using L by (simp add: pools_live_list)
qed

lemma schedule_pools:
  assumes live: "pools_live s (pool_list ps Qs) W" and p: "p \<in> set ps"
    and w: "works s w \<noteq> None" "WorkNode w \<in> dom (lh s)" "w \<notin># pending (queues_of (pool_list ps Qs)) W"
    and T: "rcu_threads T (rcu s)" "self env \<in> T" "worker_env T (rcu s) env"
    and room: "size (pending (queues_of (pool_list ps Qs)) W) < 2 ^ 32 - 1"
    and fresh: "wq_is_fresh s (wq_fresh env)"
  obtains (failed) s' where "wq_fresh env = 0" "schedule_work_on env p cpu w s = Some (- ENOMEM, s')"
      "pools_live s' (pool_list ps Qs) W" "rcu_threads T (rcu s')" "dom (nodes (rcu s')) = dom (nodes (rcu s))"
      "wq_frame p (set (Qs p)) {w} s s'"
  | (queued) s' qs' W' A where "schedule_work_on env p cpu w s = Some (0, s')"
      "pools_live s' (pool_list ps (Qs(p := qs'))) W'"
      "pending (queues_of (pool_list ps (Qs(p := qs')))) W' = add_mset w (pending (queues_of (pool_list ps Qs)) W)"
      "sched_queues env cpu T (Qs p) s qs' s'" "wq_frame p (set qs') A s s'"
proof -
  note L = live [unfolded pools_live_list]
  have live_p: "pool_live s x (Qs x) W" if "x \<in> set ps" for x using L that by simp
  have wp: "w \<notin># pending (Qs p) W" using w(3) p unfolding in_pending queues_of_pool_list by blast
  have "pending (queues_of (pool_list ps Qs)) W = pending (Qs p) W + (\<Sum>x\<in>set ps - {p}. pending (Qs x) W)"
    unfolding pending_pools [OF live] using p by (simp add: sum.remove)
  then have room_p: "size (pending (Qs p) W) < 2 ^ 32 - 1" using room by simp
  show ?thesis
  proof (rule schedule_live [OF live_p [OF p] w(1,2) wp T room_p fresh])
    fix s' assume s': "wq_fresh env = 0" "schedule_work_on env p cpu w s = Some (- ENOMEM, s')"
      "pool_live s' p (Qs p) W" "rcu_threads T (rcu s')" "dom (nodes (rcu s')) = dom (nodes (rcu s))"
      "wq_frame p (set (Qs p)) {w} s s'"
    show ?thesis by (rule failed [OF s'(1,2) pools_live_failed [OF live p w(3) s'(3,6)] s'(4-6)])
  next
    fix s' qs' W' assume s': "schedule_work_on env p cpu w s = Some (0, s')" "pool_live s' p qs' W'"
      "pending qs' W' = add_mset w (pending (Qs p) W)" "sched_queues env cpu T (Qs p) s qs' s'"
      "\<And>q. q \<notin> set qs' \<Longrightarrow> W' q = W q"
      "wq_frame p (set qs') (set_mset (pending qs' W')) s s'"
    have nf: "wq_fresh env \<notin> set (Qs x)" if "x \<in> set ps" for x
      using pool_live_queue [OF live_p [OF that]] fresh by (fastforce simp: wq_is_fresh_def)
    have dj: "set (Qs x) \<inter> set qs' = {}" if "x \<in> set ps" "x \<noteq> p" for x
      using sched_queues_set [OF s'(4)] nf [OF that(1)] pool_lists_apart [OF live p that] by blast
    have same: "W' q = W q" if "x \<in> set ps" "x \<noteq> p" "q \<in> set (Qs x)" for x q
      by (rule s'(5)) (use dj [OF that(1,2)] that(3) in blast)
    have live': "pools_live s' (pool_list ps (Qs(p := qs'))) W'"
      by (rule pools_live_queued [OF live p w(3) s'(2,3) dj s'(5,6)])
    show ?thesis
      by (rule queued [OF s'(1) live' pending_pools_upd [OF live live' p s'(3) same] s'(4,6)])
  qed
qed

text \<open>Every queue still has its worker, and a new one has its own.\<close>

lemma frame_tid:
  assumes "wq_frame p Q A s s'" "wqs s q \<noteq> None"
  shows "wq_tid s' q = wq_tid s q" "wq_cpu s' q = wq_cpu s q"
  using wq_ident_tid [of s' q s] wq_frameD(8) [OF assms(1)] assms(2) by (cases "wqs s q"; simp)+

lemma sched_threads:
  assumes wt: "wq_threads U qs s" and T: "T = U \<union> wq_tid s ` set qs" and env: "worker_env T (rcu s) env"
    and sq: "sched_queues env cpu T q0 s q1 s'" and fr: "wq_frame p Q A s s'"
    and qs: "\<And>q. q \<in> set qs \<Longrightarrow> wqs s q \<noteq> None"
      "q1 = q0 \<Longrightarrow> set qs' = set qs" "q1 = q0 @ [wq_fresh env] \<Longrightarrow> set qs' = insert (wq_fresh env) (set qs)"
    and fresh: "wq_fresh env \<notin> set qs"
  shows "wq_threads U qs' s'"
proof -
  let ?f = "wq_fresh env"
  note w = wq_threadsD [OF wt]
  have tid: "wq_tid s' q = wq_tid s q" if "q \<in> set qs" for q by (rule frame_tid(1) [OF fr qs(1) [OF that]])
  have img: "wq_tid s' ` set qs = wq_tid s ` set qs" by (rule image_cong) (simp_all add: tid)
  have inj: "inj_on (wq_tid s') (set qs)"
    using w(2) inj_on_cong [of "set qs" "wq_tid s'" "wq_tid s"] tid by blast
  from sq consider "q1 = q0" "rcu_threads T (rcu s')"
    | "q1 = q0 @ [?f]" "wq_tid s' ?f = wtid env" "rcu_threads (insert (wtid env) T) (rcu s')"
    by (auto simp: sched_queues_def)
  then show ?thesis
  proof cases
    case 1
    with qs(2) img inj w(3) T show ?thesis by (simp add: wq_threads_def)
  next
    case 2
    have "wtid env \<notin> T" using env by (auto simp: worker_env_def)
    with 2 qs(3) img inj w(3) T fresh show ?thesis by (simp add: wq_threads_def)
  qed
qed

text \<open>The queues of all pools, before and after.\<close>

lemma sched_pools_threads:
  assumes wt: "wq_threads U (queues_of (pool_list ps Qs)) s" and live: "pools_live s (pool_list ps Qs) W" and p: "p \<in> set ps"
    and T: "T = U \<union> wq_tid s ` set (queues_of (pool_list ps Qs))" and env: "worker_env T (rcu s) env"
    and sq: "sched_queues env cpu T (Qs p) s qs' s'" and fr: "wq_frame p Q A s s'" and fresh: "wq_is_fresh s (wq_fresh env)"
  shows "wq_threads U (queues_of (pool_list ps (Qs(p := qs')))) s'"
proof (rule sched_threads [OF wt T env sq fr])
  have q: "wqs s q \<noteq> None" if "q \<in> set (queues_of (pool_list ps Qs))" for q
    using pools_live_queue [OF live that] by auto
  then show "wqs s q \<noteq> None" if "q \<in> set (queues_of (pool_list ps Qs))" for q using that .
  show "wq_fresh env \<notin> set (queues_of (pool_list ps Qs))" using q [of "wq_fresh env"] fresh unfolding wq_is_fresh_def by metis
qed (use p in \<open>auto simp: queues_of_pool_list split: if_splits\<close>)

section \<open>The cores of the queues\<close>

text \<open>There is one queue per core, so there are at most four.\<close>

definition wq_apart :: "nat list \<Rightarrow> wq_sys \<Rightarrow> bool" where
  "wq_apart qs s \<longleftrightarrow> inj_on (wq_cpu s) (set qs)"

lemma wq_cpu_le: "wq_cpu s q \<le> 3"
  by (simp add: wq_cpu_def mthpc_wq_get_cpu_def word_and_le1 flip: mask_3)

lemma wq_apart_card:
  assumes "wq_apart qs s"
  shows "card (set qs) \<le> 4"
proof -
  have "wq_cpu s ` set qs \<subseteq> {0..3}" using wq_cpu_le by auto
  also have "{0..3} \<subseteq> {0, 1, 2, 3 :: u32}"
  proof
    fix c :: u32 assume "c \<in> {0..3}"
    then have "unat c = 0 \<or> unat c = 1 \<or> unat c = 2 \<or> unat c = 3" by (auto simp: word_le_nat_alt)
    then show "c \<in> {0, 1, 2, 3}" by (auto dest: arg_cong [where f = "of_nat :: nat \<Rightarrow> u32"])
  qed
  finally have "card (wq_cpu s ` set qs) \<le> card {0, 1, 2, 3 :: u32}" by (rule card_mono [rotated]) simp
  then show ?thesis using assms by (simp add: wq_apart_def card_image)
qed

lemma wq_apart_keep:
  "wq_apart qs s \<Longrightarrow> (\<And>q. q \<in> set qs \<Longrightarrow> wq_cpu s' q = wq_cpu s q) \<Longrightarrow> wq_apart qs s'"
  by (metis inj_on_cong wq_apart_def)

lemma sched_apart:
  assumes apart: "wq_apart q0 s" and sq: "sched_queues env cpu T q0 s q1 s'" and fr: "wq_frame p Q A s s'"
    and qs: "\<And>q. q \<in> set q0 \<Longrightarrow> wqs s q \<noteq> None" and fresh: "wq_fresh env \<notin> set q0"
  shows "wq_apart q1 s'"
proof -
  have cpu: "wq_cpu s' q = wq_cpu s q" if "q \<in> set q0" for q by (rule frame_tid(2) [OF fr qs [OF that]])
  have old: "wq_apart q0 s'" by (rule wq_apart_keep [OF apart cpu])
  show ?thesis
    using sq unfolding sched_queues_def
  proof (elim disjE conjE)
    assume new: "q1 = q0 @ [wq_fresh env]" "wq_cpu s' (wq_fresh env) = new_cpu env cpu"
      "\<forall>q\<in>set q0. wq_cpu s q \<noteq> new_cpu env cpu"
    have "wq_cpu s' (wq_fresh env) \<notin> wq_cpu s' ` set q0" using new(2,3) cpu by auto
    then show ?thesis using old fresh new(1) by (simp add: wq_apart_def)
  qed (use old in simp)
qed

end
