(* ===== verification/Wq_Exit.thy ===== *)
theory Wq_Exit
  imports Wq_Join Wq_Schedule
begin

text \<open>
  The start and the end of the workqueue module, \<open>src/workqueue/workqueue.c\<close>: the constructor
  sets up the three pools, the destructor ends them one after the other, while the workers of
  the later pools go on.
\<close>

section \<open>Pools and module\<close>

definition mthpc_workpool_init :: "nat \<Rightarrow> wq_sys \<Rightarrow> wq_sys option" where
  "mthpc_workpool_init p s =
     with_lh (mthpc_list_init (PoolHead p)) (s\<lparr>pools := (pools s)(p \<mapsto> \<lparr>pcount = 0, plock = spin_lock_init\<rparr>)\<rparr>)"

definition mthpc_workpool_exit :: "(nat \<Rightarrow> nat list) \<Rightarrow> nat \<Rightarrow> wq_sys \<Rightarrow> wq_sys option" where
  "mthpc_workpool_exit sched p s = do {
     m \<leftarrow> mthpc_synchronize_rcu (rcu s);
     s \<leftarrow> mthpc_workqueues_join sched 0 p 0 (s\<lparr>rcu := m\<rparr>);
     s \<leftarrow> upd_pool p (\<lambda>r. do { l \<leftarrow> spin_lock_destroy (plock r); Some (r\<lparr>plock := l\<rparr>) }) s;
     r \<leftarrow> pools s p;
     Some (wq_warn (pcount r \<noteq> 0) s) }"

definition mthpc_workqueue_init :: "wq_sys \<Rightarrow> wq_sys option" where
  "mthpc_workqueue_init s = do {
     s \<leftarrow> mthpc_workpool_init mthpc_workpool s;
     s \<leftarrow> mthpc_workpool_init mthpc_thread_wp s;
     mthpc_workpool_init mthpc_taskflow_wp s }"

definition mthpc_workqueue_exit :: "(nat \<Rightarrow> nat \<Rightarrow> nat list) \<Rightarrow> wq_sys \<Rightarrow> wq_sys option" where
  "mthpc_workqueue_exit sched s = do {
     s \<leftarrow> mthpc_workpool_exit (sched mthpc_workpool) mthpc_workpool s;
     s \<leftarrow> mthpc_workpool_exit (sched mthpc_thread_wp) mthpc_thread_wp s;
     mthpc_workpool_exit (sched mthpc_taskflow_wp) mthpc_taskflow_wp s }"

section \<open>The end of a pool and of the module\<close>

lemma workpool_exit_ok:
  assumes live: "pools_live s ((p, qs) # P) W" and rcu: "wq_threads U (qs @ queues_of P) s"
    and fd: "FreeList \<in> dom (lh s)"
    and len: "length qs < 2 ^ 32" and gone: "\<forall>q\<in>Q - set (qs @ queues_of P). wqs s q = None"
    and sched: "\<And>t. set (sched t) \<subseteq> Q" "\<forall>q\<in>set qs. \<forall>t. \<exists>u\<ge>t. q \<in> set (sched u)"
  obtains s' W' where "mthpc_workpool_exit sched p s = Some s'" "pools_live s' P W'" "wq_threads U (queues_of P) s'"
    "FreeList \<in> dom (lh s')" "\<forall>q\<in>Q - set (queues_of P). wqs s' q = None"
    "mset (ran s') + pending (queues_of P) W' = mset (ran s) + pending (qs @ queues_of P) W"
    "pools s' p = Some \<lparr>pcount = 0, plock = Destroyed\<rparr>" "join_keeps p s s'"
proof -
  obtain m where m: "mthpc_synchronize_rcu (rcu s) = Some m"
    "rcu_threads (U \<union> wq_tid s ` set (qs @ queues_of P)) m"
    by (rule rcu_threads_synchronize [OF wq_threadsD(1) [OF rcu]], rule that)
  let ?s = "s\<lparr>rcu := m\<rparr>"
  have "pools_live ?s ((p, qs) # P) W"
    by (rule pools_live_keep [OF live]) (use pools_live_rings [OF live] in simp_all)
  moreover have "wq_threads U (qs @ queues_of P) ?s" using rcu m(2) by (simp add: wq_threads_def)
  ultimately have "joining U Q p qs P W ?s" using fd len gone by (simp add: joining_def)
  then have "join_result U Q p P (pending (qs @ queues_of P) W) ?s (mthpc_workqueues_join sched 0 p 0 ?s)"
    by (rule join_drains [OF _ sched])
  then obtain k W' where k: "mthpc_workqueues_join sched 0 p 0 ?s = Some k" "joining U Q p [] P W' k"
    "mset (ran k) + pending (queues_of P) W' = mset (ran ?s) + pending (qs @ queues_of P) W" "join_keeps p ?s k"
    unfolding join_result_def by blast
  have live': "pools_live k ((p, []) # P) W'" and rest: "wq_threads U (queues_of P) k" "FreeList \<in> dom (lh k)"
    "\<forall>q\<in>Q - set (queues_of P). wqs k q = None"
    using k(2) by (simp_all add: joining_def)
  obtain r where "pools k p = Some r" "plock r = Unlocked" "pcount r = 0"
    using live' by (auto simp: pools_live_Cons pool_live_def pool_ok_def)
  then have r: "pools k p = Some \<lparr>pcount = 0, plock = Unlocked\<rparr>" by (cases r) simp
  let ?r = "\<lparr>pcount = 0, plock = Destroyed\<rparr>"
  let ?k = "k\<lparr>pools := (pools k)(p \<mapsto> ?r)\<rparr>"
  have run: "mthpc_workpool_exit sched p s = Some ?k"
    using m(1) k(1) r by (simp add: mthpc_workpool_exit_def upd_pool_def wq_warn_def)
  have P: "pools_live k P W'" "p \<notin> fst ` set P" using live' by (simp_all add: pools_live_Cons)
  have "pools_live ?k P W'"
    by (rule pools_live_keep [OF P(1)]) (use pools_live_rings [OF P(1)] P(2) in auto)
  moreover have "wq_threads U (queues_of P) ?k"
    by (rule wq_threads_keep [OF rest(1)]) (simp_all add: wq_tid_def)
  ultimately show ?thesis
    using run rest(2,3) k(3,4) by (intro that [of ?k W']) (simp_all add: join_keeps_def)
qed

text \<open>The pools in the order in which they end.\<close>

definition wq_pools :: "nat list" where
  "wq_pools = [mthpc_workpool, mthpc_thread_wp, mthpc_taskflow_wp]"

text \<open>
  The end of the workqueue module: if the workers of all pools go on in any order, and
  while a pool ends each of its own workers is scheduled again and again,
  \<open>mthpc_workqueue_exit\<close> returns; by then every queued work of the three pools has
  run exactly once, every queue is freed, its worker has left the RCU, the counts of the pools
  are 0 and their locks destroyed, and no warning was given.
\<close>

theorem workqueue_exit_drains:
  assumes "pools_live s (pool_list wq_pools qs) W" "wq_threads U (queues_of (pool_list wq_pools qs)) s"
    and "FreeList \<in> dom (lh s)"
    and "\<forall>p\<in>set wq_pools. length (qs p) < 2 ^ 32" "Q = (\<Union>p\<in>set wq_pools. set (qs p))"
    and "\<forall>p t. set (sched p t) \<subseteq> Q"
    and "\<forall>p\<in>set wq_pools. \<forall>q\<in>set (qs p). \<forall>t. \<exists>u\<ge>t. q \<in> set (sched p u)"
  shows "\<exists>s'. mthpc_workqueue_exit sched s = Some s' \<and> (\<forall>q\<in>Q. wqs s' q = None) \<and>
    mset (ran s') = mset (ran s) + (\<Sum>q\<in>Q. mset (W q)) \<and>
    (\<forall>p\<in>set wq_pools. pools s' p = Some \<lparr>pcount = 0, plock = Destroyed\<rparr>) \<and>
    rcu_threads U (rcu s') \<and> wq_warned s' = wq_warned s"
proof -
  let ?a = mthpc_workpool and ?b = mthpc_thread_wp and ?c = mthpc_taskflow_wp
  have neq: "?a \<noteq> ?b" "?a \<noteq> ?c" "?b \<noteq> ?c"
    by (simp_all add: mthpc_workpool_def mthpc_thread_wp_def mthpc_taskflow_wp_def)
  have in_pools: "?a \<in> set wq_pools" "?b \<in> set wq_pools" "?c \<in> set wq_pools" by (simp_all add: wq_pools_def)
  have fair: "\<forall>q\<in>set (qs p). \<forall>t. \<exists>u\<ge>t. q \<in> set (sched p u)" and len: "length (qs p) < 2 ^ 32"
    if "p \<in> set wq_pools" for p using assms(4,7) that by auto
  have rcu: "wq_threads U (qs ?a @ queues_of [(?b, qs ?b), (?c, qs ?c)]) s"
    using assms(2) by (simp add: wq_pools_def pool_list_def)
  have sub: "set (sched p t) \<subseteq> Q" for p t using assms(6) by simp
  have Q: "Q = set (qs ?a @ qs ?b @ qs ?c)" using assms(5) by (auto simp: wq_pools_def)
  have live: "pools_live s ((?a, qs ?a) # [(?b, qs ?b), (?c, qs ?c)]) W"
    using assms(1) by (simp add: wq_pools_def pool_list_def)
  obtain s1 W1 where s1: "mthpc_workpool_exit (sched ?a) ?a s = Some s1"
    "pools_live s1 ((?b, qs ?b) # [(?c, qs ?c)]) W1" "wq_threads U (queues_of [(?b, qs ?b), (?c, qs ?c)]) s1" "FreeList \<in> dom (lh s1)"
    "\<forall>q\<in>Q - set (queues_of [(?b, qs ?b), (?c, qs ?c)]). wqs s1 q = None"
    "mset (ran s1) + pending (queues_of [(?b, qs ?b), (?c, qs ?c)]) W1 =
      mset (ran s) + pending (qs ?a @ queues_of [(?b, qs ?b), (?c, qs ?c)]) W"
    "pools s1 ?a = Some \<lparr>pcount = 0, plock = Destroyed\<rparr>" "join_keeps ?a s s1"
    by (rule workpool_exit_ok [OF live rcu assms(3) len [OF in_pools(1)] _ sub fair [OF in_pools(1)]],
      (use Q in simp), rule that)
  obtain s2 W2 where s2: "mthpc_workpool_exit (sched ?b) ?b s1 = Some s2"
    "pools_live s2 ((?c, qs ?c) # []) W2" "wq_threads U (queues_of [(?c, qs ?c)]) s2" "FreeList \<in> dom (lh s2)"
    "\<forall>q\<in>Q - set (queues_of [(?c, qs ?c)]). wqs s2 q = None"
    "mset (ran s2) + pending (queues_of [(?c, qs ?c)]) W2 =
      mset (ran s1) + pending (qs ?b @ queues_of [(?c, qs ?c)]) W1"
    "pools s2 ?b = Some \<lparr>pcount = 0, plock = Destroyed\<rparr>" "join_keeps ?b s1 s2"
    by (rule workpool_exit_ok [OF s1(2) _ s1(4) len [OF in_pools(2)] _ sub fair [OF in_pools(2)]],
      (use s1(3) in simp), (use s1(5) in simp), rule that)
  obtain s3 W3 where s3: "mthpc_workpool_exit (sched ?c) ?c s2 = Some s3" "pools_live s3 [] W3"
    "wq_threads U (queues_of []) s3" "FreeList \<in> dom (lh s3)" "\<forall>q\<in>Q - set (queues_of []). wqs s3 q = None"
    "mset (ran s3) + pending (queues_of []) W3 = mset (ran s2) + pending (qs ?c @ queues_of []) W2"
    "pools s3 ?c = Some \<lparr>pcount = 0, plock = Destroyed\<rparr>" "join_keeps ?c s2 s3"
    by (rule workpool_exit_ok [OF s2(2) _ s2(4) len [OF in_pools(3)] _ sub fair [OF in_pools(3)]],
      (use s2(3) in simp), (use s2(5) in simp), rule that)
  have "mthpc_workqueue_exit sched s = Some s3" using s1(1) s2(1) s3(1) by (simp add: mthpc_workqueue_exit_def)
  moreover have "\<forall>q\<in>Q. wqs s3 q = None" using s3(5) by simp
  moreover have "mset (ran s3) = mset (ran s) + pending (qs ?a @ qs ?b @ qs ?c) W"
    using s1(6) s2(6) s3(6) by (simp add: pending_def)
  moreover have "\<forall>p\<in>set wq_pools. pools s3 p = Some \<lparr>pcount = 0, plock = Destroyed\<rparr>"
    using s1(7) s2(7,8) s3(7,8) neq by (simp add: wq_pools_def join_keeps_def)
  moreover have "rcu_threads U (rcu s3)" using wq_threadsD(1) [OF s3(3)] by simp
  moreover have "wq_warned s3 = wq_warned s" using s1(8) s2(8) s3(8) by (simp add: join_keeps_def)
  ultimately show ?thesis unfolding pending_def Q by blast
qed

text \<open>The two queues of two pools, with one work each.\<close>

definition wq_end :: wq_sys where
  "wq_end = wq_sys1\<lparr>
     wqs := [5 \<mapsto> \<lparr>actived_cpu = 5, qlock = Unlocked, qfutex = 1, qcount = 1, qtid = 50, qwp = 0\<rparr>,
       6 \<mapsto> \<lparr>actived_cpu = 4, qlock = Unlocked, qfutex = 1, qcount = 1, qtid = 51, qwp = 1\<rparr>],
     pools := [0 \<mapsto> \<lparr>pcount = 1, plock = Unlocked\<rparr>, 1 \<mapsto> \<lparr>pcount = 1, plock = Unlocked\<rparr>,
       2 \<mapsto> \<lparr>pcount = 0, plock = Unlocked\<rparr>],
     lh := (lh wq_sys1)(FreeList \<mapsto> \<lparr>nxt = WNull, prv = WNull\<rparr>,
       PoolHead 1 \<mapsto> \<lparr>nxt = QueueNode 6, prv = QueueNode 6\<rparr>,
       QueueNode 6 \<mapsto> \<lparr>nxt = PoolHead 1, prv = PoolHead 1\<rparr>,
       QueueHead 6 \<mapsto> \<lparr>nxt = WorkNode 9, prv = WorkNode 9\<rparr>,
       WorkNode 9 \<mapsto> \<lparr>nxt = QueueHead 6, prv = QueueHead 6\<rparr>,
       PoolHead 2 \<mapsto> \<lparr>nxt = PoolHead 2, prv = PoolHead 2\<rparr>)\<rparr>"

definition wq_end_queues :: "nat \<Rightarrow> nat list" where
  "wq_end_queues p = (if p = 0 then [5] else if p = 1 then [6] else [])"

definition wq_end_works :: "nat \<Rightarrow> nat list" where
  "wq_end_works q = (if q = 5 then [7] else [9])"

lemma wq_end_live: "pools_live (wq_end\<lparr>rcu := m\<rparr>) (pool_list wq_pools wq_end_queues) wq_end_works"
proof -
  have "pool_live (wq_end\<lparr>rcu := m\<rparr>) 0 [5] wq_end_works" "pool_live (wq_end\<lparr>rcu := m\<rparr>) 1 [6] wq_end_works"
    "pool_live (wq_end\<lparr>rcu := m\<rparr>) 2 [] wq_end_works"
    by (simp_all add: pool_live_def pool_ok_def queue_ok_def wq_end_def wq_sys1_def wq_sys0_def
      wq_end_works_def clist_def link_def ld_next_def ld_prev_def mthpc_wq_active_def)
  then show ?thesis
    by (auto simp: pools_live_Cons pools_live_def [of _ "[]"] wq_pools_def pool_list_def mthpc_workpool_def
      mthpc_thread_wp_def mthpc_taskflow_wp_def works_apart_def wq_end_queues_def wq_end_works_def)
qed

text \<open>The calling thread and the two workers are registered.\<close>

lemma wq_end_rcu: "\<exists>m. rcu_threads {3, 50, 51} m"
proof -
  obtain m1 where m1: "rcu_threads {50, 3} m1" "dom (nodes m1) = insert 9 (dom (nodes wq_rcu))"
    by (rule rcu_threads_init [OF wq_rcu_threads, of 50 9]) (simp_all add: wq_rcu_def rcu_mem2_def)
  have "10 \<notin> dom (nodes m1)" unfolding m1(2) by (simp add: wq_rcu_def rcu_mem2_def)
  then have "nodes m1 10 = None" by blast
  then obtain m2 where "rcu_threads {51, 50, 3} m2"
    by (rule rcu_threads_init [OF m1(1), of 51 10, rotated 2]) simp_all
  moreover have "{51, 50, 3} = {3, 50, 51 :: u64}" by auto
  ultimately show ?thesis by metis
qed

lemma workqueue_exit_drains_witness:
  "\<exists>m s'. mthpc_workqueue_exit (\<lambda>_ _. [6, 5]) (wq_end\<lparr>rcu := m\<rparr>) = Some s' \<and> wqs s' 5 = None \<and> wqs s' 6 = None \<and>
    mset (ran s') = {#7, 9#} \<and> pools s' 1 = Some \<lparr>pcount = 0, plock = Destroyed\<rparr> \<and>
    rcu_threads {3, 50, 51} m \<and> rcu_threads {3} (rcu s')"
proof -
  obtain m where m: "rcu_threads {3, 50, 51} m" using wq_end_rcu by blast
  let ?s = "wq_end\<lparr>rcu := m\<rparr>"
  have e: "(\<Union>p\<in>set wq_pools. set (wq_end_queues p)) = {5, 6}"
    by (auto simp: wq_pools_def wq_end_queues_def mthpc_workpool_def mthpc_thread_wp_def mthpc_taskflow_wp_def)
  have t: "wq_threads {3} (queues_of (pool_list wq_pools wq_end_queues)) ?s"
    using m by (simp add: wq_threads_def queues_of_pool_list e wq_tid_def wq_end_def insert_commute)
  have "\<exists>s'. mthpc_workqueue_exit (\<lambda>_ _. [6, 5]) ?s = Some s' \<and> (\<forall>q\<in>{5, 6}. wqs s' q = None) \<and>
    mset (ran s') = mset (ran ?s) + (\<Sum>q\<in>{5, 6}. mset (wq_end_works q)) \<and>
    (\<forall>p\<in>set wq_pools. pools s' p = Some \<lparr>pcount = 0, plock = Destroyed\<rparr>) \<and>
    rcu_threads {3} (rcu s') \<and> wq_warned s' = wq_warned ?s"
    by (rule workqueue_exit_drains [OF wq_end_live t _ _ e [symmetric]])
      (auto simp: wq_end_def wq_end_queues_def)
  then obtain s' where s': "mthpc_workqueue_exit (\<lambda>_ _. [6, 5]) ?s = Some s'" "wqs s' 5 = None" "wqs s' 6 = None"
    "mset (ran s') = mset (ran ?s) + (\<Sum>q\<in>{5, 6}. mset (wq_end_works q))"
    "\<forall>p\<in>set wq_pools. pools s' p = Some \<lparr>pcount = 0, plock = Destroyed\<rparr>" "rcu_threads {3} (rcu s')"
    by auto
  have "mset (ran s') = {#7, 9#}" "pools s' 1 = Some \<lparr>pcount = 0, plock = Destroyed\<rparr>"
    using s'(4,5) by (simp_all add: wq_end_def wq_sys1_def wq_sys0_def wq_end_works_def wq_pools_def mthpc_thread_wp_def)
  with s' m show ?thesis by blast
qed

section \<open>The start of the module\<close>

lemma workpool_init_ok:
  assumes "PoolHead p \<in> dom (lh s)"
  obtains h where "mthpc_workpool_init p s =
      Some (s\<lparr>pools := (pools s)(p \<mapsto> \<lparr>pcount = 0, plock = Unlocked\<rparr>), lh := h\<rparr>)"
    "clist h (PoolHead p) []" "agree_off {PoolHead p} (lh s) h"
proof -
  obtain h where "mthpc_list_init (PoolHead p) (lh s) = Some h" "clist h (PoolHead p) []"
    "agree_off {PoolHead p} (lh s) h"
    by (rule mthpc_list_init_ok [OF assms], rule that)
  then show ?thesis by (intro that [of h]) (simp_all add: mthpc_workpool_init_def with_lh_def)
qed

text \<open>After the constructor of the module its three pools are empty and usable.\<close>

lemma workqueue_init_ok:
  assumes "\<forall>p\<in>set wq_pools. PoolHead p \<in> dom (lh s)"
  obtains ps h where "mthpc_workqueue_init s = Some (s\<lparr>pools := ps, lh := h\<rparr>)" "dom h = dom (lh s)"
    "\<And>p. p \<in> set wq_pools \<Longrightarrow> pool_ok (s\<lparr>pools := ps, lh := h\<rparr>) p [] W"
proof -
  have neq: "mthpc_workpool \<noteq> mthpc_thread_wp" "mthpc_workpool \<noteq> mthpc_taskflow_wp"
    "mthpc_thread_wp \<noteq> mthpc_taskflow_wp"
    by (simp_all add: mthpc_workpool_def mthpc_thread_wp_def mthpc_taskflow_wp_def)
  let ?p = "\<lparr>pcount = 0, plock = Unlocked\<rparr>"
  obtain h1 where h1: "mthpc_workpool_init mthpc_workpool s =
      Some (s\<lparr>pools := (pools s)(mthpc_workpool \<mapsto> ?p), lh := h1\<rparr>)"
    "clist h1 (PoolHead mthpc_workpool) []" "agree_off {PoolHead mthpc_workpool} (lh s) h1"
    by (rule workpool_init_ok [of mthpc_workpool s]) (use assms in \<open>auto simp: wq_pools_def intro: that\<close>)
  let ?s1 = "s\<lparr>pools := (pools s)(mthpc_workpool \<mapsto> ?p), lh := h1\<rparr>"
  obtain h2 where h2: "mthpc_workpool_init mthpc_thread_wp ?s1 =
      Some (?s1\<lparr>pools := (pools ?s1)(mthpc_thread_wp \<mapsto> ?p), lh := h2\<rparr>)"
    "clist h2 (PoolHead mthpc_thread_wp) []" "agree_off {PoolHead mthpc_thread_wp} (lh ?s1) h2"
    by (rule workpool_init_ok [of mthpc_thread_wp ?s1])
      (use assms [unfolded wq_pools_def] agree_off_dom [OF h1(3)] in \<open>auto intro: that\<close>)
  let ?s2 = "?s1\<lparr>pools := (pools ?s1)(mthpc_thread_wp \<mapsto> ?p), lh := h2\<rparr>"
  obtain h3 where h3: "mthpc_workpool_init mthpc_taskflow_wp ?s2 =
      Some (?s2\<lparr>pools := (pools ?s2)(mthpc_taskflow_wp \<mapsto> ?p), lh := h3\<rparr>)"
    "clist h3 (PoolHead mthpc_taskflow_wp) []" "agree_off {PoolHead mthpc_taskflow_wp} (lh ?s2) h3"
    by (rule workpool_init_ok [of mthpc_taskflow_wp ?s2])
      (use assms [unfolded wq_pools_def] agree_off_dom [OF h1(3)] agree_off_dom [OF h2(3)] in \<open>auto intro: that\<close>)
  have c2: "clist h2 (PoolHead mthpc_workpool) []"
    by (rule clist_keep [OF h1(2)]) (use h2(3) neq in auto)
  have c3: "clist h3 (PoolHead mthpc_workpool) []" "clist h3 (PoolHead mthpc_thread_wp) []"
    by (rule clist_keep [OF c2], use h3(3) neq in auto, rule clist_keep [OF h2(2)], use h3(3) neq in auto)
  let ?ps = "(pools s)(mthpc_workpool \<mapsto> ?p, mthpc_thread_wp \<mapsto> ?p, mthpc_taskflow_wp \<mapsto> ?p)"
  show ?thesis
  proof (rule that [of h3 ?ps])
    show "mthpc_workqueue_init s = Some (s\<lparr>pools := ?ps, lh := h3\<rparr>)"
      using h1(1) h2(1) h3(1) by (simp add: mthpc_workqueue_init_def)
    show "dom h3 = dom (lh s)"
      using agree_off_dom [OF h1(3)] agree_off_dom [OF h2(3)] agree_off_dom [OF h3(3)] by simp
    show "pool_ok (s\<lparr>pools := ?ps, lh := h3\<rparr>) p [] W" if "p \<in> set wq_pools" for p
      using that h3(2) c3 neq by (auto simp: wq_pools_def pool_ok_def)
  qed
qed

end
