(* ===== verification/Wq_Session.thy ===== *)
theory Wq_Session
  imports Wq_Exit
begin

text \<open>
  The life of the workqueue module of \<open>src/workqueue/workqueue.c\<close>, from its constructor over any
  sequence of calls of its four scheduling functions, with the workers of all queues going on in
  between, to its destructor: a step relation with the well-formedness of the state as its
  invariant.
\<close>

section \<open>Sessions\<close>

datatype wq_call =
    Schedule_work_on u32 nat
  | Queue_work nat
  | Queue_thread_work nat
  | Schedule_taskflow_work_on u32 nat

fun run_call :: "sched_env \<Rightarrow> wq_call \<Rightarrow> wq_sys \<Rightarrow> (u32 \<times> wq_sys) option" where
  "run_call env (Schedule_work_on cpu w) = mthpc_schedule_work_on env cpu w"
| "run_call env (Queue_work w) = mthpc_queue_work env w"
| "run_call env (Queue_thread_work w) = mthpc_queue_thread_work env w"
| "run_call env (Schedule_taskflow_work_on cpu w) = mthpc_schedule_taskflow_work_on env cpu w"

fun call_work :: "wq_call \<Rightarrow> nat" where
  "call_work (Schedule_work_on cpu w) = w"
| "call_work (Queue_work w) = w"
| "call_work (Queue_thread_work w) = w"
| "call_work (Schedule_taskflow_work_on cpu w) = w"

text \<open>
  What a call relies on. The client does not pass a work that is queued at the moment, and fewer than
  \<open>2 ^ 32 - 1\<close> works are; \<open>A\<close> are the works that have been accepted so far. Of the environment:
  \<open>malloc\<close> for a new queue fails or returns new memory; \<open>malloc\<close> for the RCU nodes of the caller and
  of a new worker returns new memory; the identifiers of the threads differ in their lower 32 bits; and
  \<open>pthread_setaffinity_np\<close> succeeds (\<open>worker_env\<close>). The caller may be a worker; a thread that has not
  been registered is registered by its first critical section.
\<close>

definition registered :: "rcu_mem \<Rightarrow> u64 set" where
  "registered m = {t. node_ptr m t \<noteq> 0}"

definition can_register :: "nat \<Rightarrow> u64 \<Rightarrow> rcu_mem \<Rightarrow> bool" where
  "can_register a t m \<longleftrightarrow> thread_id t \<notin> thread_id ` registered m \<and> a \<noteq> 0 \<and> nodes m a = None"

definition caller_ok :: "sched_env \<Rightarrow> rcu_mem \<Rightarrow> bool" where
  "caller_ok env m \<longleftrightarrow> worker_env (insert (self env) (registered m)) m env \<and>
     (self env \<in> registered m \<or> can_register (rcu_fresh env) (self env) m \<and> rcu_fresh env \<noteq> worker_node env)"

definition call_ok :: "sched_env \<Rightarrow> nat \<Rightarrow> nat list \<Rightarrow> wq_sys \<Rightarrow> bool" where
  "call_ok env w A s \<longleftrightarrow> works s w \<noteq> None \<and> WorkNode w \<in> dom (lh s) \<and>
     w \<notin># mset A - mset (ran s) \<and> size (mset A - mset (ran s)) < 2 ^ 32 - 1 \<and>
     caller_ok env (rcu s) \<and> wq_is_fresh s (wq_fresh env)"

text \<open>The threads of the client, that is all but the workers.\<close>

definition clients :: "wq_sys \<Rightarrow> u64 set" where
  "clients s = registered (rcu s) - wq_tid s ` dom (wqs s)"

inductive session_step :: "nat list \<times> wq_sys \<Rightarrow> nat list \<times> wq_sys \<Rightarrow> bool" where
  accepted:
    "call_ok env (call_work c) A s \<Longrightarrow> run_call env c s = Some (0, s') \<Longrightarrow>
     session_step (A, s) (A @ [call_work c], s')"
| refused:
    "call_ok env (call_work c) A s \<Longrightarrow> run_call env c s = Some (- ENOMEM, s') \<Longrightarrow>
     session_step (A, s) (A, s')"
| worker: "run_worker q s = Some s' \<Longrightarrow> session_step (A, s) (A, s')"
| enter:
    "can_register a t (rcu s) \<Longrightarrow> mthpc_rcu_thread_init a t (rcu s) = Some m \<Longrightarrow>
     session_step (A, s) (A, s\<lparr>rcu := m\<rparr>)"
| leave:
    "t \<in> clients s \<Longrightarrow> mthpc_rcu_thread_exit t (rcu s) = Some m \<Longrightarrow>
     session_step (A, s) (A, s\<lparr>rcu := m\<rparr>)"

text \<open>The start: the memory of the module, before any thread has used it, after its constructor.\<close>

definition session_start :: "nat list \<times> wq_sys \<Rightarrow> bool" where
  "session_start = (\<lambda>(A, s). A = [] \<and> (\<exists>s0 U. mthpc_workqueue_init s0 = Some s \<and>
     (\<forall>p\<in>set wq_pools. PoolHead p \<in> dom (lh s0)) \<and> FreeList \<in> dom (lh s0) \<and> wqs s0 = Map.empty \<and>
     ran s0 = [] \<and> wq_warned s0 = 0 \<and> rcu_threads U (rcu s0)))"

text \<open>
  Well-formed states: three pools of queues that are lists of the works accepted and not yet run,
  one worker for each queue, which is registered with the RCU, one queue at most for each core and
  pool, and no other queue in memory.
\<close>

definition session_ok :: "u64 set \<Rightarrow> nat list \<Rightarrow> wq_sys \<Rightarrow> (nat \<Rightarrow> nat list) \<Rightarrow> (nat \<Rightarrow> nat list) \<Rightarrow> bool" where
  "session_ok U A s Qs W \<longleftrightarrow> pools_live s (pool_list wq_pools Qs) W \<and>
     wq_threads U (queues_of (pool_list wq_pools Qs)) s \<and> (\<forall>p\<in>set wq_pools. wq_apart (Qs p) s) \<and>
     dom (wqs s) = set (queues_of (pool_list wq_pools Qs)) \<and>
     mset (ran s) + pending (queues_of (pool_list wq_pools Qs)) W = mset A \<and>
     FreeList \<in> dom (lh s) \<and> wq_warned s = 0"

definition session_typed :: "nat list \<Rightarrow> wq_sys \<Rightarrow> bool" where
  "session_typed A s \<longleftrightarrow> (\<exists>U Qs W. session_ok U A s Qs W)"

section \<open>The constructor\<close>

lemma session_typed_start:
  assumes "session_start (A, s)"
  shows "session_typed A s"
proof -
  obtain s0 U where s0: "A = []" "mthpc_workqueue_init s0 = Some s" "\<forall>p\<in>set wq_pools. PoolHead p \<in> dom (lh s0)"
    "FreeList \<in> dom (lh s0)" "wqs s0 = Map.empty" "ran s0 = []" "wq_warned s0 = 0" "rcu_threads U (rcu s0)"
    using assms by (auto simp: session_start_def)
  obtain ps h where h: "mthpc_workqueue_init s0 = Some (s0\<lparr>pools := ps, lh := h\<rparr>)" "dom h = dom (lh s0)"
    "\<And>p. p \<in> set wq_pools \<Longrightarrow> pool_ok (s0\<lparr>pools := ps, lh := h\<rparr>) p [] (\<lambda>_. [])"
    by (rule workqueue_init_ok [OF s0(3)], rule that)
  have s: "s = s0\<lparr>pools := ps, lh := h\<rparr>" using h(1) s0(2) by simp
  have q: "queues_of (pool_list wq_pools (\<lambda>_. [])) = []" by (simp add: queues_of_def pool_list_def wq_pools_def)
  have "distinct wq_pools"
    by (simp add: wq_pools_def mthpc_workpool_def mthpc_thread_wp_def mthpc_taskflow_wp_def)
  then have "pools_live s (pool_list wq_pools (\<lambda>_. [])) (\<lambda>_. [])"
    unfolding pools_live_list using h(3) s by (simp add: pool_live_def works_apart_def)
  then have "session_ok U A s (\<lambda>_. []) (\<lambda>_. [])"
    unfolding session_ok_def q using s0 h(2) s
    by (simp add: wq_threads_def wq_apart_def pending_def)
  then show ?thesis unfolding session_typed_def by blast
qed

section \<open>Calls\<close>

lemma rcu_threads_registered:
  assumes "rcu_threads T m"
  shows "registered m = T"
proof -
  have "node_ptr m t \<noteq> 0" if "t \<in> T" for t by (rule rcu_threads_node [OF assms that])
  then have "node_ptr m t \<noteq> 0 \<longleftrightarrow> t \<in> T" for t using rcu_threadsD(3) [OF assms] by metis
  then show ?thesis unfolding registered_def by blast
qed

fun call_pool :: "wq_call \<Rightarrow> nat" where
  "call_pool (Schedule_work_on cpu w) = mthpc_workpool"
| "call_pool (Queue_work w) = mthpc_workpool"
| "call_pool (Queue_thread_work w) = mthpc_thread_wp"
| "call_pool (Schedule_taskflow_work_on cpu w) = mthpc_taskflow_wp"

fun call_cpu :: "wq_call \<Rightarrow> u32" where
  "call_cpu (Schedule_work_on cpu w) = cpu"
| "call_cpu (Queue_work w) = - 1"
| "call_cpu (Queue_thread_work w) = - 1"
| "call_cpu (Schedule_taskflow_work_on cpu w) = cpu"

lemma run_call_eq: "run_call env c s = schedule_work_on env (call_pool c) (call_cpu c) (call_work c) s"
  by (cases c) (simp_all add: mthpc_schedule_work_on_def mthpc_queue_work_def mthpc_queue_thread_work_def
      mthpc_schedule_taskflow_work_on_def)

lemma call_pool_in: "call_pool c \<in> set wq_pools"
  by (cases c) (simp_all add: wq_pools_def)

text \<open>The parts of the invariant that do not depend on the works, after a call.\<close>

lemma session_frame:
  assumes ok: "session_ok U A s Qs W" and p: "p \<in> set wq_pools" and fresh: "wq_is_fresh s (wq_fresh env)"
    and T: "T = U \<union> wq_tid s ` set (queues_of (pool_list wq_pools Qs))" and env: "worker_env T (rcu s) env"
    and sq: "sched_queues env cpu T (Qs p) s qs' s'" and fr: "wq_frame p (set qs') B s s'"
    and live': "pools_live s' (pool_list wq_pools (Qs(p := qs'))) W'"
  shows "wq_threads U (queues_of (pool_list wq_pools (Qs(p := qs')))) s'"
    "\<forall>x\<in>set wq_pools. wq_apart ((Qs(p := qs')) x) s'"
    "dom (wqs s') = set (queues_of (pool_list wq_pools (Qs(p := qs'))))"
    "FreeList \<in> dom (lh s')" "wq_warned s' = 0"
proof -
  let ?q = "set (queues_of (pool_list wq_pools Qs))"
  have parts: "pools_live s (pool_list wq_pools Qs) W" "wq_threads U (queues_of (pool_list wq_pools Qs)) s"
    "\<forall>p\<in>set wq_pools. wq_apart (Qs p) s" "dom (wqs s) = ?q" "FreeList \<in> dom (lh s)" "wq_warned s = 0"
    using ok by (simp_all add: session_ok_def)
  show "wq_threads U (queues_of (pool_list wq_pools (Qs(p := qs')))) s'"
    by (rule sched_pools_threads [OF parts(2,1) p T env sq fr fresh])
  have in_q: "wqs s q \<noteq> None" if "x \<in> set wq_pools" "q \<in> set (Qs x)" for x q
  proof -
    have "q \<in> dom (wqs s)" using that unfolding parts(4) queues_of_pool_list by blast
    then show ?thesis by auto
  qed
  have new: "wq_fresh env \<notin> ?q" using fresh parts(4) by (auto simp: wq_is_fresh_def)
  show "\<forall>x\<in>set wq_pools. wq_apart ((Qs(p := qs')) x) s'"
  proof
    fix x assume x: "x \<in> set wq_pools"
    show "wq_apart ((Qs(p := qs')) x) s'"
    proof (cases "x = p")
      case True
      have "wq_apart qs' s'"
        by (rule sched_apart [OF _ sq fr]) (use parts(3) p in_q new in \<open>auto simp: queues_of_pool_list\<close>)
      with True show ?thesis by simp
    next
      case False
      have "wq_apart (Qs x) s'"
        by (rule wq_apart_keep [of _ s]) (use parts(3) x frame_tid(2) [OF fr in_q] in auto)
      with False show ?thesis by simp
    qed
  qed
  have sub: "set (Qs p) \<subseteq> set qs'" using sched_queues_set [OF sq] by blast
  have q': "set (queues_of (pool_list wq_pools (Qs(p := qs')))) = set qs' \<union> ?q"
    using p sub unfolding queues_of_pool_list by (auto split: if_splits) (metis subsetD)
  have "wqs s' q \<noteq> None" if "q \<in> set (queues_of (pool_list wq_pools (Qs(p := qs'))))" for q
    using pools_live_queue [OF live' that] by auto
  moreover have "wqs s' q = wqs s q" if "q \<notin> set qs'" for q by (rule wq_frameD(2) [OF fr that])
  ultimately have "q \<in> dom (wqs s') \<longleftrightarrow> q \<in> set qs' \<union> ?q" for q
    using parts(4) unfolding q' by (metis UnCI UnE domIff)
  then show "dom (wqs s') = set (queues_of (pool_list wq_pools (Qs(p := qs'))))" unfolding q' by blast
  show "FreeList \<in> dom (lh s')" "wq_warned s' = 0" using wq_frameD(4,7) [OF fr] parts(5,6) by auto
qed

text \<open>
  The first critical section of a thread registers it, so that a call by a new thread is a call
  by a thread that has registered before.
\<close>

lemma with_lh_set_rcu: "with_lh f (s\<lparr>rcu := m\<rparr>) = map_option (\<lambda>k. k\<lparr>rcu := m\<rparr>) (with_lh f s)"
  by (cases "f (lh s)") (simp_all add: with_lh_def)

lemma read_lock_lazy:
  assumes "mthpc_rcu_thread_init a t m = Some m'" "node_ptr m t = 0" "node_ptr m' t \<noteq> 0"
  shows "mthpc_rcu_read_lock a t m' = mthpc_rcu_read_lock a t m"
  using assms by (simp add: mthpc_rcu_read_lock_def)

lemma schedule_lazy:
  assumes "mthpc_rcu_read_lock (rcu_fresh env) (self env) m' = mthpc_rcu_read_lock (rcu_fresh env) (self env) (rcu s)"
  shows "schedule_work_on env p cpu w (s\<lparr>rcu := m'\<rparr>) = schedule_work_on env p cpu w s"
proof -
  have "get_workqueue_fast env p cpu w (k\<lparr>rcu := m'\<rparr>) = get_workqueue_fast env p cpu w k" if "rcu k = rcu s" for k
    using assms that by (simp add: get_workqueue_fast_def Let_def)
  moreover have "rcu k = rcu s" if "with_lh f s = Some k" for f k
    using that by (auto simp: with_lh_def bind_Some_iff)
  ultimately show ?thesis
    by (cases "with_lh (mthpc_list_init (WorkNode w)) s")
      (simp_all add: schedule_work_on_def mthpc_get_workqueue_def with_lh_set_rcu)
qed

lemma session_registered:
  assumes "session_ok U A s Qs W"
  shows "registered (rcu s) = U \<union> wq_tid s ` set (queues_of (pool_list wq_pools Qs))"
    "rcu_threads (registered (rcu s)) (rcu s)" "clients s = U"
proof -
  have T: "rcu_threads (U \<union> wq_tid s ` set (queues_of (pool_list wq_pools Qs))) (rcu s)"
    "U \<inter> wq_tid s ` set (queues_of (pool_list wq_pools Qs)) = {}"
    using assms wq_threadsD by (auto simp: session_ok_def)
  then show r: "registered (rcu s) = U \<union> wq_tid s ` set (queues_of (pool_list wq_pools Qs))"
    "rcu_threads (registered (rcu s)) (rcu s)"
    using rcu_threads_registered by metis+
  have "dom (wqs s) = set (queues_of (pool_list wq_pools Qs))" using assms by (simp add: session_ok_def)
  then show "clients s = U" using T(2) unfolding clients_def r(1) by blast
qed

text \<open>Another memory of the RCU, with other client threads.\<close>

lemma session_set_rcu:
  assumes ok: "session_ok U A s Qs W" and V: "rcu_threads (V \<union> wq_tid s ` set (queues_of (pool_list wq_pools Qs))) m"
    and apart: "V \<inter> wq_tid s ` set (queues_of (pool_list wq_pools Qs)) = {}"
  shows "session_ok V A (s\<lparr>rcu := m\<rparr>) Qs W"
proof -
  have live: "pools_live s (pool_list wq_pools Qs) W" using ok by (simp add: session_ok_def)
  have "pools_live (s\<lparr>rcu := m\<rparr>) (pool_list wq_pools Qs) W"
    by (rule pools_live_keep [OF live]) (use pools_live_rings [OF live] in simp_all)
  moreover have "wq_apart (Qs p) (s\<lparr>rcu := m\<rparr>) = wq_apart (Qs p) s" for p
    by (auto simp: wq_apart_def wq_cpu_def inj_on_def)
  ultimately show ?thesis using ok V apart by (simp add: session_ok_def wq_threads_def)
qed

lemma session_enter:
  assumes ok: "session_ok U A s Qs W" and t: "can_register a t (rcu s)"
  obtains m where "mthpc_rcu_thread_init a t (rcu s) = Some m" "session_ok (insert t U) A (s\<lparr>rcu := m\<rparr>) Qs W"
    "registered m = insert t (registered (rcu s))" "dom (nodes m) = insert a (dom (nodes (rcu s)))"
proof -
  note r = session_registered [OF ok]
  obtain m where m: "mthpc_rcu_thread_init a t (rcu s) = Some m" "rcu_threads (insert t (registered (rcu s))) m"
    "dom (nodes m) = insert a (dom (nodes (rcu s)))"
    by (rule rcu_threads_init [OF r(2), of t a]) (use t that in \<open>auto simp: can_register_def\<close>)
  have new: "t \<notin> registered (rcu s)" using t by (auto simp: can_register_def)
  have "U \<inter> wq_tid s ` set (queues_of (pool_list wq_pools Qs)) = {}" using ok wq_threadsD(3) by (auto simp: session_ok_def)
  then have "session_ok (insert t U) A (s\<lparr>rcu := m\<rparr>) Qs W"
    using m(2) new unfolding r(1) by (intro session_set_rcu [OF ok]) auto
  then show ?thesis using m rcu_threads_registered [OF m(2)] by (intro that) simp_all
qed

lemma session_leave:
  assumes ok: "session_ok U A s Qs W" and t: "t \<in> clients s"
  obtains m where "mthpc_rcu_thread_exit t (rcu s) = Some m" "session_ok (U - {t}) A (s\<lparr>rcu := m\<rparr>) Qs W"
proof -
  note r = session_registered [OF ok]
  have tr: "t \<in> registered (rcu s)" using t by (simp add: clients_def)
  obtain m where m: "mthpc_rcu_thread_exit t (rcu s) = Some m" "rcu_threads (registered (rcu s) - {t}) m"
    by (rule rcu_threads_exit [OF r(2) tr], rule that)
  have "U \<inter> wq_tid s ` set (queues_of (pool_list wq_pools Qs)) = {}" using ok wq_threadsD(3) by (auto simp: session_ok_def)
  moreover from this have "registered (rcu s) - {t} = U - {t} \<union> wq_tid s ` set (queues_of (pool_list wq_pools Qs))"
    using t unfolding r(1,3) by blast
  ultimately have "session_ok (U - {t}) A (s\<lparr>rcu := m\<rparr>) Qs W"
    using m(2) by (intro session_set_rcu [OF ok]) auto
  with m(1) show ?thesis by (rule that)
qed

text \<open>A call returns \<open>0\<close>, with its work accepted, or \<open>- ENOMEM\<close>, and then \<open>malloc\<close> has failed.\<close>

lemma session_call_registered:
  assumes ok: "session_ok U A s Qs W" and call: "call_ok env (call_work c) A s" and self: "self env \<in> registered (rcu s)"
  obtains (accepted) s' where "run_call env c s = Some (0, s')" "session_typed (A @ [call_work c]) s'"
    | (refused) s' where "wq_fresh env = 0" "run_call env c s = Some (- ENOMEM, s')" "session_typed A s'"
proof -
  let ?w = "call_work c" and ?p = "call_pool c" and ?cpu = "call_cpu c"
  let ?P = "pool_list wq_pools" and ?qs = "\<lambda>Qs. queues_of (pool_list wq_pools Qs)"
  let ?T = "U \<union> wq_tid s ` set (?qs Qs)"
  note r = session_registered [OF ok]
  have T: "rcu_threads ?T (rcu s)" using r(1,2) by simp
  have live: "pools_live s (?P Qs) W" and count: "mset (ran s) + pending (?qs Qs) W = mset A"
    using ok by (simp_all add: session_ok_def)
  have rest: "mset A - mset (ran s) = pending (?qs Qs) W" using count by (metis add_diff_cancel_left')
  have ins: "insert (self env) (registered (rcu s)) = ?T" using self r(1) by auto
  have w: "works s ?w \<noteq> None" "WorkNode ?w \<in> dom (lh s)" "?w \<notin># pending (?qs Qs) W"
    and env: "worker_env ?T (rcu s) env" and room: "size (pending (?qs Qs) W) < 2 ^ 32 - 1"
    and fresh: "wq_is_fresh s (wq_fresh env)"
    using call unfolding call_ok_def caller_ok_def rest ins by blast+
  have self: "self env \<in> ?T" using self r(1) by simp
  show ?thesis
  proof (rule schedule_pools [OF live call_pool_in w T self env room fresh, where cpu = ?cpu])
    fix s' assume s': "wq_fresh env = 0" "schedule_work_on env ?p ?cpu ?w s = Some (- ENOMEM, s')"
      "pools_live s' (?P Qs) W" "rcu_threads ?T (rcu s')" "dom (nodes (rcu s')) = dom (nodes (rcu s))"
      "wq_frame ?p (set (Qs ?p)) {?w} s s'"
    have sq: "sched_queues env ?cpu ?T (Qs ?p) s (Qs ?p) s'" using s'(4,5) by (simp add: sched_queues_def)
    have live': "pools_live s' (?P (Qs(?p := Qs ?p))) W" using s'(3) by simp
    have "session_ok U A s' Qs W"
      using session_frame [OF ok call_pool_in fresh refl env sq s'(6) live'] s'(3) count wq_frameD(6) [OF s'(6)]
      by (simp add: session_ok_def)
    then show ?thesis using s'(1,2) by (intro refused) (auto simp: session_typed_def run_call_eq)
  next
    fix s' qs' W' B assume s': "schedule_work_on env ?p ?cpu ?w s = Some (0, s')"
      "pools_live s' (?P (Qs(?p := qs'))) W'"
      "pending (?qs (Qs(?p := qs'))) W' = add_mset ?w (pending (?qs Qs) W)"
      "sched_queues env ?cpu ?T (Qs ?p) s qs' s'" "wq_frame ?p (set qs') B s s'"
    have "session_ok U (A @ [?w]) s' (Qs(?p := qs')) W'"
      unfolding session_ok_def
      using session_frame [OF ok call_pool_in fresh refl env s'(4,5,2)] s'(2,3) count wq_frameD(6) [OF s'(5)] by simp
    then show ?thesis using s'(1) by (intro accepted) (auto simp: session_typed_def run_call_eq)
  qed
qed

lemma session_call:
  assumes typed: "session_typed A s" and call: "call_ok env (call_work c) A s"
  obtains (accepted) s' where "run_call env c s = Some (0, s')" "session_typed (A @ [call_work c]) s'"
    | (refused) s' where "wq_fresh env = 0" "run_call env c s = Some (- ENOMEM, s')" "session_typed A s'"
proof -
  obtain U Qs W where ok: "session_ok U A s Qs W" using typed by (auto simp: session_typed_def)
  show ?thesis
  proof (cases "self env \<in> registered (rcu s)")
    case True
    show ?thesis by (rule session_call_registered [OF ok call True]) (erule (1) accepted refused, erule (2) refused)
  next
    case False
    then have reg: "can_register (rcu_fresh env) (self env) (rcu s)" "rcu_fresh env \<noteq> worker_node env"
      using call by (auto simp: call_ok_def caller_ok_def)
    obtain m where m: "mthpc_rcu_thread_init (rcu_fresh env) (self env) (rcu s) = Some m"
      "session_ok (insert (self env) U) A (s\<lparr>rcu := m\<rparr>) Qs W" "registered m = insert (self env) (registered (rcu s))"
      "dom (nodes m) = insert (rcu_fresh env) (dom (nodes (rcu s)))"
      by (rule session_enter [OF ok reg(1)], rule that)
    have node: "nodes m (worker_node env) = None"
      using m(4) reg(2) call by (metis call_ok_def caller_ok_def domIff insert_iff worker_env_def)
    have call': "call_ok env (call_work c) A (s\<lparr>rcu := m\<rparr>)"
      using call m(3) node by (simp add: call_ok_def caller_ok_def worker_env_def wq_is_fresh_def)
    have "mthpc_rcu_read_lock (rcu_fresh env) (self env) m = mthpc_rcu_read_lock (rcu_fresh env) (self env) (rcu s)"
      by (rule read_lock_lazy [OF m(1)]) (use False m(3) in \<open>auto simp: registered_def\<close>)
    then have same: "run_call env c (s\<lparr>rcu := m\<rparr>) = run_call env c s"
      unfolding run_call_eq by (rule schedule_lazy)
    have self: "self env \<in> registered (rcu (s\<lparr>rcu := m\<rparr>))" using m(3) by simp
    show ?thesis
      by (rule session_call_registered [OF m(2) call' self, unfolded same]) (erule (1) accepted, erule (2) refused)
  qed
qed

section \<open>Workers\<close>

lemma session_worker:
  assumes typed: "session_typed A s"
  obtains s' where "run_worker q s = Some s'" "session_typed A s'"
proof -
  obtain U Qs W where ok: "session_ok U A s Qs W" using typed by (auto simp: session_typed_def)
  let ?P = "pool_list wq_pools Qs"
  have live: "pools_live s ?P W" and dom: "dom (wqs s) = set (queues_of ?P)" using ok by (simp_all add: session_ok_def)
  have q: "x \<in> set (queues_of ?P) \<or> wqs s x = None" if "x \<in> set [q]" for x using dom by blast
  obtain s' ts where s': "fold_opt run_worker [q] s = Some s'" "ts = filter (\<lambda>q. q \<in> set (queues_of ?P)) [q]"
    "pools_live s' ?P (drained ts W)" "mset (ran s') + pending (queues_of ?P) (drained ts W) = mset (ran s) + pending (queues_of ?P) W"
    "workers_keep s s'"
    by (rule workers_run [OF live q], assumption, rule that)
  note keep = workers_keep_wqs [OF s'(5)]
  have same: "rcu s' = rcu s" "dom (lh s') = dom (lh s)" "wq_warned s' = wq_warned s"
    using s'(5) by (simp_all add: workers_keep_def)
  have "session_ok U A s' Qs (drained ts W)"
    unfolding session_ok_def
  proof (intro conjI ballI)
    show "wq_threads U (queues_of ?P) s'"
      by (rule wq_threads_keep [OF _ same(1) keep(2) refl]) (use ok in \<open>simp add: session_ok_def\<close>)
    show "wq_apart (Qs p) s'" if "p \<in> set wq_pools" for p
      by (rule wq_apart_keep [OF _ keep(3)]) (use ok that in \<open>simp add: session_ok_def\<close>)
    show "dom (wqs s') = set (queues_of ?P)" using keep(1) dom by (auto simp: dom_def)
  qed (use ok s'(3,4) same in \<open>simp_all add: session_ok_def\<close>)
  moreover have "run_worker q s = Some s'" using s'(1) by (cases "run_worker q s") simp_all
  ultimately show ?thesis using that by (auto simp: session_typed_def)
qed

section \<open>The invariant\<close>

lemma ENOMEM_neq [simp]: "ENOMEM \<noteq> 0"
  by (simp_all add: ENOMEM_def)

interpretation session: inductive_invariant session_start session_step "\<lambda>(A, s). session_typed A s"
proof
  show "case x of (A, s) \<Rightarrow> session_typed A s" if "session_start x" for x
    using session_typed_start [of "fst x" "snd x"] that by (cases x) simp
  show "case y of (A, s) \<Rightarrow> session_typed A s" if "case x of (A, s) \<Rightarrow> session_typed A s" "session_step x y" for x y
    using that(2)
  proof cases
    case (accepted env c A s s')
    then have t: "session_typed A s" using that(1) by simp
    show ?thesis by (rule session_call [OF t accepted(3)]) (use accepted in auto)
  next
    case (refused env c A s s')
    then have t: "session_typed A s" using that(1) by simp
    show ?thesis by (rule session_call [OF t refused(3)]) (use refused in auto)
  next
    case (worker q s s' A)
    then have t: "session_typed A s" using that(1) by simp
    show ?thesis by (rule session_worker [OF t, of q]) (use worker in auto)
  next
    case (enter a t s m A)
    then have "session_typed A s" using that(1) by simp
    then obtain U Qs W where ok: "session_ok U A s Qs W" by (auto simp: session_typed_def)
    show ?thesis by (rule session_enter [OF ok enter(3)]) (use enter in \<open>auto simp: session_typed_def\<close>)
  next
    case (leave t s m A)
    then have "session_typed A s" using that(1) by simp
    then obtain U Qs W where ok: "session_ok U A s Qs W" by (auto simp: session_typed_def)
    show ?thesis by (rule session_leave [OF ok leave(3)]) (use leave in \<open>auto simp: session_typed_def\<close>)
  qed
qed

lemma session_reachable: "reachable session_start session_step (A, s) \<Longrightarrow> session_typed A s"
  using session.inv_reachable by fastforce

text \<open>
  A thread that is not registered and gets no memory for its node does not come through the call:
  its first critical section dereferences the null pointer.
\<close>

lemma call_without_node:
  assumes "self env \<notin> registered (rcu s)" "rcu_fresh env = 0" "nodes (rcu s) 0 = None"
  shows "run_call env c s = None"
proof -
  have "mthpc_rcu_read_lock (rcu_fresh env) (self env) (rcu s) = None"
    using read_lock_alloc_failure [of "rcu s" "self env"] assms by (simp add: registered_def)
  then show ?thesis
    by (simp add: run_call_eq schedule_work_on_def with_lh_def mthpc_get_workqueue_def get_workqueue_fast_def
        bind_eq_None_conv)
qed

text \<open>
  C7. The workqueue is not stuck. In every state of a session, a call returns, 0 or, if
  \<open>malloc\<close> has failed for the new queue, \<open>- ENOMEM\<close>, provided that
  its work is allocated and not queued at the moment, fewer than 2^32 - 1 works are queued, the
  node of a new worker can be allocated, the thread ids differ in their lower 32 bits,
  \<open>pthread_setaffinity_np\<close> succeeds, and the caller is a registered thread, a
  worker among them, or one that registers with this call and gets the memory for its node.
  Every worker can make its next iteration. The state that is left, by the call with its work
  accepted or not and by the worker, is well-formed again: the counters are the lengths of the
  lists, every queue has its registered worker, and there is one queue at most for each core
  and pool. A caller that is not registered and gets no memory for its node dereferences the
  null pointer: that call has no result.
\<close>

theorem session_type_safety:
  assumes "reachable session_start session_step (A, s)" "call_ok env (call_work c) A s"
  shows "session_typed A s \<and> (\<exists>s'. run_worker q s = Some s' \<and> session_typed A s') \<and>
    (\<exists>r s'. run_call env c s = Some (r, s') \<and> (r = 0 \<or> r = - ENOMEM \<and> wq_fresh env = 0) \<and>
      session_typed (if r = 0 then A @ [call_work c] else A) s') \<and>
    (\<forall>e. self e \<notin> registered (rcu s) \<and> rcu_fresh e = 0 \<and> nodes (rcu s) 0 = None \<longrightarrow> run_call e c s = None)"
proof -
  have typed: "session_typed A s" by (rule session_reachable [OF assms(1)])
  moreover have "\<exists>s'. run_worker q s = Some s' \<and> session_typed A s'"
    by (rule session_worker [OF typed, of q]) blast
  moreover have "\<exists>r s'. run_call env c s = Some (r, s') \<and> (r = 0 \<or> r = - ENOMEM \<and> wq_fresh env = 0) \<and>
      session_typed (if r = 0 then A @ [call_work c] else A) s'"
    by (rule session_call [OF typed assms(2)]) auto
  ultimately show ?thesis using call_without_node by blast
qed

section \<open>The destructor\<close>

lemma pool_queues_bound:
  assumes "pool_live s p qs W" "wq_apart qs s"
  shows "length qs < 2 ^ 32"
proof -
  have "distinct (map QueueNode qs)" using clist_distinct [of "lh s" "PoolHead p"] assms(1) by (auto simp: pool_live_def pool_ok_def)
  then have "length qs = card (set qs)" by (simp add: distinct_map distinct_card)
  then show ?thesis using wq_apart_card [OF assms(2)] by simp
qed

text \<open>
  A whole session of the workqueue module: from the constructor over any sequence of calls
  of its four scheduling functions, with the workers of all queues going on in any order, to
  \<open>mthpc_workqueue_exit\<close>, which returns if the workers are scheduled again and
  again. By then every work that was accepted has run, as often as it was accepted, no queue is
  left, the counts of the pools are 0 and their locks destroyed, only the threads of the client
  are registered with the RCU, and no warning was given.
\<close>

theorem session_exit:
  assumes "session_typed A s"
    and "\<forall>p t. set (sched p t) \<subseteq> dom (wqs s)"
    and "\<forall>p\<in>set wq_pools. \<forall>q\<in>dom (wqs s). \<forall>t. \<exists>u\<ge>t. q \<in> set (sched p u)"
  shows "\<exists>s'. mthpc_workqueue_exit sched s = Some s' \<and> mset (ran s') = mset A \<and> (\<forall>q\<in>dom (wqs s). wqs s' q = None) \<and>
    (\<forall>p\<in>set wq_pools. pools s' p = Some \<lparr>pcount = 0, plock = Destroyed\<rparr>) \<and>
    rcu_threads (clients s) (rcu s') \<and> wq_warned s' = 0"
proof -
  obtain U Qs W where ok: "session_ok U A s Qs W"
    using assms(1) by (auto simp: session_typed_def)
  let ?P = "pool_list wq_pools Qs"
  have live: "pools_live s ?P W" and threads: "wq_threads U (queues_of ?P) s" and free: "FreeList \<in> dom (lh s)"
    and dom: "dom (wqs s) = (\<Union>p\<in>set wq_pools. set (Qs p))"
    and count: "mset (ran s) + pending (queues_of ?P) W = mset A" and warn: "wq_warned s = 0"
    and apart: "\<forall>p\<in>set wq_pools. wq_apart (Qs p) s"
    using ok by (simp_all add: session_ok_def queues_of_pool_list)
  have len: "\<forall>p\<in>set wq_pools. length (Qs p) < 2 ^ 32"
  proof
    fix p assume p: "p \<in> set wq_pools"
    show "length (Qs p) < 2 ^ 32"
      by (rule pool_queues_bound [of s p _ W]) (use live apart p in \<open>simp_all add: pools_live_list\<close>)
  qed
  have fair: "\<forall>p\<in>set wq_pools. \<forall>q\<in>set (Qs p). \<forall>t. \<exists>u\<ge>t. q \<in> set (sched p u)"
    using assms(3) dom by blast
  obtain s' where s': "mthpc_workqueue_exit sched s = Some s'" "\<forall>q\<in>dom (wqs s). wqs s' q = None"
    "mset (ran s') = mset (ran s) + (\<Sum>q\<in>dom (wqs s). mset (W q))"
    "\<forall>p\<in>set wq_pools. pools s' p = Some \<lparr>pcount = 0, plock = Destroyed\<rparr>" "rcu_threads U (rcu s')" "wq_warned s' = wq_warned s"
    using workqueue_exit_drains [OF live threads free len dom assms(2) fair] by blast
  have "(\<Sum>q\<in>dom (wqs s). mset (W q)) = pending (queues_of ?P) W"
    by (simp only: pending_def queues_of_pool_list dom)
  then show ?thesis using s' count warn session_registered(3) [OF ok] by (intro exI [of _ s']) simp
qed

section \<open>An example\<close>

definition session_memory :: wq_sys where
  "session_memory = \<lparr>wqs = Map.empty, works = [7 \<mapsto> \<lparr>wfunc = 0, wwq = 0\<rparr>], pools = Map.empty,
     lh = (\<lambda>a. if a \<in> {PoolHead 0, PoolHead 1, PoolHead 2, FreeList, WorkNode 7} then Some \<lparr>nxt = WNull, prv = WNull\<rparr> else None),
     rcu = wq_rcu, threads = [], ran = [], wq_warned = 0\<rparr>"

text \<open>After the constructor, and after one call.\<close>

lemma session_example_start:
  obtains s where "session_start ([], s)" "rcu s = wq_rcu" "wqs s = Map.empty" "ran s = []" "works s 7 \<noteq> None"
    "dom (lh s) = {PoolHead 0, PoolHead 1, PoolHead 2, FreeList, WorkNode 7}"
proof -
  have heads: "\<forall>p\<in>set wq_pools. PoolHead p \<in> dom (lh session_memory)"
    by (simp add: wq_pools_def mthpc_workpool_def mthpc_thread_wp_def mthpc_taskflow_wp_def session_memory_def dom_def)
  obtain ps h where h: "mthpc_workqueue_init session_memory = Some (session_memory\<lparr>pools := ps, lh := h\<rparr>)"
    "dom h = dom (lh session_memory)"
    by (rule workqueue_init_ok [OF heads], rule that)
  show ?thesis
  proof (rule that [of "session_memory\<lparr>pools := ps, lh := h\<rparr>"])
    show "session_start ([], session_memory\<lparr>pools := ps, lh := h\<rparr>)"
      unfolding session_start_def prod.case
      using h(1) heads wq_rcu_threads
      by (intro conjI exI [of _ session_memory] exI [of _ "{3}"]) (simp_all add: session_memory_def dom_def)
  qed (use h(2) in \<open>auto simp: session_memory_def dom_def\<close>)
qed

lemma session_example_call:
  assumes "rcu s = wq_rcu" "wqs s = Map.empty" "ran s = []" "works s 7 \<noteq> None"
    "dom (lh s) = {PoolHead 0, PoolHead 1, PoolHead 2, FreeList, WorkNode 7}"
  shows "call_ok wq_env 7 [] s"
proof -
  have "caller_ok wq_env (rcu s)"
    using rcu_threads_registered [OF wq_rcu_threads] assms(1) wq_env_worker by (simp add: caller_ok_def wq_env_def)
  moreover have "wq_is_fresh s (wq_fresh wq_env)" using assms(2,5) by (simp add: wq_is_fresh_def wq_env_def)
  ultimately show ?thesis using assms by (simp add: call_ok_def)
qed

lemma session_type_safety_witness:
  "\<exists>s s'. session_start ([], s) \<and> run_call wq_env (Queue_work 7) s = Some (0, s') \<and> session_typed [7] s'"
proof -
  obtain s where s: "session_start ([], s)" "rcu s = wq_rcu" "wqs s = Map.empty" "ran s = []" "works s 7 \<noteq> None"
    "dom (lh s) = {PoolHead 0, PoolHead 1, PoolHead 2, FreeList, WorkNode 7}"
    by (rule session_example_start, rule that)
  have "call_ok wq_env (call_work (Queue_work 7)) [] s" using session_example_call [OF s(2-6)] by simp
  from session_type_safety [OF reach_init [where init = session_start, OF s(1)] this] obtain r s' where
    "run_call wq_env (Queue_work 7) s = Some (r, s')" "r = 0 \<or> r = - ENOMEM \<and> wq_fresh wq_env = 0"
    "session_typed (if r = 0 then [] @ [7] else []) s'"
    by (simp only: call_work.simps) blast
  moreover have "wq_fresh wq_env \<noteq> 0" by (simp add: wq_env_def)
  ultimately show ?thesis using s(1) by auto
qed

lemma session_exit_witness:
  "\<exists>s sched s'. reachable session_start session_step ([7], s) \<and> mthpc_workqueue_exit sched s = Some s' \<and> ran s' = [7]"
proof -
  obtain s where s: "session_start ([], s)" "rcu s = wq_rcu" "wqs s = Map.empty" "ran s = []" "works s 7 \<noteq> None"
    "dom (lh s) = {PoolHead 0, PoolHead 1, PoolHead 2, FreeList, WorkNode 7}"
    by (rule session_example_start, rule that)
  have call: "call_ok wq_env (call_work (Queue_work 7)) [] s" using session_example_call [OF s(2-6)] by simp
  obtain s1 where s1: "run_call wq_env (Queue_work 7) s = Some (0, s1)" "session_typed [7] s1"
    by (rule session_call [OF session_typed_start [OF s(1)] call]) (use that in \<open>auto simp: wq_env_def\<close>)
  have r: "reachable session_start session_step ([7], s1)"
    using reach_step [where step = session_step, OF reach_init [where init = session_start, OF s(1)] accepted [OF call s1(1)]] by simp
  obtain Q where Q: "dom (wqs s1) = set Q" using s1(2) by (auto simp: session_typed_def session_ok_def)
  have "\<exists>s'. mthpc_workqueue_exit (\<lambda>_ _. Q) s1 = Some s' \<and> mset (ran s') = mset [7] \<and> (\<forall>q\<in>dom (wqs s1). wqs s' q = None) \<and>
    (\<forall>p\<in>set wq_pools. pools s' p = Some \<lparr>pcount = 0, plock = Destroyed\<rparr>) \<and>
    rcu_threads (clients s1) (rcu s') \<and> wq_warned s' = 0"
    by (rule session_exit [OF s1(2)]) (auto simp: Q)
  then obtain s' where "mthpc_workqueue_exit (\<lambda>_ _. Q) s1 = Some s'" "mset (ran s') = {#7#}" by auto
  moreover from this(2) have "ran s' = [7]" by (cases "ran s'") (auto simp: add_eq_conv_diff)
  ultimately show ?thesis using r by blast
qed

end
