(* ===== verification/Rcu_Meta.thy ===== *)
theory Rcu_Meta
  imports Rcu_Data
begin

text \<open>
  What the calls of the threads leave alone in the RCU: the list of all data objects, its lock
  and the links of the objects. Only the constructors and destructors write them.
\<close>

definition rcu_meta :: "rcu_mem \<Rightarrow> nat \<times> spin \<times> (nat \<rightharpoonup> nat)" where
  "rcu_meta m = (meta_head m, meta_lock m, data_next m)"

lemma rcu_meta_list: "rcu_meta m' = rcu_meta m \<Longrightarrow> meta_list m' ds = meta_list m ds"
  by (simp add: rcu_meta_def meta_list_def)

lemma rcu_meta_simps [simp]:
  "rcu_meta (m\<lparr>nodes := N\<rparr>) = rcu_meta m" "rcu_meta (m\<lparr>node_ptr := P\<rparr>) = rcu_meta m"
  "rcu_meta (warn b m) = rcu_meta m"
  by (simp_all add: rcu_meta_def data_next_def fun_eq_iff)

lemma upd_data_meta:
  assumes "upd_data d f m = Some m'" "\<And>r r'. f r = Some r' \<Longrightarrow> dnext r' = dnext r"
  shows "rcu_meta m' = rcu_meta m"
  using assms by (auto simp: upd_data_def bind_Some_iff rcu_meta_def data_next_def fun_eq_iff)

lemma lock_data_meta: "lock_data d m = Some m' \<Longrightarrow> rcu_meta m' = rcu_meta m"
  unfolding lock_data_def by (erule upd_data_meta) (auto simp: bind_Some_iff)

lemma unlock_data_meta: "unlock_data d m = Some m' \<Longrightarrow> rcu_meta m' = rcu_meta m"
  unfolding unlock_data_def by (erule upd_data_meta) (auto simp: bind_Some_iff)

lemma set_node_slot_meta: "set_node_slot d s v m = Some m' \<Longrightarrow> rcu_meta m' = rcu_meta m"
  by (auto simp: set_node_slot_def bind_Some_iff dest: upd_data_meta split: slot.splits)

lemma free_node_meta: "free_node a m = Some m' \<Longrightarrow> rcu_meta m' = rcu_meta m"
  by (auto simp: free_node_def bind_Some_iff)

lemmas data_meta = lock_data_meta unlock_data_meta set_node_slot_meta free_node_meta

lemma rcu_add_meta: "mthpc_rcu_add a d i m = Some (m', r) \<Longrightarrow> rcu_meta m' = rcu_meta m"
  by (auto simp: mthpc_rcu_add_def Let_def bind_Some_iff dest!: data_meta split: if_splits)

lemma rcu_del_meta: "mthpc_rcu_del d i a m = Some m' \<Longrightarrow> rcu_meta m' = rcu_meta m"
  by (auto simp: mthpc_rcu_del_def Let_def bind_Some_iff dest!: data_meta split: if_splits)

lemma thread_init_meta: "mthpc_rcu_thread_init a t m = Some m' \<Longrightarrow> rcu_meta m' = rcu_meta m"
  by (auto simp: mthpc_rcu_thread_init_def bind_Some_iff dest!: rcu_add_meta split: if_splits option.splits)

lemma thread_exit_meta: "mthpc_rcu_thread_exit t m = Some m' \<Longrightarrow> rcu_meta m' = rcu_meta m"
  by (auto simp: mthpc_rcu_thread_exit_def bind_Some_iff dest!: rcu_del_meta split: if_splits)

lemma upd_node_gp_meta: "upd_node_gp a f m = Some m' \<Longrightarrow> rcu_meta m' = rcu_meta m"
  by (auto simp: upd_node_gp_def bind_Some_iff)

lemma read_lock_meta: "mthpc_rcu_read_lock a t m = Some m' \<Longrightarrow> rcu_meta m' = rcu_meta m"
  by (auto simp: mthpc_rcu_read_lock_def mthpc_rcu_read_lock_internal_def bind_Some_iff
      dest!: upd_node_gp_meta thread_init_meta split: if_splits)

lemma read_unlock_meta: "mthpc_rcu_read_unlock t m = Some m' \<Longrightarrow> rcu_meta m' = rcu_meta m"
  by (auto simp: mthpc_rcu_read_unlock_def mthpc_rcu_read_unlock_internal_def dest!: upd_node_gp_meta)

lemma synchronize_meta:
  assumes "mthpc_synchronize_rcu m = Some m'"
  shows "rcu_meta m' = rcu_meta m"
proof -
  obtain m1 r1 m2 r2 where s: "lock_data usr_data m = Some m1" "datas m1 usr_data = Some r1"
    "upd_data usr_data (\<lambda>r. Some (r\<lparr>dgp := next_gp (dgp r)\<rparr>)) m1 = Some m2" "datas m2 usr_data = Some r2"
    "unlock_data usr_data m2 = Some m'"
    using assms by (auto simp: mthpc_synchronize_rcu_def mthpc_synchronize_rcu_internal_def Let_def bind_Some_iff)
  have "rcu_meta m2 = rcu_meta m1" by (rule upd_data_meta [OF s(3)]) auto
  then show ?thesis using lock_data_meta [OF s(1)] unlock_data_meta [OF s(5)] by simp
qed

end
