(* ===== verification/Wq_Meta.thy ===== *)
theory Wq_Meta
  imports Wq_Exit Rcu_Meta
begin

text \<open>
  The calls and the workers of the workqueue, and its destructor, leave the list of the RCU's
  data objects alone, whatever the state they start in.
\<close>

abbreviation wq_meta :: "wq_sys \<Rightarrow> nat \<times> spin \<times> (nat \<rightharpoonup> nat)" where
  "wq_meta s \<equiv> rcu_meta (rcu s)"

section \<open>Operations without the RCU\<close>

named_theorems same_rcu \<open>operations that leave the memory of the RCU as it is\<close>

lemma wq_warn_rcu [simp]: "rcu (wq_warn b s) = rcu s"
  by (simp add: wq_warn_def)

lemma with_lh_rcu [same_rcu]: "with_lh f s = Some s' \<Longrightarrow> rcu s' = rcu s"
  by (auto simp: with_lh_def bind_Some_iff)

lemma upd_wq_rcu [same_rcu]: "upd_wq q f s = Some s' \<Longrightarrow> rcu s' = rcu s"
  by (auto simp: upd_wq_def bind_Some_iff)

lemma upd_pool_rcu [same_rcu]: "upd_pool p f s = Some s' \<Longrightarrow> rcu s' = rcu s"
  by (auto simp: upd_pool_def bind_Some_iff)

lemma upd_work_rcu [same_rcu]: "upd_work w f s = Some s' \<Longrightarrow> rcu s' = rcu s"
  by (auto simp: upd_work_def bind_Some_iff)

lemma locks_rcu [same_rcu]:
  "lock_wq q s = Some s' \<Longrightarrow> rcu s' = rcu s" "unlock_wq q s = Some s' \<Longrightarrow> rcu s' = rcu s"
  "lock_pool p s = Some s' \<Longrightarrow> rcu s' = rcu s" "unlock_pool p s = Some s' \<Longrightarrow> rcu s' = rcu s"
  "mthpc_wq_futex_wake q s = Some s' \<Longrightarrow> rcu s' = rcu s"
  unfolding lock_wq_def unlock_wq_def lock_pool_def unlock_pool_def mthpc_wq_futex_wake_def
  by (erule same_rcu)+

lemma free_wq_rcu [same_rcu]: "free_wq q s = Some s' \<Longrightarrow> rcu s' = rcu s"
  by (auto simp: free_wq_def bind_Some_iff)

lemma add_locked_rcu [same_rcu]: "mthpc_workqueue_add_locked q w s = Some s' \<Longrightarrow> rcu s' = rcu s"
  by (auto simp: mthpc_workqueue_add_locked_def Let_def bind_Some_iff dest!: same_rcu)

lemma add_under_lock_rcu [same_rcu]: "add_under_lock q w s = Some s' \<Longrightarrow> rcu s' = rcu s"
  by (auto simp: add_under_lock_def bind_Some_iff dest!: same_rcu)

lemma alloc_rcu [same_rcu]: "mthpc_alloc_workqueue q j s = Some s' \<Longrightarrow> rcu s' = rcu s"
  by (auto simp: mthpc_alloc_workqueue_def Let_def bind_Some_iff dest!: same_rcu)

lemma prepare_rcu [same_rcu]: "prepare_workqueue q j p cpu w s = Some s' \<Longrightarrow> rcu s' = rcu s"
  by (auto simp: prepare_workqueue_def bind_Some_iff dest!: same_rcu)

lemma run_worker_rcu: "run_worker q s = Some s' \<Longrightarrow> rcu s' = rcu s"
  by (auto simp: run_worker_def worker_iteration_def Let_def bind_Some_iff
      dest!: same_rcu split: option.splits if_splits)

section \<open>Scheduling\<close>

lemma works_handler_meta: "mthpc_works_handler env q s = Some s' \<Longrightarrow> wq_meta s' = wq_meta s"
  by (auto simp: mthpc_works_handler_def worker_begin_def mthpc_wq_run_on_cpu_def bind_Some_iff
      dest!: same_rcu thread_init_meta)

lemma link_meta: "link_workqueue env q p cpu w s = Some (r, s') \<Longrightarrow> wq_meta s' = wq_meta s"
  by (auto simp: link_workqueue_def bind_Some_iff dest!: same_rcu works_handler_meta split: option.splits)

lemma slow_meta: "get_workqueue_slow env p cpu w s = Some (r, s') \<Longrightarrow> wq_meta s' = wq_meta s"
  by (auto simp: get_workqueue_slow_def Let_def bind_Some_iff dest!: same_rcu link_meta split: if_splits)

lemma fast_meta: "get_workqueue_fast env p cpu w s = Some (r, s') \<Longrightarrow> wq_meta s' = wq_meta s"
  by (auto simp: get_workqueue_fast_def Let_def bind_Some_iff
      dest!: same_rcu read_lock_meta read_unlock_meta split: option.splits)

lemma schedule_meta: "schedule_work_on env p cpu w s = Some (r, s') \<Longrightarrow> wq_meta s' = wq_meta s"
  by (auto simp: schedule_work_on_def mthpc_get_workqueue_def bind_Some_iff
      dest!: same_rcu fast_meta slow_meta split: option.splits)

section \<open>The destructor\<close>

text \<open>A loop keeps what its body keeps, if it returns.\<close>

lemma list_for_each_safe_from_keeps:
  assumes "list_for_each_safe_from hp body h pos n t = Some t'"
  shows "(\<forall>pos s s'. body pos s = Some s' \<longrightarrow> f s' = f s) \<longrightarrow> f t' = f t"
proof (rule list_for_each_safe_from.raw_induct [where
    P = "\<lambda>hp body h pos n t t'. (\<forall>pos s s'. body pos s = Some s' \<longrightarrow> f s' = f s) \<longrightarrow> f t' = f t", OF _ assms])
  fix loop hp body h pos n t t'
  assume IH: "\<And>hp body h pos n t t'. loop hp body h pos n t = Some t' \<Longrightarrow>
      (\<forall>pos s s'. body pos s = Some s' \<longrightarrow> f s' = f s) \<longrightarrow> f t' = f t"
    and run: "(if pos = h then Some t
      else do { s \<leftarrow> body pos t; n' \<leftarrow> ld_next (hp s) n; loop hp body h n n' s }) = Some t'"
  show "(\<forall>pos s s'. body pos s = Some s' \<longrightarrow> f s' = f s) \<longrightarrow> f t' = f t"
  proof
    assume body: "\<forall>pos s s'. body pos s = Some s' \<longrightarrow> f s' = f s"
    show "f t' = f t"
    proof (cases "pos = h")
      case False
      then obtain s n' where "body pos t = Some s" "loop hp body h n n' s = Some t'"
        using run by (auto simp: bind_Some_iff)
      then show ?thesis using IH body by metis
    qed (use run in simp)
  qed
qed

lemma list_for_each_safe_keeps:
  assumes "list_for_each_safe hp body head s = Some s'"
    and "\<And>pos s s'. body pos s = Some s' \<Longrightarrow> f s' = f s"
  shows "f s' = f s"
  using assms(1) list_for_each_safe_from_keeps [of hp body head _ _ s s' f] assms(2)
  by (auto simp: list_for_each_safe_def bind_Some_iff)

lemma join_take_meta: "join_take pos s = Some s' \<Longrightarrow> wq_meta s' = wq_meta s"
  by (auto simp: join_take_def bind_Some_iff dest!: same_rcu synchronize_meta split: if_splits)

lemma join_free_meta: "join_free p pos s = Some s' \<Longrightarrow> wq_meta s' = wq_meta s"
  by (auto simp: join_free_def join_worker_def worker_end_def Let_def bind_Some_iff
      dest!: same_rcu thread_exit_meta)

lemma fold_keeps:
  "fold_opt g xs s = Some s' \<Longrightarrow> (\<And>x s s'. g x s = Some s' \<Longrightarrow> f s' = f s) \<Longrightarrow> f s' = f s"
  by (induction xs arbitrary: s) (fastforce simp: bind_Some_iff)+

lemma take_loop_meta: "list_for_each_safe lh join_take a s = Some s' \<Longrightarrow> wq_meta s' = wq_meta s"
  by (rule list_for_each_safe_keeps [where f = wq_meta]) (auto dest: join_take_meta)

lemma free_loop_meta: "list_for_each_safe lh (join_free p) a s = Some s' \<Longrightarrow> wq_meta s' = wq_meta s"
  by (rule list_for_each_safe_keeps [where f = wq_meta]) (auto dest: join_free_meta)

lemma join_pass_meta: "join_pass p n s = Some (n', s') \<Longrightarrow> wq_meta s' = wq_meta s"
  by (auto simp: join_pass_def bind_Some_iff dest!: same_rcu take_loop_meta free_loop_meta split: if_splits)

lemma workers_meta: "fold_opt run_worker ts s = Some s' \<Longrightarrow> wq_meta s' = wq_meta s"
  by (rule fold_keeps [where f = wq_meta]) (auto dest: run_worker_rcu)

lemma join_meta:
  assumes "mthpc_workqueues_join sched t p n s = Some s'"
  shows "wq_meta s' = wq_meta s"
proof (rule mthpc_workqueues_join.raw_induct [where P = "\<lambda>sched t p n s s'. wq_meta s' = wq_meta s", OF _ assms])
  fix join sched t p n s s'
  assume IH: "\<And>sched t p n s s'. join sched t p n s = Some s' \<Longrightarrow> wq_meta s' = wq_meta s"
    and run: "do {
      r \<leftarrow> pools s p;
      if pcount r = 0 then Some s else do {
        s \<leftarrow> fold_opt run_worker (sched t) s;
        if 32 \<le> n then join sched (Suc t) p 0 s
        else do {
          (n, s) \<leftarrow> join_pass p n s;
          join sched (Suc t) p n s } } } = Some s'"
  show "wq_meta s' = wq_meta s"
    using run by (auto simp: bind_Some_iff dest!: IH join_pass_meta workers_meta split: if_splits)
qed

lemma workpool_exit_meta: "mthpc_workpool_exit sched p s = Some s' \<Longrightarrow> wq_meta s' = wq_meta s"
  by (auto simp: mthpc_workpool_exit_def bind_Some_iff dest!: synchronize_meta join_meta same_rcu)

lemma workqueue_exit_meta: "mthpc_workqueue_exit sched s = Some s' \<Longrightarrow> wq_meta s' = wq_meta s"
  by (auto simp: mthpc_workqueue_exit_def bind_Some_iff dest!: workpool_exit_meta)

end
