(* ===== verification/Thread.thy ===== *)
theory Thread
  imports Ring_Heap Spinlock
begin

text \<open>
  Thread groups, \<open>src/thread/thread.c\<close> and \<open>include/mthpc/thread.h\<close>, as the calling thread
  and the workqueue see them: the list of running asynchronous groups, the threads of each
  group and the reference count of the barrier objects. What a worker thread does between its
  start and its end is the step relation of \<open>Thread_Run\<close>; here a thread is running, exited or
  joined. Here are the definitions; the properties are in \<open>Thread_Props\<close>.
\<close>

section \<open>Groups\<close>

datatype th_addr =
    ThreadsHead \<comment> \<open>\<open>&mthpc_threads_info.head\<close>\<close>
  | GroupNode nat \<comment> \<open>\<open>&group->node\<close>\<close>

text \<open>The flag says whether the thread runs \<open>mthpc_thread_async_worker\<close>.\<close>

datatype pth = Running bool | Exited | Joined

record thread_group =
  tg_type :: u32
  tg_nr :: u32
  barrier_object :: nat \<comment> \<open>\<open>0\<close> is the null pointer\<close>
  nr_exited :: u32
  tg_thread :: "nat list"

record th_sys =
  groups :: "nat \<rightharpoonup> thread_group"
  pths :: "nat \<rightharpoonup> pth"
  next_pth :: nat
  bobjs :: "nat \<rightharpoonup> u64" \<comment> \<open>the reference count of each allocated barrier object\<close>
  thl :: "th_addr list_heap"
  nr_group :: u64
  th_lock :: spin
  thread_work :: nat \<comment> \<open>how often \<open>mthpc_thread_work\<close> was queued\<close>
  th_warned :: nat

definition MTHPC_THREAD_GROUP_TYPE :: u32 where "MTHPC_THREAD_GROUP_TYPE = 1"
definition MTHPC_THREAD_CLUSTER_TYPE :: u32 where "MTHPC_THREAD_CLUSTER_TYPE = 2"
definition MTHPC_THREAD_ASYNC_TYPE :: u32 where "MTHPC_THREAD_ASYNC_TYPE = 4"

definition declare_thread_group :: "u32 \<Rightarrow> nat list \<Rightarrow> thread_group" where
  "declare_thread_group n junk = \<lparr>tg_type = MTHPC_THREAD_GROUP_TYPE, tg_nr = n, barrier_object = 0,
     nr_exited = 0, tg_thread = junk\<rparr>"

definition th_warn :: "bool \<Rightarrow> th_sys \<Rightarrow> th_sys" where
  "th_warn b s = (if b then s\<lparr>th_warned := Suc (th_warned s)\<rparr> else s)"

definition upd_group :: "nat \<Rightarrow> (thread_group \<Rightarrow> thread_group) \<Rightarrow> th_sys \<Rightarrow> th_sys option" where
  "upd_group g f s = do { r \<leftarrow> groups s g; Some (s\<lparr>groups := (groups s)(g \<mapsto> f r)\<rparr>) }"

definition with_thl :: "(th_addr list_heap \<Rightarrow> th_addr list_heap option) \<Rightarrow> th_sys \<Rightarrow> th_sys option" where
  "with_thl f s = do { h \<leftarrow> f (thl s); Some (s\<lparr>thl := h\<rparr>) }"

definition lock_threads :: "th_sys \<Rightarrow> th_sys option" where
  "lock_threads s = do { l \<leftarrow> spin_lock (th_lock s); Some (s\<lparr>th_lock := l\<rparr>) }"

definition unlock_threads :: "th_sys \<Rightarrow> th_sys option" where
  "unlock_threads s = do { l \<leftarrow> spin_unlock (th_lock s); Some (s\<lparr>th_lock := l\<rparr>) }"

fun group_of_node :: "th_addr \<Rightarrow> nat option" where
  "group_of_node (GroupNode g) = Some g"
| "group_of_node ThreadsHead = None"

section \<open>The barrier object\<close>

text \<open>
  \<open>-group->nr\<close> negates an \<open>unsigned int\<close>, and the atomic addition widens the result to \<open>long\<close>;
  the subtraction after it widens \<open>group->nr\<close> itself.
\<close>

definition mthpc_group_put_barrier_object :: "nat \<Rightarrow> th_sys \<Rightarrow> th_sys option" where
  "mthpc_group_put_barrier_object g s = do {
     r \<leftarrow> groups s g;
     let b = barrier_object r;
     if b = 0 then Some s else do {
       c \<leftarrow> bobjs s b;
       let s = s\<lparr>bobjs := (bobjs s)(b \<mapsto> c + ucast (- tg_nr r))\<rparr>;
       let nr_thread = c - ucast (tg_nr r);
       let s = th_warn (nr_thread <s 0) s;
       let s = (if nr_thread = 0 then s\<lparr>bobjs := (bobjs s)(b := None)\<rparr> else s);
       upd_group g (\<lambda>r. r\<lparr>barrier_object := 0\<rparr>) s } }"

section \<open>Threads\<close>

definition mthpc_thread_async_cleanup :: "nat \<Rightarrow> th_sys \<Rightarrow> th_sys option" where
  "mthpc_thread_async_cleanup g s = upd_group g (\<lambda>r. r\<lparr>nr_exited := nr_exited r + 1\<rparr>) s"

text \<open>The end of an asynchronous thread \<open>t\<close> of the group \<open>g\<close>.\<close>

definition async_worker_exit :: "nat \<Rightarrow> nat \<Rightarrow> th_sys \<Rightarrow> th_sys option" where
  "async_worker_exit g t s = do {
     _ \<leftarrow> guard_opt (pths s t = Some (Running True));
     s \<leftarrow> mthpc_thread_async_cleanup g s;
     Some (s\<lparr>pths := (pths s)(t \<mapsto> Exited)\<rparr>) }"

definition pthread_create :: "bool \<Rightarrow> nat \<Rightarrow> nat \<Rightarrow> th_sys \<Rightarrow> th_sys option" where
  "pthread_create async g j s = do {
     r \<leftarrow> groups s g;
     _ \<leftarrow> guard_opt (j < length (tg_thread r));
     Some (s\<lparr>groups := (groups s)(g \<mapsto> r\<lparr>tg_thread := (tg_thread r)[j := next_pth s]\<rparr>),
       pths := (pths s)(next_pth s \<mapsto> Running async), next_pth := Suc (next_pth s)\<rparr>) }"

text \<open>
  \<open>pthread_join(group->thread[j], NULL)\<close> waits for the end of the thread, for ever if it does
  not end; to join a thread twice is undefined.
\<close>

definition join_thread :: "(nat \<Rightarrow> bool) \<Rightarrow> nat \<Rightarrow> nat \<Rightarrow> th_sys \<Rightarrow> th_sys option" where
  "join_thread ends g j s = do {
     r \<leftarrow> groups s g;
     _ \<leftarrow> guard_opt (j < length (tg_thread r));
     let t = tg_thread r ! j;
     p \<leftarrow> pths s t;
     s \<leftarrow> (case p of
         Joined \<Rightarrow> None
       | Exited \<Rightarrow> Some s
       | Running async \<Rightarrow> do {
           _ \<leftarrow> guard_opt (ends t);
           if async then async_worker_exit g t s else Some s });
     Some (s\<lparr>pths := (pths s)(t \<mapsto> Joined)\<rparr>) }"

definition each_thread :: "(nat \<Rightarrow> th_sys \<Rightarrow> th_sys option) \<Rightarrow> nat \<Rightarrow> th_sys \<Rightarrow> th_sys option" where
  "each_thread f g s = do { r \<leftarrow> groups s g; fold_opt f [0..<unat (tg_nr r)] s }"

section \<open>The work that reaps finished groups\<close>

definition wq_join_one :: "(nat \<Rightarrow> bool) \<Rightarrow> th_addr \<Rightarrow> th_sys \<Rightarrow> th_sys option" where
  "wq_join_one ends pos s = do {
     g \<leftarrow> group_of_node pos;
     r \<leftarrow> groups s g;
     if nr_exited r = tg_nr r then do {
       s \<leftarrow> each_thread (join_thread ends g) g s;
       s \<leftarrow> with_thl (mthpc_list_del (GroupNode g)) s;
       mthpc_group_put_barrier_object g (s\<lparr>nr_group := nr_group s - 1\<rparr>) }
     else Some s }"

definition mthpc_thread_wq_join :: "(nat \<Rightarrow> bool) \<Rightarrow> th_sys \<Rightarrow> th_sys option" where
  "mthpc_thread_wq_join ends s = do {
     s \<leftarrow> lock_threads s;
     s \<leftarrow> list_for_each_safe thl (wq_join_one ends) ThreadsHead s;
     if nr_group s \<noteq> 0 then do {
       s \<leftarrow> unlock_threads s;
       Some (s\<lparr>thread_work := Suc (thread_work s)\<rparr>) }
     else unlock_threads s }"

section \<open>Running groups\<close>

definition add_nr :: "nat \<Rightarrow> u64 \<times> th_sys \<Rightarrow> (u64 \<times> th_sys) option" where
  "add_nr g p = do { r \<leftarrow> groups (snd p) g; Some (fst p + ucast (tg_nr r), snd p) }"

definition run_one :: "nat \<Rightarrow> nat \<Rightarrow> th_sys \<Rightarrow> th_sys option" where
  "run_one b g s = do {
     s \<leftarrow> upd_group g (\<lambda>r. r\<lparr>barrier_object := b\<rparr>) s;
     each_thread (pthread_create False g) g s }"

definition warn_async :: "nat \<Rightarrow> th_sys \<Rightarrow> th_sys option" where
  "warn_async g s = do {
     r \<leftarrow> groups s g;
     Some (th_warn (tg_type r AND MTHPC_THREAD_ASYNC_TYPE \<noteq> 0) s) }"

text \<open>The barrier object lives on the stack, at \<open>b\<close>, until the call returns.\<close>

definition mthpc_thread_run :: "(nat \<Rightarrow> bool) \<Rightarrow> nat \<Rightarrow> nat list \<Rightarrow> th_sys \<Rightarrow> th_sys option" where
  "mthpc_thread_run ends b ths s = do {
     (total, s) \<leftarrow> fold_opt (\<lambda>g p. do { s \<leftarrow> warn_async g (snd p); add_nr g (fst p, s) }) ths (0, s);
     let s = s\<lparr>bobjs := (bobjs s)(b \<mapsto> total)\<rparr>;
     s \<leftarrow> fold_opt (run_one b) ths s;
     s \<leftarrow> fold_opt (\<lambda>g. each_thread (join_thread ends g) g) ths s;
     Some (s\<lparr>bobjs := (bobjs s)(b := None)\<rparr>) }"

definition async_run_one :: "nat \<Rightarrow> nat \<Rightarrow> th_sys \<Rightarrow> th_sys option" where
  "async_run_one b g s = do {
     s \<leftarrow> upd_group g (\<lambda>r. r\<lparr>tg_type := tg_type r OR MTHPC_THREAD_ASYNC_TYPE\<rparr>) s;
     s \<leftarrow> with_thl (mthpc_list_init (GroupNode g)) s;
     s \<leftarrow> lock_threads s;
     s \<leftarrow> with_thl (mthpc_list_add_tail (GroupNode g) ThreadsHead) s;
     s \<leftarrow> unlock_threads (s\<lparr>nr_group := nr_group s + 1\<rparr>);
     s \<leftarrow> upd_group g (\<lambda>r. r\<lparr>barrier_object := b\<rparr>) s;
     each_thread (pthread_create True g) g s }"

text \<open>\<open>b\<close> is what \<open>malloc\<close> returns.\<close>

definition mthpc_thread_async_run :: "nat \<Rightarrow> nat list \<Rightarrow> th_sys \<Rightarrow> th_sys option" where
  "mthpc_thread_async_run b ths s = (if b = 0 then Some (th_warn True s) else do {
     (total, s) \<leftarrow> fold_opt add_nr ths (0, s);
     let s = s\<lparr>bobjs := (bobjs s)(b \<mapsto> total)\<rparr>;
     s \<leftarrow> fold_opt (async_run_one b) ths s;
     Some (s\<lparr>thread_work := Suc (thread_work s)\<rparr>) })"

text \<open>
  The polling of \<open>group->nr_exited\<close>: \<open>late t\<close> further threads of the group have exited at time
  \<open>t\<close> of the wait. The result is the time at which the loop stops. Of the other threads only those
  of the group run beside the wait: the reaper is a call of its own before or after it.
\<close>

partial_function (option) wait_exited :: "(nat \<Rightarrow> u32) \<Rightarrow> u32 \<Rightarrow> nat \<Rightarrow> nat option" where
  "wait_exited obs n t = (if obs t \<noteq> n then wait_exited obs n (Suc t) else Some (Suc t))"

definition async_wait_one ::
  "(nat \<Rightarrow> bool) \<Rightarrow> (nat \<Rightarrow> nat \<Rightarrow> nat) \<Rightarrow> nat \<Rightarrow> th_sys \<Rightarrow> th_sys option" where
  "async_wait_one ends late g s = do {
     r \<leftarrow> groups s g;
     _ \<leftarrow> guard_opt (tg_type r AND MTHPC_THREAD_ASYNC_TYPE \<noteq> 0);
     s \<leftarrow> lock_threads s;
     s \<leftarrow> with_thl (mthpc_list_del (GroupNode g)) s;
     s \<leftarrow> unlock_threads (s\<lparr>nr_group := nr_group s - 1\<rparr>);
     _ \<leftarrow> fold_opt (\<lambda>j. wait_exited (\<lambda>t. nr_exited r + of_nat (late g t)) (tg_nr r)) [0..<unat (tg_nr r)] 0;
     s \<leftarrow> each_thread (join_thread ends g) g s;
     mthpc_group_put_barrier_object g s }"

definition mthpc_thread_async_wait ::
  "(nat \<Rightarrow> bool) \<Rightarrow> (nat \<Rightarrow> nat \<Rightarrow> nat) \<Rightarrow> nat list \<Rightarrow> th_sys \<Rightarrow> th_sys option" where
  "mthpc_thread_async_wait ends late ths s = fold_opt (async_wait_one ends late) ths s"

text \<open>The macros choose between a group and the members of a cluster by the type word.\<close>

definition thread_dispatch ::
  "(nat list \<Rightarrow> th_sys \<Rightarrow> th_sys option) \<Rightarrow> u32 \<Rightarrow> nat \<Rightarrow> nat list \<Rightarrow> th_sys \<Rightarrow> th_sys option" where
  "thread_dispatch run ty self members s =
     (if ty AND MTHPC_THREAD_GROUP_TYPE \<noteq> 0 then run [self] s
      else if ty AND MTHPC_THREAD_CLUSTER_TYPE \<noteq> 0 then run members s
      else Some (th_warn True s))"

text \<open>The macros \<open>mthpc_thread_async_run\<close> and \<open>mthpc_thread_async_wait\<close> dispatch in the same way.\<close>

definition thread_async_run :: "nat \<Rightarrow> u32 \<Rightarrow> nat \<Rightarrow> nat list \<Rightarrow> th_sys \<Rightarrow> th_sys option" where
  "thread_async_run b ty self members s =
     (if ty AND MTHPC_THREAD_GROUP_TYPE \<noteq> 0 then mthpc_thread_async_run b [self] s
      else if ty AND MTHPC_THREAD_CLUSTER_TYPE \<noteq> 0 then mthpc_thread_async_run b members s
      else Some (th_warn True s))"

definition thread_async_wait ::
  "(nat \<Rightarrow> bool) \<Rightarrow> (nat \<Rightarrow> nat \<Rightarrow> nat) \<Rightarrow> u32 \<Rightarrow> nat \<Rightarrow> nat list \<Rightarrow> th_sys \<Rightarrow> th_sys option" where
  "thread_async_wait ends late ty self members s =
     (if ty AND MTHPC_THREAD_GROUP_TYPE \<noteq> 0 then mthpc_thread_async_wait ends late [self] s
      else if ty AND MTHPC_THREAD_CLUSTER_TYPE \<noteq> 0 then mthpc_thread_async_wait ends late members s
      else Some (th_warn True s))"

text \<open>\<open>MTHPC_DECLARE_THREAD_CLUSTER\<close>.\<close>

record thread_cluster =
  tc_type :: u32
  tc_nr :: u32
  tc_thread :: "nat list"

definition declare_thread_cluster :: "nat list \<Rightarrow> thread_cluster" where
  "declare_thread_cluster ths = \<lparr>tc_type = MTHPC_THREAD_CLUSTER_TYPE, tc_nr = of_nat (length ths), tc_thread = ths\<rparr>"

text \<open>A declared cluster is run as its members, a declared group as itself.\<close>

lemma declared_dispatch:
  "thread_async_run b (tc_type (declare_thread_cluster ths)) a (tc_thread (declare_thread_cluster ths)) s =
     mthpc_thread_async_run b ths s"
  "thread_async_wait ends late (tc_type (declare_thread_cluster ths)) a (tc_thread (declare_thread_cluster ths)) s =
     mthpc_thread_async_wait ends late ths s"
  "thread_async_run b (tg_type (declare_thread_group n junk)) a x s = mthpc_thread_async_run b [a] s"
  "thread_async_wait ends late (tg_type (declare_thread_group n junk)) a x s = mthpc_thread_async_wait ends late [a] s"
  by (simp_all add: declare_thread_cluster_def declare_thread_group_def thread_async_run_def
      thread_async_wait_def MTHPC_THREAD_GROUP_TYPE_def MTHPC_THREAD_CLUSTER_TYPE_def)

section \<open>Start and end of the module\<close>

definition mthpc_thread_init :: "th_sys \<Rightarrow> th_sys option" where
  "mthpc_thread_init s =
     with_thl (mthpc_list_init ThreadsHead) (s\<lparr>nr_group := 0, th_lock := spin_lock_init\<rparr>)"

definition mthpc_thread_exit :: "th_sys \<Rightarrow> th_sys option" where
  "mthpc_thread_exit s = do {
     s \<leftarrow> lock_threads s;
     s \<leftarrow> unlock_threads s;
     l \<leftarrow> spin_lock_destroy (th_lock s);
     Some (s\<lparr>th_lock := l\<rparr>) }"

end
