(* ===== verification/Thread_Props.thy ===== *)
theory Thread_Props
  imports Thread
begin

text \<open>
  Properties of the thread groups: a run and a wait of an asynchronous group restore the list
  of groups and free the barrier object; what goes wrong when a group is run again, when the
  reaper came first and when several groups share a barrier object; the reaper and the
  synchronous run.
\<close>

section \<open>Threads of one group\<close>

definition set_pths :: "nat list \<Rightarrow> pth \<Rightarrow> (nat \<rightharpoonup> pth) \<Rightarrow> nat \<rightharpoonup> pth" where
  "set_pths ts p P = (\<lambda>t. if t \<in> set ts then Some p else P t)"

lemma set_pths_simps [simp]:
  "set_pths [] p P = P" "t \<in> set ts \<Longrightarrow> set_pths ts p P t = Some p"
  "t \<notin> set ts \<Longrightarrow> set_pths ts p P t = P t"
  "set_pths ts p (set_pths ts q P) = set_pths ts p P"
  by (auto simp: set_pths_def)

lemma set_pths_snoc: "(set_pths ts p P)(t \<mapsto> p) = set_pths (ts @ [t]) p P"
  by (auto simp: set_pths_def)

lemma upt_update: "k < length ts \<Longrightarrow> ([n..<n + k] @ drop k ts)[k := n + k] = [n..<n + Suc k] @ drop (Suc k) ts"
  by (simp add: list_update_append Cons_nth_drop_Suc [symmetric])

lemma create_fold:
  assumes "groups s g = Some r" "k \<le> length (tg_thread r)"
  shows "fold_opt (pthread_create async g) [0..<k] s = Some (s\<lparr>
    groups := (groups s)(g \<mapsto> r\<lparr>tg_thread := [next_pth s..<next_pth s + k] @ drop k (tg_thread r)\<rparr>),
    pths := set_pths [next_pth s..<next_pth s + k] (Running async) (pths s),
    next_pth := next_pth s + k\<rparr>)"
  using assms(2)
proof (induction k)
  case 0
  then show ?case using assms(1) by (simp add: fun_upd_idem)
next
  case (Suc k)
  have IH: "fold_opt (pthread_create async g) [0..<k] s = Some (s\<lparr>
    groups := (groups s)(g \<mapsto> r\<lparr>tg_thread := [next_pth s..<next_pth s + k] @ drop k (tg_thread r)\<rparr>),
    pths := set_pths [next_pth s..<next_pth s + k] (Running async) (pths s),
    next_pth := next_pth s + k\<rparr>)"
    by (rule Suc.IH) (use Suc.prems in simp)
  show ?case
    using Suc.prems unfolding upt_Suc_append [OF le0] fold_opt_append IH
    by (simp add: pthread_create_def upt_update set_pths_snoc fun_upd_same del: fun_upd_apply)
qed

lemma create_threads:
  assumes "groups s g = Some r" "unat (tg_nr r) = n" "n \<le> length (tg_thread r)"
  shows "each_thread (pthread_create async g) g s = Some (s\<lparr>
    groups := (groups s)(g \<mapsto> r\<lparr>tg_thread := [next_pth s..<next_pth s + n] @ drop n (tg_thread r)\<rparr>),
    pths := set_pths [next_pth s..<next_pth s + n] (Running async) (pths s),
    next_pth := next_pth s + n\<rparr>)"
  using create_fold [OF assms(1,3), of async] assms(1,2) by (simp add: each_thread_def)

text \<open>The asynchronous threads that are still running when the join begins.\<close>

definition late_ones :: "(nat \<rightharpoonup> pth) \<Rightarrow> nat list \<Rightarrow> nat list" where
  "late_ones P ts = filter (\<lambda>t. P t = Some (Running True)) ts"

definition joinable :: "(nat \<Rightarrow> bool) \<Rightarrow> (nat \<rightharpoonup> pth) \<Rightarrow> nat list \<Rightarrow> bool" where
  "joinable ends P ts \<longleftrightarrow> distinct ts \<and>
     (\<forall>t\<in>set ts. (\<exists>a. P t = Some (Running a) \<and> ends t) \<or> P t = Some Exited)"

lemma join_fold:
  assumes "groups s g = Some r" "k \<le> length (tg_thread r)" "joinable ends (pths s) (take k (tg_thread r))"
  shows "fold_opt (join_thread ends g) [0..<k] s = Some (s\<lparr>
    groups := (groups s)(g \<mapsto> r\<lparr>nr_exited := nr_exited r + of_nat (length (late_ones (pths s) (take k (tg_thread r))))\<rparr>),
    pths := set_pths (take k (tg_thread r)) Joined (pths s)\<rparr>)"
  using assms(2,3)
proof (induction k)
  case 0
  then show ?case using assms(1) by (simp add: late_ones_def fun_upd_idem)
next
  case (Suc k)
  let ?t = "tg_thread r ! k" and ?ts = "take k (tg_thread r)"
  have tk: "take (Suc k) (tg_thread r) = ?ts @ [?t]" using Suc.prems(1) by (simp add: take_Suc_conv_app_nth)
  have IH: "fold_opt (join_thread ends g) [0..<k] s = Some (s\<lparr>
    groups := (groups s)(g \<mapsto> r\<lparr>nr_exited := nr_exited r + of_nat (length (late_ones (pths s) ?ts))\<rparr>),
    pths := set_pths ?ts Joined (pths s)\<rparr>)"
    by (rule Suc.IH) (use Suc.prems tk in \<open>auto simp: joinable_def\<close>)
  have t: "?t \<notin> set ?ts" "(\<exists>a. pths s ?t = Some (Running a) \<and> ends ?t) \<or> pths s ?t = Some Exited"
    using Suc.prems(2) by (auto simp: tk joinable_def)
  have k: "k < length (tg_thread r)" using Suc.prems(1) by simp
  from t(2) show ?case
    using k t(1) unfolding upt_Suc_append [OF le0] fold_opt_append IH tk
    by (auto simp: join_thread_def async_worker_exit_def mthpc_thread_async_cleanup_def
      upd_group_def late_ones_def set_pths_snoc fun_upd_same ac_simps simp del: fun_upd_apply)
qed


lemma join_threads:
  assumes "groups s g = Some r" "unat (tg_nr r) = n" "n \<le> length (tg_thread r)"
    and "joinable ends (pths s) (take n (tg_thread r))"
  shows "each_thread (join_thread ends g) g s = Some (s\<lparr>
    groups := (groups s)(g \<mapsto> r\<lparr>nr_exited := nr_exited r + of_nat (length (late_ones (pths s) (take n (tg_thread r))))\<rparr>),
    pths := set_pths (take n (tg_thread r)) Joined (pths s)\<rparr>)"
  using join_fold [OF assms(1,3,4)] assms(1,2) by (simp add: each_thread_def)

lemma join_twice:
  assumes "groups s g = Some r" "0 < unat (tg_nr r)" "tg_thread r \<noteq> []" "pths s (tg_thread r ! 0) = Some Joined"
  shows "each_thread (join_thread ends g) g s = None"
proof -
  have "[0..<unat (tg_nr r)] = 0 # [1..<unat (tg_nr r)]" using assms(2) by (simp add: upt_rec)
  then show ?thesis using assms by (simp add: each_thread_def join_thread_def)
qed

section \<open>Polling the exits\<close>

lemma wait_exited_returns:
  "(\<And>u. T \<le> u \<Longrightarrow> obs u = n) \<Longrightarrow> \<exists>t'. wait_exited obs n t = Some t'"
proof (induction "T - t" arbitrary: t rule: less_induct)
  case less
  show ?case
  proof (cases "obs t = n")
    case True
    then show ?thesis by (simp add: wait_exited.simps [of obs n t])
  next
    case False
    then have "\<not> T \<le> t" using less.prems by blast
    then have "T - Suc t < T - t" by arith
    from less.hyps [OF this less.prems] False show ?thesis by (simp add: wait_exited.simps [of obs n t])
  qed
qed

lemma wait_exited_fold:
  assumes "\<And>u. T \<le> u \<Longrightarrow> obs u = n"
  shows "\<exists>t'. fold_opt (\<lambda>j. wait_exited obs n) js t = Some t'"
proof (induction js arbitrary: t)
  case (Cons j js)
  obtain u where "wait_exited obs n t = Some u" using wait_exited_returns [of T obs n t] assms by auto
  with Cons.IH [of u] show ?case by simp
qed simp

lemma wait_exited_Some:
  assumes "wait_exited obs n t = Some r"
  shows "\<exists>u\<ge>t. obs u = n"
proof (rule wait_exited.raw_induct [where P = "\<lambda>obs n t r. \<exists>u\<ge>t. obs u = n", OF _ assms])
  fix f :: "(nat \<Rightarrow> u32) \<Rightarrow> u32 \<Rightarrow> nat \<Rightarrow> nat option" and obs n t r
  assume IH: "\<And>obs n t r. f obs n t = Some r \<Longrightarrow> \<exists>u\<ge>t. obs u = n"
    and run: "(if obs t \<noteq> n then f obs n (Suc t) else Some (Suc t)) = Some r"
  show "\<exists>u\<ge>t. obs u = n"
  proof (cases "obs t = n")
    case False
    then obtain u where "u \<ge> Suc t" "obs u = n" using IH [of obs n "Suc t" r] run by auto
    then show ?thesis by (intro exI [of _ u]) simp
  qed auto
qed

lemma wait_exited_hangs: "(\<And>u. t \<le> u \<Longrightarrow> obs u \<noteq> n) \<Longrightarrow> wait_exited obs n t = None"
  using wait_exited_Some [of obs n t] by (cases "wait_exited obs n t") auto

text \<open>
  When a count that has left \<open>n\<close> does not come back to it, the loops are through exactly if each of
  them sees \<open>n\<close> at its first look.
\<close>

lemma polls_hang_iff:
  assumes gone: "\<And>u. obs u \<noteq> n \<Longrightarrow> obs (Suc u) \<noteq> n"
  shows "fold_opt (\<lambda>j. wait_exited obs n) js t = None \<longleftrightarrow> (\<exists>u<length js. obs (t + u) \<noteq> n)"
proof (induction js arbitrary: t)
  case (Cons j js)
  show ?case
  proof (cases "obs t = n")
    case True
    then have "fold_opt (\<lambda>j. wait_exited obs n) (j # js) t = None \<longleftrightarrow> (\<exists>u<length js. obs (Suc t + u) \<noteq> n)"
      using Cons.IH [of "Suc t"] by (simp add: wait_exited.simps [of obs n t])
    also have "\<dots> \<longleftrightarrow> (\<exists>u<length (j # js). obs (t + u) \<noteq> n)"
      using True by (simp add: Ex_less_Suc2)
    finally show ?thesis .
  next
    case False
    have "obs u \<noteq> n" if "t \<le> u" for u
      using that by (induction u rule: dec_induct) (use False gone in auto)
    then have "wait_exited obs n t = None" by (rule wait_exited_hangs)
    with False show ?thesis by (auto intro!: exI [of _ 0])
  qed
qed simp

section \<open>One group\<close>

text \<open>What becomes of the count \<open>c\<close> of a barrier object when a group of \<open>n\<close> threads puts it.\<close>

definition put_count :: "u32 \<Rightarrow> u64 \<Rightarrow> u64 option" where
  "put_count n c = (if c = ucast n then None else Some (c + ucast (- n)))"

lemma put_object:
  assumes "groups s g = Some r" "barrier_object r = b" "b \<noteq> 0" "bobjs s b = Some c" "0 \<le>s c - ucast (tg_nr r)"
  shows "mthpc_group_put_barrier_object g s = Some (s\<lparr>
    groups := (groups s)(g \<mapsto> r\<lparr>barrier_object := 0\<rparr>), bobjs := (bobjs s)(b := put_count (tg_nr r) c)\<rparr>)"
  using assms by (simp add: mthpc_group_put_barrier_object_def upd_group_def th_warn_def put_count_def Let_def
    signed.not_less del: fun_upd_apply)

definition listed :: "nat list \<Rightarrow> th_addr ring list \<Rightarrow> th_sys \<Rightarrow> bool" where
  "listed gs R s \<longleftrightarrow> rings (thl s) ((ThreadsHead, map GroupNode gs) # R) \<and> th_lock s = Unlocked"

text \<open>The memory of a group: its node, and room for its \<open>n\<close> thread identifiers.\<close>

definition group_mem :: "nat \<Rightarrow> nat \<Rightarrow> thread_group \<Rightarrow> th_sys \<Rightarrow> bool" where
  "group_mem g n r s \<longleftrightarrow> groups s g = Some r \<and> unat (tg_nr r) = n \<and> n \<le> length (tg_thread r) \<and>
     GroupNode g \<in> dom (thl s)"

definition started :: "nat \<Rightarrow> nat \<Rightarrow> nat \<Rightarrow> thread_group \<Rightarrow> thread_group" where
  "started b p n r = r\<lparr>tg_type := tg_type r OR MTHPC_THREAD_ASYNC_TYPE, barrier_object := b,
     tg_thread := [p..<p + n] @ drop n (tg_thread r)\<rparr>"

lemma started_simps [simp]:
  "tg_nr (started b p n r) = tg_nr r" "nr_exited (started b p n r) = nr_exited r"
  "barrier_object (started b p n r) = b" "take n (tg_thread (started b p n r)) = [p..<p + n]"
  "length (tg_thread (started b p n r)) = n + (length (tg_thread r) - n)"
  by (simp_all add: started_def)

lemma async_bit:
  fixes w :: u32
  shows "(w OR MTHPC_THREAD_ASYNC_TYPE) AND MTHPC_THREAD_ASYNC_TYPE \<noteq> 0"
proof -
  have "(w OR MTHPC_THREAD_ASYNC_TYPE) AND MTHPC_THREAD_ASYNC_TYPE = MTHPC_THREAD_ASYNC_TYPE"
    by (rule bit_eqI) (auto simp: bit_simps)
  then show ?thesis by (simp add: MTHPC_THREAD_ASYNC_TYPE_def)
qed

lemma started_async [simp]: "tg_type (started b p n r) AND MTHPC_THREAD_ASYNC_TYPE \<noteq> 0"
  using async_bit by (simp add: started_def)

lemma async_run_one_ok:
  assumes l: "listed gs R s" and m: "group_mem g n r s" and new: "GroupNode g \<notin> set (ring_nodes ((ThreadsHead, map GroupNode gs) # R))"
  shows "\<exists>h. async_run_one b g s = Some (s\<lparr>thl := h, nr_group := nr_group s + 1, th_lock := Unlocked,
      groups := (groups s)(g \<mapsto> started b (next_pth s) n r),
      pths := set_pths [next_pth s..<next_pth s + n] (Running True) (pths s), next_pth := next_pth s + n\<rparr>) \<and>
    rings h ((ThreadsHead, map GroupNode (gs @ [g])) # R) \<and> dom h = dom (thl s)"
proof -
  have R: "rings (thl s) ((ThreadsHead, map GroupNode gs) # R)" and u: "th_lock s = Unlocked"
    using l by (simp_all add: listed_def)
  have g: "groups s g = Some r" "unat (tg_nr r) = n" "n \<le> length (tg_thread r)" "GroupNode g \<in> dom (thl s)"
    using m by (simp_all add: group_mem_def)
  obtain h1 where h1: "mthpc_list_init (GroupNode g) (thl s) = Some h1" "dom h1 = dom (thl s)"
    "rings h1 ((GroupNode g, []) # (ThreadsHead, map GroupNode gs) # R)"
    by (rule rings_init [OF R g(4) new], rule that)
  have R1: "rings h1 ((ThreadsHead, map GroupNode gs) # (GroupNode g, []) # R)"
    by (rule rings_perm [OF h1(3)]) simp
  obtain h2 where h2: "mthpc_list_add_tail (GroupNode g) ThreadsHead h1 = Some h2" "dom h2 = dom h1"
    "rings h2 ((ThreadsHead, map GroupNode gs @ [GroupNode g]) # R)"
    by (rule rings_add_tail [OF R1], rule that)
  let ?r = "r\<lparr>tg_type := tg_type r OR MTHPC_THREAD_ASYNC_TYPE, barrier_object := b\<rparr>"
  let ?s = "s\<lparr>thl := h2, nr_group := nr_group s + 1, th_lock := Unlocked, groups := (groups s)(g \<mapsto> ?r)\<rparr>"
  have c: "groups ?s g = Some ?r" "unat (tg_nr ?r) = n" "n \<le> length (tg_thread ?r)" using g by simp_all
  note cr = create_threads [OF c, of True]
  have "async_run_one b g s = each_thread (pthread_create True g) g ?s"
    using h1(1) h2(1) g(1) u
    by (simp add: async_run_one_def upd_group_def with_thl_def lock_threads_def unlock_threads_def
      fun_upd_same del: fun_upd_apply)
  also have "\<dots> = Some (s\<lparr>thl := h2, nr_group := nr_group s + 1, th_lock := Unlocked,
      groups := (groups s)(g \<mapsto> started b (next_pth s) n r),
      pths := set_pths [next_pth s..<next_pth s + n] (Running True) (pths s), next_pth := next_pth s + n\<rparr>)"
    unfolding cr using u by (simp add: started_def del: fun_upd_apply)
  finally show ?thesis using h2(2,3) h1(2) by auto
qed


lemma async_wait_one_polled:
  assumes l: "listed (as @ g # bs) R s" and g: "groups s g = Some r" "unat (tg_nr r) = n" "n \<le> length (tg_thread r)"
    and ty: "tg_type r AND MTHPC_THREAD_ASYNC_TYPE \<noteq> 0"
    and j: "joinable ends (pths s) (take n (tg_thread r))"
    and w: "fold_opt (\<lambda>j. wait_exited (\<lambda>t. nr_exited r + of_nat (late g t)) (tg_nr r)) [0..<n] 0 \<noteq> None"
    and b: "barrier_object r = b" "b \<noteq> 0" "bobjs s b = Some c" "0 \<le>s c - ucast (tg_nr r)"
  shows "\<exists>h. async_wait_one ends late g s = Some (s\<lparr>thl := h, nr_group := nr_group s - 1, th_lock := Unlocked,
      groups := (groups s)(g \<mapsto> r\<lparr>nr_exited := nr_exited r + of_nat (length (late_ones (pths s) (take n (tg_thread r)))),
        barrier_object := 0\<rparr>),
      pths := set_pths (take n (tg_thread r)) Joined (pths s), bobjs := (bobjs s)(b := put_count (tg_nr r) c)\<rparr>) \<and>
    rings h ((ThreadsHead, map GroupNode (as @ bs)) # (GroupNode g, []) # R) \<and> dom h = dom (thl s)"
proof -
  have R: "rings (thl s) ((ThreadsHead, map GroupNode as @ GroupNode g # map GroupNode bs) # R)"
    and u: "th_lock s = Unlocked"
    using l by (simp_all add: listed_def)
  obtain h where h: "mthpc_list_del (GroupNode g) (thl s) = Some h" "dom h = dom (thl s)"
    "rings h ((ThreadsHead, map GroupNode as @ map GroupNode bs) # (GroupNode g, []) # R)"
    by (rule rings_del [OF R], rule that)
  obtain t' where t': "fold_opt (\<lambda>j. wait_exited (\<lambda>t. nr_exited r + of_nat (late g t)) (tg_nr r)) [0..<n] 0 = Some t'"
    using w by blast
  let ?s = "s\<lparr>thl := h, nr_group := nr_group s - 1, th_lock := Unlocked\<rparr>"
  let ?r = "r\<lparr>nr_exited := nr_exited r + of_nat (length (late_ones (pths s) (take n (tg_thread r))))\<rparr>"
  let ?s2 = "?s\<lparr>groups := (groups s)(g \<mapsto> ?r), pths := set_pths (take n (tg_thread r)) Joined (pths s)\<rparr>"
  have g': "groups ?s g = Some r" "joinable ends (pths ?s) (take n (tg_thread r))" using g(1) j by simp_all
  have p: "groups ?s2 g = Some ?r" "barrier_object ?r = b" "b \<noteq> 0" "bobjs ?s2 b = Some c"
    "0 \<le>s c - ucast (tg_nr ?r)"
    using b by simp_all
  have "async_wait_one ends late g s =
      Option.bind (each_thread (join_thread ends g) g ?s) (mthpc_group_put_barrier_object g)"
    using g(1,2) ty u h(1) t' by (simp add: async_wait_one_def lock_threads_def unlock_threads_def with_thl_def)
  also have "\<dots> = mthpc_group_put_barrier_object g ?s2"
    unfolding join_threads [OF g'(1) g(2,3) g'(2)] by (simp del: fun_upd_apply)
  also have "\<dots> = Some (?s2\<lparr>groups := (groups ?s2)(g \<mapsto> ?r\<lparr>barrier_object := 0\<rparr>),
      bobjs := (bobjs ?s2)(b := put_count (tg_nr ?r) c)\<rparr>)"
    by (rule put_object [OF p])
  finally show ?thesis using h(2,3) by (intro exI [of _ h]) (simp del: fun_upd_apply)
qed

lemma async_wait_one_ok:
  assumes "listed (as @ g # bs) R s" "groups s g = Some r" "unat (tg_nr r) = n" "n \<le> length (tg_thread r)"
    and "tg_type r AND MTHPC_THREAD_ASYNC_TYPE \<noteq> 0" "joinable ends (pths s) (take n (tg_thread r))"
    and w: "\<forall>t\<ge>T. nr_exited r + of_nat (late g t) = tg_nr r"
    and b: "barrier_object r = b" "b \<noteq> 0" "bobjs s b = Some c" "0 \<le>s c - ucast (tg_nr r)"
  shows "\<exists>h. async_wait_one ends late g s = Some (s\<lparr>thl := h, nr_group := nr_group s - 1, th_lock := Unlocked,
      groups := (groups s)(g \<mapsto> r\<lparr>nr_exited := nr_exited r + of_nat (length (late_ones (pths s) (take n (tg_thread r)))),
        barrier_object := 0\<rparr>),
      pths := set_pths (take n (tg_thread r)) Joined (pths s), bobjs := (bobjs s)(b := put_count (tg_nr r) c)\<rparr>) \<and>
    rings h ((ThreadsHead, map GroupNode (as @ bs)) # (GroupNode g, []) # R) \<and> dom h = dom (thl s)"
proof (rule async_wait_one_polled [OF assms(1-6) _ b])
  show "fold_opt (\<lambda>j. wait_exited (\<lambda>t. nr_exited r + of_nat (late g t)) (tg_nr r)) [0..<n] 0 \<noteq> None"
    using wait_exited_fold [of T "\<lambda>t. nr_exited r + of_nat (late g t)" "tg_nr r" "[0..<n]" 0] w by auto
qed

section \<open>A session\<close>

lemma put_count_own [simp]: "put_count n (ucast n) = None"
  by (simp add: put_count_def)

lemma late_running: "late_ones (set_pths ts (Running True) P) ts = ts"
  by (simp add: late_ones_def)

lemma joinable_running: "distinct ts \<Longrightarrow> (\<And>t. t \<in> set ts \<Longrightarrow> ends t) \<Longrightarrow> joinable ends (set_pths ts (Running a) P) ts"
  by (simp add: joinable_def)

lemma session:
  assumes l: "listed gs R s" and m: "group_mem g n r s"
    and new: "GroupNode g \<notin> set (ring_nodes ((ThreadsHead, map GroupNode gs) # R))"
    and b: "b \<noteq> 0" "bobjs s b = None" and r: "nr_exited r = 0"
    and ends: "\<And>t. ends t" and late: "\<And>t. T \<le> t \<Longrightarrow> late g t = n"
  shows "\<exists>s1 h. mthpc_thread_async_run b [g] s = Some s1 \<and>
    mthpc_thread_async_wait ends late [g] s1 = Some (s1\<lparr>thl := h, nr_group := nr_group s, th_lock := Unlocked,
      groups := (groups s)(g \<mapsto> started b (next_pth s) n r\<lparr>nr_exited := tg_nr r, barrier_object := 0\<rparr>),
      pths := set_pths [next_pth s..<next_pth s + n] Joined (pths s), bobjs := bobjs s\<rparr>) \<and>
    rings h ((ThreadsHead, map GroupNode gs) # R) \<and> dom h = dom (thl s) \<and> th_warned s1 = th_warned s \<and>
    groups s1 g = Some (started b (next_pth s) n r)"
proof -
  let ?ts = "[next_pth s..<next_pth s + n]"
  let ?s0 = "s\<lparr>bobjs := (bobjs s)(b \<mapsto> ucast (tg_nr r))\<rparr>"
  have g: "groups s g = Some r" "unat (tg_nr r) = n" using m by (simp_all add: group_mem_def)
  have n: "of_nat n = tg_nr r" using g(2) by auto
  have l0: "listed gs R ?s0" "group_mem g n r ?s0" using l m by (simp_all add: listed_def group_mem_def)
  obtain h1 where h1: "async_run_one b g ?s0 = Some (?s0\<lparr>thl := h1, nr_group := nr_group ?s0 + 1, th_lock := Unlocked,
      groups := (groups ?s0)(g \<mapsto> started b (next_pth ?s0) n r),
      pths := set_pths [next_pth ?s0..<next_pth ?s0 + n] (Running True) (pths ?s0), next_pth := next_pth ?s0 + n\<rparr>)"
    "rings h1 ((ThreadsHead, map GroupNode (gs @ [g])) # R)" "dom h1 = dom (thl ?s0)"
    using async_run_one_ok [OF l0 new, of b] by (elim exE conjE)
  let ?s1 = "?s0\<lparr>thl := h1, nr_group := nr_group s + 1, th_lock := Unlocked,
      groups := (groups s)(g \<mapsto> started b (next_pth s) n r),
      pths := set_pths ?ts (Running True) (pths s), next_pth := next_pth s + n,
      thread_work := Suc (thread_work s)\<rparr>"
  have run: "mthpc_thread_async_run b [g] s = Some ?s1"
    using b(1) g(1) h1(1) by (simp add: mthpc_thread_async_run_def add_nr_def del: fun_upd_apply)
  have w: "listed (gs @ g # []) R ?s1" "groups ?s1 g = Some (started b (next_pth s) n r)"
    "unat (tg_nr (started b (next_pth s) n r)) = n" "n \<le> length (tg_thread (started b (next_pth s) n r))"
    "tg_type (started b (next_pth s) n r) AND MTHPC_THREAD_ASYNC_TYPE \<noteq> 0"
    "joinable ends (pths ?s1) (take n (tg_thread (started b (next_pth s) n r)))"
    "\<forall>t\<ge>T. nr_exited (started b (next_pth s) n r) + of_nat (late g t) = tg_nr (started b (next_pth s) n r)"
    "barrier_object (started b (next_pth s) n r) = b" "bobjs ?s1 b = Some (ucast (tg_nr r))"
    "0 \<le>s ucast (tg_nr r) - (ucast (tg_nr (started b (next_pth s) n r)) :: u64)"
    using h1(2) g(2) late r ends n by (simp_all add: listed_def joinable_running)
  obtain h where h: "async_wait_one ends late g ?s1 = Some (?s1\<lparr>thl := h, nr_group := nr_group ?s1 - 1, th_lock := Unlocked,
      groups := (groups ?s1)(g \<mapsto> (started b (next_pth s) n r)\<lparr>nr_exited := nr_exited (started b (next_pth s) n r) +
        of_nat (length (late_ones (pths ?s1) (take n (tg_thread (started b (next_pth s) n r))))), barrier_object := 0\<rparr>),
      pths := set_pths (take n (tg_thread (started b (next_pth s) n r))) Joined (pths ?s1),
      bobjs := (bobjs ?s1)(b := put_count (tg_nr (started b (next_pth s) n r)) (ucast (tg_nr r)))\<rparr>)"
    "rings h ((ThreadsHead, map GroupNode (gs @ [])) # (GroupNode g, []) # R)" "dom h = dom (thl ?s1)"
    using async_wait_one_ok [where late = late and T = T and as = gs and bs = "[]", OF w(1-8) b(1) w(9,10)] by (elim exE conjE)
  have bo: "(bobjs s)(b := None) = bobjs s" using b(2) by (simp add: fun_upd_idem)
  have "mthpc_thread_async_wait ends late [g] ?s1 = Some (?s1\<lparr>thl := h, nr_group := nr_group s, th_lock := Unlocked,
      groups := (groups s)(g \<mapsto> started b (next_pth s) n r\<lparr>nr_exited := tg_nr r, barrier_object := 0\<rparr>),
      pths := set_pths ?ts Joined (pths s), bobjs := bobjs s\<rparr>)"
    using h(1) r n bo by (simp add: mthpc_thread_async_wait_def late_running del: fun_upd_apply)
  with run h(2,3) h1(3) show ?thesis by (intro exI [of _ ?s1] exI [of _ h]) (simp add: rings_Cons fun_upd_same del: fun_upd_apply)
qed


lemma async_wait_one_hangs:
  assumes l: "listed (as @ g # bs) R s" and g: "groups s g = Some r"
    and w: "fold_opt (\<lambda>j. wait_exited (\<lambda>t. nr_exited r + of_nat (late g t)) (tg_nr r)) [0..<unat (tg_nr r)] 0 = None"
  shows "async_wait_one ends late g s = None"
proof -
  have R: "rings (thl s) ((ThreadsHead, map GroupNode as @ GroupNode g # map GroupNode bs) # R)"
    and u: "th_lock s = Unlocked"
    using l by (simp_all add: listed_def)
  obtain h where h: "mthpc_list_del (GroupNode g) (thl s) = Some h" "dom h = dom (thl s)"
    "rings h ((ThreadsHead, map GroupNode as @ map GroupNode bs) # (GroupNode g, []) # R)"
    by (rule rings_del [OF R], rule that)
  show ?thesis
    using g u h(1) w
    by (cases "tg_type r AND MTHPC_THREAD_ASYNC_TYPE = 0")
      (simp_all add: async_wait_one_def lock_threads_def unlock_threads_def with_thl_def)
qed

lemma listed_weaken: "listed gs (x # R) s \<Longrightarrow> listed gs R s"
  by (cases x) (auto simp: listed_def rings_Cons)

text \<open>
  C17. An asynchronous run of one group, followed by the wait for it with no effective turn of
  the reaper in between: if the group has not been run before (\<open>nr_exited\<close> is 0),
  is on no list, the barrier object can be allocated and all threads of the group end, both
  calls return. They have created and joined the threads of the group, each once, and leave the
  list of running groups, their number and the barrier objects as they were, without a warning.
  In the state in which the run returns the reaper, which every run queues, passes the group
  over, unless it is empty; the case that it finds the threads exited and joins them before the
  wait begins is left out.
\<close>

theorem async_session:
  assumes "listed gs R s" "group_mem g n r s"
    and "GroupNode g \<notin> set (ring_nodes ((ThreadsHead, map GroupNode gs) # R))"
    and "b \<noteq> 0" "bobjs s b = None" "nr_exited r = 0"
    and "\<And>t. ends t" "\<And>t. T \<le> t \<Longrightarrow> late g t = n"
  shows "\<exists>s1 s2. mthpc_thread_async_run b [g] s = Some s1 \<and>
    mthpc_thread_async_wait ends late [g] s1 = Some s2 \<and> listed gs R s2 \<and> nr_group s2 = nr_group s \<and>
    bobjs s2 = bobjs s \<and> pths s2 = set_pths [next_pth s..<next_pth s + n] Joined (pths s) \<and>
    th_warned s2 = th_warned s \<and> (0 < n \<longrightarrow> wq_join_one ends (GroupNode g) s1 = Some s1)"
proof -
  obtain s1 h where f: "mthpc_thread_async_run b [g] s = Some s1"
    "mthpc_thread_async_wait ends late [g] s1 = Some (s1\<lparr>thl := h, nr_group := nr_group s, th_lock := Unlocked,
      groups := (groups s)(g \<mapsto> started b (next_pth s) n r\<lparr>nr_exited := tg_nr r, barrier_object := 0\<rparr>),
      pths := set_pths [next_pth s..<next_pth s + n] Joined (pths s), bobjs := bobjs s\<rparr>)"
    "rings h ((ThreadsHead, map GroupNode gs) # R)" "th_warned s1 = th_warned s"
    "groups s1 g = Some (started b (next_pth s) n r)"
    using session [where late = late and T = T, OF assms(1-6)] assms(7,8) by blast
  have "tg_nr r \<noteq> 0" if "0 < n" using assms(2) that by (auto simp: group_mem_def)
  then have "0 < n \<longrightarrow> wq_join_one ends (GroupNode g) s1 = Some s1"
    using f(5) assms(6) by (simp add: wq_join_one_def)
  then show ?thesis
    by (intro exI [of _ s1] exI conjI) (rule f, rule f, simp_all add: listed_def f)
qed

text \<open>Running one group.\<close>

lemma run_alone:
  assumes l: "listed gs R s" and m: "group_mem g n r s"
    and new: "GroupNode g \<notin> set (ring_nodes ((ThreadsHead, map GroupNode gs) # R))" and b: "b \<noteq> 0"
  shows "\<exists>s1. mthpc_thread_async_run b [g] s = Some s1 \<and> listed (gs @ [g]) R s1 \<and>
    groups s1 g = Some (started b (next_pth s) n r) \<and> bobjs s1 b = Some (ucast (tg_nr r)) \<and>
    pths s1 = set_pths [next_pth s..<next_pth s + n] (Running True) (pths s)"
proof -
  let ?s0 = "s\<lparr>bobjs := (bobjs s)(b \<mapsto> ucast (tg_nr r))\<rparr>"
  have g: "groups s g = Some r" using m by (simp add: group_mem_def)
  have l0: "listed gs R ?s0" "group_mem g n r ?s0" using l m by (simp_all add: listed_def group_mem_def)
  obtain h where h: "async_run_one b g ?s0 = Some (?s0\<lparr>thl := h, nr_group := nr_group ?s0 + 1, th_lock := Unlocked,
      groups := (groups ?s0)(g \<mapsto> started b (next_pth ?s0) n r),
      pths := set_pths [next_pth ?s0..<next_pth ?s0 + n] (Running True) (pths ?s0), next_pth := next_pth ?s0 + n\<rparr>)"
    "rings h ((ThreadsHead, map GroupNode (gs @ [g])) # R)" "dom h = dom (thl ?s0)"
    using async_run_one_ok [OF l0 new, of b] by (elim exE conjE)
  let ?s1 = "?s0\<lparr>thl := h, nr_group := nr_group s + 1, th_lock := Unlocked,
      groups := (groups s)(g \<mapsto> started b (next_pth s) n r),
      pths := set_pths [next_pth s..<next_pth s + n] (Running True) (pths s), next_pth := next_pth s + n,
      thread_work := Suc (thread_work s)\<rparr>"
  have "mthpc_thread_async_run b [g] s = Some ?s1"
    using b g h(1) by (simp add: mthpc_thread_async_run_def add_nr_def del: fun_upd_apply)
  then show ?thesis using h(2) by (intro exI [of _ ?s1]) (simp add: listed_def)
qed

text \<open>
  The wait for a group that starts with a full count: \<open>nr_exited\<close> equals \<open>nr\<close> only as long as none of
  the threads has exited, and the loop looks once for each thread.
\<close>

lemma wait_exited_again:
  assumes l: "listed (gs @ [g]) R s" and g: "groups s g = Some (started b p n r)" "unat (tg_nr r) = n" "nr_exited r = tg_nr r"
    and run: "pths s = set_pths [p..<p + n] (Running True) P" and b: "b \<noteq> 0" "bobjs s b = Some (ucast (tg_nr r))"
    and late: "\<And>t. late g t \<le> late g (Suc t)" "\<And>t. late g t \<le> n" and ends: "\<And>t. ends t"
  shows "mthpc_thread_async_wait ends late [g] s = None \<longleftrightarrow> (\<exists>t<n. 0 < late g t)"
proof -
  let ?r = "started b p n r"
  let ?obs = "\<lambda>t. nr_exited ?r + of_nat (late g t)"
  have "unat (tg_nr r) < 2 ^ LENGTH(32)" by (rule unsigned_less)
  then have obs: "?obs t = tg_nr ?r \<longleftrightarrow> late g t = 0" for t
    using g(2,3) of_nat_u32_0 [of "late g t"] late(2) [of t] by simp
  have gone: "?obs (Suc t) \<noteq> tg_nr ?r" if "?obs t \<noteq> tg_nr ?r" for t
    using that late(1) [of t] unfolding obs by simp
  have polls: "fold_opt (\<lambda>j. wait_exited ?obs (tg_nr ?r)) [0..<n] 0 = None \<longleftrightarrow> (\<exists>t<n. 0 < late g t)"
    using polls_hang_iff [of ?obs "tg_nr ?r" "[0..<n]" 0, OF gone] unfolding obs by simp
  have l': "listed (gs @ g # []) R s" using l by simp
  have "async_wait_one ends late g s = None \<longleftrightarrow> fold_opt (\<lambda>j. wait_exited ?obs (tg_nr ?r)) [0..<n] 0 = None"
  proof
    assume "fold_opt (\<lambda>j. wait_exited ?obs (tg_nr ?r)) [0..<n] 0 = None"
    then show "async_wait_one ends late g s = None"
      by (intro async_wait_one_hangs [OF l' g(1)]) (use g(2) in simp)
  next
    assume none: "async_wait_one ends late g s = None"
    show "fold_opt (\<lambda>j. wait_exited ?obs (tg_nr ?r)) [0..<n] 0 = None"
    proof (rule ccontr)
      assume w: "fold_opt (\<lambda>j. wait_exited ?obs (tg_nr ?r)) [0..<n] 0 \<noteq> None"
      have "unat (tg_nr ?r) = n" "n \<le> length (tg_thread ?r)" "joinable ends (pths s) (take n (tg_thread ?r))"
        "0 \<le>s ucast (tg_nr r) - (ucast (tg_nr ?r) :: u64)"
        using g(2) run ends by (simp_all add: joinable_running)
      then show False
        using async_wait_one_polled [where late = late and ends = ends, OF l' g(1) _ _ _ _ w _ b] none
        by (auto simp del: fun_upd_apply)
    qed
  qed
  then have "async_wait_one ends late g s = None \<longleftrightarrow> (\<exists>t<n. 0 < late g t)" by (rule trans) (rule polls)
  moreover have "mthpc_thread_async_wait ends late [g] s = async_wait_one ends late g s"
    by (cases "async_wait_one ends late g s") (simp_all add: mthpc_thread_async_wait_def)
  ultimately show ?thesis by (simp only:)
qed

text \<open>
  C38. The number of exited threads is never reset: when a group is run again after such a
  session, again without the reaper in between, the second wait starts with a full count and
  looks at it once for each of the n threads. If one of the new threads has exited by one of
  these n looks, the wait never returns; if it is prompt and none has, it passes on to the
  joins and returns.
\<close>

theorem rerun_hangs:
  assumes l: "listed gs R s" and m: "group_mem g n r s"
    and new: "GroupNode g \<notin> set (ring_nodes ((ThreadsHead, map GroupNode gs) # R))"
    and b: "b \<noteq> 0" "bobjs s b = None" "nr_exited r = 0"
    and ends: "\<And>t. ends t" and late: "\<And>t. T \<le> t \<Longrightarrow> late g t = n"
    and again: "\<And>t. late' g t \<le> late' g (Suc t)" "\<And>t. late' g t \<le> n"
  shows "\<exists>s1 s2 s3. mthpc_thread_async_run b [g] s = Some s1 \<and>
    mthpc_thread_async_wait ends late [g] s1 = Some s2 \<and> mthpc_thread_async_run b [g] s2 = Some s3 \<and>
    (mthpc_thread_async_wait ends late' [g] s3 = None \<longleftrightarrow> (\<exists>t<n. 0 < late' g t))"
proof -
  let ?r = "started b (next_pth s) n r\<lparr>nr_exited := tg_nr r, barrier_object := 0\<rparr>"
  obtain s1 h where s1: "mthpc_thread_async_run b [g] s = Some s1"
    "mthpc_thread_async_wait ends late [g] s1 = Some (s1\<lparr>thl := h, nr_group := nr_group s, th_lock := Unlocked,
      groups := (groups s)(g \<mapsto> ?r),
      pths := set_pths [next_pth s..<next_pth s + n] Joined (pths s), bobjs := bobjs s\<rparr>)"
    "rings h ((ThreadsHead, map GroupNode gs) # R)" "dom h = dom (thl s)"
    using session [where late = late and T = T, OF l m new b] ends late by blast
  let ?s2 = "s1\<lparr>thl := h, nr_group := nr_group s, th_lock := Unlocked, groups := (groups s)(g \<mapsto> ?r),
      pths := set_pths [next_pth s..<next_pth s + n] Joined (pths s), bobjs := bobjs s\<rparr>"
  have l2: "listed gs R ?s2" "group_mem g n ?r ?s2" using s1(3,4) m by (simp_all add: listed_def group_mem_def)
  obtain s3 where s3: "mthpc_thread_async_run b [g] ?s2 = Some s3" "listed (gs @ [g]) R s3"
    "groups s3 g = Some (started b (next_pth ?s2) n ?r)" "bobjs s3 b = Some (ucast (tg_nr ?r))"
    "pths s3 = set_pths [next_pth ?s2..<next_pth ?s2 + n] (Running True) (pths ?s2)"
    using run_alone [OF l2 new b(1)] by blast
  have "mthpc_thread_async_wait ends late' [g] s3 = None \<longleftrightarrow> (\<exists>t<n. 0 < late' g t)"
    by (rule wait_exited_again [OF s3(2,3) _ _ s3(5) b(1) s3(4)]) (use m again ends in \<open>simp_all add: group_mem_def\<close>)
  then show ?thesis by (intro exI conjI) (rule s1(1), rule s1(2), rule s3(1))
qed


section \<open>Two groups and one barrier object\<close>

lemma async_wait_one_effects:
  assumes "listed (as @ g # bs) R s" "groups s g = Some r" "unat (tg_nr r) = n" "n \<le> length (tg_thread r)"
    and "tg_type r AND MTHPC_THREAD_ASYNC_TYPE \<noteq> 0" "joinable ends (pths s) (take n (tg_thread r))"
    and "\<forall>t\<ge>T. nr_exited r + of_nat (late g t) = tg_nr r"
    and "barrier_object r = b" "b \<noteq> 0" "bobjs s b = Some c" "0 \<le>s c - ucast (tg_nr r)"
  shows "\<exists>s'. async_wait_one ends late g s = Some s' \<and> listed (as @ bs) R s' \<and> nr_group s' = nr_group s - 1 \<and>
    bobjs s' = (bobjs s)(b := put_count (tg_nr r) c) \<and>
    pths s' = set_pths (take n (tg_thread r)) Joined (pths s) \<and> (\<forall>k. k \<noteq> g \<longrightarrow> groups s' k = groups s k)"
proof -
  obtain h where h: "async_wait_one ends late g s = Some (s\<lparr>thl := h, nr_group := nr_group s - 1, th_lock := Unlocked,
      groups := (groups s)(g \<mapsto> r\<lparr>nr_exited := nr_exited r + of_nat (length (late_ones (pths s) (take n (tg_thread r)))),
        barrier_object := 0\<rparr>),
      pths := set_pths (take n (tg_thread r)) Joined (pths s), bobjs := (bobjs s)(b := put_count (tg_nr r) c)\<rparr>)"
    "rings h ((ThreadsHead, map GroupNode (as @ bs)) # (GroupNode g, []) # R)" "dom h = dom (thl s)"
    using async_wait_one_ok [where late = late and T = T, OF assms] by (elim exE conjE)
  have "rings h ((ThreadsHead, map GroupNode (as @ bs)) # R)" using h(2) by (auto simp: rings_Cons)
  then show ?thesis
    by (subst h(1)) (simp add: listed_def)
qed

lemma put_counts:
  fixes n1 n2 :: u32
  assumes "n1 \<noteq> 0" "n2 \<noteq> 0"
  shows "put_count n1 (ucast n1 + ucast n2) = Some (2 ^ 32 + ucast n2)"
    "put_count n2 (2 ^ 32 + ucast n2) = Some (2 ^ 33)"
    "0 \<le>s (ucast n1 + ucast n2 :: u64) - ucast n1" "0 \<le>s (2 ^ 32 + ucast n2 :: u64) - ucast n2"
proof -
  have ne: "ucast n1 + ucast n2 \<noteq> (ucast n1 :: u64)" "2 ^ 32 + ucast n2 \<noteq> (ucast n2 :: u64)"
    using assms by simp_all
  show "put_count n1 (ucast n1 + ucast n2) = Some (2 ^ 32 + ucast n2)"
    "put_count n2 (2 ^ 32 + ucast n2) = Some (2 ^ 33)"
    using ne by (simp_all add: put_count_def ucast_neg_u32 assms)
  show "0 \<le>s (ucast n1 + ucast n2 :: u64) - ucast n1" "0 \<le>s (2 ^ 32 + ucast n2 :: u64) - ucast n2"
    by (simp_all add: word_sle_eq sint_ucast_u64)
qed


text \<open>Two groups run as a cluster: both are listed, and the barrier object counts the threads of both.\<close>

definition two_running :: "nat \<Rightarrow> nat \<Rightarrow> nat \<Rightarrow> nat \<Rightarrow> nat \<Rightarrow> nat \<Rightarrow> thread_group \<Rightarrow> thread_group \<Rightarrow> th_sys \<Rightarrow> bool" where
  "two_running b p g1 n1 g2 n2 r1 r2 s \<longleftrightarrow> groups s g1 = Some (started b p n1 r1) \<and>
     groups s g2 = Some (started b (p + n1) n2 r2) \<and>
     (\<forall>t\<in>{p..<p + n1 + n2}. pths s t = Some (Running True)) \<and>
     bobjs s b = Some (ucast (tg_nr r1) + ucast (tg_nr r2))"

lemma cluster_run_two:
  assumes l: "listed gs R s" and m: "group_mem g1 n1 r1 s" "group_mem g2 n2 r2 s" "g1 \<noteq> g2" "b \<noteq> 0"
    and new: "{GroupNode g1, GroupNode g2} \<inter> set (ring_nodes ((ThreadsHead, map GroupNode gs) # R)) = {}"
  obtains s2 where "mthpc_thread_async_run b [g1, g2] s = Some s2" "listed (gs @ [g1, g2]) R s2"
    "nr_group s2 = nr_group s + 2" "two_running b (next_pth s) g1 n1 g2 n2 r1 r2 s2"
proof -
  let ?c = "ucast (tg_nr r1) + ucast (tg_nr r2) :: u64"
  let ?s0 = "s\<lparr>bobjs := (bobjs s)(b \<mapsto> ?c)\<rparr>"
  let ?p = "next_pth s" and ?q = "next_pth s + n1"
  let ?r1 = "started b ?p n1 r1" and ?r2 = "started b ?q n2 r2"
  have g: "groups s g1 = Some r1" "groups s g2 = Some r2" using m by (simp_all add: group_mem_def)
  have l0: "listed gs R ?s0" "group_mem g1 n1 r1 ?s0" "GroupNode g1 \<notin> set (ring_nodes ((ThreadsHead, map GroupNode gs) # R))"
    using l m new by (simp_all add: listed_def group_mem_def)
  obtain h1 where h1: "async_run_one b g1 ?s0 = Some (?s0\<lparr>thl := h1, nr_group := nr_group ?s0 + 1, th_lock := Unlocked,
      groups := (groups ?s0)(g1 \<mapsto> started b (next_pth ?s0) n1 r1),
      pths := set_pths [next_pth ?s0..<next_pth ?s0 + n1] (Running True) (pths ?s0), next_pth := next_pth ?s0 + n1\<rparr>)"
    "rings h1 ((ThreadsHead, map GroupNode (gs @ [g1])) # R)" "dom h1 = dom (thl ?s0)"
    using async_run_one_ok [OF l0, of b] by (elim exE conjE)
  let ?s1 = "?s0\<lparr>thl := h1, nr_group := nr_group s + 1, th_lock := Unlocked,
      groups := (groups s)(g1 \<mapsto> ?r1),
      pths := set_pths [?p..<?q] (Running True) (pths s), next_pth := ?q\<rparr>"
  have l1: "listed (gs @ [g1]) R ?s1" "group_mem g2 n2 r2 ?s1"
    "GroupNode g2 \<notin> set (ring_nodes ((ThreadsHead, map GroupNode (gs @ [g1])) # R))"
    using h1(2,3) m new by (simp_all add: listed_def group_mem_def)
  obtain h2 where h2: "async_run_one b g2 ?s1 = Some (?s1\<lparr>thl := h2, nr_group := nr_group ?s1 + 1, th_lock := Unlocked,
      groups := (groups ?s1)(g2 \<mapsto> started b (next_pth ?s1) n2 r2),
      pths := set_pths [next_pth ?s1..<next_pth ?s1 + n2] (Running True) (pths ?s1), next_pth := next_pth ?s1 + n2\<rparr>)"
    "rings h2 ((ThreadsHead, map GroupNode ((gs @ [g1]) @ [g2])) # R)" "dom h2 = dom (thl ?s1)"
    using async_run_one_ok [OF l1, of b] by (elim exE conjE)
  let ?s2 = "?s1\<lparr>thl := h2, nr_group := nr_group s + 2, th_lock := Unlocked,
      groups := (groups s)(g1 \<mapsto> ?r1, g2 \<mapsto> ?r2),
      pths := set_pths [?q..<?q + n2] (Running True) (set_pths [?p..<?q] (Running True) (pths s)),
      next_pth := ?q + n2, thread_work := Suc (thread_work s)\<rparr>"
  have "mthpc_thread_async_run b [g1, g2] s = Some ?s2"
    using m(4) g h1(1) h2(1) by (simp add: mthpc_thread_async_run_def add_nr_def del: fun_upd_apply)
  then show ?thesis
    by (rule that) (use h2(2) m(3) in \<open>simp_all add: listed_def two_running_def set_pths_def\<close>)
qed

text \<open>
  After both groups have been joined and have put the barrier object, it is still allocated, with the
  count \<open>2 ^ 33\<close>.
\<close>

lemma cluster_wait_two:
  assumes l: "listed (gs @ [g1, g2]) R s2" and run: "two_running b p g1 n1 g2 n2 r1 r2 s2"
    and n: "n1 = unat (tg_nr r1)" "n2 = unat (tg_nr r2)" "0 < n1" "0 < n2" and g: "g1 \<noteq> g2"
    and b: "b \<noteq> 0" "nr_exited r1 = 0" "nr_exited r2 = 0"
    and ends: "\<And>t. ends t" and late: "\<forall>t\<ge>T. late g1 t = n1 \<and> late g2 t = n2"
  obtains s4 where "mthpc_thread_async_wait ends late [g1, g2] s2 = Some s4" "listed gs R s4"
    "nr_group s4 = nr_group s2 - 2" "bobjs s4 b = Some (2 ^ 33)"
proof -
  let ?c = "ucast (tg_nr r1) + ucast (tg_nr r2) :: u64"
  let ?r1 = "started b p n1 r1" and ?r2 = "started b (p + n1) n2 r2"
  have nz: "tg_nr r1 \<noteq> 0" "tg_nr r2 \<noteq> 0" using n by auto
  note two = run [unfolded two_running_def]
  have w: "listed (gs @ g1 # [g2]) R s2" "groups s2 g1 = Some ?r1" "unat (tg_nr ?r1) = n1"
    "n1 \<le> length (tg_thread ?r1)" "tg_type ?r1 AND MTHPC_THREAD_ASYNC_TYPE \<noteq> 0"
    "joinable ends (pths s2) (take n1 (tg_thread ?r1))"
    "\<forall>t\<ge>T. nr_exited ?r1 + of_nat (late g1 t) = tg_nr ?r1"
    "barrier_object ?r1 = b" "b \<noteq> 0" "bobjs s2 b = Some ?c" "0 \<le>s ?c - ucast (tg_nr ?r1)"
    using l two n late b ends put_counts(3) [OF nz] by (simp_all add: joinable_def) auto
  obtain s3 where s3: "async_wait_one ends late g1 s2 = Some s3" "listed (gs @ [g2]) R s3"
    "nr_group s3 = nr_group s2 - 1" "bobjs s3 = (bobjs s2)(b := put_count (tg_nr ?r1) ?c)"
    "pths s3 = set_pths (take n1 (tg_thread ?r1)) Joined (pths s2)" "\<forall>k. k \<noteq> g1 \<longrightarrow> groups s3 k = groups s2 k"
    using async_wait_one_effects [where late = late and T = T and as = gs and bs = "[g2]", OF w]
    by (elim exE conjE)
  have w2: "listed (gs @ g2 # []) R s3" "groups s3 g2 = Some ?r2" "unat (tg_nr ?r2) = n2"
    "n2 \<le> length (tg_thread ?r2)" "tg_type ?r2 AND MTHPC_THREAD_ASYNC_TYPE \<noteq> 0"
    "joinable ends (pths s3) (take n2 (tg_thread ?r2))"
    "\<forall>t\<ge>T. nr_exited ?r2 + of_nat (late g2 t) = tg_nr ?r2"
    "barrier_object ?r2 = b" "b \<noteq> 0" "bobjs s3 b = Some (2 ^ 32 + ucast (tg_nr r2))"
    "0 \<le>s (2 ^ 32 + ucast (tg_nr r2)) - (ucast (tg_nr ?r2) :: u64)"
    using s3(2,4,5,6) two n late b g ends put_counts(1,4) [OF nz] by (simp_all add: joinable_def) auto
  obtain s4 where s4: "async_wait_one ends late g2 s3 = Some s4" "listed (gs @ []) R s4"
    "nr_group s4 = nr_group s3 - 1" "bobjs s4 = (bobjs s3)(b := put_count (tg_nr ?r2) (2 ^ 32 + ucast (tg_nr r2)))"
    using async_wait_one_effects [where late = late and T = T and as = gs and bs = "[]", OF w2]
    by (elim exE conjE)
  have "mthpc_thread_async_wait ends late [g1, g2] s2 = Some s4"
    using s3(1) s4(1) by (simp add: mthpc_thread_async_wait_def)
  then show ?thesis
    by (rule that) (use s3(3) s4(2-4) put_counts(2) [OF nz] in simp_all)
qed

text \<open>
  Two groups that run as a cluster leave the barrier object behind.
\<close>

theorem cluster_leaks_barrier:
  assumes l: "listed gs R s" and m: "group_mem g1 n1 r1 s" "group_mem g2 n2 r2 s" "g1 \<noteq> g2" "0 < n1" "0 < n2"
    and new: "{GroupNode g1, GroupNode g2} \<inter> set (ring_nodes ((ThreadsHead, map GroupNode gs) # R)) = {}"
    and b: "b \<noteq> 0" "nr_exited r1 = 0" "nr_exited r2 = 0"
    and ends: "\<And>t. ends t" and late: "\<forall>t\<ge>T. late g1 t = n1 \<and> late g2 t = n2"
  shows "\<exists>s1 s2. mthpc_thread_async_run b [g1, g2] s = Some s1 \<and>
    mthpc_thread_async_wait ends late [g1, g2] s1 = Some s2 \<and> listed gs R s2 \<and>
    nr_group s2 = nr_group s \<and> bobjs s2 b = Some (2 ^ 33)"
proof -
  obtain s1 where s1: "mthpc_thread_async_run b [g1, g2] s = Some s1" "listed (gs @ [g1, g2]) R s1"
    "nr_group s1 = nr_group s + 2" "two_running b (next_pth s) g1 n1 g2 n2 r1 r2 s1"
    by (rule cluster_run_two [OF l m(1-3) b(1) new], rule that)
  have n: "n1 = unat (tg_nr r1)" "n2 = unat (tg_nr r2)" using m(1,2) by (simp_all add: group_mem_def)
  obtain s2 where "mthpc_thread_async_wait ends late [g1, g2] s1 = Some s2" "listed gs R s2"
    "nr_group s2 = nr_group s1 - 2" "bobjs s2 b = Some (2 ^ 33)"
    by (rule cluster_wait_two [OF s1(2,4) n m(4,5,3) b ends late], rule that)
  with s1(1,3) show ?thesis by simp
qed


section \<open>Concrete instances\<close>

definition idle_threads :: th_sys where
  "idle_threads = \<lparr>groups = [3 \<mapsto> declare_thread_group 1 [0], 4 \<mapsto> declare_thread_group 2 [0, 0]],
     pths = Map.empty, next_pth = 10, bobjs = Map.empty,
     thl = (\<lambda>_. Some \<lparr>nxt = ThreadsHead, prv = ThreadsHead\<rparr>),
     nr_group = 0, th_lock = Unlocked, thread_work = 0, th_warned = 0\<rparr>"

lemma idle_threads_ok:
  "listed [] [] idle_threads" "group_mem 3 1 (declare_thread_group 1 [0]) idle_threads"
  "group_mem 4 2 (declare_thread_group 2 [0, 0]) idle_threads" "bobjs idle_threads 7 = None"
  "nr_exited (declare_thread_group n ts) = 0" "next_pth idle_threads = 10" "pths idle_threads = Map.empty"
  by (auto simp: listed_def rings_def clist_def link_def ld_next_def ld_prev_def group_mem_def
    declare_thread_group_def idle_threads_def)

lemma async_session_witness:
  "\<exists>s1 s2. mthpc_thread_async_run 7 [4] idle_threads = Some s1 \<and>
    mthpc_thread_async_wait (\<lambda>_. True) (\<lambda>_ t. min t 2) [4] s1 = Some s2 \<and> listed [] [] s2 \<and>
    pths s2 11 = Some Joined \<and> bobjs s2 7 = None"
proof -
  have e: "\<exists>s1 s2. mthpc_thread_async_run 7 [4] idle_threads = Some s1 \<and>
    mthpc_thread_async_wait (\<lambda>_. True) (\<lambda>_ t. min t 2) [4] s1 = Some s2 \<and> listed [] [] s2 \<and>
    nr_group s2 = nr_group idle_threads \<and> bobjs s2 = bobjs idle_threads \<and>
    pths s2 = set_pths [next_pth idle_threads..<next_pth idle_threads + 2] Joined (pths idle_threads) \<and>
    th_warned s2 = th_warned idle_threads \<and>
    (0 < (2 :: nat) \<longrightarrow> wq_join_one (\<lambda>_. True) (GroupNode 4) s1 = Some s1)"
    by (rule async_session [where T = 2, OF idle_threads_ok(1,3)]) (simp_all add: idle_threads_ok)
  then show ?thesis by (auto simp: idle_threads_ok)
qed

lemma rerun_hangs_witness:
  "\<exists>s1 s2 s3. mthpc_thread_async_run 7 [4] idle_threads = Some s1 \<and>
    mthpc_thread_async_wait (\<lambda>_. True) (\<lambda>_ _. 2) [4] s1 = Some s2 \<and>
    mthpc_thread_async_run 7 [4] s2 = Some s3 \<and>
    mthpc_thread_async_wait (\<lambda>_. True) (\<lambda>_ t. min t 2) [4] s3 = None"
proof -
  have "\<exists>s1 s2 s3. mthpc_thread_async_run 7 [4] idle_threads = Some s1 \<and>
    mthpc_thread_async_wait (\<lambda>_. True) (\<lambda>_ _. 2) [4] s1 = Some s2 \<and> mthpc_thread_async_run 7 [4] s2 = Some s3 \<and>
    (mthpc_thread_async_wait (\<lambda>_. True) (\<lambda>_ t. min t 2) [4] s3 = None \<longleftrightarrow> (\<exists>t<2. 0 < min t (2 :: nat)))"
    by (rule rerun_hangs [where T = 0, OF idle_threads_ok(1,3)]) (simp_all add: idle_threads_ok)
  moreover have "\<exists>t<2. 0 < min t (2 :: nat)" by (intro exI [of _ 1]) simp
  ultimately show ?thesis by blast
qed

lemma cluster_leaks_barrier_witness:
  "\<exists>s1 s2. mthpc_thread_async_run 7 [3, 4] idle_threads = Some s1 \<and>
    mthpc_thread_async_wait (\<lambda>_. True) (\<lambda>g _. if g = 3 then 1 else 2) [3, 4] s1 = Some s2 \<and>
    listed [] [] s2 \<and> nr_group s2 = nr_group idle_threads \<and> bobjs s2 7 = Some (2 ^ 33)"
  by (rule cluster_leaks_barrier [OF idle_threads_ok(1-3)]) (simp_all add: idle_threads_ok)

end
