(* ===== verification/Library.thy ===== *)
theory Library
  imports Wq_Session Wq_Meta Thread_Props
begin

text \<open>
  The library as a whole: the features of \<open>include/internal/feature.h\<close>, whose constructors run
  before \<open>main\<close> in the order of their priorities and whose destructors run after it in the opposite
  order. A process is the memory of the modules that have state; between the two the workqueue
  has a session and the other threads do what they like with the groups.
\<close>

section \<open>Features\<close>

datatype feature = Rcu | Centralized_barrier | Safe_ptr | Graph | Thread | Workqueue | Taskflow

definition mthpc_prio_base :: nat where
  "mthpc_prio_base = 200"

text \<open>\<open>enum mthpc_prio\<close>.\<close>

fun mthpc_prio :: "feature \<Rightarrow> nat" where
  "mthpc_prio Rcu = mthpc_prio_base + 1"
| "mthpc_prio Centralized_barrier = mthpc_prio_base + 2"
| "mthpc_prio Safe_ptr = mthpc_prio_base + 3"
| "mthpc_prio Graph = mthpc_prio_base + 4"
| "mthpc_prio Thread = mthpc_prio_base + 5"
| "mthpc_prio Workqueue = mthpc_prio_base + 6"
| "mthpc_prio Taskflow = mthpc_prio_base + 7"

text \<open>The functions that \<open>struct mthpc_cb_retire_obj\<close> can hold.\<close>

datatype retire_fn = Unset | Cb_rcu_lock | Cb_rcu_unlock | Cb_rcu_init | Cb_synchronize_rcu

record retire_obj =
  ro_lock :: retire_fn
  ro_unlock :: retire_fn
  ro_sp_init :: retire_fn
  ro_synchronize :: retire_fn

record process =
  pwq :: wq_sys
  pth :: th_sys
  retire :: retire_obj

definition mthpc_safe_ptr_init :: "process \<Rightarrow> process option" where
  "mthpc_safe_ptr_init P = Some (P\<lparr>retire := \<lparr>ro_lock = Cb_rcu_lock, ro_unlock = Cb_rcu_unlock,
     ro_sp_init = Cb_rcu_init, ro_synchronize = Cb_synchronize_rcu\<rparr>\<rparr>)"

definition on_rcu :: "(rcu_mem \<Rightarrow> rcu_mem option) \<Rightarrow> process \<Rightarrow> process option" where
  "on_rcu f P = do { m \<leftarrow> f (rcu (pwq P)); Some (P\<lparr>pwq := (pwq P)\<lparr>rcu := m\<rparr>\<rparr>) }"

definition on_wq :: "(wq_sys \<Rightarrow> wq_sys option) \<Rightarrow> process \<Rightarrow> process option" where
  "on_wq f P = do { s \<leftarrow> f (pwq P); Some (P\<lparr>pwq := s\<rparr>) }"

definition on_threads :: "(th_sys \<Rightarrow> th_sys option) \<Rightarrow> process \<Rightarrow> process option" where
  "on_threads f P = do { t \<leftarrow> f (pth P); Some (P\<lparr>pth := t\<rparr>) }"

text \<open>
  The constructor and the destructor of each feature. Those of the barrier and the taskflow, and
  the destructor of the safe pointers, only print; the graph has none.
\<close>

fun feature_init :: "feature \<Rightarrow> process \<Rightarrow> process option" where
  "feature_init Rcu = on_rcu mthpc_rcu_init"
| "feature_init Safe_ptr = mthpc_safe_ptr_init"
| "feature_init Thread = on_threads mthpc_thread_init"
| "feature_init Workqueue = on_wq mthpc_workqueue_init"
| "feature_init _ = Some"

fun feature_exit :: "(nat \<Rightarrow> nat \<Rightarrow> nat list) \<Rightarrow> feature \<Rightarrow> process \<Rightarrow> process option" where
  "feature_exit sched Rcu = on_rcu mthpc_rcu_exit"
| "feature_exit sched Thread = on_threads mthpc_thread_exit"
| "feature_exit sched Workqueue = on_wq (mthpc_workqueue_exit sched)"
| "feature_exit sched _ = Some"

text \<open>
  The attributes \<open>constructor(prio)\<close> and \<open>destructor(prio)\<close>: constructors run in ascending order of
  their priorities, destructors in descending order, whatever the order of linking.
\<close>

definition library_init :: "feature list \<Rightarrow> process \<Rightarrow> process option" where
  "library_init order = fold_opt feature_init (sort_key mthpc_prio order)"

definition library_exit :: "feature list \<Rightarrow> (nat \<Rightarrow> nat \<Rightarrow> nat list) \<Rightarrow> process \<Rightarrow> process option" where
  "library_exit order sched = fold_opt (feature_exit sched) (rev (sort_key mthpc_prio order))"

text \<open>Every feature is linked once.\<close>

definition link_order :: "feature list \<Rightarrow> bool" where
  "link_order order \<longleftrightarrow> distinct order \<and> set order = UNIV"

definition features :: "feature list" where
  "features = [Rcu, Centralized_barrier, Safe_ptr, Graph, Thread, Workqueue, Taskflow]"

lemma filter_same: "distinct xs \<Longrightarrow> k \<in> set xs \<Longrightarrow> filter (\<lambda>x. k = x) xs = [k]"
  by (induction xs) (auto simp: filter_empty_conv)

lemma mthpc_prio_inj: "mthpc_prio x = mthpc_prio y \<longleftrightarrow> x = y"
  by (cases x; cases y) (simp_all add: mthpc_prio_base_def)

lemma sort_features:
  assumes "link_order order"
  shows "sort_key mthpc_prio order = features"
proof (rule properties_for_sort_key)
  have all: "set features = UNIV" by (auto simp: features_def intro: feature.exhaust)
  have d: "distinct features" "distinct order" "set order = set features"
    using assms all by (simp_all add: link_order_def features_def)
  then show "mset features = mset order" by (simp add: set_eq_iff_mset_eq_distinct)
  show "filter (\<lambda>x. mthpc_prio k = mthpc_prio x) features = filter (\<lambda>x. mthpc_prio k = mthpc_prio x) order"
    if "k \<in> set features" for k
    unfolding mthpc_prio_inj using d that by (simp add: filter_same)
  show "sorted (map mthpc_prio features)" by (simp add: features_def)
qed

section \<open>Constructors\<close>

text \<open>The memory of a process before its first constructor.\<close>

definition new_process :: "process \<Rightarrow> bool" where
  "new_process P \<longleftrightarrow> (let s = pwq P in
     (\<forall>p\<in>set wq_pools. PoolHead p \<in> dom (lh s)) \<and> FreeList \<in> dom (lh s) \<and> wqs s = Map.empty \<and>
     ran s = [] \<and> wq_warned s = 0 \<and> (\<forall>t. node_ptr (rcu s) t = 0)) \<and> ThreadsHead \<in> dom (thl (pth P))"

lemma rcu_init_threads:
  assumes "\<forall>t. node_ptr m t = 0"
  obtains m' where "mthpc_rcu_init m = Some m'" "rcu_threads {} m'" "meta_list m' [usr_data]" "nodes m' = nodes m"
proof -
  let ?k = "m\<lparr>meta_head := 0, meta_lock := Unlocked\<rparr>"
  let ?m = "?k\<lparr>datas := (datas m)(usr_data \<mapsto> \<lparr>dlock = Unlocked, dhead = 0, dtype = MTHPC_RCU_USR,
       dgp = MTHPC_GP_COUNT, dnext = 0\<rparr>), meta_head := usr_data\<rparr>"
  have run: "mthpc_rcu_init m = Some ?m"
    by (simp add: mthpc_rcu_init_def mthpc_rcu_data_init_def lock_meta_def unlock_meta_def)
  have reg: "registry ?m usr_data []" by (simp add: registry_def on_list_def)
  have look: "rcu_lookup usr_data ?m = Map.empty" unfolding rcu_lookup_map [OF reg] by (simp add: id_map_def)
  have "rcu_threads {} ?m"
    unfolding rcu_threads_def look using assms reg data_gp_init by (auto simp: registry_valid_def)
  moreover have "meta_list ?m [usr_data]"
    by (simp add: meta_list_def data_next_def usr_data_def)
  ultimately show ?thesis using run by (intro that [of ?m]) simp_all
qed

lemma library_init_ok:
  assumes new: "new_process P" and order: "link_order order"
  obtains P' where "library_init order P = Some P'" "session_start ([], pwq P')" "meta_list (rcu (pwq P')) [usr_data]"
    "th_lock (pth P') = Unlocked" "rcu_threads {} (rcu (pwq P'))" "nodes (rcu (pwq P')) = nodes (rcu (pwq P))"
    "works (pwq P') = works (pwq P)" "wqs (pwq P') = Map.empty" "ran (pwq P') = []" "dom (lh (pwq P')) = dom (lh (pwq P))"
proof -
  obtain m where m: "mthpc_rcu_init (rcu (pwq P)) = Some m" "rcu_threads {} m" "meta_list m [usr_data]"
    "nodes m = nodes (rcu (pwq P))"
    by (rule rcu_init_threads [of "rcu (pwq P)"]) (use new that in \<open>auto simp: new_process_def Let_def\<close>)
  let ?s = "(pwq P)\<lparr>rcu := m\<rparr>"
  have heads: "\<forall>p\<in>set wq_pools. PoolHead p \<in> dom (lh ?s)" using new by (simp add: new_process_def Let_def)
  obtain ps h where h: "mthpc_workqueue_init ?s = Some (?s\<lparr>pools := ps, lh := h\<rparr>)" "dom h = dom (lh ?s)"
    by (rule workqueue_init_ok [OF heads], rule that)
  have head: "ThreadsHead \<in> dom (thl (pth P))" using new by (simp add: new_process_def)
  obtain k where k: "mthpc_list_init ThreadsHead (thl (pth P)) = Some k"
    by (rule mthpc_list_init_ok [OF head], rule that)
  let ?t = "(pth P)\<lparr>nr_group := 0, th_lock := Unlocked, thl := k\<rparr>"
  have t: "mthpc_thread_init (pth P) = Some ?t" using k by (simp add: mthpc_thread_init_def with_thl_def)
  let ?P = "P\<lparr>pwq := ?s\<lparr>pools := ps, lh := h\<rparr>, pth := ?t, retire := \<lparr>ro_lock = Cb_rcu_lock, ro_unlock = Cb_rcu_unlock,
     ro_sp_init = Cb_rcu_init, ro_synchronize = Cb_synchronize_rcu\<rparr>\<rparr>"
  have "library_init order P = Some ?P"
    using m(1) h(1) t
    by (simp add: library_init_def sort_features [OF order] features_def on_rcu_def on_wq_def on_threads_def
        mthpc_safe_ptr_init_def)
  moreover have "session_start ([], pwq ?P)"
    unfolding session_start_def prod.case
    using h(1) m(2) new by (intro conjI exI [of _ ?s] exI [of _ "{}"]) (simp_all add: new_process_def Let_def)
  moreover have "wqs (pwq P) = Map.empty" "ran (pwq P) = []" using new by (simp_all add: new_process_def Let_def)
  ultimately show ?thesis using m(2-4) h(2) by (intro that [of ?P]) simp_all
qed

section \<open>The life of a process\<close>

text \<open>
  Between constructors and destructors: steps of a session of the workqueue, and anything the
  threads do with their groups that leaves the lock of the groups free.
\<close>

inductive life_step :: "nat list \<times> process \<Rightarrow> nat list \<times> process \<Rightarrow> bool" where
  session: "session_step (A, pwq P) (B, s) \<Longrightarrow> life_step (A, P) (B, P\<lparr>pwq := s\<rparr>)"
| groups: "th_lock t = Unlocked \<Longrightarrow> life_step (A, P) (A, P\<lparr>pth := t\<rparr>)"

definition life_start :: "feature list \<Rightarrow> nat list \<times> process \<Rightarrow> bool" where
  "life_start order = (\<lambda>(A, P). A = [] \<and> link_order order \<and> (\<exists>P0. new_process P0 \<and> library_init order P0 = Some P))"

definition life_ok :: "nat list \<times> process \<Rightarrow> bool" where
  "life_ok = (\<lambda>(A, P). session_typed A (pwq P) \<and> meta_list (rcu (pwq P)) [usr_data] \<and> th_lock (pth P) = Unlocked)"

lemma session_step_meta:
  assumes "session_step (A, s) (B, s')"
  shows "wq_meta s' = wq_meta s"
  using assms by cases (auto simp: run_call_eq dest: schedule_meta run_worker_rcu thread_init_meta thread_exit_meta)

interpretation life: inductive_invariant "life_start order" life_step life_ok for order
proof
  show "life_ok x" if start: "life_start order x" for x
  proof -
    obtain P P0 where P: "x = ([], P)" "link_order order" "new_process P0" "library_init order P0 = Some P"
      using start by (cases x) (auto simp: life_start_def)
    obtain P' where "library_init order P0 = Some P'" "session_start ([], pwq P')" "meta_list (rcu (pwq P')) [usr_data]"
      "th_lock (pth P') = Unlocked"
      by (rule library_init_ok [OF P(3,2)], rule that)
    then show ?thesis using P(1,4) session_typed_start by (simp add: life_ok_def)
  qed
  show "life_ok y" if "life_ok x" "life_step x y" for x y
    using that(2)
  proof cases
    case (session A P B s)
    then have "session_typed B s" using session.inv_step [of "(A, pwq P)" "(B, s)"] that(1) by (simp add: life_ok_def)
    moreover have "meta_list (rcu s) [usr_data]"
      using rcu_meta_list [OF session_step_meta [OF session(3)]] session(1) that(1) by (simp add: life_ok_def)
    ultimately show ?thesis using session(1,2) that(1) by (simp add: life_ok_def)
  next
    case groups
    then show ?thesis using that(1) by (simp add: life_ok_def)
  qed
qed

section \<open>Destructors\<close>

lemma free_nodes_node_ptr:
  assumes "free_nodes p m = Some m'"
  shows "node_ptr m' = node_ptr m"
proof (rule free_nodes.raw_induct [where P = "\<lambda>p m m'. node_ptr m' = node_ptr m", OF _ assms])
  fix loop p m m'
  assume IH: "\<And>p m m'. loop p m = Some m' \<Longrightarrow> node_ptr m' = node_ptr m"
    and run: "(if p = 0 then Some m else do { n \<leftarrow> nodes m p; m \<leftarrow> free_node p m; loop (nnext n) m }) = Some m'"
  show "node_ptr m' = node_ptr m"
    using run by (auto simp: free_node_def bind_Some_iff dest!: IH split: if_splits)
qed

lemma rcu_exit_node_ptr:
  assumes "rcu_data_exit d st m = Some m'"
  shows "node_ptr m' = node_ptr m"
  using assms
  by (auto simp: rcu_data_exit_def unlink_data_def set_data_slot_def lock_data_def unlock_data_def lock_meta_def
      unlock_meta_def free_data_def upd_data_def bind_Some_iff dest!: free_nodes_node_ptr split: slot.splits if_splits)

text \<open>The destructor of the RCU frees the nodes of the threads that are still registered.\<close>

lemma rcu_exit_threads:
  assumes T: "rcu_threads T m" and meta: "meta_list m [usr_data]"
  obtains m' where "mthpc_rcu_exit m = Some m'" "\<And>t. t \<in> T \<Longrightarrow> nodes m' (node_ptr m' t) = None"
    "meta_head m' = 0" "meta_lock m' = Destroyed" "lock_data usr_data m' = None"
proof -
  obtain ps r where p: "registry m usr_data ps" "datas m usr_data = Some r" "data_gp_ok (dgp r)"
    "\<And>a. a \<in> set ps \<Longrightarrow> \<exists>n. nodes m a = Some n \<and> ndata n = usr_data \<and> \<not> gp_active (ngp n)"
    "node_ptr m ` T = set ps"
    by (rule rcu_threads_parts [OF T], rule that)
  let ?m = "flip_all [usr_data] m"
  have "quiet m usr_data" unfolding quiet_def using p(1,2,4) by (fastforce simp: node_passes_def)
  then have sync: "mthpc_synchronize_rcu_all m = Some ?m" using synchronize_all_objects [OF meta] by simp
  have reg: "registry ?m usr_data ps" using p(1,2) by (auto simp: registry_def flip_all_def flip_gp_def)
  have "data_next ?m = data_next m" by (auto simp: data_next_def flip_all_def flip_gp_def option.map_comp comp_def fun_eq_iff)
  then have meta': "meta_list ?m ([] @ usr_data # [])" using meta by (simp add: meta_list_def flip_all_def)
  obtain k where k: "rcu_data_exit usr_data True ?m = Some k" "nodes k = (\<lambda>a. if a \<in> set ps then None else nodes ?m a)"
    "chain (data_next k) (meta_head k) ([] @ [])" "meta_lock k = Unlocked" "lock_data usr_data k = None"
    using rcu_data_exit_ok [OF meta' reg, of True] by auto
  let ?k = "k\<lparr>meta_lock := Destroyed\<rparr>"
  have "mthpc_rcu_exit m = Some ?k" using sync k(1,4) by (simp add: mthpc_rcu_exit_def)
  moreover have "node_ptr k = node_ptr m" using rcu_exit_node_ptr [OF k(1)] by (simp add: flip_all_def)
  then have "nodes ?k (node_ptr ?k t) = None" if "t \<in> T" for t using k(2) p(5) that by auto
  moreover have "lock_data usr_data ?k = None" using k(5) by (auto simp: lock_data_def upd_data_def bind_eq_None_conv split: option.splits)
  ultimately show ?thesis using k(3) by (intro that [of ?k]) simp_all
qed

text \<open>
  C6. The life of a process: after the constructors of all features, run in the order of their
  priorities whatever the order in which they were linked, over any sequence of calls of the
  scheduling functions, one after the other, by threads that may register with the RCU or leave
  it at any time, with the workers of all queues going on in any order, the destructors, in the
  opposite order, return if the workers are scheduled again and again and nothing is queued any
  more. By then every work that was accepted has run, as often as it was accepted, every queue
  is freed, the counts of the pools are 0, the node of every thread that was still registered
  is freed, the locks of the pools, of the RCU and of the thread groups are destroyed, and the
  workqueue has given no warning; the warnings of the RCU and of the threads are not counted
  here. Each call is made under these conditions (\<open>call_ok\<close>): its work is
  allocated and not queued at the moment, fewer than 2^32 - 1 works are queued; the memory for
  a queue is new or \<open>malloc\<close> fails, but the memory for the RCU nodes of the caller
  and of a new worker is there; the thread ids differ in their lower 32 bits; and
  \<open>pthread_setaffinity_np\<close> succeeds. A thread registers only if its node can be
  allocated and its id is new in this sense.
\<close>

theorem library_life:
  assumes "reachable (life_start order) life_step (A, P)"
    and "\<forall>p t. set (sched p t) \<subseteq> dom (wqs (pwq P))"
    and "\<forall>p\<in>set wq_pools. \<forall>q\<in>dom (wqs (pwq P)). \<forall>t. \<exists>u\<ge>t. q \<in> set (sched p u)"
  shows "\<exists>P'. library_exit order sched P = Some P' \<and> mset (ran (pwq P')) = mset A \<and>
    (\<forall>q\<in>dom (wqs (pwq P)). wqs (pwq P') q = None) \<and> wq_warned (pwq P') = 0 \<and>
    (\<forall>p\<in>set wq_pools. pools (pwq P') p = Some \<lparr>pcount = 0, plock = Destroyed\<rparr>) \<and>
    (\<forall>t\<in>clients (pwq P). nodes (rcu (pwq P')) (node_ptr (rcu (pwq P')) t) = None) \<and>
    meta_lock (rcu (pwq P')) = Destroyed \<and> th_lock (pth P') = Destroyed"
proof -
  have ok: "session_typed A (pwq P)" "meta_list (rcu (pwq P)) [usr_data]" "th_lock (pth P) = Unlocked"
    using life.inv_reachable [OF assms(1)] by (simp_all add: life_ok_def)
  have order: "link_order order"
    using assms(1) by (induction "(A, P)" arbitrary: A P) (auto simp: life_start_def)
  obtain s where s: "mthpc_workqueue_exit sched (pwq P) = Some s" "mset (ran s) = mset A"
    "\<forall>q\<in>dom (wqs (pwq P)). wqs s q = None" "\<forall>p\<in>set wq_pools. pools s p = Some \<lparr>pcount = 0, plock = Destroyed\<rparr>"
    "rcu_threads (clients (pwq P)) (rcu s)" "wq_warned s = 0"
    using session_exit [OF ok(1) assms(2,3)] by blast
  have "meta_list (rcu s) [usr_data]" using rcu_meta_list [OF workqueue_exit_meta [OF s(1)]] ok(2) by simp
  then obtain m where m: "mthpc_rcu_exit (rcu s) = Some m" "\<And>t. t \<in> clients (pwq P) \<Longrightarrow> nodes m (node_ptr m t) = None"
    "meta_lock m = Destroyed"
    by (rule rcu_exit_threads [OF s(5)]) (use that in blast)
  let ?t = "(pth P)\<lparr>th_lock := Destroyed\<rparr>"
  have t: "mthpc_thread_exit (pth P) = Some ?t"
    using ok(3) by (simp add: mthpc_thread_exit_def lock_threads_def unlock_threads_def)
  have "library_exit order sched P = Some (P\<lparr>pwq := s\<lparr>rcu := m\<rparr>, pth := ?t\<rparr>)"
    using s(1) m(1) t by (simp add: library_exit_def sort_features [OF order] features_def on_rcu_def on_wq_def on_threads_def)
  then show ?thesis using s(2-4,6) m(2,3) by (intro exI [of _ "P\<lparr>pwq := s\<lparr>rcu := m\<rparr>, pth := ?t\<rparr>"]) simp
qed

section \<open>The order of the destructors\<close>

lemma set_data_slot_dlock:
  "set_data_slot sl v m = Some m' \<Longrightarrow> map_option dlock (datas m' d) = map_option dlock (datas m d)"
  by (auto simp: set_data_slot_def upd_data_def bind_Some_iff split: slot.splits)

lemma unlink_data_dlock:
  "unlink_data data m = Some m' \<Longrightarrow> map_option dlock (datas m' d) = map_option dlock (datas m d)"
  by (auto simp: unlink_data_def bind_Some_iff dest: set_data_slot_dlock split: if_splits)

lemma rcu_data_exit_static_dlock:
  "rcu_data_exit d True m = Some m' \<Longrightarrow> map_option dlock (datas m' d) = Some Destroyed"
  by (auto simp: rcu_data_exit_def upd_data_def lock_meta_def unlock_meta_def spin_lock_destroy_def bind_Some_iff
      dest!: unlink_data_dlock [where d = d] split: if_splits)

text \<open>After its destructor the RCU can neither be waited for nor be destroyed again.\<close>

definition rcu_dead :: "process \<Rightarrow> bool" where
  "rcu_dead P \<longleftrightarrow> map_option dlock (datas (rcu (pwq P)) usr_data) = Some Destroyed \<and>
     meta_lock (rcu (pwq P)) = Destroyed"

lemma rcu_exit_dead: "feature_exit sched Rcu P = Some P' \<Longrightarrow> rcu_dead P'"
  by (auto simp: on_rcu_def mthpc_rcu_exit_def rcu_dead_def spin_lock_destroy_def bind_Some_iff
      dest: rcu_data_exit_static_dlock split: if_splits)

lemma dead_synchronize:
  assumes "map_option dlock (datas m usr_data) = Some Destroyed"
  shows "mthpc_synchronize_rcu m = None"
  using assms by (auto simp: mthpc_synchronize_rcu_def mthpc_synchronize_rcu_internal_def lock_data_def upd_data_def)

lemma rcu_dead_exit:
  assumes "rcu_dead P"
  shows "feature_exit sched Rcu P = None" "feature_exit sched Workqueue P = None"
    "f \<noteq> Rcu \<Longrightarrow> f \<noteq> Workqueue \<Longrightarrow> feature_exit sched f P = Some P' \<Longrightarrow> rcu_dead P'"
proof -
  show "feature_exit sched Rcu P = None"
    using assms by (simp add: on_rcu_def mthpc_rcu_exit_def mthpc_synchronize_rcu_all_def lock_meta_def rcu_dead_def)
  show "feature_exit sched Workqueue P = None"
    using assms by (simp add: on_wq_def mthpc_workqueue_exit_def mthpc_workpool_exit_def rcu_dead_def dead_synchronize)
  show "f \<noteq> Rcu \<Longrightarrow> f \<noteq> Workqueue \<Longrightarrow> feature_exit sched f P = Some P' \<Longrightarrow> rcu_dead P'"
    using assms by (cases f) (auto simp: on_threads_def bind_Some_iff rcu_dead_def)
qed

lemma rcu_dead_fold:
  assumes "rcu_dead P"
  shows "fold_opt (feature_exit sched) (ys @ Workqueue # zs) P = None"
  using assms
proof (induction ys arbitrary: P)
  case (Cons y ys)
  show ?case
  proof (cases "feature_exit sched y P")
    case (Some Q)
    then have "rcu_dead Q" using rcu_dead_exit [OF Cons.prems] by (cases "y = Rcu \<or> y = Workqueue") auto
    then show ?thesis using Cons.IH Some by (simp del: feature_exit.simps)
  qed (simp del: feature_exit.simps)
qed (simp add: rcu_dead_exit(2) del: feature_exit.simps)

text \<open>
  The priorities are needed: if the destructor of the RCU runs before that of the workqueue, the
  process does not end in a defined state, as the workqueue waits for a grace period.
\<close>

theorem library_exit_order:
  "fold_opt (feature_exit sched) (xs @ Rcu # ys @ Workqueue # zs) P = None"
proof (cases "fold_opt (feature_exit sched) xs P")
  case (Some Q)
  then show ?thesis
    by (cases "feature_exit sched Rcu Q")
      (simp_all add: fold_opt_append rcu_dead_fold [OF rcu_exit_dead, unfolded fold_opt_append] del: feature_exit.simps)
qed (simp add: fold_opt_append)

section \<open>An example\<close>

definition example_process :: process where
  "example_process = \<lparr>pwq = session_memory\<lparr>rcu := rcu_mem0\<rparr>, pth = idle_threads,
     retire = \<lparr>ro_lock = Unset, ro_unlock = Unset, ro_sp_init = Unset, ro_synchronize = Unset\<rparr>\<rparr>"

lemma library_life_witness:
  "\<exists>P sched P'. reachable (life_start features) life_step ([7], P) \<and>
    library_exit features sched P = Some P' \<and> ran (pwq P') = [7]"
proof -
  have order: "link_order features" unfolding link_order_def by (auto simp: features_def intro: feature.exhaust)
  have new: "new_process example_process"
    by (auto simp: new_process_def Let_def example_process_def session_memory_def idle_threads_def rcu_mem0_def
        wq_pools_def mthpc_workpool_def mthpc_thread_wp_def mthpc_taskflow_wp_def)
  obtain P where P: "library_init features example_process = Some P" "session_start ([], pwq P)"
    "rcu_threads {} (rcu (pwq P))" "nodes (rcu (pwq P)) = Map.empty" "works (pwq P) 7 \<noteq> None"
    "wqs (pwq P) = Map.empty" "ran (pwq P) = []" "dom (lh (pwq P)) = dom (lh session_memory)"
    by (rule library_init_ok [OF new order]) (rule that, simp_all add: example_process_def session_memory_def rcu_mem0_def)
  have reg: "registered (rcu (pwq P)) = {}" by (rule rcu_threads_registered [OF P(3)])
  have call: "call_ok wq_env (call_work (Queue_work 7)) [] (pwq P)"
    using P(4-8) reg
    by (auto simp: call_ok_def caller_ok_def worker_env_def can_register_def wq_is_fresh_def wq_env_def
        session_memory_def)
  obtain s1 where s1: "run_call wq_env (Queue_work 7) (pwq P) = Some (0, s1)" "session_typed [7] s1"
    by (rule session_call [OF session_typed_start [OF P(2)] call]) (use that in \<open>auto simp: wq_env_def\<close>)
  let ?P = "P\<lparr>pwq := s1\<rparr>"
  have "life_start features ([], P)" unfolding life_start_def using order new P(1) by blast
  moreover have "life_step ([], P) ([7], ?P)" using accepted [OF call s1(1)] by (auto intro: life_step.session)
  ultimately have r: "reachable (life_start features) life_step ([7], ?P)" by (metis reach_init reach_step)
  obtain Q where Q: "dom (wqs s1) = set Q" using s1(2) by (auto simp: session_typed_def session_ok_def)
  obtain P' where "library_exit features (\<lambda>_ _. Q) ?P = Some P'" "mset (ran (pwq P')) = mset [7]"
    using library_life [OF r, of "\<lambda>_ _. Q"] Q by auto
  moreover from this(2) have "ran (pwq P') = [7]" by (cases "ran (pwq P')") (auto simp: add_eq_conv_diff)
  ultimately show ?thesis using r by blast
qed

end
