(* ===== verification/Wq_Race.thy ===== *)
theory Wq_Race
  imports Rcu_Grace "HOL-Library.Multiset"
begin

text \<open>
  The race for the last work of a queue, \<open>src/workqueue/workqueue.c\<close>: schedulers on the fast path
  of \<open>mthpc_get_workqueue\<close> and then \<open>mthpc_wq_futex_wake\<close>, the worker of the queue, and
  \<open>mthpc_workqueues_join\<close>, which gives the queue up when it finds it without works. Each is a
  step relation with one rule for each access to what the threads share; the grace periods and
  the critical sections are those of \<open>Rcu_Grace\<close>, where the scheduler \<open>i\<close> is the reader \<open>i\<close>. The
  schedulers are the readers that matter: the joiner and the worker are in no critical section.
\<close>

section \<open>The threads of a queue\<close>

datatype agent = Scheduler nat | Joiner | Worker

datatype sched_pc =
    SIdle \<comment> \<open>before the critical section, or in \<open>mthpc_rcu_read_lock\<close>\<close>
  | SFind \<comment> \<open>walks the list of the pool\<close>
  | SFound \<comment> \<open>has the queue, before \<open>spin_lock(&wq->lock)\<close>\<close>
  | SHold \<comment> \<open>holds the lock, before \<open>mthpc_workqueue_add_locked\<close>\<close>
  | SAdded \<comment> \<open>before \<open>spin_unlock\<close>\<close>
  | SLeave \<comment> \<open>in \<open>mthpc_rcu_read_unlock\<close>, with the queue\<close>
  | SWake \<comment> \<open>before \<open>mthpc_wq_futex_wake\<close>\<close>
  | SDone
  | SMiss \<comment> \<open>in \<open>mthpc_rcu_read_unlock\<close>, without a queue\<close>
  | SSlow \<comment> \<open>on the slow path, with a queue of its own\<close>

datatype join_pc =
    JIdle
  | JWant \<comment> \<open>holds the lock of the pool, before \<open>spin_lock(&wq->lock)\<close>\<close>
  | JHold \<comment> \<open>before the test of \<open>wq->count\<close>\<close>
  | JBusy \<comment> \<open>found works, before \<open>spin_unlock\<close>\<close>
  | JDel \<comment> \<open>after \<open>mthpc_list_del_rcu\<close>\<close>
  | JSync \<comment> \<open>in \<open>mthpc_synchronize_rcu\<close>\<close>
  | JClear \<comment> \<open>before \<open>mthpc_wq_clear_active\<close>\<close>
  | JUnlock \<comment> \<open>before \<open>spin_unlock\<close>\<close>
  | JJoin \<comment> \<open>in \<open>pthread_join\<close>\<close>
  | JFreed \<comment> \<open>after \<open>free(wq)\<close>\<close>

datatype work_pc =
    KTest \<comment> \<open>before the test of the active bit\<close>
  | KLock
  | KHold \<comment> \<open>holds the lock\<close>
  | KRun nat \<comment> \<open>runs a work, without the lock\<close>
  | KWait \<comment> \<open>before \<open>READ_ONCE(wq->futex)\<close>\<close>
  | KCall \<comment> \<open>has read \<open>0\<close>, before the system call\<close>
  | KSleep
  | KBug \<comment> \<open>in \<open>MTHPC_BUG_ON\<close>, from which the worker does not come back\<close>
  | KExit

record race =
  grace :: rcu_sys
  listed :: bool \<comment> \<open>the list of the pool leads to the queue\<close>
  owner :: "agent option" \<comment> \<open>of \<open>wq->lock\<close>\<close>
  queue :: "nat list" \<comment> \<open>the works, each with the number of its scheduler\<close>
  wcount :: u32
  active :: bool
  futex :: bool
  spc :: "nat \<Rightarrow> sched_pc"
  jpc :: join_pc
  kpc :: work_pc
  taken :: "nat list" \<comment> \<open>the works that the worker has taken\<close>

definition race_start :: "race \<Rightarrow> bool" where
  "race_start s \<longleftrightarrow> rcu_start (grace s) \<and> listed s \<and> owner s = None \<and> queue s = [] \<and> wcount s = 0 \<and>
     active s \<and> spc s = (\<lambda>_. SIdle) \<and> jpc s = JIdle \<and> kpc s = KTest \<and> taken s = []"

text \<open>\<open>mthpc_wq_futex_wake\<close>, which the scheduler calls after it has left its critical section.\<close>

inductive wake_step :: "nat \<Rightarrow> race \<Rightarrow> race \<Rightarrow> bool" for i :: nat where
  "spc s i = SWake \<Longrightarrow>
   wake_step i s (s\<lparr>spc := (spc s)(i := SDone), futex := True,
     kpc := (if kpc s = KSleep then KWait else kpc s)\<rparr>)"

inductive_cases wake_stepE [elim!]: "wake_step i s t"

text \<open>
  The fast path. The walk along the list of the pool is one step: it finds the queue if the list
  leads to it and its cpu matches (\<open>find\<close>), and it may pass it by in any case (\<open>miss\<close>), because
  the cpu of the call is another one.
\<close>

inductive sched_step :: "nat \<Rightarrow> race \<Rightarrow> race \<Rightarrow> bool" for i :: nat where
  read_lock:
    "spc s i = SIdle \<Longrightarrow> \<not> gp_active (node_gp (grace s) i) \<Longrightarrow> reader_step i (grace s) g \<Longrightarrow>
     sched_step i s (s\<lparr>grace := g\<rparr>)"
| read_locked:
    "spc s i = SIdle \<Longrightarrow> gp_active (node_gp (grace s) i) \<Longrightarrow>
     sched_step i s (s\<lparr>spc := (spc s)(i := SFind)\<rparr>)"
| find:
    "spc s i = SFind \<Longrightarrow> listed s \<Longrightarrow>
     sched_step i s (s\<lparr>spc := (spc s)(i := SFound)\<rparr>)"
| miss:
    "spc s i = SFind \<Longrightarrow>
     sched_step i s (s\<lparr>spc := (spc s)(i := SMiss)\<rparr>)"
| add_lock:
    "spc s i = SFound \<Longrightarrow> owner s = None \<Longrightarrow>
     sched_step i s (s\<lparr>spc := (spc s)(i := SHold), owner := Some (Scheduler i)\<rparr>)"
| add_locked:
    "spc s i = SHold \<Longrightarrow>
     sched_step i s (s\<lparr>spc := (spc s)(i := SAdded), queue := queue s @ [i], wcount := wcount s + 1\<rparr>)"
| add_unlock:
    "spc s i = SAdded \<Longrightarrow>
     sched_step i s (s\<lparr>spc := (spc s)(i := SLeave), owner := None\<rparr>)"
| read_unlock:
    "spc s i \<in> {SLeave, SMiss} \<Longrightarrow> gp_active (node_gp (grace s) i) \<Longrightarrow> reader_step i (grace s) g \<Longrightarrow>
     (\<forall>v. rpc g i \<noteq> LockLoaded v) \<Longrightarrow>
     sched_step i s (s\<lparr>grace := g\<rparr>)"
| read_unlocked:
    "spc s i \<in> {SLeave, SMiss} \<Longrightarrow> \<not> gp_active (node_gp (grace s) i) \<Longrightarrow>
     sched_step i s (s\<lparr>spc := (spc s)(i := if spc s i = SLeave then SWake else SSlow)\<rparr>)"
| wake: "wake_step i s t \<Longrightarrow> sched_step i s t"

text \<open>
  \<open>mthpc_wq_futex_wait\<close>. The system call returns \<open>0\<close> after a wake-up, and also without one; for a
  word that has changed (\<open>EAGAIN\<close>) and after a signal (\<open>EINTR\<close>) it returns a negative number, for
  which the \<open>switch\<close> has only its \<open>default\<close>.
\<close>

inductive wait_step :: "race \<Rightarrow> race \<Rightarrow> bool" where
  wait_read: "kpc s = KWait \<Longrightarrow> wait_step s (s\<lparr>kpc := if futex s then KTest else KCall\<rparr>)"
| wait_changed: "kpc s = KCall \<Longrightarrow> futex s \<Longrightarrow> wait_step s (s\<lparr>kpc := KBug\<rparr>)"
| wait_sleep: "kpc s = KCall \<Longrightarrow> \<not> futex s \<Longrightarrow> wait_step s (s\<lparr>kpc := KSleep\<rparr>)"
| wait_zero: "kpc s = KSleep \<Longrightarrow> wait_step s (s\<lparr>kpc := KWait\<rparr>)"
| wait_signal: "kpc s = KSleep \<Longrightarrow> wait_step s (s\<lparr>kpc := KBug\<rparr>)"

text \<open>Waiting changes nothing else, and does not hold the lock.\<close>

lemma wait_stepE [elim!]:
  assumes "wait_step s t"
  obtains k where "t = s\<lparr>kpc := k\<rparr>" "kpc s \<noteq> KHold" "k \<noteq> KHold"
  using assms by cases auto

text \<open>\<open>mthpc_worker_run\<close>.\<close>

inductive worker_step :: "race \<Rightarrow> race \<Rightarrow> bool" where
  test: "kpc s = KTest \<Longrightarrow> worker_step s (s\<lparr>kpc := if active s then KLock else KExit\<rparr>)"
| lock: "kpc s = KLock \<Longrightarrow> owner s = None \<Longrightarrow> worker_step s (s\<lparr>kpc := KHold, owner := Some Worker\<rparr>)"
| empty: "kpc s = KHold \<Longrightarrow> queue s = [] \<Longrightarrow> worker_step s (s\<lparr>kpc := KWait, owner := None\<rparr>)"
| take:
    "kpc s = KHold \<Longrightarrow> queue s = w # ws \<Longrightarrow>
     worker_step s (s\<lparr>kpc := KRun w, queue := ws, wcount := wcount s - 1, taken := taken s @ [w], owner := None\<rparr>)"
| run: "kpc s = KRun w \<Longrightarrow> worker_step s (s\<lparr>kpc := KTest\<rparr>)"
| wait: "wait_step s t \<Longrightarrow> worker_step s t"

text \<open>The body of \<open>mthpc_workqueues_join\<close> for the queue.\<close>

inductive join_step :: "nat \<Rightarrow> race \<Rightarrow> race \<Rightarrow> bool" for N :: nat where
  pool_lock: "jpc s = JIdle \<Longrightarrow> join_step N s (s\<lparr>jpc := JWant\<rparr>)"
| queue_lock: "jpc s = JWant \<Longrightarrow> owner s = None \<Longrightarrow> join_step N s (s\<lparr>jpc := JHold, owner := Some Joiner\<rparr>)"
| busy: "jpc s = JHold \<Longrightarrow> wcount s \<noteq> 0 \<Longrightarrow> join_step N s (s\<lparr>jpc := JBusy\<rparr>)"
| busy_unlock: "jpc s = JBusy \<Longrightarrow> join_step N s (s\<lparr>jpc := JIdle, owner := None\<rparr>)"
| del: "jpc s = JHold \<Longrightarrow> wcount s = 0 \<Longrightarrow> join_step N s (s\<lparr>jpc := JDel, listed := False\<rparr>)"
| sync_begin:
    "jpc s = JDel \<Longrightarrow> wpc (grace s) = Idle \<Longrightarrow> writer_step N (grace s) g \<Longrightarrow>
     join_step N s (s\<lparr>jpc := JSync, grace := g\<rparr>)"
| sync:
    "jpc s = JSync \<Longrightarrow> wpc (grace s) \<noteq> Release \<Longrightarrow> writer_step N (grace s) g \<Longrightarrow>
     join_step N s (s\<lparr>grace := g\<rparr>)"
| sync_end:
    "jpc s = JSync \<Longrightarrow> wpc (grace s) = Release \<Longrightarrow> writer_step N (grace s) g \<Longrightarrow>
     join_step N s (s\<lparr>jpc := JClear, grace := g\<rparr>)"
| clear: "jpc s = JClear \<Longrightarrow> join_step N s (s\<lparr>jpc := JUnlock, active := False\<rparr>)"
| unlock: "jpc s = JUnlock \<Longrightarrow> join_step N s (s\<lparr>jpc := JJoin, owner := None\<rparr>)"
| free: "jpc s = JJoin \<Longrightarrow> kpc s = KExit \<Longrightarrow> join_step N s (s\<lparr>jpc := JFreed\<rparr>)"

inductive race_step :: "nat \<Rightarrow> race \<Rightarrow> race \<Rightarrow> bool" for N :: nat where
  by_scheduler: "i < N \<Longrightarrow> sched_step i s t \<Longrightarrow> race_step N s t"
| by_worker: "worker_step s t \<Longrightarrow> race_step N s t"
| by_joiner: "join_step N s t \<Longrightarrow> race_step N s t"

inductive_cases sched_stepE: "sched_step i s t"
inductive_cases worker_stepE: "worker_step s t"
inductive_cases join_stepE: "join_step N s t"
inductive_cases race_stepE: "race_step N s t"

section \<open>The invariant\<close>

definition giving_up :: "join_pc set" where
  "giving_up = {JDel, JSync, JClear, JUnlock}"

definition given_up :: "join_pc set" where
  "given_up = {JClear, JUnlock, JJoin, JFreed}"

text \<open>Who holds the lock.\<close>

definition owner_ok :: "race \<Rightarrow> bool" where
  "owner_ok s \<longleftrightarrow> (\<forall>i. owner s = Some (Scheduler i) \<longleftrightarrow> spc s i \<in> {SHold, SAdded}) \<and>
     (owner s = Some Joiner \<longleftrightarrow> jpc s \<in> {JHold, JBusy} \<union> giving_up) \<and> (owner s = Some Worker \<longleftrightarrow> kpc s = KHold)"

text \<open>The schedulers as readers: each enters one critical section, and has the queue only inside it.\<close>

definition reading_ok :: "race \<Rightarrow> nat \<Rightarrow> bool" where
  "reading_ok s i \<longleftrightarrow> (spc s i \<in> {SFind, SFound, SHold, SAdded} \<longrightarrow> gp_active (node_gp (grace s) i)) \<and>
     (gp_active (node_gp (grace s) i) \<or> spc s i \<noteq> SIdle \<longrightarrow> (\<forall>v. rpc (grace s) i \<noteq> LockLoaded v \<and> rpc (grace s) i \<noteq> LockGot v))"

text \<open>The works: those of the schedulers that have added theirs, once each.\<close>

definition has_added :: "race \<Rightarrow> nat \<Rightarrow> bool" where
  "has_added s i \<longleftrightarrow> spc s i \<in> {SAdded, SLeave, SWake, SDone}"

definition works_ok :: "nat \<Rightarrow> race \<Rightarrow> bool" where
  "works_ok N s \<longleftrightarrow> wcount s = of_nat (length (queue s)) \<and> distinct (queue s @ taken s) \<and>
     set (queue s @ taken s) = {i. i < N \<and> has_added s i}"

text \<open>
  The joiner: from the removal on nobody finds the queue; a grace period has the readers that
  found it before in its snapshot; after it, only readers with a stale phase are left.
\<close>

definition joiner_ok :: "nat \<Rightarrow> race \<Rightarrow> bool" where
  "joiner_ok N s \<longleftrightarrow> (listed s \<longleftrightarrow> jpc s \<in> {JIdle, JWant, JHold, JBusy}) \<and>
     (jpc s = JSync \<longleftrightarrow> wpc (grace s) \<noteq> Idle) \<and> (jpc s \<in> giving_up \<longrightarrow> queue s = []) \<and>
     (jpc s = JSync \<longrightarrow> (\<forall>i<N. spc s i = SFound \<longrightarrow> snap (grace s) i = Some (sect (grace s) i))) \<and>
     (jpc s \<in> given_up \<longrightarrow> (\<forall>i<N. spc s i \<in> {SFound, SHold, SAdded} \<or> i \<in> set (queue s) \<longrightarrow> \<not> fresh (grace s) i))"

definition race_inv :: "nat \<Rightarrow> race \<Rightarrow> bool" where
  "race_inv N s \<longleftrightarrow> rcu_inv N (grace s) \<and> owner_ok s \<and> (\<forall>i<N. reading_ok s i) \<and> works_ok N s \<and> joiner_ok N s"

lemmas race_pcs = giving_up_def given_up_def

lemma race_inv_start: "race_start s \<Longrightarrow> race_inv N s"
  by (auto simp: race_start_def race_inv_def owner_ok_def reading_ok_def works_ok_def has_added_def joiner_ok_def
      race_pcs rcu_inv_start) (auto simp: rcu_start_def gp_active_def)

lemma owner_sched: "sched_step i s t \<Longrightarrow> owner_ok s \<Longrightarrow> owner_ok t"
  by (cases rule: sched_step.cases, assumption) (auto simp: owner_ok_def split: if_splits, (metis agent.inject(1) option.inject)+)

lemma owner_worker: "worker_step s t \<Longrightarrow> owner_ok s \<Longrightarrow> owner_ok t"
  by (cases rule: worker_step.cases, assumption) (auto simp: owner_ok_def)

lemma owner_joiner: "join_step N s t \<Longrightarrow> owner_ok s \<Longrightarrow> owner_ok t"
  by (cases rule: join_step.cases, assumption) (auto simp: owner_ok_def race_pcs)

text \<open>A step of a reader between the two calls.\<close>

lemma reading_reader:
  assumes "reader_step i (grace s) g" "reader_ok (grace s) i" "reading_ok s i"
    and "spc s i = SIdle \<and> \<not> gp_active (node_gp (grace s) i) \<or>
      spc s i \<in> {SLeave, SMiss} \<and> gp_active (node_gp (grace s) i) \<and> (\<forall>v. rpc g i \<noteq> LockLoaded v)"
  shows "reading_ok (s\<lparr>grace := g\<rparr>) i" "spc s i \<noteq> SIdle \<Longrightarrow> sect g i = sect (grace s) i \<and> fresh g i = fresh (grace s) i"
proof -
  from assms(1) show "reading_ok (s\<lparr>grace := g\<rparr>) i"
    by cases (insert assms(2-4), simp_all add: reading_ok_def reader_ok_def, auto)
  assume "spc s i \<noteq> SIdle"
  with assms(3) have "rpc (grace s) i \<noteq> LockGot v" for v by (simp add: reading_ok_def)
  with assms(1) show "sect g i = sect (grace s) i \<and> fresh g i = fresh (grace s) i"
    by cases auto
qed

lemma reading_other:
  "node_gp (grace t) j = node_gp (grace s) j \<Longrightarrow> rpc (grace t) j = rpc (grace s) j \<Longrightarrow> spc t j = spc s j \<Longrightarrow>
   reading_ok t j = reading_ok s j"
  by (simp add: reading_ok_def)

lemma reading_sched:
  assumes step: "sched_step i s t" and i: "i < N" and inv: "rcu_inv N (grace s)" "\<forall>j<N. reading_ok s j"
  shows "\<forall>j<N. reading_ok t j"
proof (intro allI impI)
  fix j assume j: "j < N"
  show "reading_ok t j"
  proof (cases "j = i")
    case True
    have "reader_ok (grace s) i" "reading_ok s i" using inv i by (simp_all add: rcu_inv_def)
    note own = reading_reader(1) [OF _ this]
    from step show ?thesis
      unfolding True by cases (use own \<open>reading_ok s i\<close> in \<open>auto simp: reading_ok_def\<close>)
  next
    case False
    have "node_gp (grace t) j = node_gp (grace s) j \<and> rpc (grace t) j = rpc (grace s) j \<and> spc t j = spc s j"
      using step by cases (use False in \<open>auto simp: reader_step_frame\<close>)
    then show ?thesis using reading_other [of t j s] inv(2) j by simp
  qed
qed

text \<open>The works.\<close>

lemma works_same:
  "queue t = queue s \<Longrightarrow> taken t = taken s \<Longrightarrow> wcount t = wcount s \<Longrightarrow> has_added t = has_added s \<Longrightarrow>
   works_ok N t = works_ok N s"
  by (simp add: works_ok_def)

lemma sched_works:
  assumes "sched_step i s t"
  shows "if spc s i = SHold
    then t = s\<lparr>spc := (spc s)(i := SAdded), queue := queue s @ [i], wcount := wcount s + 1\<rparr>
    else queue t = queue s \<and> taken t = taken s \<and> wcount t = wcount s \<and> has_added t = has_added s"
  using assms by cases (auto simp: has_added_def fun_eq_iff split: if_splits)

lemma works_sched:
  assumes step: "sched_step i s t" and i: "i < N" and ok: "works_ok N s"
  shows "works_ok N t"
proof (cases "spc s i = SHold")
  case True
  then have t: "t = s\<lparr>spc := (spc s)(i := SAdded), queue := queue s @ [i], wcount := wcount s + 1\<rparr>"
    using sched_works [OF step] by simp
  have "\<not> has_added s i" using True by (simp add: has_added_def)
  moreover have "{j. j < N \<and> has_added t j} = insert i {j. j < N \<and> has_added s j}"
    using i unfolding t by (auto simp: has_added_def)
  moreover have "queue t = queue s @ [i]" "taken t = taken s" "wcount t = wcount s + 1" by (simp_all add: t)
  ultimately show ?thesis using ok by (auto simp: works_ok_def)
next
  case False
  then show ?thesis using sched_works [OF step] ok works_same [of t s N] by simp
qed

lemma works_worker: "worker_step s t \<Longrightarrow> works_ok N s \<Longrightarrow> works_ok N t"
  by (elim worker_stepE wait_stepE) (auto simp: works_ok_def has_added_def)

lemma works_joiner: "join_step N s t \<Longrightarrow> works_ok N s \<Longrightarrow> works_ok N t"
  by (erule join_stepE) (auto simp: works_ok_def has_added_def)

lemma works_added: "works_ok N s \<Longrightarrow> j \<in> set (queue s @ taken s) \<longleftrightarrow> j < N \<and> has_added s j"
  by (simp only: works_ok_def mem_Collect_eq)

lemma works_idle:
  assumes "works_ok N s" "N < 2 ^ 32"
  shows "wcount s = 0 \<longleftrightarrow> queue s = []"
proof -
  have "set (queue s) \<subseteq> {..<N}" using works_added [OF assms(1)] by auto
  moreover have "distinct (queue s)" using assms(1) by (simp add: works_ok_def)
  ultimately have "length (queue s) \<le> N" by (metis card_lessThan card_mono distinct_card finite_lessThan)
  then show ?thesis using assms of_nat_u32_0 [of "length (queue s)"] by (simp add: works_ok_def)
qed

text \<open>The joiner's view under a step of a scheduler.\<close>

lemma sched_found:
  assumes "sched_step i s t"
  shows "spc t j = SFound \<Longrightarrow> spc s j = SFound \<or> listed s"
    "spc t j \<in> {SFound, SHold, SAdded} \<Longrightarrow> spc s j \<in> {SFound, SHold, SAdded} \<or> listed s"
    "listed t = listed s" "jpc t = jpc s"
    "j \<in> set (queue t) \<Longrightarrow> j \<in> set (queue s) \<or> spc s j = SHold"
    "queue t = queue s \<or> spc s i = SHold"
  using assms by (cases, auto split: if_splits)+

lemma sched_grace:
  assumes "sched_step i s t" "reading_ok s i" "reader_ok (grace s) i"
  shows "wpc (grace t) = wpc (grace s)" "snap (grace t) = snap (grace s)"
    "spc s j \<noteq> SIdle \<Longrightarrow> sect (grace t) j = sect (grace s) j \<and> fresh (grace t) j = fresh (grace s) j"
proof -
  show "wpc (grace t) = wpc (grace s)" "snap (grace t) = snap (grace s)"
    using assms(1) by (cases, auto simp: reader_step_frame)+
  assume j: "spc s j \<noteq> SIdle"
  show "sect (grace t) j = sect (grace s) j \<and> fresh (grace t) j = fresh (grace s) j"
    using assms(1)
  proof cases
    case (read_lock g)
    then have "j \<noteq> i" using j by auto
    then show ?thesis using read_lock by (simp add: reader_step_frame)
  next
    case (read_unlock g)
    then show ?thesis
      using reading_reader(2) [OF read_unlock(4) assms(3,2)] by (cases "j = i") (auto simp: reader_step_frame)
  qed auto
qed

lemma joiner_okD:
  assumes "joiner_ok N s"
  shows "jpc s \<in> given_up \<union> giving_up \<Longrightarrow> \<not> listed s"
    "jpc s = JSync \<longleftrightarrow> wpc (grace s) \<noteq> Idle"
    "jpc s \<in> giving_up \<Longrightarrow> queue s = []"
    "jpc s = JSync \<Longrightarrow> i < N \<Longrightarrow> spc s i = SFound \<Longrightarrow> snap (grace s) i = Some (sect (grace s) i)"
    "jpc s \<in> given_up \<Longrightarrow> i < N \<Longrightarrow> spc s i \<in> {SFound, SHold, SAdded} \<or> i \<in> set (queue s) \<Longrightarrow> \<not> fresh (grace s) i"
proof -
  show "\<not> listed s" if "jpc s \<in> given_up \<union> giving_up"
    using assms that by (cases "jpc s") (simp_all add: joiner_ok_def race_pcs)
qed (use assms in \<open>unfold joiner_ok_def, blast+\<close>)

lemma joiner_sched:
  assumes step: "sched_step i s t" and i: "i < N" and inv: "race_inv N s"
  shows "joiner_ok N t"
proof -
  have ok: "joiner_ok N s" "owner_ok s" "works_ok N s" "reading_ok s i" "reader_ok (grace s) i"
    using inv i by (simp_all add: race_inv_def rcu_inv_def)
  note fd = sched_found [OF step] and gr = sched_grace [OF step ok(4,5)] and J = joiner_okD [OF ok(1)]
  let ?has = "\<lambda>s j. spc s j \<in> {SFound, SHold, SAdded} \<or> j \<in> set (queue s)"
  have notidle: "spc s j \<noteq> SIdle" if "?has s j" for j
    using that works_added [OF ok(3), of j] by (auto simp: has_added_def)
  have free: "spc s i \<noteq> SHold" if "jpc s \<in> giving_up"
    using ok(2) that unfolding owner_ok_def by (metis UnCI agent.distinct(1) insertI1 option.inject)
  have "\<not> fresh (grace t) j" if "jpc s \<in> given_up" "j < N" "?has t j" for j
  proof -
    have "\<not> listed s" using J(1) that(1) by blast
    then have "?has s j" using fd(2,5) [of j] that(3) by blast
    then show ?thesis using J(5) [OF that(1,2)] gr(3) [OF notidle] by simp
  qed
  moreover have "snap (grace t) j = Some (sect (grace t) j)" if "jpc s = JSync" "j < N" "spc t j = SFound" for j
  proof -
    have "\<not> listed s" using J(1) that(1) by (simp add: giving_up_def)
    then have "spc s j = SFound" using fd(1) that(3) by blast
    then show ?thesis using J(4) [OF that(1,2)] gr(2,3) by simp
  qed
  moreover have "queue t = []" if "jpc s \<in> giving_up" using J(3) that free fd(6) by metis
  moreover have "listed s \<longleftrightarrow> jpc s \<in> {JIdle, JWant, JHold, JBusy}" using ok(1) by (simp add: joiner_ok_def)
  ultimately show ?thesis unfolding joiner_ok_def fd(3,4) gr(1) using J(2) by blast
qed

lemma joiner_worker:
  assumes "worker_step s t" "joiner_ok N s"
  shows "joiner_ok N t"
proof -
  have "listed t = listed s \<and> jpc t = jpc s \<and> grace t = grace s \<and> spc t = spc s \<and> set (queue t) \<subseteq> set (queue s)"
    using assms(1) by cases auto
  then show ?thesis using assms(2) unfolding joiner_ok_def by auto
qed

lemma joiner_joiner:
  assumes step: "join_step N s t" and inv: "race_inv N s" and N: "N < 2 ^ 32"
  shows "joiner_ok N t"
proof -
  have ok: "joiner_ok N s" "owner_ok s" "works_ok N s" "\<forall>i<N. reading_ok s i" "rcu_inv N (grace s)"
    using inv by (simp_all add: race_inv_def)
  have free: "spc s i \<notin> {SHold, SAdded}" if "jpc s \<in> giving_up" for i
    using ok(2) that by (auto simp: owner_ok_def)
  show ?thesis
    using step
  proof cases
    case del
    then show ?thesis using ok(1) works_idle [OF ok(3) N] by (auto simp: joiner_ok_def race_pcs)
  next
    case (sync_begin g)
    have "snap g i = Some (sect g i)" if "i < N" "spc s i = SFound" for i
      using writer_frame(8) [OF sync_begin(4,3), of i] ok(4) that by (auto simp: reading_ok_def)
    then show ?thesis
      using ok(1) sync_begin writer_frame(6) [OF sync_begin(4)] by (auto simp: joiner_ok_def race_pcs)
  next
    case (sync g)
    have "wpc (grace s) \<noteq> Idle" using ok(1) sync(2) by (simp add: joiner_ok_def)
    then show ?thesis
      using ok(1) sync writer_frame [OF sync(4)] by (auto simp: joiner_ok_def race_pcs)
  next
    case (sync_end g)
    have "\<not> fresh (grace s) i" if "i < N" "spc s i = SFound" for i
      using ok sync_end(2,3) that
      by (auto simp: joiner_ok_def rcu_inv_def writer_ok_def waited_for_def held_over_def reading_ok_def)
    then show ?thesis
      using ok(1) sync_end writer_frame [OF sync_end(4)] free by (auto simp: joiner_ok_def race_pcs)
  qed (use ok(1) in \<open>auto simp: joiner_ok_def race_pcs\<close>)
qed

lemma race_inv_step:
  assumes "race_step N s t" "race_inv N s" "N < 2 ^ 32"
  shows "race_inv N t"
  using assms(1)
proof cases
  case (by_scheduler i)
  have g: "rcu_inv N (grace t)"
    using by_scheduler(2)
    by cases (use assms(2) reader_step_inv [OF _ by_scheduler(1)] in \<open>auto simp: race_inv_def\<close>)
  have parts: "rcu_inv N (grace s)" "owner_ok s" "\<forall>i<N. reading_ok s i" "works_ok N s"
    using assms(2) by (simp_all add: race_inv_def)
  show ?thesis
    unfolding race_inv_def
    using g owner_sched [OF by_scheduler(2) parts(2)] reading_sched [OF by_scheduler(2,1) parts(1,3)]
      works_sched [OF by_scheduler(2,1) parts(4)] joiner_sched [OF by_scheduler(2,1) assms(2)] by blast
next
  case by_worker
  have "grace t = grace s \<and> spc t = spc s" using by_worker by cases auto
  then have "rcu_inv N (grace t)" "\<forall>i<N. reading_ok t i" using assms(2) by (simp_all add: race_inv_def reading_ok_def)
  then show ?thesis
    using assms(2) owner_worker [OF by_worker] works_worker [OF by_worker] joiner_worker [OF by_worker]
    by (simp add: race_inv_def)
next
  case by_joiner
  have "spc t = spc s \<and> (grace t = grace s \<or> writer_step N (grace s) (grace t))" using by_joiner by cases auto
  then have "rcu_inv N (grace t)" "\<forall>i<N. reading_ok t i"
    using assms(2) writer_step_inv writer_frame(3,4) by (auto simp: race_inv_def reading_ok_def)
  then show ?thesis
    using assms(2) owner_joiner [OF by_joiner] works_joiner [OF by_joiner]
      joiner_joiner [OF by_joiner assms(2,3)]
    by (simp add: race_inv_def)
qed

text \<open>The number of threads fits the counter of the queue.\<close>

interpretation race: inductive_invariant "\<lambda>s. race_start s \<and> N < 2 ^ 32" "race_step N" "\<lambda>s. race_inv N s \<and> N < 2 ^ 32" for N
  by unfold_locales (auto intro: race_inv_start race_inv_step)

lemma race_reachable:
  assumes "reachable race_start (race_step N) s" "N < 2 ^ 32"
  shows "race_inv N s"
proof -
  have "reachable (\<lambda>s. race_start s \<and> N < 2 ^ 32) (race_step N) s"
    using assms(1)
  proof induction
    case (reach_init s)
    with assms(2) show ?case by (intro reachable.reach_init) simp
  qed (rule reachable.reach_step)
  then show ?thesis using race.inv_reachable by blast
qed

section \<open>No work is lost\<close>

text \<open>
  C8. No work is lost at the end of a queue: in every interleaving of fewer than 2^32
  schedulers on the fast path, the worker and \<open>mthpc_workqueues_join\<close>, once the
  joiner has come through its grace period for the queue, the list of the pool does not lead to
  the queue any more, and a scheduler whose critical section began with the current phase
  neither waits for the lock of the queue nor holds it; if it has added a work, the worker has
  taken that work, exactly once, and otherwise the worker has none from it. Such a scheduler
  may still be leaving its critical section with the queue in its hands and be about to make
  its wake-up call on it, which is not covered.
\<close>

theorem given_up_queue:
  assumes "reachable race_start (race_step N) s" "N < 2 ^ 32" "jpc s \<in> given_up"
    and "i < N" "fresh (grace s) i"
  shows "\<not> listed s \<and> spc s i \<notin> {SFound, SHold, SAdded} \<and> count (mset (taken s)) i = (if has_added s i then 1 else 0)"
proof -
  have ok: "joiner_ok N s" "works_ok N s" using race_reachable [OF assms(1,2)] by (simp_all add: race_inv_def)
  have "spc s i \<notin> {SFound, SHold, SAdded}" "i \<notin> set (queue s)"
    using joiner_okD(5) [OF ok(1) assms(3,4)] assms(5) by blast+
  moreover have "distinct (taken s)" using ok(2) by (simp add: works_ok_def)
  moreover have "\<not> listed s" using joiner_okD(1) [OF ok(1)] assms(3) by blast
  ultimately show ?thesis
    using works_added [OF ok(2), of i] assms(4) by (simp add: distinct_count_atmost_1)
qed

section \<open>Two runs that go wrong\<close>

text \<open>Steps of one agent.\<close>

lemma reachable_sched: "reachable race_start (race_step N) s \<Longrightarrow> sched_step i s t \<Longrightarrow> i < N \<Longrightarrow> reachable race_start (race_step N) t"
  by (auto intro: reach_step by_scheduler)

lemma reachable_joiner: "reachable race_start (race_step N) s \<Longrightarrow> join_step N s t \<Longrightarrow> reachable race_start (race_step N) t"
  by (auto intro: reach_step by_joiner)

lemma reachable_worker: "reachable race_start (race_step N) s \<Longrightarrow> worker_step s t \<Longrightarrow> reachable race_start (race_step N) t"
  by (auto intro: reach_step by_worker)

definition race_boot :: race where
  "race_boot = \<lparr>grace = rcu_boot, listed = True, owner = None, queue = [], wcount = 0, active = True, futex = True,
     spc = (\<lambda>_. SIdle), jpc = JIdle, kpc = KTest, taken = []\<rparr>"

lemma race_boot_reachable: "reachable race_start (race_step N) race_boot"
  by (rule reach_init) (simp add: race_start_def race_boot_def rcu_start_def rcu_boot_def)

text \<open>The scheduler \<open>0\<close> has found the queue, in a critical section with the current phase.\<close>

definition race_found :: race where
  "race_found = race_boot\<lparr>grace := rcu_boot\<lparr>node_gp := (\<lambda>_. 0)(0 := MTHPC_GP_COUNT), sect := (\<lambda>_. 0)(0 := 1),
     fresh := (\<lambda>_. False)(0 := True)\<rparr>, spc := (\<lambda>_. SIdle)(0 := SFound)\<rparr>"

lemma reachable_grace:
  assumes "reachable race_start (race_step N) s" "reader_step i (grace s) g" "i < N"
    and "spc s i = SIdle \<and> \<not> gp_active (node_gp (grace s) i) \<or>
      spc s i \<in> {SLeave, SMiss} \<and> gp_active (node_gp (grace s) i) \<and> (\<forall>v. rpc g i \<noteq> LockLoaded v)"
  shows "reachable race_start (race_step N) (s\<lparr>grace := g\<rparr>)"
  using assms by (auto intro: reachable_sched sched_step.read_lock sched_step.read_unlock)

lemma race_found_reachable:
  assumes "0 < N"
  shows "reachable race_start (race_step N) race_found"
proof -
  let ?R = "reachable race_start (race_step N)"
  have w: "\<not> gp_active 0" "gp_active MTHPC_GP_COUNT" by (simp_all add: word_facts gp_nest_def)
  define g1 where "g1 = rcu_boot\<lparr>rpc := (rpc rcu_boot)(0 := LockLoaded 0)\<rparr>"
  define g2 where "g2 = g1\<lparr>rpc := (rpc g1)(0 := LockGot (gp_seq g1))\<rparr>"
  define g3 where "g3 = g2\<lparr>rpc := (rpc g2)(0 := Run), node_gp := (node_gp g2)(0 := gp_seq g1),
    sect := (sect g2)(0 := Suc (sect g2 0)), fresh := (fresh g2)(0 := (gp_phase (gp_seq g1) = gp_phase (gp_seq g2)))\<rparr>"
  have r1: "reader_step 0 rcu_boot g1" using lock_load [of rcu_boot 0] by (simp add: g1_def rcu_boot_def gp_nest_def)
  have r2: "reader_step 0 g1 g2" unfolding g2_def by (rule lock_data [where v = 0]) (simp_all add: g1_def w)
  have r3: "reader_step 0 g2 g3" unfolding g3_def by (rule lock_store) (simp add: g2_def)
  have "?R (race_boot\<lparr>grace := g1\<rparr>)"
    by (rule reachable_grace [OF race_boot_reachable _ assms]) (use r1 w in \<open>simp_all add: race_boot_def rcu_boot_def\<close>)
  then have "?R ((race_boot\<lparr>grace := g1\<rparr>)\<lparr>grace := g2\<rparr>)"
    by (rule reachable_grace [OF _ _ assms]) (use r2 w in \<open>simp_all add: race_boot_def g1_def rcu_boot_def\<close>)
  then have "?R (((race_boot\<lparr>grace := g1\<rparr>)\<lparr>grace := g2\<rparr>)\<lparr>grace := g3\<rparr>)"
    by (rule reachable_grace [OF _ _ assms]) (use r3 w in \<open>simp_all add: race_boot_def g2_def g1_def rcu_boot_def\<close>)
  then have "?R (race_boot\<lparr>grace := g3\<rparr>)" by simp
  moreover have act: "gp_active (node_gp g3 0)" using w by (simp add: g3_def g1_def rcu_boot_def)
  ultimately have "?R (race_boot\<lparr>grace := g3, spc := (\<lambda>_. SIdle)(0 := SFind)\<rparr>)"
    using reachable_sched [OF _ read_locked [of "race_boot\<lparr>grace := g3\<rparr>" 0] assms] by (simp add: race_boot_def)
  then have "?R (race_boot\<lparr>grace := g3, spc := (\<lambda>_. SIdle)(0 := SFound)\<rparr>)"
    using reachable_sched [OF _ find [of "race_boot\<lparr>grace := g3, spc := (\<lambda>_. SIdle)(0 := SFind)\<rparr>" 0] assms]
    by (simp add: race_boot_def)
  moreover have "g3 = rcu_boot\<lparr>node_gp := (\<lambda>_. 0)(0 := MTHPC_GP_COUNT), sect := (\<lambda>_. 0)(0 := 1), fresh := (\<lambda>_. False)(0 := True)\<rparr>"
    by (simp add: g3_def g2_def g1_def rcu_boot_def fun_eq_iff)
  ultimately show ?thesis by (simp add: race_found_def)
qed

text \<open>
  The joiner waits, with the lock of the queue, for a critical section in which the scheduler
  waits for that lock.
\<close>

definition wait_stuck :: "nat \<Rightarrow> rcu_sys \<Rightarrow> bool" where
  "wait_stuck i g \<longleftrightarrow> gp_active (node_gp g i) \<and> gp_phase (node_gp g i) = gp_phase (gp_seq g) \<and>
     (wpc g = Locked \<or> (\<exists>k\<le>i. wpc g = Wait1 (gp_seq g) k))"

definition race_stuck :: "nat \<Rightarrow> race \<Rightarrow> bool" where
  "race_stuck i s \<longleftrightarrow> owner_ok s \<and> jpc s = JSync \<and> spc s i = SFound \<and> owner s = Some Joiner \<and> wait_stuck i (grace s)"

lemma wait_stuck_reader: "reader_step j g h \<Longrightarrow> j \<noteq> i \<Longrightarrow> wait_stuck i h = wait_stuck i g"
  by (simp add: wait_stuck_def reader_step_frame)

lemma stuck_sched:
  assumes step: "sched_step j s t" and stuck: "race_stuck i s"
  shows "race_stuck i t"
proof -
  have "owner_ok t" using owner_sched [OF step] stuck by (simp add: race_stuck_def)
  moreover have "spc s j \<notin> {SHold, SAdded}" using stuck by (auto simp: race_stuck_def owner_ok_def)
  moreover have "wait_stuck i g" if "reader_step j (grace s) g" "spc s j \<noteq> SFound" for g
    using wait_stuck_reader [OF that(1), of i] that(2) stuck by (auto simp: race_stuck_def)
  ultimately show ?thesis
    using step stuck by (elim sched_stepE) (auto simp: race_stuck_def)
qed

lemma stuck_worker:
  assumes step: "worker_step s t" and stuck: "race_stuck i s"
  shows "race_stuck i t"
proof -
  have "owner_ok t" using owner_worker [OF step] stuck by (simp add: race_stuck_def)
  moreover have "kpc s \<noteq> KHold" using stuck by (auto simp: race_stuck_def owner_ok_def)
  ultimately show ?thesis using step stuck by (elim worker_stepE) (auto simp: race_stuck_def)
qed

lemma stuck_writer:
  assumes "writer_step N g h" "wait_stuck i g" "i < N"
  shows "wait_stuck i h" "wpc g \<noteq> Release"
proof -
  show "wait_stuck i h"
    using assms(1)
  proof cases
    case (sync_wait1 c k)
    then have "k \<noteq> i" using assms by (auto simp: passes_def gp_other_phase_iff wait_stuck_def)
    then show ?thesis using sync_wait1 assms(2) by (auto simp: wait_stuck_def)
  qed (use assms in \<open>auto simp: wait_stuck_def\<close>)
  show "wpc g \<noteq> Release" using assms(2) by (auto simp: wait_stuck_def)
qed

lemma stuck_step:
  assumes "race_step N s t" "race_stuck i s" "i < N"
  shows "race_stuck i t"
  using assms(1)
proof cases
  case (by_scheduler j)
  then show ?thesis using stuck_sched assms(2) by blast
next
  case by_worker
  then show ?thesis using stuck_worker assms(2) by blast
next
  case by_joiner
  have "owner_ok t" using owner_joiner [OF by_joiner] assms(2) by (simp add: race_stuck_def)
  moreover have "race_stuck i s" by (rule assms(2))
  ultimately show ?thesis
    using by_joiner stuck_writer [OF _ _ assms(3)] by (elim join_stepE) (auto simp: race_stuck_def)
qed

lemma stuck_steps: "(race_step N)\<^sup>*\<^sup>* s t \<Longrightarrow> race_stuck i s \<Longrightarrow> i < N \<Longrightarrow> race_stuck i t"
  by (induction rule: rtranclp_induct) (auto intro: stuck_step)

text \<open>
  C9. A deadlock at the end of a pool: there is a run in which
  \<open>mthpc_workqueues_join\<close>, holding \<open>wq->lock\<close>, is in
  \<open>mthpc_synchronize_rcu\<close>, and a scheduler that has found the queue waits for that
  lock inside its critical section; whatever the threads do from then on, both wait for ever.
\<close>

theorem join_deadlock:
  "\<exists>s. reachable race_start (race_step (Suc N)) s \<and>
    {t. (race_step (Suc N))\<^sup>*\<^sup>* s t} \<subseteq> {t. jpc t = JSync \<and> owner t = Some Joiner \<and> spc t 0 = SFound}"
proof -
  let ?R = "reachable race_start (race_step (Suc N))"
  let ?g = "grace race_found"
  let ?h = "?g\<lparr>wpc := Locked, snap := (\<lambda>i. if gp_active (node_gp ?g i) then Some (sect ?g i) else None)\<rparr>"
  let ?s = "race_found\<lparr>jpc := JSync, owner := Some Joiner, listed := False, grace := ?h\<rparr>"
  have "?R race_found" by (rule race_found_reachable) simp
  then have "?R (race_found\<lparr>jpc := JWant\<rparr>)"
    by (rule reachable_joiner [OF _ pool_lock]) (simp add: race_found_def race_boot_def)
  then have "?R (race_found\<lparr>jpc := JHold, owner := Some Joiner\<rparr>)"
    using reachable_joiner [OF _ queue_lock [of "race_found\<lparr>jpc := JWant\<rparr>"]] by (simp add: race_found_def race_boot_def)
  then have "?R (race_found\<lparr>jpc := JDel, owner := Some Joiner, listed := False\<rparr>)"
    using reachable_joiner [OF _ del [of "race_found\<lparr>jpc := JHold, owner := Some Joiner\<rparr>"]]
    by (simp add: race_found_def race_boot_def)
  moreover have "writer_step (Suc N) ?g ?h" by (rule sync_lock) (simp add: race_found_def race_boot_def rcu_boot_def)
  ultimately have "?R ?s"
    using reachable_joiner [OF _ sync_begin [of "race_found\<lparr>jpc := JDel, owner := Some Joiner, listed := False\<rparr>" "Suc N" ?h]]
    by (simp add: race_found_def race_boot_def rcu_boot_def)
  moreover have "race_stuck 0 ?s"
    by (simp add: race_stuck_def wait_stuck_def owner_ok_def giving_up_def race_found_def race_boot_def rcu_boot_def word_facts gp_nest_def)
  then have "race_stuck 0 t" if "(race_step (Suc N))\<^sup>*\<^sup>* ?s t" for t
    using stuck_steps [OF that] by simp
  ultimately show ?thesis by (auto simp: race_stuck_def)
qed

text \<open>States of a run of one scheduler.\<close>

definition race_at ::
  "rcu_sys \<Rightarrow> sched_pc \<Rightarrow> join_pc \<Rightarrow> work_pc \<Rightarrow> agent option \<Rightarrow> nat list \<Rightarrow> nat list \<Rightarrow> race" where
  "race_at g i j k ow q tk = \<lparr>grace = g, listed = (j \<in> {JIdle, JWant, JHold}), owner = ow, queue = q, wcount = of_nat (length q),
     active = (j \<notin> {JUnlock, JJoin, JFreed}), futex = True, spc = (\<lambda>_. SIdle)(0 := i), jpc = j, kpc = k, taken = tk\<rparr>"

abbreviation race1 :: "race \<Rightarrow> bool" where
  "race1 \<equiv> reachable race_start (race_step 1)"

definition grace_open :: rcu_sys where
  "grace_open = grace race_found"

definition grace_shut :: rcu_sys where
  "grace_shut = grace_open\<lparr>node_gp := (\<lambda>_. 0)\<rparr>"

lemmas grace_unfold = grace_shut_def grace_open_def race_found_def race_boot_def rcu_boot_def

text \<open>The scheduler up to the call of \<open>mthpc_wq_futex_wake\<close>, and the worker, which takes the work.\<close>

lemma race_scheduled: "race1 (race_at grace_shut SWake JIdle (KRun 0) None [] [0])"
proof -
  have w: "gp_active MTHPC_GP_COUNT" "\<not> gp_active 0" "read_unlock_gp MTHPC_GP_COUNT = 0"
    by (simp_all add: word_facts gp_nest_def read_unlock_gp_def)
  let ?at = "\<lambda>i ow q. race_at grace_open i JIdle KTest ow q []"
  let ?u = "grace_open\<lparr>rpc := (rpc grace_open)(0 := UnlockLoaded MTHPC_GP_COUNT)\<rparr>"
  have "race1 (?at SFound None [])"
    using race_found_reachable [of 1]
    by (simp add: race_at_def grace_open_def race_found_def race_boot_def fun_eq_iff)
  then have "race1 (?at SHold (Some (Scheduler 0)) [])"
    using reachable_sched [OF _ add_lock [of "?at SFound None []" 0]] by (simp add: race_at_def)
  then have "race1 (?at SAdded (Some (Scheduler 0)) [0])"
    using reachable_sched [OF _ add_locked [of "?at SHold (Some (Scheduler 0)) []" 0]] by (simp add: race_at_def)
  then have r: "race1 (?at SLeave None [0])"
    using reachable_sched [OF _ add_unlock [of "?at SAdded (Some (Scheduler 0)) [0]" 0]] by (simp add: race_at_def)
  have g: "node_gp grace_open 0 = MTHPC_GP_COUNT" "rpc grace_open 0 = Run" by (simp_all add: grace_unfold)
  then have u: "reader_step 0 grace_open ?u" using unlock_load [of grace_open 0] w by simp
  have "race1 ((?at SLeave None [0])\<lparr>grace := ?u\<rparr>)"
    by (rule reachable_grace [OF r, where i = 0]) (use u g w in \<open>simp_all add: race_at_def\<close>)
  then have r: "race1 (race_at ?u SLeave JIdle KTest None [0] [])" by (simp add: race_at_def)
  have "grace_shut = ?u\<lparr>rpc := (rpc ?u)(0 := Run), node_gp := (node_gp ?u)(0 := read_unlock_gp (node_gp ?u 0))\<rparr>"
    using w(3) by (simp add: grace_unfold fun_eq_iff)
  then have u: "reader_step 0 ?u grace_shut" using unlock_add [of ?u 0] by simp
  have "race1 ((race_at ?u SLeave JIdle KTest None [0] [])\<lparr>grace := grace_shut\<rparr>)"
    by (rule reachable_grace [OF r, where i = 0]) (use u g w in \<open>simp_all add: race_at_def, simp add: grace_unfold\<close>)
  then have "race1 (race_at grace_shut SLeave JIdle KTest None [0] [])" by (simp add: race_at_def)
  then have "race1 (race_at grace_shut SWake JIdle KTest None [0] [])"
    using reachable_sched [OF _ read_unlocked [of "race_at grace_shut SLeave JIdle KTest None [0] []" 0]] w
    by (simp add: race_at_def) (simp add: grace_unfold)
  then have "race1 (race_at grace_shut SWake JIdle KLock None [0] [])"
    using reachable_worker [OF _ test [of "race_at grace_shut SWake JIdle KTest None [0] []"]] by (simp add: race_at_def)
  then have "race1 (race_at grace_shut SWake JIdle KHold (Some Worker) [0] [])"
    using reachable_worker [OF _ lock [of "race_at grace_shut SWake JIdle KLock None [0] []"]] by (simp add: race_at_def)
  then show ?thesis
    using reachable_worker [OF _ take [of "race_at grace_shut SWake JIdle KHold (Some Worker) [0] []" 0 "[]"]]
    by (simp add: race_at_def)
qed

text \<open>The joiner in a grace period without readers.\<close>

lemma race_sync:
  assumes "race1 (race_at g i JDel k ow q tk)" "wpc g = Idle" "\<not> gp_active (node_gp g 0)"
  shows "\<exists>h. race1 (race_at h i JClear k ow q tk) \<and> fresh h = fresh g"
proof -
  let ?at = "\<lambda>h. race_at h i JSync k ow q tk" and ?h = "(synced g)\<lparr>wpc := Idle\<rparr>"
  have start: "race1 (?at (locked g))"
    using reachable_joiner [OF assms(1) sync_begin [of "race_at g i JDel k ow q tk" 1 "locked g"]]
      sync_lock [OF assms(2), of 1] assms(2) by (simp add: race_at_def locked_def)
  have go: "race1 (?at h)" if "(writer_moves 1)\<^sup>*\<^sup>* (locked g) h" for h
    using that
  proof (induction rule: rtranclp_induct)
    case base
    then show ?case using start .
  next
    case (step h h')
    then show ?case using reachable_joiner [OF _ sync [of "?at h" 1 h']] by (simp add: race_at_def)
  qed
  have "race1 (?at (synced g))"
    using assms(3) by (intro go locked_run) (simp add: passes_def)
  from reachable_joiner [OF this sync_end [of _ 1 ?h]] sync_unlock [of "synced g" 1]
  have "race1 (race_at ?h i JClear k ow q tk)" by (simp add: race_at_def synced_def)
  then show ?thesis by (intro exI conjI) (assumption, simp add: synced_def)
qed

text \<open>The joiner has given the queue up, the scheduler has not woken the worker yet.\<close>

lemma race_given_up: "\<exists>h. race1 (race_at h SWake JClear (KRun 0) (Some Joiner) [] [0]) \<and> fresh h 0"
proof -
  let ?at = "\<lambda>j ow. race_at grace_shut SWake j (KRun 0) ow [] [0]"
  have "race1 (?at JWant None)"
    using reachable_joiner [OF race_scheduled pool_lock] by (simp add: race_at_def)
  then have "race1 (?at JHold (Some Joiner))"
    using reachable_joiner [OF _ queue_lock [of "?at JWant None"]] by (simp add: race_at_def)
  then have r: "race1 (?at JDel (Some Joiner))"
    using reachable_joiner [OF _ del [of "?at JHold (Some Joiner)"]] by (simp add: race_at_def)
  have g: "wpc grace_shut = Idle" "\<not> gp_active (node_gp grace_shut 0)" "fresh grace_shut 0"
    by (simp_all add: grace_unfold gp_active_def)
  show ?thesis using race_sync [OF r g(1,2)] g(3) by auto
qed

text \<open>
  C10. A write to freed memory: there is a run in which the worker has run the work,
  \<open>mthpc_workqueues_join\<close> has joined the worker and freed the queue, and the
  scheduler that added the work has still to call \<open>mthpc_wq_futex_wake\<close> on it,
  outside its critical section.
\<close>

theorem wake_after_free:
  "\<exists>s. reachable race_start (race_step 1) s \<and> jpc s = JFreed \<and> kpc s = KExit \<and> taken s = [0] \<and> spc s 0 = SWake"
proof -
  obtain h where "race1 (race_at h SWake JClear (KRun 0) (Some Joiner) [] [0])" using race_given_up by blast
  then have "race1 (race_at h SWake JUnlock (KRun 0) (Some Joiner) [] [0])"
    using reachable_joiner [OF _ clear [of "race_at h SWake JClear (KRun 0) (Some Joiner) [] [0]"]] by (simp add: race_at_def)
  then have "race1 (race_at h SWake JJoin (KRun 0) None [] [0])"
    using reachable_joiner [OF _ unlock [of "race_at h SWake JUnlock (KRun 0) (Some Joiner) [] [0]"]] by (simp add: race_at_def)
  then have "race1 (race_at h SWake JJoin KTest None [] [0])"
    using reachable_worker [OF _ run [of "race_at h SWake JJoin (KRun 0) None [] [0]" 0]] by (simp add: race_at_def)
  then have "race1 (race_at h SWake JJoin KExit None [] [0])"
    using reachable_worker [OF _ test [of "race_at h SWake JJoin KTest None [] [0]"]] by (simp add: race_at_def)
  then have "race1 (race_at h SWake JFreed KExit None [] [0])"
    using reachable_joiner [OF _ free [of "race_at h SWake JJoin KExit None [] [0]"]] by (simp add: race_at_def)
  then show ?thesis by (intro exI conjI) (assumption, simp_all add: race_at_def)
qed

text \<open>The same run meets the hypotheses of the claim that no work is lost.\<close>

lemma given_up_queue_witness:
  "\<exists>s :: race. jpc s = JClear \<and> spc s 0 = SWake \<and> fresh (grace s) 0 \<and> count (mset (taken s)) 0 = 1"
proof -
  obtain h where h: "race1 (race_at h SWake JClear (KRun 0) (Some Joiner) [] [0])" "fresh h 0" using race_given_up by blast
  let ?s = "race_at h SWake JClear (KRun 0) (Some Joiner) [] [0]"
  have s: "jpc ?s = JClear" "jpc ?s \<in> given_up" "fresh (grace ?s) 0" "spc ?s 0 = SWake"
    using h(2) by (simp_all add: race_at_def given_up_def)
  have "count (mset (taken ?s)) 0 = (if has_added ?s 0 then 1 else 0)"
    using given_up_queue [OF h(1) _ s(2) _ s(3)] by simp
  moreover have "has_added ?s 0" using s(4) by (simp add: has_added_def)
  ultimately show ?thesis using s by (intro exI [of _ ?s]) simp
qed

end
