(* ===== verification/Completion.thy ===== *)
theory Completion
  imports Prelude
begin

text \<open>
  \<open>include/mthpc/completion.h\<close>: a counter of finished works and the number the waiter
  expects. The waiter polls while other threads complete; its poll at time \<open>t\<close> reads the
  completion \<open>obs t\<close>, so the environment is a parameter of the wait.
\<close>

section \<open>The structure and its operations\<close>

record completion =
  cnt :: u64 \<comment> \<open>\<open>atomic_ulong\<close>\<close>
  nr :: u64 \<comment> \<open>\<open>atomic_size_t\<close>\<close>

definition mthpc_completion_init :: "completion \<Rightarrow> u64 \<Rightarrow> completion" where
  "mthpc_completion_init c n = c\<lparr>cnt := 0, nr := n\<rparr>"

definition mthpc_complete :: "completion \<Rightarrow> completion" where
  "mthpc_complete c = c\<lparr>cnt := cnt c + 1\<rparr>"

text \<open>
  One iteration loads the counter and then the expected number; \<^term>\<open>Some r\<close> is the time
  of the load of the counter that let the waiter go.
\<close>

partial_function (option) mthpc_wait_for_completion ::
  "(nat \<Rightarrow> completion) \<Rightarrow> nat \<Rightarrow> nat option" where
  "mthpc_wait_for_completion obs t =
     (if cnt (obs t) \<noteq> nr (obs (Suc t)) then mthpc_wait_for_completion obs (Suc (Suc t))
      else Some t)"

text \<open>The completions a waiter observes when \<open>k t\<close> works have finished by time \<open>t\<close>.\<close>

definition finished_works :: "(nat \<Rightarrow> nat) \<Rightarrow> completion \<Rightarrow> nat \<Rightarrow> completion" where
  "finished_works k c t = (mthpc_complete ^^ k t) c"

section \<open>The wait\<close>

lemma complete_funpow [simp]:
  "cnt ((mthpc_complete ^^ n) c) = cnt c + of_nat n"
  "nr ((mthpc_complete ^^ n) c) = nr c"
  by (induction n) (simp_all add: mthpc_complete_def)

lemma init_simps [simp]:
  "cnt (mthpc_completion_init c n) = 0" "nr (mthpc_completion_init c n) = n"
  by (simp_all add: mthpc_completion_init_def)

lemma finished_works_simps [simp]:
  "cnt (finished_works k c t) = cnt c + of_nat (k t)" "nr (finished_works k c t) = nr c"
  by (simp_all add: finished_works_def)

lemma wait_Some:
  assumes "mthpc_wait_for_completion obs t = Some r"
  shows "cnt (obs r) = nr (obs (Suc r)) \<and> t \<le> r"
proof (rule mthpc_wait_for_completion.raw_induct [where P = "\<lambda>obs t r. cnt (obs r) = nr (obs (Suc r)) \<and> t \<le> r",
      OF _ assms])
  fix f :: "(nat \<Rightarrow> completion) \<Rightarrow> nat \<Rightarrow> nat option" and obs t r
  assume IH: "\<And>obs t r. f obs t = Some r \<Longrightarrow> cnt (obs r) = nr (obs (Suc r)) \<and> t \<le> r"
    and eq: "(if cnt (obs t) \<noteq> nr (obs (Suc t)) then f obs (Suc (Suc t)) else Some t) = Some r"
  then show "cnt (obs r) = nr (obs (Suc r)) \<and> t \<le> r"
    by (auto split: if_splits dest!: IH)
qed

lemma wait_blocks:
  "(\<And>r. t \<le> r \<Longrightarrow> cnt (obs r) \<noteq> nr (obs (Suc r))) \<Longrightarrow> mthpc_wait_for_completion obs t = None"
  using wait_Some [of obs t] by (cases "mthpc_wait_for_completion obs t") auto

lemma wait_returns:
  "cnt (obs (t + 2 * j)) = nr (obs (Suc (t + 2 * j))) \<Longrightarrow>
   \<exists>r. mthpc_wait_for_completion obs t = Some r"
proof (induction j arbitrary: t)
  case 0
  then show ?case by (simp add: mthpc_wait_for_completion.simps [of obs t])
next
  case (Suc j)
  then have "\<exists>r. mthpc_wait_for_completion obs (Suc (Suc t)) = Some r"
    by (intro Suc.IH) simp
  then show ?case by (simp add: mthpc_wait_for_completion.simps [of obs t])
qed

section \<open>The interface of a latch\<close>

text \<open>
  What the users of a completion rely on: a latch armed for \<open>n\<close> works lets its waiter go
  when exactly \<open>n\<close> works have signalled it, not before, and never if they do not.
\<close>

locale latch =
  fixes arm :: "'c \<Rightarrow> u64 \<Rightarrow> 'c"
    and signal :: "'c \<Rightarrow> 'c"
    and await :: "(nat \<Rightarrow> 'c) \<Rightarrow> nat \<Rightarrow> nat option"
  assumes await_returns: "\<lbrakk> n < 2 ^ 64; \<And>t. k t \<le> n; \<And>t. T \<le> t \<Longrightarrow> k t = n \<rbrakk> \<Longrightarrow>
      \<exists>r. await (\<lambda>t. (signal ^^ k t) (arm c (of_nat n))) t0 = Some r \<and> k r = n"
    and await_blocks: "(\<And>t. of_nat (k t) \<noteq> m) \<Longrightarrow>
      await (\<lambda>t. (signal ^^ k t) (arm c m)) t0 = None"
begin

lemma await_at_once: "n < 2 ^ 64 \<Longrightarrow> await (\<lambda>t. (signal ^^ n) (arm c (of_nat n))) t0 \<noteq> None"
  using await_returns [of n "\<lambda>t. n" 0 c t0] by auto

lemma await_short:
  assumes "m < n" "n < 2 ^ 64" "\<And>t. k t \<le> m"
  shows "await (\<lambda>t. (signal ^^ k t) (arm c (of_nat n))) t0 = None"
proof (rule await_blocks)
  fix t
  have "k t < n" using assms(1,3) le_less_trans by blast
  then show "(of_nat (k t) :: u64) \<noteq> of_nat n"
    using assms(2) by (simp add: of_nat_u64_inj)
qed

end

interpretation cl: latch mthpc_completion_init mthpc_complete mthpc_wait_for_completion
proof
  fix n :: nat and k :: "nat \<Rightarrow> nat" and T c t0
  assume n: "n < 2 ^ 64" and le: "\<And>t. k t \<le> n" and ev: "\<And>t. T \<le> t \<Longrightarrow> k t = n"
  let ?obs = "\<lambda>t. (mthpc_complete ^^ k t) (mthpc_completion_init c (of_nat n))"
  have "cnt (?obs (t0 + 2 * T)) = nr (?obs (Suc (t0 + 2 * T)))"
    using ev by simp
  then obtain r where r: "mthpc_wait_for_completion ?obs t0 = Some r"
    using wait_returns [of ?obs t0 T] by blast
  then have "(of_nat (k r) :: u64) = of_nat n"
    using wait_Some [OF r] by simp
  then have "k r = n"
    using n le [of r] by (simp add: of_nat_u64_inj)
  with r show "\<exists>r. mthpc_wait_for_completion ?obs t0 = Some r \<and> k r = n" by blast
next
  fix k :: "nat \<Rightarrow> nat" and m c t0
  assume "\<And>t. (of_nat (k t) :: u64) \<noteq> m"
  then show "mthpc_wait_for_completion (\<lambda>t. (mthpc_complete ^^ k t) (mthpc_completion_init c m)) t0 = None"
    by (intro wait_blocks) simp
qed

end
