(* ===== verification/Taskflow.thy ===== *)
theory Taskflow
  imports Ring_Heap Completion
begin

text \<open>
  The taskflow, \<open>src/taskflow/taskflow.c\<close>: main tasks on a list, each with a list of sub
  tasks, and the waiter that hands them to the workqueue group by group. A task is an
  address, with one list head for the main list and one for a sub task list; a taskflow is
  an address too, whose low bit is free for the sub task flag. Here are the definitions; the
  properties are in \<open>Taskflow_Props\<close> and \<open>Taskflow_Await\<close>.
\<close>

section \<open>Tasks\<close>

datatype tf_addr =
    TfNull
  | TfHead u64 \<comment> \<open>\<open>&tf->list_head\<close>\<close>
  | TaskMain nat \<comment> \<open>\<open>&task->list_node\<close>\<close>
  | TaskSub nat \<comment> \<open>\<open>&task->sub_task_list_head\<close>\<close>
  | AddingList
  | NewAddingList

instantiation tf_addr :: zero
begin

definition zero_tf_addr :: tf_addr where
  "zero_tf_addr = TfNull"

instance ..

end

record task =
  tword :: u64 \<comment> \<open>\<open>__is_sub_task_parent\<close>\<close>
  tfunc :: nat
  targ :: nat
  nr_sub_task :: u64
  main_task :: nat

record taskflow =
  nr_task :: u64
  tf_compl :: completion

text \<open>
  What the waiter does, in order: a work handed to a cpu, or a wait that is over with the
  number of works of the group that have finished by then.
\<close>

datatype tf_event = Scheduled u32 nat | GroupDone nat

record tf_sys =
  tasks :: "nat \<rightharpoonup> task"
  flows :: "u64 \<rightharpoonup> taskflow"
  tlh :: "tf_addr list_heap"
  tf_log :: "tf_event list"
  tf_warned :: nat

definition mthpc_is_sub_task :: "u64 \<Rightarrow> u64" where
  "mthpc_is_sub_task w = w AND 1"

definition mthpc_set_sub_task :: "u64 \<Rightarrow> u64" where
  "mthpc_set_sub_task w = w OR 1"

definition mthpc_unset_sub_task :: "u64 \<Rightarrow> u64" where
  "mthpc_unset_sub_task w = w AND NOT 1"

definition mthpc_get_taskflow :: "u64 \<Rightarrow> u64" where
  "mthpc_get_taskflow w = w AND NOT 1"

definition mthpc_set_taskflow :: "u64 \<Rightarrow> u64 \<Rightarrow> u64" where
  "mthpc_set_taskflow tf w = tf OR mthpc_is_sub_task w"

definition tf_warn :: "bool \<Rightarrow> tf_sys \<Rightarrow> tf_sys" where
  "tf_warn b s = (if b then s\<lparr>tf_warned := Suc (tf_warned s)\<rparr> else s)"

definition with_tlh :: "(tf_addr list_heap \<Rightarrow> tf_addr list_heap option) \<Rightarrow> tf_sys \<Rightarrow> tf_sys option" where
  "with_tlh f s = do { h \<leftarrow> f (tlh s); Some (s\<lparr>tlh := h\<rparr>) }"

definition upd_task :: "nat \<Rightarrow> (task \<Rightarrow> task) \<Rightarrow> tf_sys \<Rightarrow> tf_sys option" where
  "upd_task t f s = do { r \<leftarrow> tasks s t; Some (s\<lparr>tasks := (tasks s)(t \<mapsto> f r)\<rparr>) }"

definition upd_flow :: "u64 \<Rightarrow> (taskflow \<Rightarrow> taskflow) \<Rightarrow> tf_sys \<Rightarrow> tf_sys option" where
  "upd_flow tf f s = do { r \<leftarrow> flows s tf; Some (s\<lparr>flows := (flows s)(tf \<mapsto> f r)\<rparr>) }"

text \<open>Fresh memory, and a list head on the stack of a call.\<close>

definition new_heads :: "tf_addr list \<Rightarrow> tf_sys \<Rightarrow> tf_sys" where
  "new_heads as s = s\<lparr>tlh := fold (\<lambda>a h. h(a \<mapsto> \<lparr>nxt = 0, prv = 0\<rparr>)) as (tlh s)\<rparr>"

definition drop_heads :: "tf_addr list \<Rightarrow> tf_sys \<Rightarrow> tf_sys" where
  "drop_heads as s = s\<lparr>tlh := fold (\<lambda>a h. h(a := None)) as (tlh s)\<rparr>"

text \<open>\<open>container_of\<close> for the two members.\<close>

fun task_of_main :: "tf_addr \<Rightarrow> nat option" where
  "task_of_main (TaskMain t) = Some t"
| "task_of_main _ = None"

fun task_of_sub :: "tf_addr \<Rightarrow> nat option" where
  "task_of_sub (TaskSub t) = Some t"
| "task_of_sub _ = None"

section \<open>Creation\<close>

text \<open>The address \<open>t\<close> is what \<open>malloc\<close> returns, \<open>0\<close> when it fails.\<close>

definition task_alloc :: "nat \<Rightarrow> u64 \<Rightarrow> nat \<Rightarrow> nat \<Rightarrow> tf_sys \<Rightarrow> (nat \<times> tf_sys) option" where
  "task_alloc t tf func arg s = (if t = 0 then Some (0, tf_warn True s) else do {
     let s = (new_heads [TaskMain t, TaskSub t] s)\<lparr>tasks := (tasks s)(t \<mapsto>
       \<lparr>tword = mthpc_set_taskflow tf 0, tfunc = func, targ = arg, nr_sub_task = 1, main_task = 0\<rparr>)\<rparr>;
     s \<leftarrow> with_tlh (mthpc_list_init (TaskMain t)) s;
     s \<leftarrow> with_tlh (mthpc_list_init (TaskSub t)) s;
     s \<leftarrow> upd_flow tf (\<lambda>r. r\<lparr>nr_task := nr_task r + 1\<rparr>) s;
     Some (t, s) })"

definition mthpc_task_create :: "nat \<Rightarrow> u64 \<Rightarrow> nat \<Rightarrow> nat \<Rightarrow> tf_sys \<Rightarrow> (nat \<times> tf_sys) option" where
  "mthpc_task_create t tf func arg s = do {
     (task, s) \<leftarrow> task_alloc t tf func arg s;
     if task = 0 then Some (0, s) else do {
       s \<leftarrow> upd_task task (\<lambda>r. r\<lparr>tword := mthpc_unset_sub_task (tword r)\<rparr>) s;
       s \<leftarrow> with_tlh (mthpc_list_add_tail (TaskMain task) (TfHead tf)) s;
       Some (task, s) } }"

text \<open>The test after the allocation is of the parent, so a failed allocation is not noticed.\<close>

definition mthpc_sub_task_create :: "nat \<Rightarrow> nat \<Rightarrow> nat \<Rightarrow> nat \<Rightarrow> tf_sys \<Rightarrow> (nat \<times> tf_sys) option" where
  "mthpc_sub_task_create t task func arg s = do {
     r \<leftarrow> tasks s task;
     (sub, s) \<leftarrow> task_alloc t (mthpc_get_taskflow (tword r)) func arg s;
     if task = 0 then Some (0, s) else do {
       s \<leftarrow> upd_task sub (\<lambda>r. r\<lparr>tword := mthpc_set_sub_task (tword r)\<rparr>) s;
       s \<leftarrow> with_tlh (mthpc_list_add_tail (TaskSub sub) (TaskSub task)) s;
       s \<leftarrow> upd_task sub (\<lambda>r. r\<lparr>main_task := task\<rparr>) s;
       s \<leftarrow> upd_task task (\<lambda>r. r\<lparr>nr_sub_task := nr_sub_task r + 1\<rparr>) s;
       Some (sub, s) } }"

text \<open>An odd address ends the program in \<open>MTHPC_BUG_ON\<close>; \<open>junk\<close> is what the memory holds.\<close>

definition mthpc_taskflow_create :: "u64 \<Rightarrow> completion \<Rightarrow> tf_sys \<Rightarrow> (u64 \<times> tf_sys) option" where
  "mthpc_taskflow_create tf junk s = (if tf = 0 then Some (0, tf_warn True s) else do {
     _ \<leftarrow> guard_opt (\<not> tf AND 1 = 1);
     s \<leftarrow> with_tlh (mthpc_list_init (TfHead tf)) (new_heads [TfHead tf] s);
     Some (tf, s\<lparr>flows := (flows s)(tf \<mapsto>
       \<lparr>nr_task = 0, tf_compl = mthpc_completion_init junk 0\<rparr>)\<rparr>) })"

section \<open>Moving tasks\<close>

text \<open>One round of the loop of \<open>mthpc_taskflow_rlist_del\<close>.\<close>

definition rlist_del_one :: "nat \<Rightarrow> tf_sys \<Rightarrow> tf_sys option" where
  "rlist_del_one tmp s = do {
     r \<leftarrow> tasks s tmp;
     s \<leftarrow> (if mthpc_is_sub_task (tword r) \<noteq> 0 then do {
         s \<leftarrow> with_tlh (mthpc_list_del (TaskSub tmp)) s;
         s \<leftarrow> upd_task (main_task r) (\<lambda>m. m\<lparr>nr_sub_task := nr_sub_task m - 1\<rparr>) s;
         s \<leftarrow> upd_task tmp (\<lambda>r. r\<lparr>main_task := 0\<rparr>) s;
         with_tlh (mthpc_list_add (TaskSub tmp) AddingList) s }
       else do {
         let s = tf_warn (main_task r \<noteq> 0) s;
         if nr_sub_task r = 1 then do {
           s \<leftarrow> with_tlh (mthpc_list_del (TaskMain tmp)) s;
           with_tlh (mthpc_list_add_tail (TaskSub tmp) AddingList) s }
         else do {
           n \<leftarrow> ld_next (tlh s) (TaskSub tmp);
           next_head \<leftarrow> task_of_sub n;
           s \<leftarrow> upd_task next_head (\<lambda>n. n\<lparr>nr_sub_task := nr_sub_task r - 1\<rparr>) s;
           s \<leftarrow> upd_task tmp (\<lambda>r. r\<lparr>nr_sub_task := 1\<rparr>) s;
           s \<leftarrow> with_tlh (mthpc_list_del (TaskSub tmp)) s;
           s \<leftarrow> with_tlh (mthpc_list_replace_init (TaskMain tmp) (TaskMain next_head)) s;
           with_tlh (mthpc_list_add (TaskSub tmp) AddingList) s } });
     upd_task tmp (\<lambda>r. r\<lparr>tword := mthpc_set_sub_task (tword r)\<rparr>) s }"

definition mthpc_taskflow_rlist_del :: "nat list \<Rightarrow> tf_sys \<Rightarrow> tf_sys option" where
  "mthpc_taskflow_rlist_del news s = do {
     s \<leftarrow> with_tlh (mthpc_list_init AddingList) s;
     fold_opt rlist_del_one news s }"

text \<open>The new main task and the loop that links the adding list by \<open>list_node\<close>.\<close>

definition relink_one :: "tf_addr \<Rightarrow> tf_sys \<Rightarrow> tf_sys option" where
  "relink_one pos s = do {
     tmp \<leftarrow> task_of_sub pos;
     s \<leftarrow> with_tlh (mthpc_list_del (TaskSub tmp)) s;
     with_tlh (mthpc_list_add_tail (TaskMain tmp) NewAddingList) s }"

definition new_main_tasks :: "u64 \<Rightarrow> tf_sys \<Rightarrow> tf_sys option" where
  "new_main_tasks how_many s = do {
     n \<leftarrow> ld_next (tlh s) AddingList;
     new_main \<leftarrow> task_of_sub n;
     s \<leftarrow> upd_task new_main (\<lambda>r. r\<lparr>tword := mthpc_unset_sub_task (tword r)\<rparr>) s;
     s \<leftarrow> upd_task new_main (\<lambda>r. r\<lparr>nr_sub_task := how_many\<rparr>) s;
     s \<leftarrow> with_tlh (mthpc_list_init NewAddingList) s;
     list_for_each_safe tlh relink_one AddingList s }"

definition set_main_one :: "nat \<Rightarrow> tf_addr \<Rightarrow> tf_sys \<Rightarrow> tf_sys option" where
  "set_main_one m pos s = do {
     curr \<leftarrow> task_of_sub pos;
     upd_task curr (\<lambda>r. r\<lparr>main_task := m\<rparr>) s }"

definition taskflow_precede :: "nat \<Rightarrow> nat list \<Rightarrow> tf_sys \<Rightarrow> tf_sys option" where
  "taskflow_precede task0 news s = do {
     r \<leftarrow> tasks s task0;
     let tf = mthpc_get_taskflow (tword r);
     if news = [] then Some (tf_warn True s) else do {
       let task = (if mthpc_is_sub_task (tword r) \<noteq> 0 then main_task r else task0);
       s \<leftarrow> mthpc_taskflow_rlist_del news (new_heads [AddingList, NewAddingList] s);
       p \<leftarrow> ld_prev (tlh s) (TaskMain task);
       s \<leftarrow> (if p = TfHead tf then do {
           s \<leftarrow> new_main_tasks (of_nat (length news)) s;
           with_tlh (mthpc_list_splice_tail NewAddingList (TaskMain task)) s }
         else do {
           prev_task \<leftarrow> task_of_main p;
           s \<leftarrow> list_for_each tlh (set_main_one prev_task) AddingList s;
           s \<leftarrow> with_tlh (mthpc_list_splice_tail AddingList (TaskSub prev_task)) s;
           upd_task prev_task (\<lambda>r. r\<lparr>nr_sub_task := nr_sub_task r + of_nat (length news)\<rparr>) s });
       Some (drop_heads [AddingList, NewAddingList] s) } }"

definition taskflow_succeed :: "nat \<Rightarrow> nat list \<Rightarrow> tf_sys \<Rightarrow> tf_sys option" where
  "taskflow_succeed task0 news s = do {
     r \<leftarrow> tasks s task0;
     let tf = mthpc_get_taskflow (tword r);
     if news = [] then Some (tf_warn True s) else do {
       let task = (if mthpc_is_sub_task (tword r) \<noteq> 0 then main_task r else task0);
       s \<leftarrow> mthpc_taskflow_rlist_del news (new_heads [AddingList, NewAddingList] s);
       n \<leftarrow> ld_next (tlh s) (TaskMain task);
       s \<leftarrow> (if n = TfHead tf then do {
           s \<leftarrow> new_main_tasks (of_nat (length news)) s;
           with_tlh (mthpc_list_splice NewAddingList (TaskMain task)) s }
         else do {
           next_task \<leftarrow> task_of_main n;
           s \<leftarrow> list_for_each tlh (set_main_one next_task) AddingList s;
           s \<leftarrow> with_tlh (mthpc_list_splice AddingList (TaskSub next_task)) s;
           upd_task next_task (\<lambda>r. r\<lparr>nr_sub_task := nr_sub_task r + of_nat (length news)\<rparr>) s });
       Some (drop_heads [AddingList, NewAddingList] s) } }"

section \<open>Waiting for the taskflow\<close>

text \<open>
  What the workqueue does for the waiter: the return value of the scheduling that is entry
  number \<open>i\<close> of the log (the waiter ignores it), and the number \<open>finish n t\<close> of works that have
  completed by time \<open>t\<close> when \<open>n\<close> works of the group have been accepted.
\<close>

record await_env =
  sched_ret :: "nat \<Rightarrow> u32"
  finish :: "nat \<Rightarrow> nat \<Rightarrow> nat"

definition mthpc_taskflow_get_cpu :: "u64 \<Rightarrow> u32" where
  "mthpc_taskflow_get_cpu seed = ucast seed AND 3"

text \<open>The group in progress: the works accepted, \<open>nr_completed_sub_task\<close> and \<open>nr_completed\<close>.\<close>

record await_state =
  aw_sys :: tf_sys
  accepted :: nat
  nr_completed_sub_task :: u64
  nr_completed :: u64

definition schedule_task :: "await_env \<Rightarrow> nat \<Rightarrow> await_state \<Rightarrow> await_state" where
  "schedule_task env t a = (let s = aw_sys a in a\<lparr>
     aw_sys := s\<lparr>tf_log := tf_log s @ [Scheduled (mthpc_taskflow_get_cpu (nr_completed_sub_task a)) t]\<rparr>,
     accepted := accepted a + (if sched_ret env (length (tf_log s)) = 0 then 1 else 0),
     nr_completed_sub_task := nr_completed_sub_task a + 1\<rparr>)"

definition await_sub :: "await_env \<Rightarrow> tf_addr \<Rightarrow> await_state \<Rightarrow> await_state option" where
  "await_sub env pos a = do {
     t \<leftarrow> task_of_sub pos;
     Some (schedule_task env t a) }"

definition await_main :: "await_env \<Rightarrow> u64 \<Rightarrow> tf_addr \<Rightarrow> await_state \<Rightarrow> await_state option" where
  "await_main env tf pos a = do {
     cur \<leftarrow> task_of_main pos;
     r \<leftarrow> tasks (aw_sys a) cur;
     s \<leftarrow> upd_flow tf (\<lambda>f. f\<lparr>tf_compl := mthpc_completion_init (tf_compl f) (nr_sub_task r)\<rparr>) (aw_sys a);
     let a = schedule_task env cur (a\<lparr>aw_sys := s, accepted := 0, nr_completed_sub_task := 0\<rparr>);
     a \<leftarrow> list_for_each (\<lambda>a. tlh (aw_sys a)) (await_sub env) (TaskSub cur) a;
     f \<leftarrow> flows (aw_sys a) tf;
     let obs = finished_works (finish env (accepted a)) (tf_compl f);
     now \<leftarrow> mthpc_wait_for_completion obs 0;
     s \<leftarrow> upd_flow tf (\<lambda>f. f\<lparr>tf_compl := obs now\<rparr>) (aw_sys a);
     let s = s\<lparr>tf_log := tf_log s @ [GroupDone (finish env (accepted a) now)]\<rparr>;
     r \<leftarrow> tasks s cur;
     Some (a\<lparr>aw_sys := tf_warn (nr_completed_sub_task a \<noteq> nr_sub_task r) s,
       nr_completed := nr_completed a + nr_completed_sub_task a\<rparr>) }"

definition mthpc_taskflow_await :: "await_env \<Rightarrow> u64 \<Rightarrow> tf_sys \<Rightarrow> tf_sys option" where
  "mthpc_taskflow_await env tf s = do {
     a \<leftarrow> list_for_each (\<lambda>a. tlh (aw_sys a)) (await_main env tf) (TfHead tf)
       \<lparr>aw_sys = s, accepted = 0, nr_completed_sub_task = 0, nr_completed = 0\<rparr>;
     f \<leftarrow> flows (aw_sys a) tf;
     Some (tf_warn (nr_completed a \<noteq> nr_task f) (aw_sys a)) }"

text \<open>\<open>mthpc_task_worker\<close>: what a worker runs for a task; the user's function comes first.\<close>

definition mthpc_task_worker :: "nat \<Rightarrow> (nat \<Rightarrow> nat \<Rightarrow> tf_sys \<Rightarrow> tf_sys) \<Rightarrow> tf_sys \<Rightarrow> tf_sys option" where
  "mthpc_task_worker t call s = do {
     r \<leftarrow> tasks s t;
     let tf = mthpc_get_taskflow (tword r);
     upd_flow tf (\<lambda>f. f\<lparr>tf_compl := mthpc_complete (tf_compl f)\<rparr>) (call (tfunc r) (targ r) s) }"

end
