(* ===== verification/Taskflow_Props.thy ===== *)
theory Taskflow_Props
  imports Taskflow
begin

text \<open>
  The shape of a taskflow and the operations that build and change it. A forest is the list
  of main tasks, each with its sub tasks; \<open>forest_ok tf F s\<close> says that the state \<open>s\<close> holds
  the forest \<open>F\<close> for the taskflow \<open>tf\<close>: the rings of its list heads, the tag words, the
  parent pointers and the two counters.
\<close>

section \<open>The tag word\<close>

lemma tag_bits [word_facts]:
  fixes tf :: u64
  assumes "tf AND 1 = 0"
  shows "tf AND NOT 1 = tf" "(tf OR 1) AND NOT 1 = tf" "(tf OR 1) AND 1 = 1"
proof -
  have b: "\<not> bit tf 0" using assms by (metis bit_0 bit_and_iff bit_0_eq bit_1_0 bit_iff_odd even_iff_mod_2_eq_zero and_one_eq)
  have n: "n \<noteq> 0" if "bit tf n" for n using b that by (cases n) auto
  show "tf AND NOT 1 = tf" "(tf OR 1) AND NOT 1 = tf" "(tf OR 1) AND 1 = 1"
    by (intro bit_eqI; use n in \<open>auto simp: bit_and_iff bit_or_iff bit_not_iff bit_1_iff\<close>)+
qed

lemmas tag_ops = mthpc_is_sub_task_def mthpc_set_sub_task_def mthpc_unset_sub_task_def
  mthpc_get_taskflow_def mthpc_set_taskflow_def

lemma tag_simps [simp]:
  fixes tf :: u64
  assumes "tf AND 1 = 0"
  shows "mthpc_is_sub_task tf = 0" "mthpc_is_sub_task (tf OR 1) = 1"
    "mthpc_get_taskflow tf = tf" "mthpc_get_taskflow (tf OR 1) = tf"
    "mthpc_unset_sub_task tf = tf" "mthpc_unset_sub_task (tf OR 1) = tf"
    "mthpc_set_sub_task tf = tf OR 1" "mthpc_set_sub_task (tf OR 1) = tf OR 1"
    "mthpc_set_taskflow tf 0 = tf"
  using tag_bits [OF assms] assms by (simp_all add: tag_ops)


section \<open>Forests\<close>

type_synonym forest = "(nat \<times> nat list) list"

definition tids :: "forest \<Rightarrow> nat list" where
  "tids F = concat (map (\<lambda>(m, ss). m # ss) F)"

definition subs_of :: "forest \<Rightarrow> nat list" where
  "subs_of F = concat (map snd F)"

definition mains :: "forest \<Rightarrow> tf_addr list" where
  "mains F = map (TaskMain \<circ> fst) F"

definition body_rings :: "forest \<Rightarrow> tf_addr ring list" where
  "body_rings F = concat (map (\<lambda>(m, ss).
     (TaskSub m, map TaskSub ss) # map (\<lambda>x. (TaskMain x, [])) ss) F)"

definition forest_rings :: "u64 \<Rightarrow> forest \<Rightarrow> tf_addr ring list" where
  "forest_rings tf F = (TfHead tf, mains F) # body_rings F"

definition main_ok :: "u64 \<Rightarrow> nat \<Rightarrow> nat \<Rightarrow> (nat \<rightharpoonup> task) \<Rightarrow> bool" where
  "main_ok tf m k T \<longleftrightarrow>
     map_option (\<lambda>r. (tword r, main_task r, nr_sub_task r)) (T m) = Some (tf, 0, of_nat (Suc k))"

definition sub_ok :: "u64 \<Rightarrow> nat \<Rightarrow> nat \<Rightarrow> (nat \<rightharpoonup> task) \<Rightarrow> bool" where
  "sub_ok tf m x T \<longleftrightarrow> map_option (\<lambda>r. (tword r, main_task r)) (T x) = Some (tf OR 1, m)"

definition tasks_ok :: "u64 \<Rightarrow> forest \<Rightarrow> (nat \<rightharpoonup> task) \<Rightarrow> bool" where
  "tasks_ok tf F T \<longleftrightarrow> (\<forall>(m, ss)\<in>set F. main_ok tf m (length ss) T \<and> (\<forall>x\<in>set ss. sub_ok tf m x T))"

definition flow_ok :: "u64 \<Rightarrow> nat \<Rightarrow> tf_sys \<Rightarrow> bool" where
  "flow_ok tf n s \<longleftrightarrow> tf AND 1 = 0 \<and> map_option nr_task (flows s tf) = Some (of_nat n)"

definition forest_ok :: "u64 \<Rightarrow> forest \<Rightarrow> tf_sys \<Rightarrow> bool" where
  "forest_ok tf F s \<longleftrightarrow> rings (tlh s) (forest_rings tf F) \<and> distinct (0 # tids F) \<and>
     tasks_ok tf F (tasks s) \<and> flow_ok tf (length (tids F)) s"

lemma forest_simps [simp]:
  "tids [] = []" "tids ((m, ss) # F) = m # ss @ tids F" "tids (F @ G) = tids F @ tids G"
  "subs_of [] = []" "subs_of ((m, ss) # F) = ss @ subs_of F" "subs_of (F @ G) = subs_of F @ subs_of G"
  "mains [] = []" "mains ((m, ss) # F) = TaskMain m # mains F" "mains (F @ G) = mains F @ mains G"
  "body_rings [] = []"
  "body_rings ((m, ss) # F) = (TaskSub m, map TaskSub ss) # map (\<lambda>x. (TaskMain x, [])) ss @ body_rings F"
  "body_rings (F @ G) = body_rings F @ body_rings G"
  by (simp_all add: tids_def subs_of_def mains_def body_rings_def)

lemma tasks_ok_simps [simp]:
  "tasks_ok tf [] T"
  "tasks_ok tf ((m, ss) # F) T \<longleftrightarrow>
     main_ok tf m (length ss) T \<and> (\<forall>x\<in>set ss. sub_ok tf m x T) \<and> tasks_ok tf F T"
  "tasks_ok tf (F @ G) T \<longleftrightarrow> tasks_ok tf F T \<and> tasks_ok tf G T"
  by (auto simp: tasks_ok_def)

lemma ring_nodes_singles [simp]: "ring_nodes (map (\<lambda>x. (f x, [])) ss) = map f ss"
  by (induction ss) auto

lemma forest_nodes: "set (ring_nodes (body_rings F)) = TaskSub ` set (tids F) \<union> TaskMain ` set (subs_of F)"
  by (induction F) auto

lemma tids_split: "set (tids F) = fst ` set F \<union> set (subs_of F)"
  by (force simp: tids_def subs_of_def)

lemma set_mains: "set (mains F) = TaskMain ` fst ` set F"
  by (simp add: mains_def image_comp)

lemma forest_rings_nodes:
  "set (ring_nodes (forest_rings tf F)) = insert (TfHead tf) (TaskSub ` set (tids F) \<union> TaskMain ` set (tids F))"
  by (simp add: forest_rings_def forest_nodes set_mains tids_split image_Un Un_ac)

lemma main_ok_upd [simp]:
  "m \<noteq> t \<Longrightarrow> main_ok tf m k (T(t \<mapsto> r)) = main_ok tf m k T"
  "main_ok tf t k (T(t \<mapsto> r)) \<longleftrightarrow> tword r = tf \<and> main_task r = 0 \<and> nr_sub_task r = of_nat (Suc k)"
  by (auto simp: main_ok_def)

lemma sub_ok_upd [simp]:
  "x \<noteq> t \<Longrightarrow> sub_ok tf m x (T(t \<mapsto> r)) = sub_ok tf m x T"
  "sub_ok tf m t (T(t \<mapsto> r)) \<longleftrightarrow> tword r = tf OR 1 \<and> main_task r = m"
  by (auto simp: sub_ok_def)

lemma subs_upd [simp]:
  "t \<notin> S \<Longrightarrow> (\<forall>x\<in>S. sub_ok tf m x (T(t \<mapsto> r))) \<longleftrightarrow> (\<forall>x\<in>S. sub_ok tf m x T)"
  by (metis sub_ok_upd(1))

lemma tasks_ok_upd [simp]: "t \<notin> set (tids F) \<Longrightarrow> tasks_ok tf F (T(t \<mapsto> r)) = tasks_ok tf F T"
  by (induction F) auto

lemma main_okE:
  assumes "main_ok tf m k T"
  obtains r where "T m = Some r" "tword r = tf" "main_task r = 0" "nr_sub_task r = of_nat (Suc k)"
  using assms that by (cases "T m") (auto simp: main_ok_def)

lemma sub_okE:
  assumes "sub_ok tf m x T"
  obtains r where "T x = Some r" "tword r = tf OR 1" "main_task r = m"
  using assms that by (cases "T x") (auto simp: sub_ok_def)

section \<open>The primitive updates\<close>

lemma with_tlh_Some: "f (tlh s) = Some h \<Longrightarrow> with_tlh f s = Some (s\<lparr>tlh := h\<rparr>)"
  by (simp add: with_tlh_def)

lemma upd_task_Some: "tasks s t = Some r \<Longrightarrow> upd_task t f s = Some (s\<lparr>tasks := (tasks s)(t \<mapsto> f r)\<rparr>)"
  by (simp add: upd_task_def)

lemma upd_flow_Some: "flows s tf = Some r \<Longrightarrow> upd_flow tf f s = Some (s\<lparr>flows := (flows s)(tf \<mapsto> f r)\<rparr>)"
  by (simp add: upd_flow_def)

lemma tf_warn_False [simp]: "tf_warn False s = s"
  by (simp add: tf_warn_def)

lemma new_heads_simps [simp]:
  "tasks (new_heads as s) = tasks s" "flows (new_heads as s) = flows s"
  "tf_log (new_heads as s) = tf_log s" "tf_warned (new_heads as s) = tf_warned s"
  "tasks (drop_heads as s) = tasks s" "flows (drop_heads as s) = flows s"
  "tf_log (drop_heads as s) = tf_log s" "tf_warned (drop_heads as s) = tf_warned s"
  by (simp_all add: new_heads_def drop_heads_def)

lemma fold_upd_other: "a \<notin> set as \<Longrightarrow> fold (\<lambda>a h. h(a := f a)) as h a = h a"
  by (induction as arbitrary: h) auto

lemma fold_upd_in: "a \<in> set as \<Longrightarrow> fold (\<lambda>a h. h(a := f a)) as h a = f a"
proof (induction as arbitrary: h)
  case (Cons b as)
  then show ?case
    by (cases "a \<in> set as") (simp_all add: fold_upd_other fun_upd_same del: fun_upd_apply)
qed simp

lemma new_heads_tlh:
  "a \<notin> set as \<Longrightarrow> tlh (new_heads as s) a = tlh s a" "a \<in> set as \<Longrightarrow> a \<in> dom (tlh (new_heads as s))"
  "a \<notin> set as \<Longrightarrow> tlh (drop_heads as s) a = tlh s a"
  using fold_upd_other [of a as "\<lambda>_. Some \<lparr>nxt = 0, prv = 0\<rparr>"] fold_upd_in [of a as "\<lambda>_. Some \<lparr>nxt = 0, prv = 0\<rparr>"]
    fold_upd_other [of a as "\<lambda>_. None"]
  by (auto simp: new_heads_def drop_heads_def)

lemma new_heads_rings:
  "rings (tlh s) R \<Longrightarrow> set as \<inter> set (ring_nodes R) = {} \<Longrightarrow> rings (tlh (new_heads as s)) R"
  "rings (tlh s) R \<Longrightarrow> set as \<inter> set (ring_nodes R) = {} \<Longrightarrow> rings (tlh (drop_heads as s)) R"
  by (auto elim!: rings_same intro!: new_heads_tlh)


section \<open>Creation\<close>

lemma task_alloc_ok:
  assumes R: "rings (tlh s) R" "{TaskMain t, TaskSub t} \<inter> set (ring_nodes R) = {}"
    and t: "t \<noteq> 0" and f: "flow_ok tf n s"
  obtains s' r where "task_alloc t tf func arg s = Some (t, s')"
    "rings (tlh s') ((TaskSub t, []) # (TaskMain t, []) # R)"
    "tasks s' = (tasks s)(t \<mapsto> r)" "tword r = tf" "main_task r = 0" "nr_sub_task r = 1"
    "tfunc r = func" "targ r = arg"
    "flow_ok tf (Suc n) s'" "tf_log s' = tf_log s" "tf_warned s' = tf_warned s"
proof -
  let ?r = "\<lparr>tword = mthpc_set_taskflow tf 0, tfunc = func, targ = arg, nr_sub_task = 1, main_task = 0\<rparr>"
  let ?s = "(new_heads [TaskMain t, TaskSub t] s)\<lparr>tasks := (tasks s)(t \<mapsto> ?r)\<rparr>"
  have R1: "rings (tlh ?s) R" "TaskMain t \<in> dom (tlh ?s)" "TaskSub t \<in> dom (tlh ?s)"
    using R new_heads_rings(1) [of s R "[TaskMain t, TaskSub t]"]
    by (simp_all add: new_heads_tlh(2) del: domIff)
  have new: "TaskMain t \<notin> set (ring_nodes R)" "TaskSub t \<notin> set (ring_nodes ((TaskMain t, []) # R))"
    using R(2) by simp_all
  obtain h1 where h1: "mthpc_list_init (TaskMain t) (tlh ?s) = Some h1" "rings h1 ((TaskMain t, []) # R)"
    "dom h1 = dom (tlh ?s)"
    by (rule rings_init [OF R1(1,2) new(1)], rule that)
  have d: "TaskSub t \<in> dom h1" using h1(3) R1(3) by (simp only:)
  obtain h2 where h2: "mthpc_list_init (TaskSub t) h1 = Some h2"
    "rings h2 ((TaskSub t, []) # (TaskMain t, []) # R)"
    by (rule rings_init [OF h1(2) d new(2)], rule that)
  obtain fl where fl: "flows s tf = Some fl" "nr_task fl = of_nat n" "tf AND 1 = 0"
    using f by (auto simp: flow_ok_def)
  let ?s' = "?s\<lparr>tlh := h2\<rparr>\<lparr>flows := (flows s)(tf \<mapsto> fl\<lparr>nr_task := nr_task fl + 1\<rparr>)\<rparr>"
  show ?thesis
  proof (rule that [of ?s' ?r])
    show "task_alloc t tf func arg s = Some (t, ?s')"
      using h1(1) h2(1) fl t by (simp add: task_alloc_def Let_def with_tlh_def upd_flow_def)
    show "flow_ok tf (Suc n) ?s'" using fl by (simp add: flow_ok_def)
  qed (use h2(2) fl in simp_all)
qed

lemma fresh_nodes:
  "t \<notin> set (tids F) \<Longrightarrow> {TaskMain t, TaskSub t} \<inter> set (ring_nodes (forest_rings tf F)) = {}"
  by (auto simp: forest_rings_nodes)

lemma task_create_forest:
  assumes ok: "forest_ok tf F s" and t: "t \<notin> set (0 # tids F)"
  shows "\<exists>s'. mthpc_task_create t tf func arg s = Some (t, s') \<and> forest_ok tf (F @ [(t, [])]) s'
    \<and> tf_log s' = tf_log s \<and> tf_warned s' = tf_warned s"
proof -
  have o: "rings (tlh s) (forest_rings tf F)" "distinct (0 # tids F)" "tasks_ok tf F (tasks s)"
    "flow_ok tf (length (tids F)) s" and tf: "tf AND 1 = 0"
    using ok by (simp_all add: forest_ok_def flow_ok_def)
  have t0: "t \<noteq> 0" "t \<notin> set (tids F)" using t by simp_all
  obtain s1 r where s1: "task_alloc t tf func arg s = Some (t, s1)"
    "rings (tlh s1) ((TaskSub t, []) # (TaskMain t, []) # forest_rings tf F)"
    "tasks s1 = (tasks s)(t \<mapsto> r)" "tword r = tf" "main_task r = 0" "nr_sub_task r = 1"
    "tfunc r = func" "targ r = arg"
    "flow_ok tf (Suc (length (tids F))) s1" "tf_log s1 = tf_log s" "tf_warned s1 = tf_warned s"
    by (rule task_alloc_ok [OF o(1) fresh_nodes [OF t0(2)] t0(1) o(4)], rule that)
  have R: "rings (tlh s1) ((TfHead tf, mains F) # (TaskMain t, []) # (TaskSub t, []) # body_rings F)"
    by (rule rings_perm [OF s1(2)]) (simp add: forest_rings_def)
  obtain h where h: "mthpc_list_add_tail (TaskMain t) (TfHead tf) (tlh s1) = Some h"
    "rings h ((TfHead tf, mains F @ [TaskMain t]) # (TaskSub t, []) # body_rings F)"
    by (rule rings_add_tail [OF R], rule that)
  have h2: "rings h (forest_rings tf (F @ [(t, [])]))"
    by (rule rings_perm [OF h(2)]) (simp add: forest_rings_def)
  have run: "mthpc_task_create t tf func arg s = Some (t, s1\<lparr>tasks := (tasks s)(t \<mapsto> r\<lparr>tword := tf\<rparr>), tlh := h\<rparr>)"
    using s1(1,3,4) h(1) t0 tf
    by (simp add: mthpc_task_create_def upd_task_def with_tlh_def)
  have "forest_ok tf (F @ [(t, [])]) (s1\<lparr>tasks := (tasks s)(t \<mapsto> r\<lparr>tword := tf\<rparr>), tlh := h\<rparr>)"
    using h2 o s1 t0 by (simp add: forest_ok_def flow_ok_def)
  with run s1 show ?thesis by auto
qed

lemma sub_task_create_forest:
  assumes ok: "forest_ok tf (A @ (m, ss) # B) s" and t: "t \<notin> set (0 # tids (A @ (m, ss) # B))"
  shows "\<exists>s'. mthpc_sub_task_create t m func arg s = Some (t, s') \<and>
    forest_ok tf (A @ (m, ss @ [t]) # B) s' \<and> tf_log s' = tf_log s \<and> tf_warned s' = tf_warned s"
proof -
  let ?F = "A @ (m, ss) # B"
  have o: "rings (tlh s) (forest_rings tf ?F)" "distinct (0 # tids ?F)" "tasks_ok tf ?F (tasks s)"
    "flow_ok tf (length (tids ?F)) s" and tf: "tf AND 1 = 0"
    using ok by (simp_all add: forest_ok_def flow_ok_def)
  have t0: "t \<noteq> 0" "t \<notin> set (tids ?F)" "t \<noteq> m" using t by auto
  have m: "main_ok tf m (length ss) (tasks s)" "m \<noteq> 0" using o(2,3) by simp_all
  obtain rm where rm: "tasks s m = Some rm" "tword rm = tf" "main_task rm = 0"
    "nr_sub_task rm = of_nat (Suc (length ss))"
    by (rule main_okE [OF m(1)], rule that)
  obtain s1 r where s1: "task_alloc t tf func arg s = Some (t, s1)"
    "rings (tlh s1) ((TaskSub t, []) # (TaskMain t, []) # forest_rings tf ?F)"
    "tasks s1 = (tasks s)(t \<mapsto> r)" "tword r = tf" "main_task r = 0" "nr_sub_task r = 1"
    "tfunc r = func" "targ r = arg"
    "flow_ok tf (Suc (length (tids ?F))) s1" "tf_log s1 = tf_log s" "tf_warned s1 = tf_warned s"
    by (rule task_alloc_ok [OF o(1) fresh_nodes [OF t0(2)] t0(1) o(4)], rule that)
  let ?R = "(TaskMain t, []) # (TfHead tf, mains ?F) # map (\<lambda>x. (TaskMain x, [])) ss @ body_rings (A @ B)"
  have R: "rings (tlh s1) ((TaskSub m, map TaskSub ss) # (TaskSub t, []) # ?R)"
    by (rule rings_perm [OF s1(2)]) (simp add: forest_rings_def)
  obtain h where h: "mthpc_list_add_tail (TaskSub t) (TaskSub m) (tlh s1) = Some h"
    "rings h ((TaskSub m, map TaskSub ss @ [TaskSub t]) # ?R)"
    by (rule rings_add_tail [OF R], rule that)
  have h2: "rings h (forest_rings tf (A @ (m, ss @ [t]) # B))"
    by (rule rings_perm [OF h(2)]) (simp add: forest_rings_def)
  let ?T = "(tasks s)(t \<mapsto> r\<lparr>tword := tf OR 1, main_task := m\<rparr>, m \<mapsto> rm\<lparr>nr_sub_task := nr_sub_task rm + 1\<rparr>)"
  have run: "mthpc_sub_task_create t m func arg s = Some (t, s1\<lparr>tlh := h, tasks := ?T\<rparr>)"
    using s1(1,3,4) h(1) t0 tf m(2) rm
    by (simp add: mthpc_sub_task_create_def upd_task_def with_tlh_def)
  have "forest_ok tf (A @ (m, ss @ [t]) # B) (s1\<lparr>tlh := h, tasks := ?T\<rparr>)"
    using h2 o s1 t0 rm by (auto simp: forest_ok_def flow_ok_def)
  with run s1 show ?thesis by auto
qed


section \<open>Taking tasks out of the forest\<close>

text \<open>
  While tasks move, those taken out are on the adding list, linked by their sub task heads:
  a sub task goes to its front, a main task without sub tasks to its end.
\<close>

definition limbo :: "u64 \<Rightarrow> forest \<Rightarrow> nat list \<Rightarrow> tf_sys \<Rightarrow> bool" where
  "limbo tf F xs s \<longleftrightarrow>
     rings (tlh s) ((AddingList, map TaskSub xs) # map (\<lambda>x. (TaskMain x, [])) xs @ forest_rings tf F) \<and>
     distinct (0 # xs @ tids F) \<and> tasks_ok tf F (tasks s) \<and> (\<forall>x\<in>set xs. sub_ok tf 0 x (tasks s)) \<and>
     flow_ok tf (length xs + length (tids F)) s \<and> NewAddingList \<in> dom (tlh s)"

definition same_trace :: "tf_sys \<Rightarrow> tf_sys \<Rightarrow> bool" where
  "same_trace s s' \<longleftrightarrow> tf_log s' = tf_log s \<and> tf_warned s' = tf_warned s"

lemma same_trace_simps [simp]: "same_trace s s"
  "same_trace s (s'\<lparr>tlh := h\<rparr>) = same_trace s s'" "same_trace s (s'\<lparr>tasks := T\<rparr>) = same_trace s s'"
  "same_trace s (s'\<lparr>flows := f\<rparr>) = same_trace s s'" "same_trace s (new_heads as s') = same_trace s s'"
  "same_trace s (drop_heads as s') = same_trace s s'" "same_trace (new_heads as s) s' = same_trace s s'"
  "same_trace (s\<lparr>tlh := h\<rparr>) s' = same_trace s s'" "same_trace (s\<lparr>flows := f\<rparr>) s' = same_trace s s'"
  by (simp_all add: same_trace_def)

lemma same_trace_trans [trans]: "same_trace s s' \<Longrightarrow> same_trace s' s'' \<Longrightarrow> same_trace s s''"
  by (simp add: same_trace_def)

lemma limboD:
  assumes "limbo tf F xs s"
  shows "rings (tlh s) ((AddingList, map TaskSub xs) # map (\<lambda>x. (TaskMain x, [])) xs @ forest_rings tf F)"
    "distinct (0 # xs @ tids F)" "tasks_ok tf F (tasks s)" "\<forall>x\<in>set xs. sub_ok tf 0 x (tasks s)"
    "flow_ok tf (length xs + length (tids F)) s" "NewAddingList \<in> dom (tlh s)" "tf AND 1 = 0"
  using assms unfolding limbo_def flow_ok_def by blast+

lemma rlist_del_sub:
  assumes l: "limbo tf (A @ (k, p @ x # q) # B) xs s"
  shows "\<exists>s'. rlist_del_one x s = Some s' \<and> limbo tf (A @ (k, p @ q) # B) (x # xs) s' \<and> same_trace s s'"
proof -
  note o = limboD [OF l]
  have d: "k \<noteq> x" "x \<noteq> 0" "k \<notin> set xs" "x \<notin> set xs" using o(2) by auto
  have mk: "main_ok tf k (length (p @ x # q)) (tasks s)" "sub_ok tf k x (tasks s)" using o(3) by simp_all
  obtain rk where rk: "tasks s k = Some rk" "tword rk = tf" "main_task rk = 0"
    "nr_sub_task rk = of_nat (Suc (length (p @ x # q)))"
    by (rule main_okE [OF mk(1)], rule that)
  obtain r where r: "tasks s x = Some r" "tword r = tf OR 1" "main_task r = k"
    by (rule sub_okE [OF mk(2)], rule that)
  let ?R = "map (\<lambda>x. (TaskMain x, [])) (x # xs @ p @ q) @ (TfHead tf, mains A @ TaskMain k # mains B) # body_rings (A @ B)"
  have R0: "rings (tlh s) ((TaskSub k, map TaskSub p @ TaskSub x # map TaskSub q) # (AddingList, map TaskSub xs) # ?R)"
    by (rule rings_perm [OF o(1)]) (simp add: forest_rings_def)
  obtain h1 where h1: "mthpc_list_del (TaskSub x) (tlh s) = Some h1" "dom h1 = dom (tlh s)"
    "rings h1 ((TaskSub k, map TaskSub p @ map TaskSub q) # (TaskSub x, []) # (AddingList, map TaskSub xs) # ?R)"
    by (rule rings_del [OF R0], rule that)
  have R1: "rings h1 ((AddingList, map TaskSub xs) # (TaskSub x, []) # (TaskSub k, map TaskSub (p @ q)) # ?R)"
    by (rule rings_perm [OF h1(3)]) simp
  obtain h2 where h2: "mthpc_list_add (TaskSub x) AddingList h1 = Some h2" "dom h2 = dom h1"
    "rings h2 ((AddingList, TaskSub x # map TaskSub xs) # (TaskSub k, map TaskSub (p @ q)) # ?R)"
    by (rule rings_add [OF R1], rule that)
  have R2: "rings h2 ((AddingList, map TaskSub (x # xs)) # map (\<lambda>x. (TaskMain x, [])) (x # xs) @
      forest_rings tf (A @ (k, p @ q) # B))"
    by (rule rings_perm [OF h2(3)]) (simp add: forest_rings_def)
  let ?T = "(tasks s)(k \<mapsto> rk\<lparr>nr_sub_task := nr_sub_task rk - 1\<rparr>, x \<mapsto> r\<lparr>main_task := 0, tword := tf OR 1\<rparr>)"
  let ?s = "s\<lparr>tlh := h2, tasks := ?T\<rparr>"
  have run: "rlist_del_one x s = Some ?s"
    using h1(1) h2(1) r rk d o(7) by (simp add: rlist_del_one_def upd_task_def with_tlh_def)
  have "tasks_ok tf (A @ (k, p @ q) # B) ?T" using o(2,3) rk d by simp
  moreover have "\<forall>x\<in>set (x # xs). sub_ok tf 0 x ?T" using o(4) d by auto
  moreover have "distinct (0 # (x # xs) @ tids (A @ (k, p @ q) # B))" using o(2) by auto
  ultimately have "limbo tf (A @ (k, p @ q) # B) (x # xs) ?s"
    using R2 o(5,6) h1(2) h2(2) by (simp add: limbo_def flow_ok_def del: domIff)
  with run show ?thesis by simp
qed

lemma rlist_del_main:
  assumes l: "limbo tf (A @ (x, []) # B) xs s"
  shows "\<exists>s'. rlist_del_one x s = Some s' \<and> limbo tf (A @ B) (xs @ [x]) s' \<and> same_trace s s'"
proof -
  note o = limboD [OF l]
  have d: "x \<noteq> 0" "x \<notin> set xs" "x \<notin> set (tids (A @ B))" using o(2) by auto
  have mk: "main_ok tf x 0 (tasks s)" using o(3) by simp
  obtain r where r: "tasks s x = Some r" "tword r = tf" "main_task r = 0" "nr_sub_task r = of_nat (Suc 0)"
    by (rule main_okE [OF mk], rule that)
  let ?R = "map (\<lambda>x. (TaskMain x, [])) xs @ body_rings (A @ B)"
  have R0: "rings (tlh s) ((TfHead tf, mains A @ TaskMain x # mains B) # (TaskSub x, []) # (AddingList, map TaskSub xs) # ?R)"
    by (rule rings_perm [OF o(1)]) (simp add: forest_rings_def)
  obtain h1 where h1: "mthpc_list_del (TaskMain x) (tlh s) = Some h1" "dom h1 = dom (tlh s)"
    "rings h1 ((TfHead tf, mains A @ mains B) # (TaskMain x, []) # (TaskSub x, []) # (AddingList, map TaskSub xs) # ?R)"
    by (rule rings_del [OF R0], rule that)
  have R1: "rings h1 ((AddingList, map TaskSub xs) # (TaskSub x, []) # (TfHead tf, mains A @ mains B) # (TaskMain x, []) # ?R)"
    by (rule rings_perm [OF h1(3)]) simp
  obtain h2 where h2: "mthpc_list_add_tail (TaskSub x) AddingList h1 = Some h2" "dom h2 = dom h1"
    "rings h2 ((AddingList, map TaskSub xs @ [TaskSub x]) # (TfHead tf, mains A @ mains B) # (TaskMain x, []) # ?R)"
    by (rule rings_add_tail [OF R1], rule that)
  have R2: "rings h2 ((AddingList, map TaskSub (xs @ [x])) # map (\<lambda>x. (TaskMain x, [])) (xs @ [x]) @
      forest_rings tf (A @ B))"
    by (rule rings_perm [OF h2(3)]) (simp add: forest_rings_def)
  let ?T = "(tasks s)(x \<mapsto> r\<lparr>tword := tf OR 1\<rparr>)"
  let ?s = "s\<lparr>tlh := h2, tasks := ?T\<rparr>"
  have run: "rlist_del_one x s = Some ?s"
    using h1(1) h2(1) r o(7) by (simp add: rlist_del_one_def upd_task_def with_tlh_def)
  have "\<forall>x\<in>set (xs @ [x]). sub_ok tf 0 x ?T" using o(4) d r by auto
  moreover have "tasks_ok tf (A @ B) ?T" using o(3) d by simp
  moreover have "distinct (0 # (xs @ [x]) @ tids (A @ B))" using o(2) by auto
  ultimately have "limbo tf (A @ B) (xs @ [x]) ?s"
    using R2 o(5,6) h1(2) h2(2) by (simp add: limbo_def flow_ok_def del: domIff)
  with run show ?thesis by simp
qed

text \<open>The tasks a call moves: each is a sub task or a main task without sub tasks.\<close>

fun take_out :: "nat list \<Rightarrow> forest \<times> nat list \<Rightarrow> (forest \<times> nat list) option" where
  "take_out [] p = Some p"
| "take_out (x # news) (F, xs) =
     (if x \<in> set (subs_of F) then take_out news (map (\<lambda>(m, ss). (m, removeAll x ss)) F, x # xs)
      else if (x, []) \<in> set F then take_out news (filter (\<lambda>(m, ss). m \<noteq> x) F, xs @ [x])
      else None)"


lemma map_remove_id: "x \<notin> set (tids F) \<Longrightarrow> map (\<lambda>(m, ss). (m, removeAll x ss)) F = F"
  by (induction F) auto

lemma filter_main_id: "x \<notin> set (tids F) \<Longrightarrow> filter (\<lambda>(m, ss). m \<noteq> x) F = F"
  by (induction F) auto

lemma in_subs_split:
  assumes "x \<in> set (subs_of F)"
  obtains A k p q B where "F = A @ (k, p @ x # q) # B"
proof -
  from assms obtain k ss where "(k, ss) \<in> set F" "x \<in> set ss" by (auto simp: subs_of_def)
  moreover obtain A B where "F = A @ (k, ss) # B" using calculation(1) by (metis split_list)
  moreover obtain p q where "ss = p @ x # q" using calculation(2) by (metis split_list)
  ultimately show ?thesis using that by simp
qed

lemma rlist_del_one_pull:
  assumes "limbo tf F xs s"
  shows "x \<in> set (subs_of F) \<Longrightarrow> \<exists>s'. rlist_del_one x s = Some s' \<and>
      limbo tf (map (\<lambda>(m, ss). (m, removeAll x ss)) F) (x # xs) s' \<and> same_trace s s'"
    "(x, []) \<in> set F \<Longrightarrow> \<exists>s'. rlist_del_one x s = Some s' \<and>
      limbo tf (filter (\<lambda>(m, ss). m \<noteq> x) F) (xs @ [x]) s' \<and> same_trace s s'"
proof -
  note d = limboD(2) [OF assms]
  show "\<exists>s'. rlist_del_one x s = Some s' \<and>
      limbo tf (map (\<lambda>(m, ss). (m, removeAll x ss)) F) (x # xs) s' \<and> same_trace s s'"
    if x: "x \<in> set (subs_of F)"
  proof -
    obtain A k p q B where F: "F = A @ (k, p @ x # q) # B" by (rule in_subs_split [OF x])
    have "map (\<lambda>(m, ss). (m, removeAll x ss)) F = A @ (k, p @ q) # B"
      using d unfolding F by (simp add: map_remove_id)
    with rlist_del_sub [OF assms [unfolded F]] show ?thesis by simp
  qed
  show "\<exists>s'. rlist_del_one x s = Some s' \<and>
      limbo tf (filter (\<lambda>(m, ss). m \<noteq> x) F) (xs @ [x]) s' \<and> same_trace s s'"
    if x: "(x, []) \<in> set F"
  proof -
    obtain A B where F: "F = A @ (x, []) # B" using x by (metis split_list)
    have "filter (\<lambda>(m, ss). m \<noteq> x) F = A @ B"
      using d unfolding F by (simp add: filter_main_id)
    with rlist_del_main [OF assms [unfolded F]] show ?thesis by simp
  qed
qed

lemma rlist_del_all:
  "limbo tf F xs s \<Longrightarrow> take_out news (F, xs) = Some (F', ys) \<Longrightarrow>
   \<exists>s'. fold_opt rlist_del_one news s = Some s' \<and> limbo tf F' ys s' \<and> same_trace s s'"
proof (induction news arbitrary: F xs s)
  case (Cons x news)
  obtain F1 xs1 s1 where s1: "rlist_del_one x s = Some s1" "limbo tf F1 xs1 s1" "same_trace s s1"
    "take_out news (F1, xs1) = Some (F', ys)"
    using rlist_del_one_pull [OF Cons.prems(1), of x] Cons.prems(2) that
    by (auto split: if_splits)
  obtain s2 where "fold_opt rlist_del_one news s1 = Some s2" "limbo tf F' ys s2" "same_trace s1 s2"
    using Cons.IH [OF s1(2,4)] by blast
  with s1 same_trace_trans [OF s1(3)] show ?case by auto
qed simp

lemma taskflow_rlist_del_ok:
  assumes ok: "forest_ok tf F s" and out: "take_out news (F, []) = Some (F', ys)"
  obtains s' where "mthpc_taskflow_rlist_del news (new_heads [AddingList, NewAddingList] s) = Some s'"
    "limbo tf F' ys s'" "same_trace s s'"
proof -
  let ?s = "new_heads [AddingList, NewAddingList] s"
  have R: "rings (tlh ?s) (forest_rings tf F)"
    using ok by (intro new_heads_rings(1)) (auto simp: forest_ok_def forest_rings_nodes)
  have d: "AddingList \<in> dom (tlh ?s)" "NewAddingList \<in> dom (tlh ?s)"
    by (simp_all add: new_heads_tlh(2) del: domIff)
  have new: "AddingList \<notin> set (ring_nodes (forest_rings tf F))" by (auto simp: forest_rings_nodes)
  obtain h where h: "mthpc_list_init AddingList (tlh ?s) = Some h"
    "rings h ((AddingList, []) # forest_rings tf F)" "dom h = dom (tlh ?s)"
    by (rule rings_init [OF R d(1) new], rule that)
  have "limbo tf F [] (?s\<lparr>tlh := h\<rparr>)"
    using ok h(2,3) d(2) by (simp add: limbo_def forest_ok_def flow_ok_def del: domIff)
  from rlist_del_all [OF this out] obtain s' where
    "fold_opt rlist_del_one news (?s\<lparr>tlh := h\<rparr>) = Some s'" "limbo tf F' ys s'" "same_trace s s'"
    by auto
  with h(1) show ?thesis by (intro that [of s']) (simp_all add: mthpc_taskflow_rlist_del_def with_tlh_def)
qed


section \<open>Relinking the adding list\<close>

definition relink_rings :: "nat list \<Rightarrow> nat list \<Rightarrow> tf_addr ring list \<Rightarrow> tf_addr ring list" where
  "relink_rings rest done R = (AddingList, map TaskSub rest) # (NewAddingList, map TaskMain done) #
     map (\<lambda>x. (TaskMain x, [])) rest @ map (\<lambda>x. (TaskSub x, [])) done @ R"

lemma relink_step:
  assumes R: "rings (tlh s) (relink_rings (x # rest) done R)"
  obtains h where "relink_one (TaskSub x) s = Some (s\<lparr>tlh := h\<rparr>)"
    "rings h (relink_rings rest (done @ [x]) R)"
proof -
  let ?Q = "map (\<lambda>x. (TaskMain x, [])) rest @ map (\<lambda>x. (TaskSub x, [])) done @ R"
  have R0: "rings (tlh s) ((AddingList, [] @ TaskSub x # map TaskSub rest) #
      (NewAddingList, map TaskMain done) # (TaskMain x, []) # ?Q)"
    using R by (simp add: relink_rings_def)
  obtain h1 where h1: "mthpc_list_del (TaskSub x) (tlh s) = Some h1"
    "rings h1 ((AddingList, [] @ map TaskSub rest) # (TaskSub x, []) #
      (NewAddingList, map TaskMain done) # (TaskMain x, []) # ?Q)"
    by (rule rings_del [OF R0], rule that)
  have R1: "rings h1 ((NewAddingList, map TaskMain done) # (TaskMain x, []) #
      (AddingList, map TaskSub rest) # (TaskSub x, []) # ?Q)"
    by (rule rings_perm [OF h1(2)]) simp
  obtain h2 where h2: "mthpc_list_add_tail (TaskMain x) NewAddingList h1 = Some h2"
    "rings h2 ((NewAddingList, map TaskMain done @ [TaskMain x]) #
      (AddingList, map TaskSub rest) # (TaskSub x, []) # ?Q)"
    by (rule rings_add_tail [OF R1], rule that)
  show ?thesis
  proof (rule that [of h2])
    show "relink_one (TaskSub x) s = Some (s\<lparr>tlh := h2\<rparr>)"
      using h1(1) h2(1) by (simp add: relink_one_def with_tlh_def)
    show "rings h2 (relink_rings rest (done @ [x]) R)"
      by (rule rings_perm [OF h2(2)]) (simp add: relink_rings_def)
  qed
qed

lemma relink_fold:
  "rings (tlh s) (relink_rings rest done R) \<Longrightarrow>
   \<exists>h. fold_opt relink_one (map TaskSub rest) s = Some (s\<lparr>tlh := h\<rparr>) \<and>
     rings h (relink_rings [] (done @ rest) R)"
proof (induction rest arbitrary: s "done")
  case Nil
  then show ?case by (intro exI [of _ "tlh s"]) simp
next
  case (Cons x rest)
  obtain h where h: "relink_one (TaskSub x) s = Some (s\<lparr>tlh := h\<rparr>)"
    "rings h (relink_rings rest (done @ [x]) R)"
    by (rule relink_step [OF Cons.prems], rule that)
  with Cons.IH [of "s\<lparr>tlh := h\<rparr>" "done @ [x]"] show ?case by simp
qed

definition relink_inv :: "tf_addr ring list \<Rightarrow> tf_addr list \<Rightarrow> tf_sys \<Rightarrow> bool" where
  "relink_inv R P s \<longleftrightarrow>
     (\<exists>rest done. P = map TaskSub rest \<and> rings (tlh s) (relink_rings rest done R))"

lemma relink_inv_nexts:
  assumes "relink_inv R P s"
  shows "nexts (tlh s) (AddingList # P @ [AddingList])" "AddingList \<in> dom (tlh s)"
proof -
  obtain rest "done" where r: "P = map TaskSub rest" "rings (tlh s) (relink_rings rest done R)"
    using assms by (auto simp: relink_inv_def)
  have c: "clist (tlh s) AddingList P"
    by (rule rings_clist [OF r(2)]) (simp add: relink_rings_def r(1))
  then show "nexts (tlh s) (AddingList # P @ [AddingList])" by (rule clist_nexts)
  show "AddingList \<in> dom (tlh s)" using clist_dom [OF c] by blast
qed

lemma relink_inv_step:
  assumes "relink_inv R (p # P) s" "relink_one p s = Some s'"
  shows "relink_inv R P s'"
proof -
  obtain x rest "done" where r: "p = TaskSub x" "P = map TaskSub rest"
    "rings (tlh s) (relink_rings (x # rest) done R)"
    using assms(1) by (auto simp: relink_inv_def Cons_eq_map_conv)
  obtain h where h: "relink_one (TaskSub x) s = Some (s\<lparr>tlh := h\<rparr>)"
    "rings h (relink_rings rest (done @ [x]) R)"
    by (rule relink_step [OF r(3)], rule that)
  then have "rings (tlh s') (relink_rings rest (done @ [x]) R)" using assms(2) r(1) by auto
  with r(2) show ?thesis unfolding relink_inv_def by metis
qed

lemma relink_loop:
  assumes R: "rings (tlh s) (relink_rings ys [] R)"
  obtains h where "list_for_each_safe tlh relink_one AddingList s = Some (s\<lparr>tlh := h\<rparr>)"
    "rings h (relink_rings [] ys R)"
proof -
  obtain h where h: "fold_opt relink_one (map TaskSub ys) s = Some (s\<lparr>tlh := h\<rparr>)"
    "rings h (relink_rings [] ys R)"
    using relink_fold [OF R] that by auto
  have inv: "relink_inv R (map TaskSub ys) s"
    unfolding relink_inv_def by (intro exI conjI, rule refl, rule R)
  have "list_for_each_safe tlh relink_one AddingList s = fold_opt relink_one (map TaskSub ys) s"
  proof (rule list_for_each_safe_fold [where J = "relink_inv R"])
    show "nexts (tlh s) (P @ [AddingList]) \<and> AddingList \<in> dom (tlh s)" if "relink_inv R P s" for P s
      using relink_inv_nexts [OF that] by (simp add: nexts_Cons)
    show "ld_next (tlh s) AddingList = Some (hd (map TaskSub ys @ [AddingList]))"
      using relink_inv_nexts(1) [OF inv] by (simp add: nexts_Cons)
    show "relink_inv R P s'" if "relink_inv R (p # P) s" "relink_one p s = Some s'" for p P s s'
      by (rule relink_inv_step [OF that])
  qed (use inv in auto)
  with h that show ?thesis by simp
qed

text \<open>
  The tasks taken out become main tasks: the first one loses its sub task flag and gets the
  number of tasks moved as its counter.
\<close>

lemma new_main_tasks_ok:
  assumes l: "limbo tf F (y # ys) s"
  obtains h r where "tasks s y = Some r" "tword r = tf OR 1" "main_task r = 0"
    "new_main_tasks n s = Some (s\<lparr>tlh := h,
      tasks := (tasks s)(y \<mapsto> r\<lparr>tword := tf, nr_sub_task := n\<rparr>)\<rparr>)"
    "rings h ((NewAddingList, map TaskMain (y # ys)) # (AddingList, []) #
      map (\<lambda>x. (TaskSub x, [])) (y # ys) @ forest_rings tf F)"
proof -
  note o = limboD [OF l]
  have y: "sub_ok tf 0 y (tasks s)" using o(4) by simp
  obtain r where r: "tasks s y = Some r" "tword r = tf OR 1" "main_task r = 0"
    by (rule sub_okE [OF y], rule that)
  let ?s = "s\<lparr>tasks := (tasks s)(y \<mapsto> r\<lparr>tword := tf, nr_sub_task := n\<rparr>)\<rparr>"
  have nx: "ld_next (tlh s) AddingList = Some (TaskSub y)"
    using rings_clist [OF o(1), of AddingList "map TaskSub (y # ys)"] clist_next by fastforce
  have new: "NewAddingList \<notin> set (ring_nodes ((AddingList, map TaskSub (y # ys)) #
      map (\<lambda>x. (TaskMain x, [])) (y # ys) @ forest_rings tf F))"
    by (auto simp: forest_rings_nodes)
  obtain h1 where h1: "mthpc_list_init NewAddingList (tlh s) = Some h1"
    "rings h1 ((NewAddingList, []) # (AddingList, map TaskSub (y # ys)) #
      map (\<lambda>x. (TaskMain x, [])) (y # ys) @ forest_rings tf F)"
    by (rule rings_init [OF o(1,6) new], rule that)
  have "rings h1 (relink_rings (y # ys) [] (forest_rings tf F))"
    by (rule rings_perm [OF h1(2)]) (simp add: relink_rings_def)
  then have R: "rings (tlh (?s\<lparr>tlh := h1\<rparr>)) (relink_rings (y # ys) [] (forest_rings tf F))" by simp
  obtain h where h: "list_for_each_safe tlh relink_one AddingList (?s\<lparr>tlh := h1\<rparr>) = Some (?s\<lparr>tlh := h1\<rparr>\<lparr>tlh := h\<rparr>)"
    "rings h (relink_rings [] (y # ys) (forest_rings tf F))"
    by (rule relink_loop [OF R], rule that)
  show ?thesis
  proof (rule that [OF r])
    show "new_main_tasks n s = Some (s\<lparr>tlh := h, tasks := (tasks s)(y \<mapsto> r\<lparr>tword := tf, nr_sub_task := n\<rparr>)\<rparr>)"
      using nx r h1(1) h(1) o(7) by (simp add: new_main_tasks_def upd_task_def with_tlh_def)
    show "rings h ((NewAddingList, map TaskMain (y # ys)) # (AddingList, []) #
        map (\<lambda>x. (TaskSub x, [])) (y # ys) @ forest_rings tf F)"
      by (rule rings_perm [OF h(2)]) (simp add: relink_rings_def)
  qed
qed


section \<open>Giving the tasks a new place\<close>

lemma tasks_ok_cong: "(\<And>x. x \<in> set (tids F) \<Longrightarrow> T' x = T x) \<Longrightarrow> tasks_ok tf F T \<Longrightarrow> tasks_ok tf F T'"
  by (induction F) (auto simp: main_ok_def sub_ok_def)

lemma main_ok_cong: "T' m = T m \<Longrightarrow> main_ok tf m k T' = main_ok tf m k T"
  by (simp add: main_ok_def)

lemma sub_ok_cong: "T' x = T x \<Longrightarrow> sub_ok tf m x T' = sub_ok tf m x T"
  by (simp add: sub_ok_def)

lemma set_main_fold:
  "(\<And>y. y \<in> set ys \<Longrightarrow> sub_ok tf k y (tasks s)) \<Longrightarrow> distinct ys \<Longrightarrow>
   \<exists>T. fold_opt (set_main_one n) (map TaskSub ys) s = Some (s\<lparr>tasks := T\<rparr>) \<and>
     (\<forall>y\<in>set ys. sub_ok tf n y T) \<and> (\<forall>x. x \<notin> set ys \<longrightarrow> T x = tasks s x)"
proof (induction ys arbitrary: s)
  case Nil
  then show ?case by (intro exI [of _ "tasks s"]) simp
next
  case (Cons y ys)
  have y: "sub_ok tf k y (tasks s)" by (rule Cons.prems(1)) simp
  obtain r where r: "tasks s y = Some r" "tword r = tf OR 1" "main_task r = k"
    by (rule sub_okE [OF y], rule that)
  let ?s = "s\<lparr>tasks := (tasks s)(y \<mapsto> r\<lparr>main_task := n\<rparr>)\<rparr>"
  have "sub_ok tf k z (tasks ?s)" if "z \<in> set ys" for z
  proof -
    have "z \<noteq> y" using Cons.prems(2) that by auto
    with Cons.prems(1) [of z] that show ?thesis by simp
  qed
  moreover have "distinct ys" using Cons.prems(2) by simp
  ultimately obtain T where T: "fold_opt (set_main_one n) (map TaskSub ys) ?s = Some (?s\<lparr>tasks := T\<rparr>)"
    "\<forall>y\<in>set ys. sub_ok tf n y T" "\<forall>x. x \<notin> set ys \<longrightarrow> T x = tasks ?s x"
    using Cons.IH [of ?s] by blast
  have "sub_ok tf n y T"
    using T(3) Cons.prems(2) r by (simp add: sub_ok_def)
  moreover have "T x = tasks s x" if "x \<notin> set (y # ys)" for x using T(3) that by simp
  moreover have "set_main_one n (TaskSub y) s = Some ?s"
    using r(1) by (simp add: set_main_one_def upd_task_def)
  ultimately show ?case using T(1,2) by (intro exI [of _ T]) simp
qed

lemma set_main_loop:
  assumes c: "clist (tlh s) AddingList (map TaskSub ys)"
    and ok: "\<And>y. y \<in> set ys \<Longrightarrow> sub_ok tf k y (tasks s)"
  obtains T where "list_for_each tlh (set_main_one n) AddingList s = Some (s\<lparr>tasks := T\<rparr>)"
    "\<forall>y\<in>set ys. sub_ok tf n y T" "\<forall>x. x \<notin> set ys \<longrightarrow> T x = tasks s x"
proof -
  have d: "distinct ys" using clist_distinct [OF c] by (simp add: distinct_map)
  have "list_for_each tlh (set_main_one n) AddingList s = fold_opt (set_main_one n) (map TaskSub ys) s"
  proof (rule list_for_each_fold [where I = "\<lambda>s'. tlh s' = tlh s"])
    show "nexts (tlh s') (AddingList # map TaskSub ys @ [AddingList])" if "tlh s' = tlh s" for s'
      using clist_nexts [OF c] that by simp
    show "tlh s2 = tlh s" if "x \<in> set (map TaskSub ys)" "tlh s1 = tlh s" "set_main_one n x s1 = Some s2" for x s1 s2
      using that by (auto simp: set_main_one_def upd_task_def bind_Some_iff)
  qed auto
  moreover have "\<exists>T. fold_opt (set_main_one n) (map TaskSub ys) s = Some (s\<lparr>tasks := T\<rparr>) \<and>
     (\<forall>y\<in>set ys. sub_ok tf n y T) \<and> (\<forall>x. x \<notin> set ys \<longrightarrow> T x = tasks s x)"
    by (rule set_main_fold [OF ok d])
  ultimately show ?thesis using that by auto
qed

text \<open>The tasks become sub tasks of the main task \<open>n\<close>, before or after its own.\<close>

lemma adopt:
  assumes l: "limbo tf (A @ (n, ns) # B) ys s"
    and op: "\<And>h R. rings h ((TaskSub n, map TaskSub ns) # (AddingList, map TaskSub ys) # R) \<Longrightarrow>
      \<exists>h'. op AddingList (TaskSub n) h = Some h' \<and> rings h' ((TaskSub n, map TaskSub zs) # R)"
    and zs: "mset zs = mset ys + mset ns"
  shows "\<exists>s'. do {
      s \<leftarrow> list_for_each tlh (set_main_one n) AddingList s;
      s \<leftarrow> with_tlh (op AddingList (TaskSub n)) s;
      upd_task n (\<lambda>r. r\<lparr>nr_sub_task := nr_sub_task r + of_nat (length ys)\<rparr>) s } = Some s' \<and>
    forest_ok tf (A @ (n, zs) # B) (drop_heads [AddingList, NewAddingList] s') \<and> same_trace s s'"
proof -
  let ?F = "A @ (n, zs) # B"
  note o = limboD [OF l]
  have zset: "set zs = set ys \<union> set ns" "length zs = length ys + length ns"
    using zs by (metis set_mset_mset set_mset_union, metis size_mset size_union)
  have dist: "distinct (0 # tids ?F)"
    using o(2) mset_eq_imp_distinct_iff [of "0 # tids ?F" "0 # ys @ tids (A @ (n, ns) # B)"] zs by simp
  have d: "n \<notin> set ys" "n \<notin> set zs" "n \<notin> set (tids (A @ B))" "set ys \<inter> set (tids (A @ (n, ns) # B)) = {}"
    using dist o(2) zset(1) by auto
  have c: "clist (tlh s) AddingList (map TaskSub ys)" by (rule rings_clist [OF o(1)]) simp
  obtain T where T: "list_for_each tlh (set_main_one n) AddingList s = Some (s\<lparr>tasks := T\<rparr>)"
    "\<forall>y\<in>set ys. sub_ok tf n y T" "\<forall>x. x \<notin> set ys \<longrightarrow> T x = tasks s x"
    by (rule set_main_loop [OF c, of tf 0 n]) (use o(4) in blast, rule that)
  have T_ok: "tasks_ok tf (A @ (n, ns) # B) T"
    by (rule tasks_ok_cong [OF _ o(3)]) (use T(3) d(4) in blast)
  have n: "main_ok tf n (length ns) T" using T_ok by simp
  obtain rn where rn: "T n = Some rn" "tword rn = tf" "main_task rn = 0" "nr_sub_task rn = of_nat (Suc (length ns))"
    by (rule main_okE [OF n], rule that)
  let ?R = "(TfHead tf, mains ?F) # map (\<lambda>x. (TaskMain x, [])) (ys @ ns) @ body_rings (A @ B)"
  have R0: "rings (tlh s) ((TaskSub n, map TaskSub ns) # (AddingList, map TaskSub ys) # ?R)"
    by (rule rings_perm [OF o(1)]) (simp add: forest_rings_def)
  obtain h where h: "op AddingList (TaskSub n) (tlh s) = Some h" "rings h ((TaskSub n, map TaskSub zs) # ?R)"
    using op [OF R0] that by blast
  have "mset (map (\<lambda>x. (TaskMain x, [] :: tf_addr list)) zs) =
      image_mset (\<lambda>x. (TaskMain x, [])) (mset ys + mset ns)"
    using zs by (simp only: mset_map)
  then have "rings h (forest_rings tf ?F)"
    by (intro rings_perm [OF h(2)]) (simp add: forest_rings_def)
  then have h2: "rings (tlh (drop_heads [AddingList, NewAddingList] (s\<lparr>tlh := h\<rparr>))) (forest_rings tf ?F)"
    by (intro new_heads_rings(2)) (auto simp: forest_rings_nodes)
  let ?T = "T(n \<mapsto> rn\<lparr>nr_sub_task := nr_sub_task rn + of_nat (length ys)\<rparr>)"
  let ?s = "s\<lparr>tlh := h, tasks := ?T\<rparr>"
  have run: "do {
      s \<leftarrow> list_for_each tlh (set_main_one n) AddingList s;
      s \<leftarrow> with_tlh (op AddingList (TaskSub n)) s;
      upd_task n (\<lambda>r. r\<lparr>nr_sub_task := nr_sub_task r + of_nat (length ys)\<rparr>) s } = Some ?s"
    using T(1) h(1) rn(1) by (simp add: with_tlh_def upd_task_def)
  have "\<forall>x\<in>set zs. sub_ok tf n x T" using T(2) T_ok zset(1) by auto
  then have tasks: "tasks_ok tf ?F ?T" using T_ok d rn zset(2) by (simp add: ac_simps)
  have same: "tlh (drop_heads [AddingList, NewAddingList] ?s) = tlh (drop_heads [AddingList, NewAddingList] (s\<lparr>tlh := h\<rparr>))"
    by (simp add: drop_heads_def)
  have "forest_ok tf ?F (drop_heads [AddingList, NewAddingList] ?s)"
    using h2 dist tasks o(5) zset(2) unfolding forest_ok_def same by (simp add: flow_ok_def ac_simps)
  then show ?thesis by (intro exI [of _ ?s] conjI run) simp_all
qed

lemma splice_op:
  "rings h ((l, xs) # (a, ys) # R) \<Longrightarrow> \<exists>h'. mthpc_list_splice a l h = Some h' \<and> rings h' ((l, ys @ xs) # R)"
  "rings h ((l, xs) # (a, ys) # R) \<Longrightarrow> \<exists>h'. mthpc_list_splice_tail a l h = Some h' \<and> rings h' ((l, xs @ ys) # R)"
  using rings_splice [of h l xs a ys R] rings_splice_tail [of h l xs a ys R] by metis+

lemma rings_rotate: "rings h ((l, as @ x # bs) # R) \<Longrightarrow> rings h ((x, bs @ l # as) # R)"
  using clist_rotate [of h l as x bs] by (auto simp: rings_Cons)

text \<open>
  At an end of the main list every task taken out becomes a main task, but only the first
  is made one: the others keep their flag, and the first counts them all.
\<close>

definition end_moved :: "u64 \<Rightarrow> forest \<Rightarrow> nat \<Rightarrow> nat list \<Rightarrow> forest \<Rightarrow> tf_sys \<Rightarrow> bool" where
  "end_moved tf F y ys G s \<longleftrightarrow> rings (tlh s) (forest_rings tf G) \<and> distinct (0 # tids G) \<and>
     tasks_ok tf F (tasks s) \<and> main_ok tf y (length ys) (tasks s) \<and>
     (\<forall>x\<in>set ys. sub_ok tf 0 x (tasks s)) \<and> flow_ok tf (length (tids G)) s"

definition flat :: "nat list \<Rightarrow> forest" where
  "flat ys = map (\<lambda>y. (y, [])) ys"

lemma flat_simps [simp]:
  "tids (flat ys) = ys" "mains (flat ys) = map TaskMain ys" "subs_of (flat ys) = []"
  "body_rings (flat ys) = map (\<lambda>y. (TaskSub y, [])) ys" "length (flat ys) = length ys"
  by (induction ys) (auto simp: flat_def)

lemma forest_mset:
  "mset (body_rings F) = (\<Sum>p\<in>#mset F. mset (body_rings [p]))"
  "mset (tids F) = (\<Sum>p\<in>#mset F. mset (tids [p]))"
  by (induction F) (simp_all add: body_rings_def tids_def)

lemma promote:
  assumes l: "limbo tf F (y # ys) s"
    and G: "mset G = mset (F @ flat (y # ys))"
    and op: "\<And>h R. rings h ((TfHead tf, mains F) # (NewAddingList, map TaskMain (y # ys)) # R) \<Longrightarrow>
      \<exists>h'. op NewAddingList (TaskMain m) h = Some h' \<and> rings h' ((TfHead tf, mains G) # R)"
  shows "\<exists>s'. do {
      s \<leftarrow> new_main_tasks (of_nat (length (y # ys))) s;
      with_tlh (op NewAddingList (TaskMain m)) s } = Some s' \<and>
    end_moved tf F y ys G (drop_heads [AddingList, NewAddingList] s') \<and> same_trace s s'"
proof -
  note o = limboD [OF l]
  obtain h r where h: "tasks s y = Some r" "tword r = tf OR 1" "main_task r = 0"
    "new_main_tasks (of_nat (length (y # ys))) s = Some (s\<lparr>tlh := h,
      tasks := (tasks s)(y \<mapsto> r\<lparr>tword := tf, nr_sub_task := of_nat (length (y # ys))\<rparr>)\<rparr>)"
    "rings h ((NewAddingList, map TaskMain (y # ys)) # (AddingList, []) #
      map (\<lambda>x. (TaskSub x, [])) (y # ys) @ forest_rings tf F)"
    by (rule new_main_tasks_ok [OF l], rule that)
  let ?R = "(AddingList, []) # map (\<lambda>x. (TaskSub x, [])) (y # ys) @ body_rings F"
  have R0: "rings h ((TfHead tf, mains F) # (NewAddingList, map TaskMain (y # ys)) # ?R)"
    by (rule rings_perm [OF h(5)]) (simp add: forest_rings_def)
  obtain h' where h': "op NewAddingList (TaskMain m) h = Some h'" "rings h' ((TfHead tf, mains G) # ?R)"
    using op [OF R0] that by blast
  have "mset (body_rings G) = mset (body_rings (F @ flat (y # ys)))"
    by (simp only: forest_mset(1) [of G] forest_mset(1) [of "F @ flat (y # ys)"] G)
  then have "mset ((AddingList, []) # forest_rings tf G) = mset ((TfHead tf, mains G) # ?R)"
    by (simp add: forest_rings_def)
  then have "rings h' ((AddingList, []) # forest_rings tf G)"
    by (intro rings_perm [OF h'(2)]) simp
  then have "rings h' (forest_rings tf G)" by (simp only: rings_Cons)
  then have h2: "rings (tlh (drop_heads [AddingList, NewAddingList] (s\<lparr>tlh := h'\<rparr>))) (forest_rings tf G)"
    by (intro new_heads_rings(2)) (auto simp: forest_rings_nodes)
  let ?T = "(tasks s)(y \<mapsto> r\<lparr>tword := tf, nr_sub_task := of_nat (length (y # ys))\<rparr>)"
  let ?s = "s\<lparr>tlh := h', tasks := ?T\<rparr>"
  have run: "do {
      s \<leftarrow> new_main_tasks (of_nat (length (y # ys))) s;
      with_tlh (op NewAddingList (TaskMain m)) s } = Some ?s"
    using h(4) h'(1) by (simp add: with_tlh_def)
  have same: "tlh (drop_heads [AddingList, NewAddingList] ?s) = tlh (drop_heads [AddingList, NewAddingList] (s\<lparr>tlh := h'\<rparr>))"
    by (simp add: drop_heads_def)
  have ids: "mset (tids G) = mset (tids (F @ flat (y # ys)))"
    by (simp only: forest_mset(2) [of G] forest_mset(2) [of "F @ flat (y # ys)"] G)
  have "flow_ok tf (length (tids G)) s" using o(5) mset_eq_length [OF ids] by (simp add: ac_simps)
  moreover have "distinct (0 # tids G)"
    using o(2) mset_eq_imp_distinct_iff [of "0 # tids G" "0 # (y # ys) @ tids F"] ids
    by (simp add: ac_simps)
  ultimately have "end_moved tf F y ys G (drop_heads [AddingList, NewAddingList] ?s)"
    using h2 o(2,3,4) h(1-3) unfolding end_moved_def same by (simp add: flow_ok_def)
  then show ?thesis by (intro exI [of _ ?s] conjI run) simp_all
qed


section \<open>Succeed and precede\<close>

lemma task_parent:
  assumes ok: "forest_ok tf F s" and m: "(m, ss) \<in> set F" "task \<in> set (m # ss)"
  obtains r where "tasks s task = Some r" "mthpc_get_taskflow (tword r) = tf"
    "(if mthpc_is_sub_task (tword r) \<noteq> 0 then main_task r else task) = m"
proof -
  have t: "main_ok tf m (length ss) (tasks s)" "\<forall>x\<in>set ss. sub_ok tf m x (tasks s)" "tf AND 1 = 0"
    using ok m(1) by (auto simp: forest_ok_def tasks_ok_def flow_ok_def)
  show ?thesis
  proof (cases "task = m")
    case True
    obtain r where "tasks s m = Some r" "tword r = tf" by (rule main_okE [OF t(1)], rule that)
    with True t(3) that show ?thesis by simp
  next
    case False
    then have "sub_ok tf m task (tasks s)" using m(2) t(2) by simp
    then obtain r where "tasks s task = Some r" "tword r = tf OR 1" "main_task r = m"
      by (rule sub_okE)
    with t(3) that show ?thesis by simp
  qed
qed

lemma take_out_length: "take_out news (F, xs) = Some (F', ys) \<Longrightarrow> length ys = length news + length xs"
  by (induction news arbitrary: F xs) (auto split: if_splits)

lemma main_neighbours:
  assumes "rings h (forest_rings tf (A @ (m, ss) # B))"
  shows "ld_next h (TaskMain m) = Some (case B of [] \<Rightarrow> TfHead tf | (n, _) # _ \<Rightarrow> TaskMain n)"
    "ld_prev h (TaskMain m) = Some (last (TfHead tf # mains A))"
proof -
  have "clist h (TfHead tf) (mains A @ TaskMain m # mains B)"
    by (rule rings_clist [OF assms]) (simp add: forest_rings_def)
  then have c: "clist h (TaskMain m) (mains B @ TfHead tf # mains A)" by (rule clist_rotate)
  show "ld_next h (TaskMain m) = Some (case B of [] \<Rightarrow> TfHead tf | (n, _) # _ \<Rightarrow> TaskMain n)"
    using clist_next [OF c] by (cases B) (auto split: list.splits)
  show "ld_prev h (TaskMain m) = Some (last (TfHead tf # mains A))"
    using clist_prev [OF c] by simp
qed

lemma limbo_neighbours:
  assumes l: "limbo tf (A @ (m, ss) # B) ys s"
  shows "ld_next (tlh s) (TaskMain m) = Some (case B of [] \<Rightarrow> TfHead tf | (n, _) # _ \<Rightarrow> TaskMain n)"
    "ld_prev (tlh s) (TaskMain m) = Some (last (TfHead tf # mains A))"
proof -
  have "rings (tlh s) (forest_rings tf (A @ (m, ss) # B))"
    using limboD(1) [OF l] by (auto simp: rings_def)
  then show "ld_next (tlh s) (TaskMain m) = Some (case B of [] \<Rightarrow> TfHead tf | (n, _) # _ \<Rightarrow> TaskMain n)"
    "ld_prev (tlh s) (TaskMain m) = Some (last (TfHead tf # mains A))"
    by (rule main_neighbours)+
qed

lemma succeed_inner:
  assumes ok: "forest_ok tf F s" and m: "(m, ss0) \<in> set F" "task \<in> set (m # ss0)"
    and out: "take_out news (F, []) = Some (A @ (m, ss) # (n, ns) # B, ys)" and ne: "news \<noteq> []"
  shows "\<exists>s'. taskflow_succeed task news s = Some s' \<and>
    forest_ok tf (A @ (m, ss) # (n, ys @ ns) # B) s' \<and> same_trace s s'"
proof -
  obtain r where r: "tasks s task = Some r" "mthpc_get_taskflow (tword r) = tf"
    "(if mthpc_is_sub_task (tword r) \<noteq> 0 then main_task r else task) = m"
    by (rule task_parent [OF ok m], rule that)
  obtain s1 where s1: "mthpc_taskflow_rlist_del news (new_heads [AddingList, NewAddingList] s) = Some s1"
    "limbo tf (A @ (m, ss) # (n, ns) # B) ys s1" "same_trace s s1"
    by (rule taskflow_rlist_del_ok [OF ok out], rule that)
  have l: "limbo tf ((A @ [(m, ss)]) @ (n, ns) # B) ys s1" using s1(2) by simp
  have len: "length news = length ys" using take_out_length [OF out] by simp
  have op: "\<exists>h'. mthpc_list_splice AddingList (TaskSub n) h = Some h' \<and>
      rings h' ((TaskSub n, map TaskSub (ys @ ns)) # R)"
    if "rings h ((TaskSub n, map TaskSub ns) # (AddingList, map TaskSub ys) # R)" for h R
    using splice_op(1) [OF that] by simp
  obtain s2 where s2: "do {
      s \<leftarrow> list_for_each tlh (set_main_one n) AddingList s1;
      s \<leftarrow> with_tlh (mthpc_list_splice AddingList (TaskSub n)) s;
      upd_task n (\<lambda>r. r\<lparr>nr_sub_task := nr_sub_task r + of_nat (length ys)\<rparr>) s } = Some s2"
    "forest_ok tf ((A @ [(m, ss)]) @ (n, ys @ ns) # B) (drop_heads [AddingList, NewAddingList] s2)"
    "same_trace s1 s2"
    using adopt [where op = mthpc_list_splice and zs = "ys @ ns", OF l op] by auto
  have "taskflow_succeed task news s = Some (drop_heads [AddingList, NewAddingList] s2)"
    using r s1(1) s2(1) limbo_neighbours(1) [OF s1(2)] ne len
    by (simp add: taskflow_succeed_def Let_def)
  with s2(2,3) same_trace_trans [OF s1(3) s2(3)] show ?thesis by simp
qed

lemma succeed_last:
  assumes ok: "forest_ok tf F s" and m: "(m, ss0) \<in> set F" "task \<in> set (m # ss0)"
    and out: "take_out news (F, []) = Some (A @ [(m, ss)], y # ys)"
  shows "\<exists>s'. taskflow_succeed task news s = Some s' \<and>
    end_moved tf (A @ [(m, ss)]) y ys ((A @ [(m, ss)]) @ flat (y # ys)) s' \<and> same_trace s s'"
proof -
  obtain r where r: "tasks s task = Some r" "mthpc_get_taskflow (tword r) = tf"
    "(if mthpc_is_sub_task (tword r) \<noteq> 0 then main_task r else task) = m"
    by (rule task_parent [OF ok m], rule that)
  obtain s1 where s1: "mthpc_taskflow_rlist_del news (new_heads [AddingList, NewAddingList] s) = Some s1"
    "limbo tf (A @ [(m, ss)]) (y # ys) s1" "same_trace s s1"
    by (rule taskflow_rlist_del_ok [OF ok out], rule that)
  have len: "length news = length (y # ys)" using take_out_length [OF out] by simp
  have op: "\<exists>h'. mthpc_list_splice NewAddingList (TaskMain m) h = Some h' \<and>
      rings h' ((TfHead tf, mains ((A @ [(m, ss)]) @ flat (y # ys))) # R)"
    if R: "rings h ((TfHead tf, mains (A @ [(m, ss)])) # (NewAddingList, map TaskMain (y # ys)) # R)" for h R
  proof -
    have "rings h ((TaskMain m, TfHead tf # mains A) # (NewAddingList, map TaskMain (y # ys)) # R)"
      using rings_rotate [of h "TfHead tf" "mains A" "TaskMain m" "[]"] R by simp
    from splice_op(1) [OF this] obtain h' where h': "mthpc_list_splice NewAddingList (TaskMain m) h = Some h'"
      "rings h' ((TaskMain m, map TaskMain (y # ys) @ TfHead tf # mains A) # R)" by blast
    from rings_rotate [OF h'(2)] h'(1) show ?thesis by simp
  qed
  obtain s2 where s2: "do {
      s \<leftarrow> new_main_tasks (of_nat (length (y # ys))) s1;
      with_tlh (mthpc_list_splice NewAddingList (TaskMain m)) s } = Some s2"
    "end_moved tf (A @ [(m, ss)]) y ys ((A @ [(m, ss)]) @ flat (y # ys)) (drop_heads [AddingList, NewAddingList] s2)"
    "same_trace s1 s2"
    using promote [where op = mthpc_list_splice and m = m, OF s1(2) _ op] by auto
  have "news \<noteq> []" using len by auto
  then have "taskflow_succeed task news s = Some (drop_heads [AddingList, NewAddingList] s2)"
    using r s1(1) s2(1) limbo_neighbours(1) [OF s1(2)] len
    by (simp add: taskflow_succeed_def Let_def)
  with s2(2,3) same_trace_trans [OF s1(3) s2(3)] show ?thesis by simp
qed

lemma precede_inner:
  assumes ok: "forest_ok tf F s" and m: "(m, ss0) \<in> set F" "task \<in> set (m # ss0)"
    and out: "take_out news (F, []) = Some (A @ (n, ns) # (m, ss) # B, ys)" and ne: "news \<noteq> []"
  shows "\<exists>s'. taskflow_precede task news s = Some s' \<and>
    forest_ok tf (A @ (n, ns @ ys) # (m, ss) # B) s' \<and> same_trace s s'"
proof -
  obtain r where r: "tasks s task = Some r" "mthpc_get_taskflow (tword r) = tf"
    "(if mthpc_is_sub_task (tword r) \<noteq> 0 then main_task r else task) = m"
    by (rule task_parent [OF ok m], rule that)
  obtain s1 where s1: "mthpc_taskflow_rlist_del news (new_heads [AddingList, NewAddingList] s) = Some s1"
    "limbo tf (A @ (n, ns) # (m, ss) # B) ys s1" "same_trace s s1"
    by (rule taskflow_rlist_del_ok [OF ok out], rule that)
  have l: "limbo tf ((A @ [(n, ns)]) @ (m, ss) # B) ys s1" using s1(2) by simp
  have len: "length news = length ys" using take_out_length [OF out] by simp
  have op: "\<exists>h'. mthpc_list_splice_tail AddingList (TaskSub n) h = Some h' \<and>
      rings h' ((TaskSub n, map TaskSub (ns @ ys)) # R)"
    if "rings h ((TaskSub n, map TaskSub ns) # (AddingList, map TaskSub ys) # R)" for h R
    using splice_op(2) [OF that] by simp
  obtain s2 where s2: "do {
      s \<leftarrow> list_for_each tlh (set_main_one n) AddingList s1;
      s \<leftarrow> with_tlh (mthpc_list_splice_tail AddingList (TaskSub n)) s;
      upd_task n (\<lambda>r. r\<lparr>nr_sub_task := nr_sub_task r + of_nat (length ys)\<rparr>) s } = Some s2"
    "forest_ok tf (A @ (n, ns @ ys) # (m, ss) # B) (drop_heads [AddingList, NewAddingList] s2)"
    "same_trace s1 s2"
    using adopt [where op = mthpc_list_splice_tail and zs = "ns @ ys", OF s1(2) op] by auto
  have "taskflow_precede task news s = Some (drop_heads [AddingList, NewAddingList] s2)"
    using r s1(1) s2(1) limbo_neighbours(2) [OF l] ne len
    by (simp add: taskflow_precede_def Let_def)
  with s2(2,3) same_trace_trans [OF s1(3) s2(3)] show ?thesis by simp
qed

lemma precede_first:
  assumes ok: "forest_ok tf F s" and m: "(m, ss0) \<in> set F" "task \<in> set (m # ss0)"
    and out: "take_out news (F, []) = Some ((m, ss) # B, y # ys)"
  shows "\<exists>s'. taskflow_precede task news s = Some s' \<and>
    end_moved tf ((m, ss) # B) y ys (flat (y # ys) @ (m, ss) # B) s' \<and> same_trace s s'"
proof -
  obtain r where r: "tasks s task = Some r" "mthpc_get_taskflow (tword r) = tf"
    "(if mthpc_is_sub_task (tword r) \<noteq> 0 then main_task r else task) = m"
    by (rule task_parent [OF ok m], rule that)
  obtain s1 where s1: "mthpc_taskflow_rlist_del news (new_heads [AddingList, NewAddingList] s) = Some s1"
    "limbo tf ((m, ss) # B) (y # ys) s1" "same_trace s s1"
    by (rule taskflow_rlist_del_ok [OF ok out], rule that)
  have len: "length news = length (y # ys)" using take_out_length [OF out] by simp
  have op: "\<exists>h'. mthpc_list_splice_tail NewAddingList (TaskMain m) h = Some h' \<and>
      rings h' ((TfHead tf, mains (flat (y # ys) @ (m, ss) # B)) # R)"
    if R: "rings h ((TfHead tf, mains ((m, ss) # B)) # (NewAddingList, map TaskMain (y # ys)) # R)" for h R
  proof -
    have "rings h ((TaskMain m, mains B @ [TfHead tf]) # (NewAddingList, map TaskMain (y # ys)) # R)"
      using rings_rotate [of h "TfHead tf" "[]" "TaskMain m" "mains B"] R by simp
    from splice_op(2) [OF this] obtain h' where h': "mthpc_list_splice_tail NewAddingList (TaskMain m) h = Some h'"
      "rings h' ((TaskMain m, mains B @ TfHead tf # map TaskMain (y # ys)) # R)" by auto
    from rings_rotate [of h' "TaskMain m" "mains B" "TfHead tf" "map TaskMain (y # ys)"] h' show ?thesis by simp
  qed
  obtain s2 where s2: "do {
      s \<leftarrow> new_main_tasks (of_nat (length (y # ys))) s1;
      with_tlh (mthpc_list_splice_tail NewAddingList (TaskMain m)) s } = Some s2"
    "end_moved tf ((m, ss) # B) y ys (flat (y # ys) @ (m, ss) # B) (drop_heads [AddingList, NewAddingList] s2)"
    "same_trace s1 s2"
    using promote [where op = mthpc_list_splice_tail and m = m, OF s1(2) _ op] by auto
  have "news \<noteq> []" using len by auto
  then have "taskflow_precede task news s = Some (drop_heads [AddingList, NewAddingList] s2)"
    using r s1(1) s2(1) limbo_neighbours(2) [of tf "[]" m ss B "y # ys" s1] s1(2) len
    by (simp add: taskflow_precede_def Let_def)
  with s2(2,3) same_trace_trans [OF s1(3) s2(3)] show ?thesis by simp
qed


section \<open>Building a taskflow\<close>

text \<open>A client that creates each main task and then its sub tasks; \<open>call t\<close> is the function and
  the argument of task \<open>t\<close>.\<close>

definition create_subs :: "(nat \<Rightarrow> nat \<times> nat) \<Rightarrow> nat \<Rightarrow> nat list \<Rightarrow> tf_sys \<Rightarrow> tf_sys option" where
  "create_subs call m = fold_opt (\<lambda>t s. map_option snd (mthpc_sub_task_create t m (fst (call t)) (snd (call t)) s))"

definition create_group :: "u64 \<Rightarrow> (nat \<Rightarrow> nat \<times> nat) \<Rightarrow> nat \<times> nat list \<Rightarrow> tf_sys \<Rightarrow> tf_sys option" where
  "create_group tf call g s = do {
     (m, s) \<leftarrow> mthpc_task_create (fst g) tf (fst (call (fst g))) (snd (call (fst g))) s;
     create_subs call m (snd g) s }"

definition create_taskflow :: "u64 \<Rightarrow> completion \<Rightarrow> (nat \<Rightarrow> nat \<times> nat) \<Rightarrow> forest \<Rightarrow> tf_sys \<Rightarrow> tf_sys option" where
  "create_taskflow tf junk call F s = do {
     (p, s) \<leftarrow> mthpc_taskflow_create tf junk s;
     fold_opt (create_group p call) F s }"

lemma create_subs_ok:
  "forest_ok tf (A @ [(m, ss)]) s \<Longrightarrow> distinct (0 # tids A @ m # ss @ ts) \<Longrightarrow>
   \<exists>s'. create_subs call m ts s = Some s' \<and> forest_ok tf (A @ [(m, ss @ ts)]) s' \<and> same_trace s s'"
proof (induction ts arbitrary: ss s)
  case (Cons t ts)
  have "t \<notin> set (0 # tids (A @ [(m, ss)]))" using Cons.prems(2) by auto
  then obtain s1 where s1: "mthpc_sub_task_create t m (fst (call t)) (snd (call t)) s = Some (t, s1)"
    "forest_ok tf (A @ [(m, ss @ [t])]) s1" "same_trace s s1"
    using sub_task_create_forest [OF Cons.prems(1), of t "fst (call t)" "snd (call t)"]
    by (auto simp: same_trace_def)
  have "distinct (0 # tids A @ m # (ss @ [t]) @ ts)" using Cons.prems(2) by simp
  then obtain s2 where "create_subs call m ts s1 = Some s2" "forest_ok tf (A @ [(m, (ss @ [t]) @ ts)]) s2"
    "same_trace s1 s2"
    using Cons.IH [OF s1(2)] by blast
  with s1 same_trace_trans [OF s1(3)] show ?case by (auto simp: create_subs_def)
qed (simp add: create_subs_def)

lemma create_groups_ok:
  "forest_ok tf A s \<Longrightarrow> distinct (0 # tids (A @ F)) \<Longrightarrow>
   \<exists>s'. fold_opt (create_group tf call) F s = Some s' \<and> forest_ok tf (A @ F) s' \<and> same_trace s s'"
proof (induction F arbitrary: A s)
  case (Cons g F)
  obtain m ss where g: "g = (m, ss)" by (cases g)
  have "m \<notin> set (0 # tids A)" using Cons.prems(2) g by auto
  then obtain s1 where s1: "mthpc_task_create m tf (fst (call m)) (snd (call m)) s = Some (m, s1)"
    "forest_ok tf (A @ [(m, [])]) s1" "same_trace s s1"
    using task_create_forest [OF Cons.prems(1), of m "fst (call m)" "snd (call m)"]
    by (auto simp: same_trace_def)
  have "distinct (0 # tids A @ m # [] @ ss)" using Cons.prems(2) g by auto
  then obtain s2 where s2: "create_subs call m ss s1 = Some s2" "forest_ok tf (A @ [(m, [] @ ss)]) s2"
    "same_trace s1 s2"
    using create_subs_ok [OF s1(2)] by blast
  have "distinct (0 # tids ((A @ [g]) @ F))" using Cons.prems(2) by simp
  then obtain s3 where "fold_opt (create_group tf call) F s2 = Some s3" "forest_ok tf ((A @ [g]) @ F) s3"
    "same_trace s2 s3"
    using Cons.IH [of "A @ [g]" s2] s2(2) g by auto
  moreover have "create_group tf call g s = Some s2" using s1(1) s2(1) g by (simp add: create_group_def)
  ultimately show ?case using same_trace_trans [OF same_trace_trans [OF s1(3) s2(3)]] by auto
qed simp

lemma create_taskflow_ok:
  assumes tf: "tf \<noteq> 0" "tf AND 1 = 0" and d: "distinct (0 # tids F)"
  shows "\<exists>s'. create_taskflow tf junk call F s = Some s' \<and> forest_ok tf F s' \<and> same_trace s s'"
proof -
  let ?s = "new_heads [TfHead tf] s"
  have R: "rings (tlh ?s) []" "TfHead tf \<in> dom (tlh ?s)" "TfHead tf \<notin> set (ring_nodes [])"
    by (simp_all add: rings_def new_heads_tlh(2) del: domIff)
  obtain h where h: "mthpc_list_init (TfHead tf) (tlh ?s) = Some h" "rings h [(TfHead tf, [])]"
    by (rule rings_init [OF R], rule that)
  let ?s1 = "?s\<lparr>tlh := h, flows := (flows s)(tf \<mapsto> \<lparr>nr_task = 0, tf_compl = mthpc_completion_init junk 0\<rparr>)\<rparr>"
  have create: "mthpc_taskflow_create tf junk s = Some (tf, ?s1)"
    using tf h(1) by (simp add: mthpc_taskflow_create_def with_tlh_def)
  have "forest_ok tf [] ?s1"
    using h(2) tf by (simp add: forest_ok_def forest_rings_def flow_ok_def)
  from create_groups_ok [OF this, of F call] d obtain s' where
    "fold_opt (create_group tf call) F ?s1 = Some s'" "forest_ok tf F s'" "same_trace s s'"
    by auto
  with create show ?thesis by (simp add: create_taskflow_def)
qed

definition no_tasks :: tf_sys where
  "no_tasks = \<lparr>tasks = Map.empty, flows = Map.empty, tlh = Map.empty, tf_log = [], tf_warned = 0\<rparr>"

lemma forest_example: "distinct (0 # tids F) \<Longrightarrow> \<exists>s. forest_ok 8 F s \<and> same_trace no_tasks s"
  using create_taskflow_ok [of 8 F _ "\<lambda>_. (0, 0)" no_tasks] by auto

text \<open>
  C12. Building a taskflow: creating a taskflow at an even address and then any forest of main
  tasks with their sub tasks yields exactly that forest: the rings of the list heads, the tag
  words, the parent pointers, the counter of each main task and the number of tasks.
\<close>

theorem taskflow_build:
  assumes "tf \<noteq> 0" "tf AND 1 = 0" "distinct (0 # tids F)"
  shows "\<exists>s'. create_taskflow tf junk call F s = Some s' \<and> forest_ok tf F s' \<and>
    tf_log s' = tf_log s \<and> tf_warned s' = tf_warned s"
  using create_taskflow_ok [OF assms, of junk call s] by (auto simp: same_trace_def)

lemma taskflow_build_witness:
  "\<exists>s'. create_taskflow 8 \<lparr>cnt = 3, nr = 4\<rparr> (\<lambda>t. (t, t)) [(1, [2, 3]), (4, [])] no_tasks = Some s' \<and>
    forest_ok 8 [(1, [2, 3]), (4, [])] s'"
  using taskflow_build [of 8 "[(1, [2, 3]), (4, [])]" "\<lparr>cnt = 3, nr = 4\<rparr>" "\<lambda>t. (t, t)" no_tasks] by auto

section \<open>Moving tasks\<close>

fun put_first :: "nat list \<Rightarrow> forest \<Rightarrow> forest" where
  "put_first ys [] = flat ys"
| "put_first ys ((n, ns) # B) = (n, ys @ ns) # B"

fun put_last :: "nat list \<Rightarrow> forest \<Rightarrow> forest" where
  "put_last ys [] = flat ys"
| "put_last ys [(n, ns)] = [(n, ns @ ys)]"
| "put_last ys (g # F) = g # put_last ys F"

lemma put_last_snoc: "put_last ys (A @ [(n, ns)]) = A @ [(n, ns @ ys)]"
  by (induction A rule: induct_list012) auto

lemma end_moved_one:
  assumes "end_moved tf F y [] G s" "set G = insert (y, []) (set F)"
  shows "forest_ok tf G s"
  using assms by (auto simp: end_moved_def forest_ok_def tasks_ok_def)

text \<open>
  C13. \<open>__mthpc_taskflow_succeed\<close> refines a move on forests: the tasks, each a sub
  task or a main task without sub tasks, leave their places and become the first sub tasks of
  the main task after the one given, or, when that is the last and one task is moved, a new
  last main task; the forest stays well formed.
\<close>

theorem succeed_forest:
  assumes ok: "forest_ok tf F s" and m: "(m, ss0) \<in> set F" "task \<in> set (m # ss0)"
    and out: "take_out news (F, []) = Some (A @ (m, ss) # B, ys)"
    and one: "B \<noteq> [] \<or> length news = 1" and ne: "news \<noteq> []"
  shows "\<exists>s'. taskflow_succeed task news s = Some s' \<and> forest_ok tf (A @ (m, ss) # put_first ys B) s' \<and>
    tf_log s' = tf_log s \<and> tf_warned s' = tf_warned s"
proof (cases B)
  case Nil
  then have "length ys = 1" using one take_out_length [OF out] by simp
  then obtain y where y: "ys = [y]" by (auto simp: length_Suc_conv)
  obtain s' where s': "taskflow_succeed task news s = Some s'"
    "end_moved tf (A @ [(m, ss)]) y [] ((A @ [(m, ss)]) @ flat [y]) s'" "same_trace s s'"
    using succeed_last [OF ok m, of news A ss y "[]"] out Nil y by auto
  have "forest_ok tf ((A @ [(m, ss)]) @ flat [y]) s'"
    by (rule end_moved_one [OF s'(2)]) (auto simp: flat_def)
  with s'(1,3) Nil y show ?thesis by (simp add: same_trace_def)
next
  case (Cons g B')
  obtain n ns where "g = (n, ns)" by (cases g)
  with Cons succeed_inner [OF ok m, of news A ss n ns B' ys] out ne show ?thesis
    by (auto simp: same_trace_def)
qed

text \<open>
  C14. \<open>__mthpc_taskflow_precede\<close> refines the mirror image: the tasks become the
  last sub tasks of the main task before the one given, or, when that is the first and one task
  is moved, a new first main task.
\<close>

theorem precede_forest:
  assumes ok: "forest_ok tf F s" and m: "(m, ss0) \<in> set F" "task \<in> set (m # ss0)"
    and out: "take_out news (F, []) = Some (A @ (m, ss) # B, ys)"
    and one: "A \<noteq> [] \<or> length news = 1" and ne: "news \<noteq> []"
  shows "\<exists>s'. taskflow_precede task news s = Some s' \<and> forest_ok tf (put_last ys A @ (m, ss) # B) s' \<and>
    tf_log s' = tf_log s \<and> tf_warned s' = tf_warned s"
proof (cases A rule: rev_cases)
  case Nil
  then have "length ys = 1" using one take_out_length [OF out] by simp
  then obtain y where y: "ys = [y]" by (auto simp: length_Suc_conv)
  obtain s' where s': "taskflow_precede task news s = Some s'"
    "end_moved tf ((m, ss) # B) y [] (flat [y] @ (m, ss) # B) s'" "same_trace s s'"
    using precede_first [OF ok m, of news ss B y "[]"] out Nil y by auto
  have "forest_ok tf (flat [y] @ (m, ss) # B) s'"
    by (rule end_moved_one [OF s'(2)]) (auto simp: flat_def)
  with s'(1,3) Nil y show ?thesis by (simp add: same_trace_def)
next
  case (snoc A' g)
  obtain n ns where "g = (n, ns)" by (cases g)
  with snoc precede_inner [OF ok m, of news A' n ns ss B ys] out ne show ?thesis
    by (auto simp: same_trace_def put_last_snoc)
qed

lemma succeed_forest_witness:
  "\<exists>s s'. forest_ok 8 [(1, []), (2, [3]), (4, [])] s \<and> taskflow_succeed 1 [3, 4] s = Some s' \<and>
    forest_ok 8 [(1, []), (2, [3, 4])] s'"
proof -
  obtain s where s: "forest_ok 8 [(1, []), (2, [3]), (4, [])] s"
    using forest_example [of "[(1, []), (2, [3]), (4, [])]"] by auto
  from succeed_forest [OF s, of 1 "[]" 1 "[3, 4]" "[]" "[]" "[(2, [])]" "[3, 4]"] s
  show ?thesis by auto
qed

lemma precede_forest_witness:
  "\<exists>s s'. forest_ok 8 [(1, []), (2, [3])] s \<and> taskflow_precede 1 [3] s = Some s' \<and>
    forest_ok 8 [(3, []), (1, []), (2, [])] s'"
proof -
  obtain s where s: "forest_ok 8 [(1, []), (2, [3])] s"
    using forest_example [of "[(1, []), (2, [3])]"] by auto
  from precede_forest [OF s, of 1 "[]" 1 "[3]" "[]" "[]" "[(2, [])]" "[3]"] s
  show ?thesis by (auto simp: flat_def)
qed

end
