(* ===== verification/Taskflow_Await.thy ===== *)
theory Taskflow_Await
  imports Taskflow_Props
begin

text \<open>
  Waiting for a taskflow. The waiter walks the main list; for each main task it arms the
  completion with the task's counter, hands the task and its sub tasks to the workqueue and
  waits. The facts about the completion come from the interpretation \<open>cl\<close> of the locale
  \<open>latch\<close>: a group returns when as many works finish as its counter says, and only then.
\<close>

section \<open>Scheduling a group\<close>

fun scheduled :: "u64 \<Rightarrow> nat list \<Rightarrow> tf_event list" where
  "scheduled c [] = []"
| "scheduled c (t # ts) = Scheduled (mthpc_taskflow_get_cpu c) t # scheduled (c + 1) ts"

fun ok_count :: "await_env \<Rightarrow> nat \<Rightarrow> nat list \<Rightarrow> nat" where
  "ok_count env i [] = 0"
| "ok_count env i (t # ts) = (if sched_ret env i = 0 then 1 else 0) + ok_count env (Suc i) ts"

lemma ok_count_le: "ok_count env i ts \<le> length ts"
  by (induction ts arbitrary: i) (auto intro: le_SucI)

lemma ok_count_all: "(\<And>j. sched_ret env j = 0) \<Longrightarrow> ok_count env i ts = length ts"
  by (induction ts arbitrary: i) auto

lemma ok_count_failed: "sched_ret env (i + j) \<noteq> 0 \<Longrightarrow> j < length ts \<Longrightarrow> ok_count env i ts < length ts"
proof (induction ts arbitrary: i j)
  case (Cons t ts)
  show ?case
  proof (cases j)
    case 0
    with Cons.prems ok_count_le [of env "Suc i" ts] show ?thesis by simp
  next
    case (Suc k)
    with Cons.IH [of "Suc i" k] Cons.prems show ?thesis by simp
  qed
qed simp

lemma schedule_fold:
  "fold (schedule_task env) ts a = a\<lparr>
     aw_sys := (aw_sys a)\<lparr>tf_log := tf_log (aw_sys a) @ scheduled (nr_completed_sub_task a) ts\<rparr>,
     accepted := accepted a + ok_count env (length (tf_log (aw_sys a))) ts,
     nr_completed_sub_task := nr_completed_sub_task a + of_nat (length ts)\<rparr>"
proof (induction ts arbitrary: a)
  case (Cons t ts)
  have "fold (schedule_task env) (t # ts) a = fold (schedule_task env) ts (schedule_task env t a)" by simp
  also note Cons.IH [of "schedule_task env t a"]
  finally show ?case by (simp only:) (simp add: schedule_task_def Let_def ac_simps)
qed simp

lemma await_sub_loop:
  assumes c: "clist (tlh (aw_sys a)) (TaskSub m) (map TaskSub ss)"
  shows "list_for_each (\<lambda>a. tlh (aw_sys a)) (await_sub env) (TaskSub m) a = Some (fold (schedule_task env) ss a)"
proof -
  have "list_for_each (\<lambda>a. tlh (aw_sys a)) (await_sub env) (TaskSub m) a =
      fold_opt (await_sub env) (map TaskSub ss) a"
  proof (rule list_for_each_fold [where I = "\<lambda>b. tlh (aw_sys b) = tlh (aw_sys a)"])
    show "nexts (tlh (aw_sys b)) (TaskSub m # map TaskSub ss @ [TaskSub m])" if "tlh (aw_sys b) = tlh (aw_sys a)" for b
      using clist_nexts [OF c] that by simp
    show "tlh (aw_sys b') = tlh (aw_sys a)"
      if "x \<in> set (map TaskSub ss)" "tlh (aw_sys b) = tlh (aw_sys a)" "await_sub env x b = Some b'" for x b b'
      using that by (auto simp: await_sub_def schedule_task_def Let_def)
    show "TaskSub m \<notin> set (map TaskSub ss)" using clist_distinct [OF c] by simp
  qed simp
  also have "\<dots> = Some (fold (schedule_task env) ss a)"
    by (induction ss arbitrary: a) (simp_all add: await_sub_def)
  finally show ?thesis .
qed

section \<open>One group\<close>

lemma await_main_eval:
  fixes a :: await_state
  assumes c: "clist (tlh (aw_sys a)) (TaskSub m) (map TaskSub ss)"
    and r: "tasks (aw_sys a) m = Some r" and f: "flows (aw_sys a) tf = Some f"
    and n: "n = ok_count env (length (tf_log (aw_sys a))) (m # ss)"
    and obs: "obs = finished_works (finish env n) (mthpc_completion_init (tf_compl f) (nr_sub_task r))"
  shows "await_main env tf (TaskMain m) a = map_option (\<lambda>now.
    \<lparr>aw_sys = tf_warn (of_nat (Suc (length ss)) \<noteq> nr_sub_task r)
       ((aw_sys a)\<lparr>flows := (flows (aw_sys a))(tf \<mapsto> f\<lparr>tf_compl := obs now\<rparr>),
         tf_log := tf_log (aw_sys a) @ scheduled 0 (m # ss) @ [GroupDone (finish env n now)]\<rparr>),
     accepted = n, nr_completed_sub_task = of_nat (Suc (length ss)),
     nr_completed = nr_completed a + of_nat (Suc (length ss))\<rparr>)
    (mthpc_wait_for_completion obs 0)"
proof -
  obtain T F h l w where s: "aw_sys a = \<lparr>tasks = T, flows = F, tlh = h, tf_log = l, tf_warned = w\<rparr>"
    by (cases "aw_sys a")
  obtain p q where a: "a = \<lparr>aw_sys = aw_sys a, accepted = p, nr_completed_sub_task = q, nr_completed = nr_completed a\<rparr>"
    by (cases a) simp
  let ?f = "f\<lparr>tf_compl := mthpc_completion_init (tf_compl f) (nr_sub_task r)\<rparr>"
  let ?a0 = "\<lparr>aw_sys = \<lparr>tasks = T, flows = F(tf \<mapsto> ?f), tlh = h, tf_log = l, tf_warned = w\<rparr>,
    accepted = 0, nr_completed_sub_task = 0, nr_completed = nr_completed a\<rparr>"
  let ?one = "if sched_ret env (length l) = 0 then 1 else 0"
  let ?a1 = "\<lparr>aw_sys = \<lparr>tasks = T, flows = F(tf \<mapsto> ?f), tlh = h,
      tf_log = l @ [Scheduled (mthpc_taskflow_get_cpu 0) m], tf_warned = w\<rparr>,
    accepted = ?one, nr_completed_sub_task = 1, nr_completed = nr_completed a\<rparr>"
  let ?a2 = "\<lparr>aw_sys = \<lparr>tasks = T, flows = F(tf \<mapsto> ?f), tlh = h,
      tf_log = l @ scheduled 0 (m # ss), tf_warned = w\<rparr>,
    accepted = n, nr_completed_sub_task = of_nat (Suc (length ss)), nr_completed = nr_completed a\<rparr>"
  have a1: "schedule_task env m ?a0 = ?a1" by (simp add: schedule_task_def)
  have "list_for_each (\<lambda>a. tlh (aw_sys a)) (await_sub env) (TaskSub m) ?a1 = Some (fold (schedule_task env) ss ?a1)"
    by (rule await_sub_loop) (use c s in simp)
  also have "fold (schedule_task env) ss ?a1 = ?a2"
    unfolding schedule_fold using s n by simp
  finally have loop: "list_for_each (\<lambda>a. tlh (aw_sys a)) (await_sub env) (TaskSub m) ?a1 = Some ?a2" .
  show ?thesis
    using r f unfolding obs
    by (subst a) (simp add: await_main_def upd_flow_def s a1 loop map_option_case Let_def split: option.split)
qed


text \<open>What the waiter leaves alone: the rings, the tasks and the number of tasks.\<close>

definition aw_ok :: "u64 \<Rightarrow> tf_sys \<Rightarrow> await_state \<Rightarrow> bool" where
  "aw_ok tf s0 a \<longleftrightarrow> tlh (aw_sys a) = tlh s0 \<and> tasks (aw_sys a) = tasks s0 \<and>
     map_option nr_task (flows (aw_sys a) tf) = map_option nr_task (flows s0 tf) \<and> flows s0 tf \<noteq> None"

text \<open>No more works finish than were accepted; a fair environment finishes them all.\<close>

definition env_ok :: "await_env \<Rightarrow> bool" where
  "env_ok env \<longleftrightarrow> (\<forall>n t. finish env n t \<le> n)"

definition env_fair :: "await_env \<Rightarrow> bool" where
  "env_fair env \<longleftrightarrow> env_ok env \<and> (\<forall>n. \<exists>T. \<forall>t\<ge>T. finish env n t = n)"

lemma aw_okE:
  assumes "aw_ok tf s0 a"
  obtains f where "flows (aw_sys a) tf = Some f"
  using assms by (cases "flows (aw_sys a) tf") (auto simp: aw_ok_def)

lemma tf_warn_simps [simp]:
  "tasks (tf_warn b s) = tasks s" "flows (tf_warn b s) = flows s" "tlh (tf_warn b s) = tlh s"
  "tf_log (tf_warn b s) = tf_log s"
  by (simp_all add: tf_warn_def)

lemma await_group_keeps:
  assumes ok: "aw_ok tf s0 a" and c: "clist (tlh s0) (TaskSub m) (map TaskSub ss)"
    and r: "tasks s0 m = Some r" and run: "await_main env tf (TaskMain m) a = Some a'"
  shows "aw_ok tf s0 a'"
proof -
  obtain f where f: "flows (aw_sys a) tf = Some f" by (rule aw_okE [OF ok])
  have c': "clist (tlh (aw_sys a)) (TaskSub m) (map TaskSub ss)" "tasks (aw_sys a) m = Some r"
    using ok c r by (simp_all add: aw_ok_def)
  show ?thesis
    using run ok f unfolding await_main_eval [OF c' f refl refl]
    by (auto simp: aw_ok_def)
qed

lemma await_group_ok:
  assumes ok: "aw_ok tf s0 a" and c: "clist (tlh s0) (TaskSub m) (map TaskSub ss)"
    and r: "tasks s0 m = Some r" "nr_sub_task r = of_nat (Suc (length ss))"
    and small: "Suc (length ss) < 2 ^ 64" and env: "env_fair env" "\<And>j. sched_ret env j = 0"
  obtains a' where "await_main env tf (TaskMain m) a = Some a'" "aw_ok tf s0 a'"
    "tf_log (aw_sys a') = tf_log (aw_sys a) @ scheduled 0 (m # ss) @ [GroupDone (Suc (length ss))]"
    "tf_warned (aw_sys a') = tf_warned (aw_sys a)"
    "nr_completed a' = nr_completed a + of_nat (Suc (length ss))"
proof -
  let ?n = "Suc (length ss)"
  obtain f where f: "flows (aw_sys a) tf = Some f" by (rule aw_okE [OF ok])
  have c': "clist (tlh (aw_sys a)) (TaskSub m) (map TaskSub ss)" "tasks (aw_sys a) m = Some r"
    using ok c r by (simp_all add: aw_ok_def)
  have n: "?n = ok_count env (length (tf_log (aw_sys a))) (m # ss)"
    using ok_count_all [OF env(2)] by (simp only: list.size)
  obtain T where T: "\<And>t. T \<le> t \<Longrightarrow> finish env ?n t = ?n" using env(1) by (auto simp: env_fair_def)
  have le: "finish env ?n t \<le> ?n" for t using env(1) by (auto simp: env_fair_def env_ok_def)
  obtain now where now: "mthpc_wait_for_completion
      (\<lambda>t. (mthpc_complete ^^ finish env ?n t) (mthpc_completion_init (tf_compl f) (of_nat ?n))) 0 = Some now"
    "finish env ?n now = ?n"
    using cl.await_returns [of ?n "finish env ?n" T "tf_compl f" 0, OF small le T] by blast
  let ?obs = "finished_works (finish env ?n) (mthpc_completion_init (tf_compl f) (nr_sub_task r))"
  have w: "mthpc_wait_for_completion ?obs 0 = Some now"
    using now(1) r(2) by (simp add: finished_works_def [abs_def])
  note run = await_main_eval [OF c' f n refl, unfolded w option.map]
  show ?thesis
  proof (rule that [OF run])
    show "aw_ok tf s0 (\<lparr>aw_sys = tf_warn (of_nat (Suc (length ss)) \<noteq> nr_sub_task r)
       ((aw_sys a)\<lparr>flows := (flows (aw_sys a))(tf \<mapsto> f\<lparr>tf_compl := ?obs now\<rparr>),
         tf_log := tf_log (aw_sys a) @ scheduled 0 (m # ss) @ [GroupDone (finish env ?n now)]\<rparr>),
       accepted = ?n, nr_completed_sub_task = of_nat (Suc (length ss)),
       nr_completed = nr_completed a + of_nat (Suc (length ss))\<rparr>)"
      by (rule await_group_keeps [OF ok c r(1) run])
  qed (use now(2) r(2) in simp_all)
qed

text \<open>A group whose counter is above the number of accepted works never returns.\<close>

lemma await_group_stuck:
  assumes ok: "aw_ok tf s0 a" and c: "clist (tlh s0) (TaskSub m) (map TaskSub ss)"
    and r: "tasks s0 m = Some r" "nr_sub_task r = of_nat k"
    and n: "ok_count env (length (tf_log (aw_sys a))) (m # ss) < k" "k < 2 ^ 64" and env: "env_ok env"
  shows "await_main env tf (TaskMain m) a = None"
proof -
  let ?n = "ok_count env (length (tf_log (aw_sys a))) (m # ss)"
  obtain f where f: "flows (aw_sys a) tf = Some f" by (rule aw_okE [OF ok])
  have c': "clist (tlh (aw_sys a)) (TaskSub m) (map TaskSub ss)" "tasks (aw_sys a) m = Some r"
    using ok c r by (simp_all add: aw_ok_def)
  have "mthpc_wait_for_completion
      (\<lambda>t. (mthpc_complete ^^ finish env ?n t) (mthpc_completion_init (tf_compl f) (of_nat k))) 0 = None"
    by (rule cl.await_short [OF n]) (use env in \<open>auto simp: env_ok_def\<close>)
  then have w: "mthpc_wait_for_completion (finished_works (finish env ?n)
      (mthpc_completion_init (tf_compl f) (nr_sub_task r))) 0 = None"
    using r(2) by (simp add: finished_works_def [abs_def])
  show ?thesis unfolding await_main_eval [OF c' f refl refl] w by simp
qed


section \<open>The whole taskflow\<close>

lemma await_loop:
  assumes c: "clist (tlh s0) (TfHead tf) (mains F)"
    and g: "\<And>m ss. (m, ss) \<in> set F \<Longrightarrow> clist (tlh s0) (TaskSub m) (map TaskSub ss) \<and> tasks s0 m \<noteq> None"
    and ok: "aw_ok tf s0 a"
  shows "list_for_each (\<lambda>a. tlh (aw_sys a)) (await_main env tf) (TfHead tf) a = fold_opt (await_main env tf) (mains F) a"
proof (rule list_for_each_fold [where I = "aw_ok tf s0"])
  show "nexts (tlh (aw_sys b)) (TfHead tf # mains F @ [TfHead tf])" if "aw_ok tf s0 b" for b
    using clist_nexts [OF c] that by (simp add: aw_ok_def)
  show "aw_ok tf s0 b'" if p: "p \<in> set (mains F)" and b: "aw_ok tf s0 b" "await_main env tf p b = Some b'" for p b b'
  proof -
    from p obtain m ss where m: "p = TaskMain m" "(m, ss) \<in> set F" by (auto simp: mains_def)
    with g [OF m(2)] obtain r where r: "tasks s0 m = Some r" by auto
    show ?thesis by (rule await_group_keeps [OF b(1) _ r]) (use g m b(2) in auto)
  qed
  show "TfHead tf \<notin> set (mains F)" using clist_distinct [OF c] by simp
qed (rule ok)

definition group_log :: "nat \<times> nat list \<Rightarrow> tf_event list" where
  "group_log g = scheduled 0 (fst g # snd g) @ [GroupDone (Suc (length (snd g)))]"

lemma await_fold:
  assumes g: "\<And>m ss. (m, ss) \<in> set F \<Longrightarrow> clist (tlh s0) (TaskSub m) (map TaskSub ss) \<and>
      main_ok tf m (length ss) (tasks s0) \<and> Suc (length ss) < 2 ^ 64"
    and env: "env_fair env" "\<And>j. sched_ret env j = 0" and ok: "aw_ok tf s0 a"
  shows "\<exists>a'. fold_opt (await_main env tf) (mains F) a = Some a' \<and> aw_ok tf s0 a' \<and>
    tf_log (aw_sys a') = tf_log (aw_sys a) @ concat (map group_log F) \<and>
    tf_warned (aw_sys a') = tf_warned (aw_sys a) \<and>
    nr_completed a' = nr_completed a + of_nat (length (tids F))"
  using g ok
proof (induction F arbitrary: a)
  case (Cons p F)
  obtain m ss where p: "p = (m, ss)" by (cases p)
  have gm: "clist (tlh s0) (TaskSub m) (map TaskSub ss)" "main_ok tf m (length ss) (tasks s0)"
    "Suc (length ss) < 2 ^ 64"
    using Cons.prems(1) [of m ss] p by simp_all
  obtain r where r: "tasks s0 m = Some r" "nr_sub_task r = of_nat (Suc (length ss))"
    by (rule main_okE [OF gm(2)], rule that)
  obtain b where b: "await_main env tf (TaskMain m) a = Some b" "aw_ok tf s0 b"
    "tf_log (aw_sys b) = tf_log (aw_sys a) @ scheduled 0 (m # ss) @ [GroupDone (Suc (length ss))]"
    "tf_warned (aw_sys b) = tf_warned (aw_sys a)"
    "nr_completed b = nr_completed a + of_nat (Suc (length ss))"
    by (rule await_group_ok [OF Cons.prems(2) gm(1) r gm(3) env], rule that)
  have "\<exists>a'. fold_opt (await_main env tf) (mains F) b = Some a' \<and> aw_ok tf s0 a' \<and>
    tf_log (aw_sys a') = tf_log (aw_sys b) @ concat (map group_log F) \<and>
    tf_warned (aw_sys a') = tf_warned (aw_sys b) \<and>
    nr_completed a' = nr_completed b + of_nat (length (tids F))"
    by (rule Cons.IH [OF _ b(2)]) (use Cons.prems(1) in auto)
  with b p show ?case by (auto simp: group_log_def [of "(m, ss)"] ac_simps)
qed (simp add: aw_ok_def)

lemma await_fold_stuck:
  assumes g: "\<And>m ss. (m, ss) \<in> set A \<Longrightarrow> clist (tlh s0) (TaskSub m) (map TaskSub ss) \<and> tasks s0 m \<noteq> None"
    and stuck: "\<And>a. aw_ok tf s0 a \<Longrightarrow> await_main env tf (TaskMain k) a = None" and ok: "aw_ok tf s0 a"
  shows "fold_opt (await_main env tf) (mains A @ TaskMain k # P) a = None"
  using g ok
proof (induction A arbitrary: a)
  case (Cons p A)
  obtain m ss where p: "p = (m, ss)" by (cases p)
  have gm: "clist (tlh s0) (TaskSub m) (map TaskSub ss)" "tasks s0 m \<noteq> None"
    using Cons.prems(1) [of m ss] p by simp_all
  then obtain r where r: "tasks s0 m = Some r" by auto
  show ?case
  proof (cases "await_main env tf (TaskMain m) a")
    case (Some b)
    have b: "aw_ok tf s0 b" by (rule await_group_keeps [OF Cons.prems(2) gm(1) r Some])
    have "fold_opt (await_main env tf) (mains A @ TaskMain k # P) b = None"
      by (rule Cons.IH [OF _ b]) (use Cons.prems(1) in auto)
    with Some p show ?thesis by simp
  qed (simp add: p)
qed (simp add: stuck)

lemma forest_rings_parts:
  assumes "rings h (forest_rings tf F)"
  shows "clist h (TfHead tf) (mains F)"
    "(m, ss) \<in> set F \<Longrightarrow> clist h (TaskSub m) (map TaskSub ss)"
  by (rule rings_clist [OF assms]; force simp: forest_rings_def body_rings_def)+


lemma await_unfold:
  assumes R: "rings (tlh s) (forest_rings tf G)" and f: "flows s tf \<noteq> None"
    and T: "\<And>m ss. (m, ss) \<in> set G \<Longrightarrow> tasks s m \<noteq> None"
  shows "mthpc_taskflow_await env tf s = do {
     a \<leftarrow> fold_opt (await_main env tf) (mains G)
       \<lparr>aw_sys = s, accepted = 0, nr_completed_sub_task = 0, nr_completed = 0\<rparr>;
     f \<leftarrow> flows (aw_sys a) tf;
     Some (tf_warn (nr_completed a \<noteq> nr_task f) (aw_sys a)) }"
proof -
  have "list_for_each (\<lambda>a. tlh (aw_sys a)) (await_main env tf) (TfHead tf)
      \<lparr>aw_sys = s, accepted = 0, nr_completed_sub_task = 0, nr_completed = 0\<rparr> =
    fold_opt (await_main env tf) (mains G)
      \<lparr>aw_sys = s, accepted = 0, nr_completed_sub_task = 0, nr_completed = 0\<rparr>"
    by (rule await_loop [of s]) (use forest_rings_parts [OF R] T f in \<open>auto simp: aw_ok_def\<close>)
  then show ?thesis by (simp only: mthpc_taskflow_await_def)
qed

lemma forest_ok_parts:
  assumes "forest_ok tf F s"
  shows "rings (tlh s) (forest_rings tf F)" "flows s tf \<noteq> None"
    "(m, ss) \<in> set F \<Longrightarrow> main_ok tf m (length ss) (tasks s)"
    "(m, ss) \<in> set F \<Longrightarrow> tasks s m \<noteq> None"
  using assms by (auto simp: forest_ok_def flow_ok_def tasks_ok_def main_ok_def)

lemma group_length: "(m, ss) \<in> set F \<Longrightarrow> Suc (length ss) \<le> length (tids F)"
  by (induction F) auto

text \<open>
  Waiting for a well-formed taskflow: if every scheduling is accepted and every accepted
  work finishes, \<open>mthpc_taskflow_await\<close> returns; it has handed over each main task
  followed by its sub tasks, in list order and round robin over the cpus, started no group
  before all works of the previous group had finished, and warned of nothing.
\<close>

theorem await_in_order:
  assumes ok: "forest_ok tf F s" and small: "length (tids F) < 2 ^ 64"
    and env: "env_fair env" "\<And>j. sched_ret env j = 0"
  shows "\<exists>s'. mthpc_taskflow_await env tf s = Some s' \<and> forest_ok tf F s' \<and>
    tf_log s' = tf_log s @ concat (map group_log F) \<and> tf_warned s' = tf_warned s"
proof -
  let ?a = "\<lparr>aw_sys = s, accepted = 0, nr_completed_sub_task = 0, nr_completed = 0\<rparr>"
  note p = forest_ok_parts [OF ok]
  have a: "aw_ok tf s ?a" using p(2) by (simp add: aw_ok_def)
  have g: "clist (tlh s) (TaskSub m) (map TaskSub ss) \<and> main_ok tf m (length ss) (tasks s) \<and>
      Suc (length ss) < 2 ^ 64" if "(m, ss) \<in> set F" for m ss
    using forest_rings_parts(2) [OF p(1) that] p(3) [OF that] group_length [OF that] small by simp
  obtain a' where a': "fold_opt (await_main env tf) (mains F) ?a = Some a'" "aw_ok tf s a'"
    "tf_log (aw_sys a') = tf_log s @ concat (map group_log F)" "tf_warned (aw_sys a') = tf_warned s"
    "nr_completed a' = of_nat (length (tids F))"
    using await_fold [OF g env a] by auto
  obtain f where f: "flows (aw_sys a') tf = Some f" "nr_task f = of_nat (length (tids F))"
    using a'(2) ok by (auto simp: aw_ok_def forest_ok_def flow_ok_def)
  have "mthpc_taskflow_await env tf s = Some (aw_sys a')"
    using await_unfold [OF p(1,2,4)] a'(1,5) f by simp
  moreover have "forest_ok tf F (aw_sys a')"
    using ok a'(2) by (simp add: forest_ok_def flow_ok_def aw_ok_def)
  ultimately show ?thesis using a'(3,4) by blast
qed

text \<open>
  The waiter ignores the result of the scheduling: if the workqueue refuses one work of
  the first group, \<open>mthpc_taskflow_await\<close> never returns.
\<close>

theorem await_failed_schedule:
  assumes ok: "forest_ok tf ((m, ss) # F) s" and small: "length (tids ((m, ss) # F)) < 2 ^ 64"
    and env: "env_ok env" and fail: "j < length (m # ss)" "sched_ret env (length (tf_log s) + j) \<noteq> 0"
  shows "mthpc_taskflow_await env tf s = None"
proof -
  let ?a = "\<lparr>aw_sys = s, accepted = 0, nr_completed_sub_task = 0, nr_completed = 0\<rparr>"
  note p = forest_ok_parts [OF ok]
  have a: "aw_ok tf s ?a" using p(2) by (simp add: aw_ok_def)
  have m: "main_ok tf m (length ss) (tasks s)" by (rule p(3)) simp
  obtain r where r: "tasks s m = Some r" "nr_sub_task r = of_nat (Suc (length ss))"
    by (rule main_okE [OF m], rule that)
  have c: "clist (tlh s) (TaskSub m) (map TaskSub ss)" by (rule forest_rings_parts(2) [OF p(1)]) simp
  have n: "ok_count env (length (tf_log (aw_sys ?a))) (m # ss) < Suc (length ss)" "Suc (length ss) < 2 ^ 64"
    using ok_count_failed [OF fail(2,1)] small by simp_all
  have "await_main env tf (TaskMain m) ?a = None"
    by (rule await_group_stuck [OF a c r n env])
  then show ?thesis using await_unfold [OF p(1,2,4)] by simp
qed


lemma end_moved_hangs:
  assumes e: "end_moved tf F y ys (A @ (y, []) # B) s" and A: "set A \<subseteq> set F"
    and ys: "ys \<noteq> []" "Suc (length ys) < 2 ^ 64" and B: "\<And>m ss. (m, ss) \<in> set B \<Longrightarrow> tasks s m \<noteq> None"
    and env: "env_ok env"
  shows "mthpc_taskflow_await env tf s = None"
proof -
  let ?G = "A @ (y, []) # B"
  have R: "rings (tlh s) (forest_rings tf ?G)" and y: "main_ok tf y (length ys) (tasks s)"
    and f: "flows s tf \<noteq> None"
    using e by (auto simp: end_moved_def flow_ok_def)
  obtain r where r: "tasks s y = Some r" "nr_sub_task r = of_nat (Suc (length ys))"
    by (rule main_okE [OF y], rule that)
  have tA: "tasks s m \<noteq> None" if "(m, ss) \<in> set A" for m ss
    using e A that by (fastforce simp: end_moved_def tasks_ok_def main_ok_def)
  have t: "tasks s m \<noteq> None" if "(m, ss) \<in> set ?G" for m ss
    using that tA B r(1) by auto
  let ?a = "\<lparr>aw_sys = s, accepted = 0, nr_completed_sub_task = 0, nr_completed = 0\<rparr>"
  have a: "aw_ok tf s ?a" using f by (simp add: aw_ok_def)
  have c: "clist (tlh s) (TaskSub y) (map TaskSub [])" by (rule forest_rings_parts(2) [OF R]) simp
  have stuck: "await_main env tf (TaskMain y) b = None" if b: "aw_ok tf s b" for b
  proof (rule await_group_stuck [OF b c r _ ys(2) env])
    show "ok_count env (length (tf_log (aw_sys b))) (y # []) < Suc (length ys)" using ys(1) by simp
  qed
  have "fold_opt (await_main env tf) (mains A @ TaskMain y # mains B) ?a = None"
    by (rule await_fold_stuck [OF _ stuck a]) (use forest_rings_parts(2) [OF R] tA in simp)
  then show ?thesis using await_unfold [OF R f t] by simp
qed

lemma flat_tasks:
  "\<forall>x\<in>set ys. sub_ok tf k x T \<Longrightarrow> (m, ss) \<in> set (flat ys) \<Longrightarrow> T m \<noteq> None"
  by (auto simp: flat_def sub_ok_def)

text \<open>
  C37. Moving two or more tasks behind the last main task makes each of them a main task of its
  own but gives the first one the counter of all of them, so that
  \<open>mthpc_taskflow_await\<close> never returns afterwards, whatever the workqueue does.
\<close>

theorem end_move_hangs:
  assumes ok: "forest_ok tf F s" and m: "(m, ss0) \<in> set F" "task \<in> set (m # ss0)"
    and out: "take_out news (F, []) = Some (A @ [(m, ss)], ys)"
    and two: "2 \<le> length news" "length news < 2 ^ 64"
  shows "\<exists>s'. taskflow_succeed task news s = Some s' \<and>
    (\<forall>env. env_ok env \<longrightarrow> mthpc_taskflow_await env tf s' = None)"
proof -
  have len: "length ys = length news" using take_out_length [OF out] by simp
  then obtain y zs where y: "ys = y # zs" "zs \<noteq> []" using two(1) by (cases ys; cases "tl ys") auto
  have small: "Suc (length zs) < 2 ^ 64" using y(1) len two(2) by simp
  obtain s' where s': "taskflow_succeed task news s = Some s'"
    "end_moved tf (A @ [(m, ss)]) y zs ((A @ [(m, ss)]) @ flat (y # zs)) s'" "same_trace s s'"
    using succeed_last [OF ok m, of news A ss y zs] out y(1) by auto
  have e: "end_moved tf (A @ [(m, ss)]) y zs ((A @ [(m, ss)]) @ (y, []) # flat zs) s'"
    using s'(2) by (simp add: flat_def)
  have "mthpc_taskflow_await env tf s' = None" if "env_ok env" for env
    by (rule end_moved_hangs [OF e _ y(2) small _ that]) (use s'(2) in \<open>auto simp: end_moved_def dest: flat_tasks\<close>)
  with s'(1) show ?thesis by blast
qed


section \<open>Concrete instances\<close>

definition prompt_env :: "(nat \<Rightarrow> u32) \<Rightarrow> await_env" where
  "prompt_env ret = \<lparr>sched_ret = ret, finish = \<lambda>n t. n\<rparr>"

lemma prompt_env_ok: "env_ok (prompt_env ret)" "env_fair (prompt_env ret)"
  by (auto simp: prompt_env_def env_ok_def env_fair_def)

lemma await_in_order_witness:
  "\<exists>s s'. forest_ok 8 [(1, [2]), (3, [])] s \<and>
    mthpc_taskflow_await (prompt_env (\<lambda>_. 0)) 8 s = Some s' \<and>
    tf_log s' = [Scheduled 0 1, Scheduled 1 2, GroupDone 2, Scheduled 0 3, GroupDone 1]"
proof -
  obtain s where s: "forest_ok 8 [(1, [2]), (3, [])] s" "same_trace no_tasks s"
    using forest_example [of "[(1, [2]), (3, [])]"] by auto
  have l: "tf_log s = []" using s(2) by (simp add: same_trace_def no_tasks_def)
  have "\<exists>s'. mthpc_taskflow_await (prompt_env (\<lambda>_. 0)) 8 s = Some s' \<and> forest_ok 8 [(1, [2]), (3, [])] s' \<and>
      tf_log s' = tf_log s @ concat (map group_log [(1, [2]), (3, [])]) \<and> tf_warned s' = tf_warned s"
    by (rule await_in_order [OF s(1) _ prompt_env_ok(2)]) (simp_all add: prompt_env_def)
  with s(1) l show ?thesis by (auto simp: group_log_def mthpc_taskflow_get_cpu_def)
qed

lemma await_failed_schedule_witness:
  "\<exists>s. forest_ok 8 [(1, [2]), (3, [])] s \<and>
    mthpc_taskflow_await (prompt_env (\<lambda>i. if i = 1 then - 12 else 0)) 8 s = None"
proof -
  obtain s where s: "forest_ok 8 [(1, [2]), (3, [])] s" "same_trace no_tasks s"
    using forest_example [of "[(1, [2]), (3, [])]"] by auto
  have l: "tf_log s = []" using s(2) by (simp add: same_trace_def no_tasks_def)
  have "mthpc_taskflow_await (prompt_env (\<lambda>i. if i = 1 then - 12 else 0)) 8 s = None"
    by (rule await_failed_schedule [OF s(1) _ prompt_env_ok(1), of 1]) (simp_all add: prompt_env_def l)
  with s(1) show ?thesis by blast
qed

lemma end_move_hangs_witness:
  "\<exists>s s'. forest_ok 8 [(1, []), (2, []), (3, [])] s \<and> taskflow_succeed 1 [2, 3] s = Some s' \<and>
    mthpc_taskflow_await (prompt_env (\<lambda>_. 0)) 8 s' = None"
proof -
  obtain s where s: "forest_ok 8 [(1, []), (2, []), (3, [])] s"
    using forest_example [of "[(1, []), (2, []), (3, [])]"] by auto
  have "\<exists>s'. taskflow_succeed 1 [2, 3] s = Some s' \<and>
      (\<forall>env. env_ok env \<longrightarrow> mthpc_taskflow_await env 8 s' = None)"
    by (rule end_move_hangs [OF s, of 1 "[]" 1 "[2, 3]" "[]" "[]" "[2, 3]"]) simp_all
  with s prompt_env_ok(1) show ?thesis by blast
qed

end
