(* ===== verification/Executor.thy ===== *)
theory Executor
  imports Prelude "HOL-Library.Multiset"
begin

text \<open>
  The contract between the taskflow and the workqueue, as a locale: a client hands over works
  one after the other, and in between the workers take turns. Time counts the calls and turns.
  The state is described by the multiset of works that are still to run and by the trace of
  the works that have run. Handing over a work adds it to the multiset; a turn moves some of
  them to the trace; and when works are left, the workers may be idle for a bounded number of
  turns only, which the ranking \<open>delay\<close> counts down.
\<close>

locale executor =
  fixes submit :: "nat \<Rightarrow> u32 \<Rightarrow> nat \<Rightarrow> 's \<Rightarrow> (u32 \<times> 's) option"
    and turn :: "nat \<Rightarrow> 's \<Rightarrow> (nat list \<times> 's) option"
    and ready :: "nat \<Rightarrow> nat multiset \<Rightarrow> 's \<Rightarrow> bool"
    and trace :: "'s \<Rightarrow> nat list"
    and delay :: "nat \<Rightarrow> 's \<Rightarrow> nat"
    and usable :: "nat set"
    and room :: nat
  assumes submit_ok: "ready k B s \<Longrightarrow> w \<in> usable \<Longrightarrow> w \<notin># B \<Longrightarrow> size B < room \<Longrightarrow>
      \<exists>s'. submit k cpu w s = Some (0, s') \<and> ready (Suc k) (add_mset w B) s' \<and> trace s' = trace s"
    and turn_ok: "ready k B s \<Longrightarrow> \<exists>ws B' s'. turn k s = Some (ws, s') \<and> B = mset ws + B' \<and>
      ready (Suc k) B' s' \<and> trace s' = trace s @ ws"
    and turn_fair: "ready k B s \<Longrightarrow> B \<noteq> {#} \<Longrightarrow> turn k s = Some ([], s') \<Longrightarrow> delay (Suc k) s' < delay k s"
begin

text \<open>A turn, and what it does to the order in which a wait is bounded.\<close>

lemma turn_cases:
  assumes "ready k B s"
  obtains ws B' s' where "turn k s = Some (ws, s')" "B = mset ws + B'" "ready (Suc k) B' s'"
    "trace s' = trace s @ ws" "B = {#} \<or> size B' < size B \<or> (B' = B \<and> delay (Suc k) s' < delay k s)"
proof -
  obtain ws B' s' where t: "turn k s = Some (ws, s')" "B = mset ws + B'" "ready (Suc k) B' s'"
    "trace s' = trace s @ ws"
    using turn_ok [OF assms] by blast
  moreover have "B = {#} \<or> size B' < size B \<or> (B' = B \<and> delay (Suc k) s' < delay k s)"
  proof (cases ws)
    case Nil
    then show ?thesis using turn_fair [OF assms] t(1,2) by auto
  next
    case (Cons w ws')
    then show ?thesis using t(2) by simp
  qed
  ultimately show ?thesis by (rule that)
qed

end

end
