(* ===== verification/Taskflow_Run.thy ===== *)
theory Taskflow_Run
  imports Taskflow_Await Executor
begin

text \<open>
  The waiter of a taskflow on top of an executor, \<open>mthpc_taskflow_await\<close> of
  \<open>src/taskflow/taskflow.c\<close> once more: here the works are run, by workers that take turns
  between the steps of the waiter, and each work signals the completion itself
  (\<open>mthpc_task_worker\<close>). The operations of the executor are arguments; the lemmas are proved in
  the locale \<open>executor\<close>.
\<close>

section \<open>The waiter and the workers\<close>

record 'w flow_run =
  ftf :: tf_sys
  fwq :: 'w
  fclock :: nat
  fsub :: u64 \<comment> \<open>\<open>nr_completed_sub_task\<close>\<close>
  fall :: u64 \<comment> \<open>\<open>nr_completed\<close>\<close>

definition flow_turn :: "(nat \<Rightarrow> 'w \<Rightarrow> (nat list \<times> 'w) option) \<Rightarrow> 'w flow_run \<Rightarrow> 'w flow_run option" where
  "flow_turn turn a = do {
     (ws, w) \<leftarrow> turn (fclock a) (fwq a);
     s \<leftarrow> fold_opt (\<lambda>t. mthpc_task_worker t (\<lambda>_ _ s. s)) ws (ftf a);
     Some (a\<lparr>ftf := s, fwq := w, fclock := Suc (fclock a)\<rparr>) }"

text \<open>The waiter ignores the result of the scheduling.\<close>

definition flow_schedule ::
  "(nat \<Rightarrow> u32 \<Rightarrow> nat \<Rightarrow> 'w \<Rightarrow> (u32 \<times> 'w) option) \<Rightarrow> (nat \<Rightarrow> 'w \<Rightarrow> (nat list \<times> 'w) option) \<Rightarrow>
   nat \<Rightarrow> 'w flow_run \<Rightarrow> 'w flow_run option" where
  "flow_schedule submit turn t a = do {
     a \<leftarrow> flow_turn turn a;
     (_, w) \<leftarrow> submit (fclock a) (mthpc_taskflow_get_cpu (fsub a)) t (fwq a);
     Some (a\<lparr>fwq := w, fclock := Suc (fclock a), fsub := fsub a + 1\<rparr>) }"

partial_function (option) flow_wait ::
  "(nat \<Rightarrow> 'w \<Rightarrow> (nat list \<times> 'w) option) \<Rightarrow> u64 \<Rightarrow> 'w flow_run \<Rightarrow> 'w flow_run option" where
  "flow_wait turn tf a = do {
     f \<leftarrow> flows (ftf a) tf;
     if cnt (tf_compl f) = nr (tf_compl f) then Some a else do {
       a \<leftarrow> flow_turn turn a;
       flow_wait turn tf a } }"

definition flow_sub where
  "flow_sub submit turn pos a = do {
     t \<leftarrow> task_of_sub pos;
     flow_schedule submit turn t a }"

definition flow_main where
  "flow_main submit turn tf pos a = do {
     cur \<leftarrow> task_of_main pos;
     r \<leftarrow> tasks (ftf a) cur;
     s \<leftarrow> upd_flow tf (\<lambda>f. f\<lparr>tf_compl := mthpc_completion_init (tf_compl f) (nr_sub_task r)\<rparr>) (ftf a);
     a \<leftarrow> flow_schedule submit turn cur (a\<lparr>ftf := s, fsub := 0\<rparr>);
     a \<leftarrow> list_for_each (\<lambda>a. tlh (ftf a)) (flow_sub submit turn) (TaskSub cur) a;
     a \<leftarrow> flow_wait turn tf a;
     r \<leftarrow> tasks (ftf a) cur;
     Some (a\<lparr>ftf := tf_warn (fsub a \<noteq> nr_sub_task r) (ftf a), fall := fall a + fsub a\<rparr>) }"

definition taskflow_await_on where
  "taskflow_await_on submit turn tf a = do {
     a \<leftarrow> list_for_each (\<lambda>a. tlh (ftf a)) (flow_main submit turn tf) (TfHead tf) (a\<lparr>fall := 0\<rparr>);
     f \<leftarrow> flows (ftf a) tf;
     Some (a\<lparr>ftf := tf_warn (fall a \<noteq> nr_task f) (ftf a)\<rparr>) }"

section \<open>What the waiter leaves alone\<close>

definition same_flow :: "u64 \<Rightarrow> tf_sys \<Rightarrow> tf_sys \<Rightarrow> bool" where
  "same_flow tf s0 s \<longleftrightarrow> tlh s = tlh s0 \<and> tasks s = tasks s0 \<and> tf_warned s = tf_warned s0 \<and>
     flows s0 tf \<noteq> None \<and> map_option nr_task (flows s tf) = map_option nr_task (flows s0 tf)"

definition task_in :: "u64 \<Rightarrow> (nat \<rightharpoonup> task) \<Rightarrow> nat \<Rightarrow> bool" where
  "task_in tf T t \<longleftrightarrow> (\<exists>r. T t = Some r \<and> mthpc_get_taskflow (tword r) = tf)"

lemma same_flowE:
  assumes "same_flow tf s0 s"
  obtains f where "flows s tf = Some f"
  using assms by (cases "flows s tf") (auto simp: same_flow_def)

definition set_flow :: "u64 \<Rightarrow> taskflow \<Rightarrow> tf_sys \<Rightarrow> tf_sys" where
  "set_flow tf f s = s\<lparr>flows := (flows s)(tf \<mapsto> f)\<rparr>"

lemma set_flow_simps [simp]:
  "flows (set_flow tf f s) tf = Some f" "tasks (set_flow tf f s) = tasks s" "tlh (set_flow tf f s) = tlh s"
  "tf_warned (set_flow tf f s) = tf_warned s" "set_flow tf f (set_flow tf g s) = set_flow tf f s"
  by (simp_all add: set_flow_def)

lemma set_flow_same: "flows s tf = Some f \<Longrightarrow> set_flow tf f s = s"
  by (simp add: set_flow_def fun_upd_idem)

lemma same_flow_compl:
  "flows s tf = Some f \<Longrightarrow> same_flow tf s0 (set_flow tf (f\<lparr>tf_compl := c\<rparr>) s) = same_flow tf s0 s"
  by (simp add: same_flow_def)

lemma task_workers:
  assumes "\<forall>t\<in>set ws. task_in tf (tasks s) t" "flows s tf = Some f"
  shows "fold_opt (\<lambda>t. mthpc_task_worker t (\<lambda>_ _ s. s)) ws s =
    Some (set_flow tf (f\<lparr>tf_compl := (mthpc_complete ^^ length ws) (tf_compl f)\<rparr>) s)"
  using assms
proof (induction ws arbitrary: s f)
  case Nil
  then show ?case by (simp add: set_flow_same)
next
  case (Cons t ws)
  let ?f = "f\<lparr>tf_compl := mthpc_complete (tf_compl f)\<rparr>"
  have "mthpc_task_worker t (\<lambda>_ _ s. s) s = Some (set_flow tf ?f s)"
    using Cons.prems by (auto simp: mthpc_task_worker_def upd_flow_def task_in_def set_flow_def)
  with Cons.IH [of "set_flow tf ?f s" ?f] Cons.prems show ?case
    by (simp add: funpow_swap1)
qed

section \<open>A group of tasks\<close>

text \<open>
  The waiter in a group: the tasks \<open>L\<close> have been handed over since the trace was \<open>old\<close>, the works
  \<open>B\<close> of them are still to run, and the completion, armed for \<open>n\<close>, has counted the others.
\<close>

definition flow_group :: "(nat \<Rightarrow> nat multiset \<Rightarrow> 'w \<Rightarrow> bool) \<Rightarrow> ('w \<Rightarrow> nat list) \<Rightarrow> u64 \<Rightarrow> tf_sys \<Rightarrow>
    nat list \<Rightarrow> u64 \<Rightarrow> nat list \<Rightarrow> nat multiset \<Rightarrow> 'w flow_run \<Rightarrow> bool" where
  "flow_group ready trace tf s0 old n L B a \<longleftrightarrow> ready (fclock a) B (fwq a) \<and> same_flow tf s0 (ftf a) \<and>
     (\<exists>rs f. trace (fwq a) = old @ rs \<and> mset rs + B = mset L \<and> flows (ftf a) tf = Some f \<and>
       cnt (tf_compl f) = of_nat (length rs) \<and> nr (tf_compl f) = n)"

text \<open>The waiter between two groups.\<close>

definition flow_idle :: "(nat \<Rightarrow> nat multiset \<Rightarrow> 'w \<Rightarrow> bool) \<Rightarrow> ('w \<Rightarrow> nat list) \<Rightarrow> u64 \<Rightarrow> tf_sys \<Rightarrow>
    nat list \<Rightarrow> 'w flow_run \<Rightarrow> bool" where
  "flow_idle ready trace tf s0 old a \<longleftrightarrow>
     ready (fclock a) {#} (fwq a) \<and> same_flow tf s0 (ftf a) \<and> trace (fwq a) = old"

lemma flow_group_count:
  assumes "flow_group ready trace tf s0 old (of_nat (length L)) L B a" "length L < 2 ^ 64"
    and "flows (ftf a) tf = Some f"
  shows "cnt (tf_compl f) = nr (tf_compl f) \<longleftrightarrow> B = {#}"
proof -
  obtain rs where rs: "mset rs + B = mset L" "cnt (tf_compl f) = of_nat (length rs)"
    "nr (tf_compl f) = of_nat (length L)"
    using assms(1,3) by (auto simp: flow_group_def)
  have "size (mset rs + B) = size (mset L)" by (simp only: rs(1))
  then have len: "length rs + size B = length L" by simp
  then show ?thesis
    using rs(2,3) assms(2) by (simp add: of_nat_u64_inj) auto
qed

lemma group_tasks_in:
  assumes "forest_ok tf F s" "(m, ss) \<in> set F" "t \<in> set (m # ss)"
  shows "task_in tf (tasks s) t"
  by (rule task_parent [OF assms]) (auto simp: task_in_def)

context executor begin

lemma flow_turn_ok:
  assumes g: "flow_group ready trace tf s0 old n L B a" and L: "\<forall>t\<in>set L. task_in tf (tasks s0) t"
  obtains a' B' where "flow_turn turn a = Some a'" "flow_group ready trace tf s0 old n L B' a'"
    "fsub a' = fsub a" "fall a' = fall a" "tlh (ftf a') = tlh (ftf a)"
    "B = {#} \<or> size B' < size B \<or> (B' = B \<and> delay (fclock a') (fwq a') < delay (fclock a) (fwq a))"
proof -
  obtain rs f where r: "ready (fclock a) B (fwq a)" "same_flow tf s0 (ftf a)" "trace (fwq a) = old @ rs"
    "mset rs + B = mset L" "flows (ftf a) tf = Some f" "cnt (tf_compl f) = of_nat (length rs)"
    "nr (tf_compl f) = n"
    using g by (auto simp: flow_group_def)
  obtain ws B' w where t: "turn (fclock a) (fwq a) = Some (ws, w)" "B = mset ws + B'"
    "ready (Suc (fclock a)) B' w" "trace w = trace (fwq a) @ ws"
    "B = {#} \<or> size B' < size B \<or> (B' = B \<and> delay (Suc (fclock a)) w < delay (fclock a) (fwq a))"
    by (rule turn_cases [OF r(1)], rule that)
  have "set_mset (mset rs + B) = set L" by (simp add: r(4))
  then have "set ws \<subseteq> set L" using t(2) by auto
  then have ws: "\<forall>t\<in>set ws. task_in tf (tasks (ftf a)) t" using L r(2) by (auto simp: same_flow_def)
  let ?f = "f\<lparr>tf_compl := (mthpc_complete ^^ length ws) (tf_compl f)\<rparr>"
  let ?a = "a\<lparr>ftf := set_flow tf ?f (ftf a), fwq := w, fclock := Suc (fclock a)\<rparr>"
  have "flow_turn turn a = Some ?a"
    using t(1) task_workers [OF ws r(5)] by (simp add: flow_turn_def)
  moreover have "flow_group ready trace tf s0 old n L B' ?a"
    unfolding flow_group_def
    using r t by (intro conjI exI [of _ "rs @ ws"] exI [of _ ?f]) (simp_all add: same_flow_compl ac_simps)
  ultimately show ?thesis using t(5) by (intro that [of ?a B']) simp_all
qed

lemma flow_schedule_ok:
  assumes g: "flow_group ready trace tf s0 old n L B a" and L: "\<forall>t\<in>set L. task_in tf (tasks s0) t"
    and t: "t \<in> usable" "t \<notin> set L" and room: "length L < room"
  obtains a' B' where "flow_schedule submit turn t a = Some a'"
    "flow_group ready trace tf s0 old n (L @ [t]) B' a'"
    "fsub a' = fsub a + 1" "fall a' = fall a" "tlh (ftf a') = tlh (ftf a)"
proof -
  obtain b B' where b: "flow_turn turn a = Some b" "flow_group ready trace tf s0 old n L B' b"
    "fsub b = fsub a" "fall b = fall a" "tlh (ftf b) = tlh (ftf a)"
    by (rule flow_turn_ok [OF g L], rule that)
  obtain rs f where r: "ready (fclock b) B' (fwq b)" "same_flow tf s0 (ftf b)" "trace (fwq b) = old @ rs"
    "mset rs + B' = mset L" "flows (ftf b) tf = Some f" "cnt (tf_compl f) = of_nat (length rs)"
    "nr (tf_compl f) = n"
    using b(2) by (auto simp: flow_group_def)
  have "size (mset rs + B') = length L" "set_mset (mset rs + B') = set L" by (simp_all add: r(4))
  then have B': "size B' < room" "t \<notin># B'" using t(2) room by auto
  obtain w where w: "submit (fclock b) (mthpc_taskflow_get_cpu (fsub b)) t (fwq b) = Some (0, w)"
    "ready (Suc (fclock b)) (add_mset t B') w" "trace w = trace (fwq b)"
    using submit_ok [OF r(1) t(1) B'(2,1)] by blast
  let ?a = "b\<lparr>fwq := w, fclock := Suc (fclock b), fsub := fsub b + 1\<rparr>"
  have "flow_group ready trace tf s0 old n (L @ [t]) (add_mset t B') ?a"
    unfolding flow_group_def using r w by auto
  moreover have "flow_schedule submit turn t a = Some ?a"
    using b(1) w(1) by (simp add: flow_schedule_def)
  ultimately show ?thesis using b(3-5) by (intro that [of ?a]) simp_all
qed

lemma flow_wait_ok:
  assumes "flow_group ready trace tf s0 old (of_nat (length L)) L B a"
    and L: "\<forall>t\<in>set L. task_in tf (tasks s0) t" and len: "length L < 2 ^ 64"
  shows "\<exists>a'. flow_wait turn tf a = Some a' \<and> flow_group ready trace tf s0 old (of_nat (length L)) L {#} a' \<and>
    fsub a' = fsub a \<and> fall a' = fall a \<and> tlh (ftf a') = tlh (ftf a)"
  using assms(1)
proof (induction "(size B, delay (fclock a) (fwq a))" arbitrary: B a
    rule: wf_induct_rule [OF wf_lex_prod [OF wf_less_than wf_less_than]])
  case 1
  obtain f where f: "flows (ftf a) tf = Some f" using 1(2) by (auto simp: flow_group_def)
  note count = flow_group_count [OF 1(2) len f]
  show ?case
  proof (cases "B = {#}")
    case True
    then have "flow_wait turn tf a = Some a" using f count by (subst flow_wait.simps) simp
    with 1(2) True show ?thesis by simp
  next
    case False
    obtain b B' where b: "flow_turn turn a = Some b"
      "flow_group ready trace tf s0 old (of_nat (length L)) L B' b"
      "fsub b = fsub a" "fall b = fall a" "tlh (ftf b) = tlh (ftf a)"
      "B = {#} \<or> size B' < size B \<or> (B' = B \<and> delay (fclock b) (fwq b) < delay (fclock a) (fwq a))"
      by (rule flow_turn_ok [OF 1(2) L], rule that)
    have "((size B', delay (fclock b) (fwq b)), (size B, delay (fclock a) (fwq a))) \<in> less_than <*lex*> less_than"
      using b(6) False by auto
    from 1(1) [OF this b(2)] show ?thesis
      using b(1,3-5) f count False by (subst flow_wait.simps) simp
  qed
qed

lemma flow_group_tlh: "flow_group ready trace tf s0 old n L B a \<Longrightarrow> tlh (ftf a) = tlh s0"
  by (simp add: flow_group_def same_flow_def)

text \<open>The sub tasks of a group, after its main task.\<close>

lemma flow_subs_ok:
  assumes g: "flow_group ready trace tf s0 old n L B a" and c: "clist (tlh s0) (TaskSub m) (map TaskSub ss)"
    and L: "\<forall>t\<in>set L. task_in tf (tasks s0) t" "\<forall>t\<in>set ss. t \<in> usable \<and> task_in tf (tasks s0) t"
    and new: "distinct (L @ ss)" "length L + length ss \<le> room"
  obtains a' B' where "list_for_each (\<lambda>a. tlh (ftf a)) (flow_sub submit turn) (TaskSub m) a = Some a'"
    "flow_group ready trace tf s0 old n (L @ ss) B' a'" "fsub a' = fsub a + of_nat (length ss)" "fall a' = fall a"
proof -
  let ?J = "\<lambda>ps x. \<exists>done rest B. ss = done @ rest \<and> ps = map TaskSub rest \<and>
    flow_group ready trace tf s0 old n (L @ done) B x \<and> fsub x = fsub a + of_nat (length done) \<and> fall x = fall a"
  have "?J (map TaskSub ss) a"
    using g by (intro exI [of _ "[]"] exI [of _ ss] exI [of _ B]) simp
  moreover have "clist (tlh (ftf a)) (TaskSub m) (map TaskSub ss)" using c flow_group_tlh [OF g] by simp
  moreover have "\<exists>x'. flow_sub submit turn p x = Some x' \<and> ?J ps x' \<and> tlh (ftf x') = tlh (ftf x)"
    if "?J (p # ps) x" for p ps x
  proof -
    obtain "done" t rest C where J: "ss = done @ t # rest" "p = TaskSub t" "ps = map TaskSub rest"
      "flow_group ready trace tf s0 old n (L @ done) C x" "fsub x = fsub a + of_nat (length done)"
      "fall x = fall a"
      using \<open>?J (p # ps) x\<close> by (auto simp: Cons_eq_map_conv)
    have pre: "\<forall>t\<in>set (L @ done). task_in tf (tasks s0) t" "t \<in> usable" "t \<notin> set (L @ done)"
      "length (L @ done) < room"
      using L new J(1) by auto
    obtain y D where y: "flow_schedule submit turn t x = Some y"
      "flow_group ready trace tf s0 old n ((L @ done) @ [t]) D y" "fsub y = fsub x + 1" "fall y = fall x"
      "tlh (ftf y) = tlh (ftf x)"
      by (rule flow_schedule_ok [OF J(4) pre], rule that)
    have "?J ps y"
      using J y by (intro exI [of _ "done @ [t]"] exI [of _ rest] exI [of _ D]) simp
    then show ?thesis using y(1,5) J(2) by (simp add: flow_sub_def)
  qed
  ultimately obtain x where "list_for_each (\<lambda>a. tlh (ftf a)) (flow_sub submit turn) (TaskSub m) a = Some x"
    "?J [] x"
    by (rule list_for_each_inv [where J = ?J and hp = "\<lambda>a. tlh (ftf a)" and body = "flow_sub submit turn"])
      (assumption, rule that)
  then show ?thesis using that by auto
qed

lemma flow_main_ok:
  assumes idle: "flow_idle ready trace tf s0 old a" and c: "clist (tlh s0) (TaskSub m) (map TaskSub ss)"
    and r: "tasks s0 m = Some r" "nr_sub_task r = of_nat (Suc (length ss))"
    and L: "\<forall>t\<in>set (m # ss). t \<in> usable \<and> task_in tf (tasks s0) t"
    and new: "distinct (m # ss)" "length (m # ss) \<le> room" "length (m # ss) < 2 ^ 64"
  obtains a' rs where "flow_main submit turn tf (TaskMain m) a = Some a'"
    "flow_idle ready trace tf s0 (old @ rs) a'" "mset rs = mset (m # ss)"
    "fall a' = fall a + of_nat (length (m # ss))"
proof -
  let ?n = "of_nat (length (m # ss))"
  obtain f where f: "flows (ftf a) tf = Some f" by (rule same_flowE [of tf s0 "ftf a"]) (use idle in \<open>auto simp: flow_idle_def\<close>)
  have ra: "tasks (ftf a) m = Some r" using idle r(1) by (simp add: flow_idle_def same_flow_def)
  let ?b = "a\<lparr>ftf := set_flow tf (f\<lparr>tf_compl := mthpc_completion_init (tf_compl f) ?n\<rparr>) (ftf a), fsub := 0\<rparr>"
  have b: "flow_group ready trace tf s0 old ?n [] {#} ?b"
    using idle f by (simp add: flow_idle_def flow_group_def same_flow_compl)
  obtain d D where d: "flow_schedule submit turn m ?b = Some d"
    "flow_group ready trace tf s0 old ?n ([] @ [m]) D d" "fsub d = fsub ?b + 1" "fall d = fall ?b"
    by (rule flow_schedule_ok [OF b, of m]) (use L new that in auto)
  have Lm: "\<forall>t\<in>set ([] @ [m]). task_in tf (tasks s0) t" "\<forall>t\<in>set ss. t \<in> usable \<and> task_in tf (tasks s0) t"
    "distinct (([] @ [m]) @ ss)" "length ([] @ [m]) + length ss \<le> room"
    using L new by auto
  obtain e C where e: "list_for_each (\<lambda>a. tlh (ftf a)) (flow_sub submit turn) (TaskSub m) d = Some e"
    "flow_group ready trace tf s0 old ?n (([] @ [m]) @ ss) C e" "fsub e = fsub d + of_nat (length ss)" "fall e = fall d"
    by (rule flow_subs_ok [OF d(2) c Lm], rule that)
  have e2: "flow_group ready trace tf s0 old ?n (m # ss) C e" "\<forall>t\<in>set (m # ss). task_in tf (tasks s0) t"
    using e(2) L by simp_all
  obtain g where g: "flow_wait turn tf e = Some g" "flow_group ready trace tf s0 old ?n (m # ss) {#} g"
    "fsub g = fsub e" "fall g = fall e"
    using flow_wait_ok [OF e2 new(3)] by blast
  then obtain rs where rs: "mset rs = mset (m # ss)" "trace (fwq g) = old @ rs"
    "ready (fclock g) {#} (fwq g)" "same_flow tf s0 (ftf g)"
    by (auto simp: flow_group_def)
  have sub: "fsub g = ?n" using g(3) e(3) d(3) by simp
  let ?a = "g\<lparr>ftf := tf_warn (fsub g \<noteq> nr_sub_task r) (ftf g), fall := fall g + fsub g\<rparr>"
  have "upd_flow tf (\<lambda>f. f\<lparr>tf_compl := mthpc_completion_init (tf_compl f) (nr_sub_task r)\<rparr>) (ftf a) = Some (ftf ?b)"
    using f r(2) by (simp add: upd_flow_def set_flow_def)
  moreover have "tasks (ftf g) m = Some r" using rs(4) r(1) by (simp add: same_flow_def)
  ultimately have "flow_main submit turn tf (TaskMain m) a = Some ?a"
    using ra d(1) e(1) g(1) by (simp add: flow_main_def)
  moreover have "flow_idle ready trace tf s0 (old @ rs) ?a"
    using rs sub r(2) by (simp add: flow_idle_def tf_warn_def)
  ultimately show ?thesis using rs(1) sub g(4) e(4) d(4) by (intro that [of ?a rs]) simp_all
qed

text \<open>The groups in order: each is run completely, in some order, before the next one starts.\<close>

lemma flow_await_ok:
  assumes ok: "forest_ok tf F (ftf a)" and idle: "ready (fclock a) {#} (fwq a)"
    and T: "set (tids F) \<subseteq> usable" "length (tids F) \<le> room" "length (tids F) < 2 ^ 64"
  obtains a' Gs where "taskflow_await_on submit turn tf a = Some a'" "forest_ok tf F (ftf a')"
    "tf_warned (ftf a') = tf_warned (ftf a)" "ready (fclock a') {#} (fwq a')"
    "trace (fwq a') = trace (fwq a) @ concat Gs" "list_all2 (\<lambda>G (m, ss). mset G = mset (m # ss)) Gs F"
proof -
  let ?s = "ftf a"
  let ?J = "\<lambda>ps x. \<exists>done rest Gs. F = done @ rest \<and> ps = mains rest \<and>
    flow_idle ready trace tf ?s (trace (fwq a) @ concat Gs) x \<and>
    list_all2 (\<lambda>G (m, ss). mset G = mset (m # ss)) Gs done \<and> fall x = of_nat (length (tids done))"
  note p = forest_ok_parts [OF ok]
  have "?J (mains F) (a\<lparr>fall := 0\<rparr>)"
    using idle p(2) by (intro exI [of _ "[]"] exI [of _ F]) (simp add: flow_idle_def same_flow_def)
  moreover have "clist (tlh (ftf (a\<lparr>fall := 0\<rparr>))) (TfHead tf) (mains F)"
    using forest_rings_parts(1) [OF p(1)] by simp
  moreover have "\<exists>x'. flow_main submit turn tf q x = Some x' \<and> ?J ps x' \<and> tlh (ftf x') = tlh (ftf x)"
    if J: "?J (q # ps) x" for q ps x
  proof -
    obtain "done" m ss rest Gs where J: "F = done @ (m, ss) # rest" "q = TaskMain m" "ps = mains rest"
      "flow_idle ready trace tf ?s (trace (fwq a) @ concat Gs) x"
      "list_all2 (\<lambda>G (m, ss). mset G = mset (m # ss)) Gs done" "fall x = of_nat (length (tids done))"
      using J by (auto simp: mains_def Cons_eq_map_conv)
    have m: "(m, ss) \<in> set F" using J(1) by simp
    obtain r where r: "tasks ?s m = Some r" "nr_sub_task r = of_nat (Suc (length ss))"
      by (rule main_okE [OF p(3) [OF m]], rule that)
    have "\<forall>t\<in>set (m # ss). t \<in> usable \<and> task_in tf (tasks ?s) t"
      using group_tasks_in [OF ok m] T(1) J(1) by auto
    moreover have "distinct (m # ss)" "length (m # ss) \<le> room" "length (m # ss) < 2 ^ 64"
      using ok T(2,3) J(1) by (auto simp: forest_ok_def)
    ultimately obtain y rs where y: "flow_main submit turn tf (TaskMain m) x = Some y"
      "flow_idle ready trace tf ?s ((trace (fwq a) @ concat Gs) @ rs) y" "mset rs = mset (m # ss)"
      "fall y = fall x + of_nat (length (m # ss))"
      by (rule flow_main_ok [OF J(4) forest_rings_parts(2) [OF p(1) m] r]) (rule that)
    have "?J ps y"
      using J y by (intro exI [of _ "done @ [(m, ss)]"] exI [of _ rest] exI [of _ "Gs @ [rs]"])
        (simp add: list_all2_appendI)
    then show ?thesis using y(1,2) J(2,4) by (auto simp: flow_idle_def same_flow_def)
  qed
  ultimately obtain x where x: "list_for_each (\<lambda>a. tlh (ftf a)) (flow_main submit turn tf) (TfHead tf) (a\<lparr>fall := 0\<rparr>) = Some x"
    "?J [] x"
    by (rule list_for_each_inv [where J = ?J and hp = "\<lambda>a. tlh (ftf a)" and body = "flow_main submit turn tf"])
      (assumption, rule that)
  obtain Gs where G: "flow_idle ready trace tf ?s (trace (fwq a) @ concat Gs) x"
    "list_all2 (\<lambda>G (m, ss). mset G = mset (m # ss)) Gs F" "fall x = of_nat (length (tids F))"
    using x(2) by (auto simp: mains_def)
  obtain f where f: "flows (ftf x) tf = Some f" "nr_task f = of_nat (length (tids F))"
    using G(1) ok by (auto simp: flow_idle_def same_flow_def forest_ok_def flow_ok_def)
  have "taskflow_await_on submit turn tf a = Some x"
    using x(1) f G(3) by (simp add: taskflow_await_on_def tf_warn_def)
  moreover have "forest_ok tf F (ftf x)" "tf_warned (ftf x) = tf_warned ?s"
    using ok G(1) by (auto simp: flow_idle_def same_flow_def forest_ok_def flow_ok_def)
  ultimately show ?thesis using G(1,2) by (intro that [of x Gs]) (simp_all add: flow_idle_def)
qed

end

end
