(* ===== verification/Wq_Executor.thy ===== *)
theory Wq_Executor
  imports Wq_Schedule Executor
begin

text \<open>
  The workqueue keeps the contract \<open>executor\<close>: the pool of the taskflows, with
  \<open>mthpc_schedule_taskflow_work_on\<close> for handing over a work and turns in which the workers of
  \<open>src/workqueue/workqueue.c\<close> make one iteration each. The memory that \<open>malloc\<close> returns and the
  workers that take a turn are arguments; every worker has a turn again and again.
\<close>

section \<open>Turns of the workers\<close>

definition wq_turn :: "(nat \<Rightarrow> nat list) \<Rightarrow> nat \<Rightarrow> wq_sys \<Rightarrow> (nat list \<times> wq_sys) option" where
  "wq_turn sched k s = do {
     s' \<leftarrow> fold_opt run_worker (sched k) s;
     Some (drop (length (ran s)) (ran s'), s') }"

definition wq_submit ::
  "(nat \<Rightarrow> wq_sys \<Rightarrow> sched_env) \<Rightarrow> nat \<Rightarrow> u32 \<Rightarrow> nat \<Rightarrow> wq_sys \<Rightarrow> (u32 \<times> wq_sys) option" where
  "wq_submit env k cpu w s = mthpc_schedule_taskflow_work_on (env k s) cpu w s"

text \<open>
  The environment of the calls, a function of the time and the state: the calls come from threads
  of \<open>U\<close>; \<open>malloc\<close> does not fail and returns memory that is not in use, at the addresses \<open>Q\<close> for
  queues; \<open>pthread_create\<close> gives a thread an identifier whose lower 32 bits no registered
  thread has, as long as there is one, and \<open>pthread_setaffinity_np\<close> does not fail, that is, the
  machine has the four cores that the code uses; and the
  workers of the queues \<open>Q\<close>, those that there are and those to come, have a turn again and again.
\<close>

definition exec_env ::
  "(nat \<Rightarrow> wq_sys \<Rightarrow> sched_env) \<Rightarrow> (nat \<Rightarrow> nat list) \<Rightarrow> nat set \<Rightarrow> u64 set \<Rightarrow> bool" where
  "exec_env env sched Q U \<longleftrightarrow> infinite Q \<and> 0 \<notin> Q \<and>
     (\<forall>k s. self (env k s) \<in> U \<and>
       ((\<exists>q\<in>Q. wq_is_fresh s q) \<longrightarrow> wq_fresh (env k s) \<in> Q \<and> wq_is_fresh s (wq_fresh (env k s))) \<and>
       (\<forall>T. rcu_threads T (rcu s) \<and> finite (dom (nodes (rcu s))) \<and> card T < 2 ^ 32 \<longrightarrow>
          worker_env T (rcu s) (env k s))) \<and>
     (\<forall>k. set (sched k) \<subseteq> Q) \<and> (\<forall>q\<in>Q. \<forall>k. \<exists>j\<ge>k. q \<in> set (sched j))"

lemma exec_envD:
  assumes "exec_env env sched Q U"
  shows "infinite Q" "0 \<notin> Q" "self (env k s) \<in> U"
    "q \<in> Q \<Longrightarrow> wq_is_fresh s q \<Longrightarrow> wq_fresh (env k s) \<in> Q \<and> wq_is_fresh s (wq_fresh (env k s))"
    "rcu_threads T (rcu s) \<Longrightarrow> finite (dom (nodes (rcu s))) \<Longrightarrow> card T < 2 ^ 32 \<Longrightarrow> worker_env T (rcu s) (env k s)"
    "q \<in> set (sched k) \<Longrightarrow> q \<in> Q" "q \<in> Q \<Longrightarrow> \<exists>j\<ge>k. q \<in> set (sched j)"
  using assms unfolding exec_env_def by blast+

text \<open>The registered threads, those of \<open>U\<close> and the workers.\<close>

definition wq_crew :: "u64 set \<Rightarrow> nat list \<Rightarrow> wq_sys \<Rightarrow> bool" where
  "wq_crew U qs s \<longleftrightarrow> wq_threads U qs s \<and> wq_apart qs s \<and> finite (dom (nodes (rcu s))) \<and>
     finite U \<and> card U + 4 < 2 ^ 32"

lemma wq_crew_card:
  assumes "wq_crew U qs s"
  shows "card (U \<union> wq_tid s ` set qs) < 2 ^ 32"
proof -
  have "card (U \<union> wq_tid s ` set qs) \<le> card U + card (wq_tid s ` set qs)" by (rule card_Un_le)
  moreover have "card (wq_tid s ` set qs) \<le> card (set qs)" by (rule card_image_le) simp
  moreover have "card (set qs) \<le> 4" by (rule wq_apart_card [of _ s]) (use assms in \<open>simp add: wq_crew_def\<close>)
  ultimately show ?thesis using assms by (simp add: wq_crew_def)
qed

lemma wq_crew_workers:
  assumes "wq_crew U qs s" "workers_keep s s'"
  shows "wq_crew U qs s'"
proof -
  have "rcu s' = rcu s" using assms(2) by (simp add: workers_keep_def)
  then show ?thesis
    using assms(1) workers_keep_wqs [OF assms(2)]
    by (auto simp: wq_crew_def intro: wq_threads_keep wq_apart_keep)
qed

lemma wq_crew_sched:
  assumes crew: "wq_crew U qs s" and T: "T = U \<union> wq_tid s ` set qs" and env: "worker_env T (rcu s) env"
    and sq: "sched_queues env cpu T qs s qs' s'" and fr: "wq_frame p Q A s s'"
    and qs: "\<And>q. q \<in> set qs \<Longrightarrow> wqs s q \<noteq> None" and fresh: "wq_fresh env \<notin> set qs"
  shows "wq_crew U qs' s'"
proof -
  have "wq_threads U qs' s'"
    by (rule sched_threads [OF _ T env sq fr qs _ _ fresh]) (use crew in \<open>auto simp: wq_crew_def\<close>)
  moreover have "wq_apart qs' s'"
    by (rule sched_apart [OF _ sq fr qs fresh]) (use crew in \<open>simp add: wq_crew_def\<close>)
  moreover have "finite (dom (nodes (rcu s')))"
    using sq crew by (auto simp: sched_queues_def wq_crew_def)
  ultimately show ?thesis using crew by (simp add: wq_crew_def)
qed

text \<open>The works \<open>B\<close> are in the pool, and the workqueue has given \<open>n\<close> warnings so far.\<close>

definition wq_ready :: "(nat \<Rightarrow> wq_sys \<Rightarrow> sched_env) \<Rightarrow> (nat \<Rightarrow> nat list) \<Rightarrow> nat set \<Rightarrow> u64 set \<Rightarrow> nat \<Rightarrow> nat set \<Rightarrow>
    nat \<Rightarrow> nat multiset \<Rightarrow> wq_sys \<Rightarrow> bool" where
  "wq_ready env sched Q U n T k B s \<longleftrightarrow> exec_env env sched Q U \<and>
     (\<exists>qs W. pool_live s mthpc_taskflow_wp qs W \<and> B = pending qs W \<and> set qs \<subseteq> Q \<and>
       (\<forall>q\<in>Q - set qs. wq_is_fresh s q) \<and> wq_crew U qs s) \<and>
     (\<forall>w\<in>T. works s w \<noteq> None \<and> WorkNode w \<in> dom (lh s)) \<and> wq_warned s = n"

lemma wq_readyE:
  assumes "wq_ready env sched Q U n T k B s"
  obtains qs W where "exec_env env sched Q U" "pool_live s mthpc_taskflow_wp qs W" "B = pending qs W" "set qs \<subseteq> Q"
    "\<forall>q\<in>Q - set qs. wq_is_fresh s q" "wq_crew U qs s" "\<forall>w\<in>T. works s w \<noteq> None \<and> WorkNode w \<in> dom (lh s)"
    "wq_warned s = n"
  using assms by (auto simp: wq_ready_def)

definition wq_busy :: "wq_sys \<Rightarrow> nat \<Rightarrow> bool" where
  "wq_busy s q \<longleftrightarrow> (\<exists>r. wqs s q = Some r \<and> qcount r \<noteq> 0)"

text \<open>The number of turns before a worker with a work is next.\<close>

definition wq_delay :: "(nat \<Rightarrow> nat list) \<Rightarrow> nat \<Rightarrow> wq_sys \<Rightarrow> nat" where
  "wq_delay sched k s = (LEAST d. \<exists>q\<in>set (sched (k + d)). wq_busy s q)"

lemma run_worker_ran: "run_worker q s = Some s' \<Longrightarrow> \<exists>ws. ran s' = ran s @ ws"
  by (auto simp: run_worker_def worker_iteration_def lock_wq_def unlock_wq_def upd_wq_def with_lh_def
      wq_warn_def Let_def bind_Some_iff split: option.splits if_splits)

lemma run_workers_ran: "fold_opt run_worker ts s = Some s' \<Longrightarrow> \<exists>ws. ran s' = ran s @ ws"
proof (induction ts arbitrary: s)
  case (Cons q ts)
  then obtain k where k: "run_worker q s = Some k" "fold_opt run_worker ts k = Some s'"
    by (auto simp: bind_Some_iff)
  from run_worker_ran [OF k(1)] Cons.IH [OF k(2)] show ?case by auto
qed simp

lemma queue_busy:
  assumes "queue_ok s p q ws"
  shows "wq_busy s q \<longleftrightarrow> ws \<noteq> []"
  using assms by (auto simp: queue_ok_def wq_busy_def of_nat_u32_0)

lemma wq_turn_ok:
  assumes ready: "wq_ready env sched Q U n T k B s"
  obtains ws B' s' where "wq_turn sched k s = Some (ws, s')" "B = mset ws + B'"
    "wq_ready env sched Q U n T (Suc k) B' s'" "ran s' = ran s @ ws"
    "ws = [] \<Longrightarrow> (\<forall>q\<in>Q. wq_busy s' q \<longleftrightarrow> wq_busy s q) \<and> (\<forall>q\<in>set (sched k). \<not> wq_busy s q)"
proof -
  let ?p = mthpc_taskflow_wp
  obtain qs W where r: "exec_env env sched Q U" "pool_live s ?p qs W" "B = pending qs W" "set qs \<subseteq> Q"
    "\<forall>q\<in>Q - set qs. wq_is_fresh s q" "wq_crew U qs s" "\<forall>w\<in>T. works s w \<noteq> None \<and> WorkNode w \<in> dom (lh s)"
    "wq_warned s = n"
    by (rule wq_readyE [OF ready], rule that)
  have live: "pools_live s [(?p, qs)] W"
    using r(2) pool_live_apart [OF r(2)] by (simp add: pools_live_def)
  have none: "q \<in> set (queues_of [(?p, qs)]) \<or> wqs s q = None" if "q \<in> set (sched k)" for q
    using bspec [OF r(5), of q] exec_envD(6) [OF r(1) that] by (cases "q \<in> set qs") (auto simp: wq_is_fresh_def)
  obtain s' ts where s': "fold_opt run_worker (sched k) s = Some s'"
    "ts = filter (\<lambda>q. q \<in> set (queues_of [(?p, qs)])) (sched k)"
    "pools_live s' [(?p, qs)] (drained ts W)"
    "mset (ran s') + pending (queues_of [(?p, qs)]) (drained ts W) = mset (ran s) + pending (queues_of [(?p, qs)]) W"
    "workers_keep s s'"
    by (rule workers_run [OF live none], assumption, rule that)
  obtain ws where ws: "ran s' = ran s @ ws" using run_workers_ran [OF s'(1)] by blast
  let ?W = "drained ts W"
  have live': "pool_live s' ?p qs ?W" using s'(3) by (simp add: pools_live_Cons)
  have B: "B = mset ws + pending qs ?W" using s'(4) ws r(3) by simp
  have fresh: "wq_is_fresh s' q" if "q \<in> Q - set qs" for q
    using r(5) that s'(5) workers_keep_wqs(1) [OF s'(5), of q] by (auto simp: wq_is_fresh_def workers_keep_def)
  have "wq_ready env sched Q U n T (Suc k) (pending qs ?W) s'"
    unfolding wq_ready_def
  proof (intro conjI exI [of _ qs] exI [of _ ?W])
    show "wq_crew U qs s'" by (rule wq_crew_workers [OF r(6) s'(5)])
    show "\<forall>w\<in>T. works s' w \<noteq> None \<and> WorkNode w \<in> dom (lh s')"
      using r(7) s'(5) by (simp add: workers_keep_def)
    show "wq_warned s' = n" using r(8) s'(5) by (simp add: workers_keep_def)
  qed (use r live' fresh in auto)
  moreover have "wq_turn sched k s = Some (ws, s')" using s'(1) ws by (simp add: wq_turn_def)
  moreover have "(\<forall>q\<in>Q. wq_busy s' q \<longleftrightarrow> wq_busy s q) \<and> (\<forall>q\<in>set (sched k). \<not> wq_busy s q)" if "ws = []"
  proof -
    have "size (pending qs ?W) = size (pending qs W)" using B r(3) that by simp
    note same = drained_same [OF this]
    have out: "\<not> wq_busy s q \<and> \<not> wq_busy s' q" if "q \<in> Q - set qs" for q
      using r(5) fresh that by (simp add: wq_is_fresh_def wq_busy_def)
    have in_pool: "wq_busy s q \<longleftrightarrow> W q \<noteq> []" "wq_busy s' q \<longleftrightarrow> W q \<noteq> []" if q: "q \<in> set qs" for q
      using queue_busy [of s ?p q "W q"] queue_busy [of s' ?p q "?W q"] r(2) live' same q
      by (auto simp: pool_live_def pool_ok_def)
    have "\<not> wq_busy s q" if "q \<in> set (sched k)" for q
    proof (cases "q \<in> set qs")
      case True
      then show ?thesis using in_pool(1) same s'(2) that by simp
    next
      case False
      then show ?thesis using out exec_envD(6) [OF r(1) that] by simp
    qed
    then show ?thesis using in_pool out by blast
  qed
  ultimately show ?thesis using that B ws by blast
qed

lemma wq_ready_busy:
  assumes "wq_ready env sched Q U n T k B s" "B \<noteq> {#}"
  obtains q j where "q \<in> Q" "wq_busy s q" "q \<in> set (sched (k + j))"
proof -
  obtain qs W where r: "exec_env env sched Q U" "pool_live s mthpc_taskflow_wp qs W" "B = pending qs W" "set qs \<subseteq> Q"
    by (rule wq_readyE [OF assms(1)], rule that)
  from assms(2) r(3) obtain q where q: "q \<in> set qs" "W q \<noteq> []" by (auto simp: pending_empty)
  have "wq_busy s q" using queue_busy [of s mthpc_taskflow_wp q "W q"] r(2) q by (auto simp: pool_live_def pool_ok_def)
  moreover obtain j where "j \<ge> k" "q \<in> set (sched j)" using exec_envD(7) [OF r(1)] r(4) q(1) by blast
  then have "q \<in> set (sched (k + (j - k)))" by simp
  ultimately show ?thesis using that r(4) q(1) by blast
qed

lemma wq_turn_fair:
  assumes ready: "wq_ready env sched Q U n T k B s" and B: "B \<noteq> {#}" and idle: "wq_turn sched k s = Some ([], s')"
  shows "wq_delay sched (Suc k) s' < wq_delay sched k s"
proof -
  have busy: "(\<forall>q\<in>Q. wq_busy s' q \<longleftrightarrow> wq_busy s q) \<and> (\<forall>q\<in>set (sched k). \<not> wq_busy s q)"
    by (rule wq_turn_ok [OF ready]) (use idle in simp)
  obtain q j where "q \<in> Q" "wq_busy s q" "q \<in> set (sched (k + j))" by (rule wq_ready_busy [OF ready B])
  then have ex: "\<exists>q\<in>set (sched (k + j)). wq_busy s q" by blast
  let ?d = "wq_delay sched k s"
  have d: "\<exists>q\<in>set (sched (k + ?d)). wq_busy s q" unfolding wq_delay_def by (rule LeastI [of _ j]) (rule ex)
  then have "?d \<noteq> 0" using busy by (metis add.right_neutral)
  then obtain e where e: "?d = Suc e" using not0_implies_Suc by blast
  have sub: "set (sched i) \<subseteq> Q" for i using ready exec_envD(6) by (auto simp: wq_ready_def)
  have "\<exists>q\<in>set (sched (Suc k + e)). wq_busy s' q"
    using d e busy sub by fastforce
  then have "wq_delay sched (Suc k) s' \<le> e" unfolding wq_delay_def by (rule Least_le)
  then show ?thesis using e by simp
qed

lemma wq_submit_ok:
  assumes ready: "wq_ready env sched Q U n T k B s" and w: "w \<in> T" "w \<notin># B" and room: "size B < 2 ^ 32 - 1"
  shows "\<exists>s'. wq_submit env k cpu w s = Some (0, s') \<and> wq_ready env sched Q U n T (Suc k) (add_mset w B) s' \<and> ran s' = ran s"
proof -
  let ?p = mthpc_taskflow_wp
  obtain qs W where r: "exec_env env sched Q U" "pool_live s ?p qs W" "B = pending qs W" "set qs \<subseteq> Q"
    "\<forall>q\<in>Q - set qs. wq_is_fresh s q" "wq_crew U qs s" "\<forall>w\<in>T. works s w \<noteq> None \<and> WorkNode w \<in> dom (lh s)"
    "wq_warned s = n"
    by (rule wq_readyE [OF ready], rule that)
  let ?e = "env k s" and ?T = "U \<union> wq_tid s ` set qs"
  note en = exec_envD [OF r(1)]
  have "infinite (Q - set qs)" using en(1) by simp
  then obtain q0 where "q0 \<in> Q - set qs" by (metis ex_in_conv finite.emptyI)
  then have e: "wq_fresh ?e \<in> Q" "wq_is_fresh s (wq_fresh ?e)" using en(4) [of q0] r(5) by auto
  then have e0: "wq_fresh ?e \<noteq> 0" using en(2) by metis
  have crew: "rcu_threads ?T (rcu s)" "finite (dom (nodes (rcu s)))"
    using r(6) wq_threadsD(1) by (auto simp: wq_crew_def)
  have worker: "worker_env ?T (rcu s) ?e" by (rule en(5) [OF crew wq_crew_card [OF r(6)]])
  have qs: "wqs s q \<noteq> None" if "q \<in> set qs" for q using pool_live_queue [OF r(2) that] by auto
  then have nq: "wq_fresh ?e \<notin> set qs" using e(2) unfolding wq_is_fresh_def by blast
  have self: "self ?e \<in> ?T" using en(3) by simp
  have pre: "works s w \<noteq> None" "WorkNode w \<in> dom (lh s)" "w \<notin># pending qs W" "size (pending qs W) < 2 ^ 32 - 1"
    using r(3,7) w room by auto
  obtain s' qs' W' where s': "schedule_work_on ?e ?p cpu w s = Some (0, s')" "pool_live s' ?p qs' W'"
    "pending qs' W' = add_mset w (pending qs W)" "sched_queues ?e cpu ?T qs s qs' s'"
    "wq_frame ?p (set qs') (set_mset (pending qs' W')) s s'"
    by (rule schedule_live [OF r(2) pre(1-3) crew(1) self worker pre(4) e(2), of cpu]) (use e0 that in auto)
  note frame = wq_frameD [OF s'(5)]
  note sub = sched_queues_set [OF s'(4)]
  have fresh: "wq_is_fresh s' q" if "q \<in> Q - set qs'" for q
    using frame_fresh [OF s'(5), of q] r(5) sub that by auto
  have "wq_crew U qs' s'" by (rule wq_crew_sched [OF r(6) refl worker s'(4,5) qs nq])
  moreover have "\<forall>w\<in>T. works s' w \<noteq> None \<and> WorkNode w \<in> dom (lh s')"
    using r(7) frame(4,5) by (metis domIff subsetD)
  moreover have "wq_warned s' = n" using r(8) s'(5) by (simp add: wq_frame_def)
  ultimately have "wq_ready env sched Q U n T (Suc k) (add_mset w B) s'"
    unfolding wq_ready_def
    using r(1,3,4) s'(2,3) fresh sub(1) e(1) sub by (intro conjI exI [of _ qs'] exI [of _ W']) auto
  then show ?thesis using s'(1) frame(6) by (simp add: wq_submit_def mthpc_schedule_taskflow_work_on_def)
qed

interpretation wqx: executor "wq_submit env" "wq_turn sched" "wq_ready env sched Q U n T" ran "wq_delay sched" T "2 ^ 32 - 1"
  for env sched Q U n T
proof
  show "\<exists>s'. wq_submit env k cpu w s = Some (0, s') \<and> wq_ready env sched Q U n T (Suc k) (add_mset w B) s' \<and> ran s' = ran s"
    if "wq_ready env sched Q U n T k B s" "w \<in> T" "w \<notin># B" "size B < 2 ^ 32 - 1" for k B s w cpu
    by (rule wq_submit_ok [OF that])
  show "\<exists>ws B' s'. wq_turn sched k s = Some (ws, s') \<and> B = mset ws + B' \<and>
      wq_ready env sched Q U n T (Suc k) B' s' \<and> ran s' = ran s @ ws"
    if "wq_ready env sched Q U n T k B s" for k B s
    by (rule wq_turn_ok [OF that]) blast
  show "wq_delay sched (Suc k) s' < wq_delay sched k s"
    if "wq_ready env sched Q U n T k B s" "B \<noteq> {#}" "wq_turn sched k s = Some ([], s')" for k B s s'
    by (rule wq_turn_fair [OF that])
qed

end
