(* ===== verification/Taskflow_Wq.thy ===== *)
theory Taskflow_Wq
  imports Taskflow_Run Wq_Executor
begin

text \<open>
  \<open>mthpc_taskflow_await\<close> on the workqueue it uses: \<open>Taskflow_Run\<close> composed with the
  interpretation of the contract \<open>executor\<close> in \<open>Wq_Executor\<close>.
\<close>


section \<open>The waiter on the workqueue\<close>


section \<open>An example\<close>









end
