(* ===== verification/Taskflow_Dump.thy ===== *)
theory Taskflow_Dump
  imports Taskflow_Props
begin

text \<open>
  The debugging output of \<open>src/taskflow/taskflow.c\<close> under \<open>CONFIG_DEBUG\<close>: the lines that
  \<open>mthpc_dump_taskflow\<close> prints for a taskflow, from which the taskflow can be read back.
\<close>

section \<open>The lines\<close>

text \<open>
  \<open>"ID:%d, nr_task:%lu [prev=%p|node=%p|next=%p]"\<close>, indented for a sub task. The number comes from
  the argument of the task, \<open>*(int *)work.private\<close>; \<open>ids\<close> is the memory of the arguments.
\<close>

record dump_line =
  indented :: bool
  line_id :: u32
  line_nr :: u64
  line_prev :: tf_addr
  line_node :: tf_addr
  line_next :: tf_addr

definition dump_line :: "(nat \<rightharpoonup> u32) \<Rightarrow> bool \<Rightarrow> nat \<Rightarrow> tf_addr \<Rightarrow> tf_sys \<Rightarrow> dump_line option" where
  "dump_line ids sub t node s = do {
     r \<leftarrow> tasks s t;
     i \<leftarrow> ids (targ r);
     p \<leftarrow> ld_prev (tlh s) node;
     n \<leftarrow> ld_next (tlh s) node;
     Some \<lparr>indented = sub, line_id = i, line_nr = nr_sub_task r, line_prev = p, line_node = node, line_next = n\<rparr> }"

definition mthpc_dump_task :: "(nat \<rightharpoonup> u32) \<Rightarrow> nat \<Rightarrow> tf_sys \<Rightarrow> dump_line option" where
  "mthpc_dump_task ids t s = dump_line ids False t (TaskMain t) s"

definition dump_sub :: "(nat \<rightharpoonup> u32) \<Rightarrow> tf_addr \<Rightarrow> tf_sys \<times> dump_line list \<Rightarrow> (tf_sys \<times> dump_line list) option" where
  "dump_sub ids pos a = do {
     t \<leftarrow> task_of_sub pos;
     l \<leftarrow> dump_line ids True t (TaskSub t) (fst a);
     Some (fst a, snd a @ [l]) }"

definition dump_main :: "(nat \<rightharpoonup> u32) \<Rightarrow> tf_addr \<Rightarrow> tf_sys \<times> dump_line list \<Rightarrow> (tf_sys \<times> dump_line list) option" where
  "dump_main ids pos a = do {
     t \<leftarrow> task_of_main pos;
     l \<leftarrow> dump_line ids False t (TaskMain t) (fst a);
     list_for_each (\<lambda>a. tlh (fst a)) (dump_sub ids) (TaskSub t) (fst a, snd a @ [l]) }"

text \<open>The lines between the head line, with \<open>nr_task\<close>, and the last one.\<close>

definition mthpc_dump_taskflow :: "(nat \<rightharpoonup> u32) \<Rightarrow> u64 \<Rightarrow> tf_sys \<Rightarrow> (u64 \<times> dump_line list) option" where
  "mthpc_dump_taskflow ids tf s = do {
     f \<leftarrow> flows s tf;
     a \<leftarrow> list_for_each (\<lambda>a. tlh (fst a)) (dump_main ids) (TfHead tf) (s, []);
     Some (nr_task f, snd a) }"

section \<open>Reading the lines\<close>

fun line_task :: "dump_line \<Rightarrow> nat" where
  "line_task l = (case line_node l of TaskMain t \<Rightarrow> t | TaskSub t \<Rightarrow> t | _ \<Rightarrow> 0)"

function read_lines :: "dump_line list \<Rightarrow> forest" where
  "read_lines [] = []"
| "read_lines (l # ls) = (line_task l, map line_task (takeWhile indented ls)) # read_lines (dropWhile indented ls)"
  by pat_completeness auto

termination
  by (relation "measure length") (simp_all add: le_imp_less_Suc length_dropWhile_le)

text \<open>The line of a task, when nothing faults.\<close>

definition the_line :: "(nat \<rightharpoonup> u32) \<Rightarrow> tf_sys \<Rightarrow> bool \<Rightarrow> nat \<Rightarrow> dump_line" where
  "the_line ids s sub t = the (dump_line ids sub t (if sub then TaskSub t else TaskMain t) s)"

definition forest_lines :: "(nat \<rightharpoonup> u32) \<Rightarrow> tf_sys \<Rightarrow> forest \<Rightarrow> dump_line list" where
  "forest_lines ids s F = concat (map (\<lambda>(m, ss). the_line ids s False m # map (the_line ids s True) ss) F)"

text \<open>Every task has an argument that can be read.\<close>

definition args_ok :: "(nat \<rightharpoonup> u32) \<Rightarrow> forest \<Rightarrow> tf_sys \<Rightarrow> bool" where
  "args_ok ids F s \<longleftrightarrow> (\<forall>t\<in>set (tids F). \<forall>r. tasks s t = Some r \<longrightarrow> ids (targ r) \<noteq> None)"

lemma clist_reads:
  assumes "clist h l xs" "x \<in> set (l # xs)"
  shows "\<exists>p n. ld_prev h x = Some p \<and> ld_next h x = Some n"
proof -
  have "x \<in> dom h" using clist_dom [OF assms(1)] assms(2) by auto
  then show ?thesis by (auto simp: ld_prev_def ld_next_def)
qed

lemma dump_line_ok:
  assumes "forest_ok tf F s" "args_ok ids F s" "t \<in> set (tids F)"
  shows "dump_line ids sub t (if sub then TaskSub t else TaskMain t) s = Some (the_line ids s sub t)"
    and "indented (the_line ids s sub t) = sub" "line_task (the_line ids s sub t) = t"
    "line_nr (the_line ids s sub t) = nr_sub_task (the (tasks s t))"
proof -
  have "tasks s t \<noteq> None"
    using assms(1,3) by (force simp: forest_ok_def tasks_ok_def tids_def main_ok_def sub_ok_def)
  then obtain r i where r: "tasks s t = Some r" "ids (targ r) = Some i"
    using assms(2,3) by (fastforce simp: args_ok_def)
  let ?n = "if sub then TaskSub t else TaskMain t"
  have "?n \<in> set (ring_nodes (forest_rings tf F))" using assms(3) by (simp add: forest_rings_nodes)
  then have "?n \<in> dom (tlh s)" using assms(1) rings_dom by (fastforce simp: forest_ok_def)
  then obtain p n where "ld_prev (tlh s) ?n = Some p" "ld_next (tlh s) ?n = Some n"
    by (auto simp: ld_prev_def ld_next_def)
  then have line: "dump_line ids sub t ?n s = Some \<lparr>indented = sub, line_id = i, line_nr = nr_sub_task r,
      line_prev = p, line_node = ?n, line_next = n\<rparr>"
    using r by (simp add: dump_line_def)
  then show "dump_line ids sub t ?n s = Some (the_line ids s sub t)" by (simp add: the_line_def)
  show "indented (the_line ids s sub t) = sub" "line_task (the_line ids s sub t) = t"
    "line_nr (the_line ids s sub t) = nr_sub_task (the (tasks s t))"
    using line r(1) by (simp_all add: the_line_def)
qed

lemma dump_subs:
  assumes "forest_ok tf F s" "args_ok ids F s" "set ss \<subseteq> set (tids F)"
  shows "fold_opt (dump_sub ids) (map TaskSub ss) (s, out) = Some (s, out @ map (the_line ids s True) ss)"
  using assms(3)
proof (induction ss arbitrary: out)
  case (Cons t ss)
  then show ?case using dump_line_ok(1) [OF assms(1,2), of t True] by (simp add: dump_sub_def)
qed simp

lemma dump_group:
  assumes ok: "forest_ok tf F s" "args_ok ids F s" and m: "(m, ss) \<in> set F"
  shows "dump_main ids (TaskMain m) (s, out) = Some (s, out @ the_line ids s False m # map (the_line ids s True) ss)"
proof -
  have t: "m \<in> set (tids F)" "set ss \<subseteq> set (tids F)" using m by (force simp: tids_def)+
  have "(TaskSub m, map TaskSub ss) \<in> set (forest_rings tf F)"
    using m by (force simp: forest_rings_def body_rings_def)
  then have c: "clist (tlh s) (TaskSub m) (map TaskSub ss)"
    using ok(1) rings_clist by (auto simp: forest_ok_def)
  have "list_for_each (\<lambda>a. tlh (fst a)) (dump_sub ids) (TaskSub m) (s, out @ [the_line ids s False m]) =
    fold_opt (dump_sub ids) (map TaskSub ss) (s, out @ [the_line ids s False m])"
    by (rule list_for_each_fold [where I = "\<lambda>a. fst a = s"])
      (use clist_nexts [OF c] clist_distinct [OF c] in \<open>auto simp: dump_sub_def bind_Some_iff\<close>)
  then show ?thesis
    using dump_line_ok(1) [OF ok t(1), of False] dump_subs [OF ok t(2)] by (simp add: dump_main_def)
qed

lemma dump_groups:
  assumes ok: "forest_ok tf F s" "args_ok ids F s" and G: "set G \<subseteq> set F"
  shows "fold_opt (dump_main ids) (mains G) (s, out) = Some (s, out @ forest_lines ids s G)"
  using G
proof (induction G arbitrary: out)
  case (Cons g G)
  obtain m ss where g: "g = (m, ss)" by (cases g)
  then show ?case
    using Cons dump_group [OF ok, of m ss out] by (simp add: forest_lines_def)
qed (simp add: forest_lines_def)

lemma read_forest_lines:
  assumes ok: "forest_ok tf F s" "args_ok ids F s" and G: "set G \<subseteq> set F"
  shows "read_lines (forest_lines ids s G) = G"
  using G
proof (induction G)
  case (Cons g G)
  obtain m ss where g: "g = (m, ss)" by (cases g)
  have t: "m \<in> set (tids F)" "set ss \<subseteq> set (tids F)" using Cons.prems g by (force simp: tids_def)+
  note line = dump_line_ok(2,3) [OF ok]
  have stop: "takeWhile indented (forest_lines ids s G) = []" "dropWhile indented (forest_lines ids s G) = forest_lines ids s G"
  proof -
    have "forest_lines ids s G = [] \<or> \<not> indented (hd (forest_lines ids s G))"
    proof (cases G)
      case (Cons h H)
      then have "h \<in> set F" using \<open>set (g # G) \<subseteq> set F\<close> by simp
      then have "fst h \<in> set (tids F)" by (simp add: tids_split)
      then show ?thesis using Cons line(1) by (cases h) (simp add: forest_lines_def)
    qed (simp add: forest_lines_def)
    then show "takeWhile indented (forest_lines ids s G) = []" "dropWhile indented (forest_lines ids s G) = forest_lines ids s G"
      by (cases "forest_lines ids s G"; simp)+
  qed
  have ind: "\<forall>l\<in>set (map (the_line ids s True) ss). indented l" using line(1) t(2) by auto
  have ids: "map line_task (map (the_line ids s True) ss) = ss" using line(2) t(2) by (induction ss) auto
  let ?ts = "map (the_line ids s True) ss" and ?rest = "forest_lines ids s G"
  have "takeWhile indented (?ts @ ?rest) = ?ts @ takeWhile indented ?rest"
    "dropWhile indented (?ts @ ?rest) = dropWhile indented ?rest"
    by (rule takeWhile_append2, use ind in blast) (rule dropWhile_append2, use ind in blast)
  then have "takeWhile indented (?ts @ ?rest) = ?ts" "dropWhile indented (?ts @ ?rest) = ?rest"
    unfolding stop by simp_all
  moreover have "forest_lines ids s (g # G) = the_line ids s False m # map (the_line ids s True) ss @ forest_lines ids s G"
    by (simp add: forest_lines_def g)
  ultimately show ?case
    using Cons ids line(2) [OF t(1)] by (simp add: g del: line_task.simps)
qed (simp add: forest_lines_def)

text \<open>
  What is dumped for a well-formed taskflow is the taskflow: the dump returns, with one line for
  each task, and the forest of the tasks can be read back from its lines.
\<close>

theorem dump_taskflow_reads_back:
  assumes "forest_ok tf F s" "args_ok ids F s"
  shows "\<exists>ls. mthpc_dump_taskflow ids tf s = Some (of_nat (length (tids F)), ls) \<and> read_lines ls = F \<and> length ls = length (tids F)"
proof -
  have c: "clist (tlh s) (TfHead tf) (mains F)"
    using assms(1) by (auto simp: forest_ok_def forest_rings_def rings_Cons)
  have "list_for_each (\<lambda>a. tlh (fst a)) (dump_main ids) (TfHead tf) (s, []) = fold_opt (dump_main ids) (mains F) (s, [])"
  proof (rule list_for_each_fold [where I = "\<lambda>a. fst a = s"])
    fix x a a' assume "x \<in> set (mains F)" "fst a = s" "dump_main ids x a = Some a'"
    then show "fst a' = s" using dump_group [OF assms] by (cases a) (auto simp: mains_def)
  qed (use clist_nexts [OF c] clist_distinct [OF c] in auto)
  then have run: "list_for_each (\<lambda>a. tlh (fst a)) (dump_main ids) (TfHead tf) (s, []) = Some (s, forest_lines ids s F)"
    using dump_groups [OF assms, of F "[]"] by simp
  obtain f where f: "flows s tf = Some f" "nr_task f = of_nat (length (tids F))"
    using assms(1) by (auto simp: forest_ok_def flow_ok_def)
  have "length (forest_lines ids s F) = length (tids F)"
    by (induction F) (auto simp: forest_lines_def)
  then show ?thesis
    using run f read_forest_lines [OF assms, of F] by (simp add: mthpc_dump_taskflow_def)
qed

lemma dump_taskflow_reads_back_witness:
  "\<exists>s ls. mthpc_dump_taskflow (\<lambda>_. Some 5) 8 s = Some (4, ls) \<and> read_lines ls = [(1, [2, 3]), (4, [])]"
proof -
  obtain s where s: "forest_ok 8 [(1, [2, 3]), (4, [])] s" using forest_example [of "[(1, [2, 3]), (4, [])]"] by auto
  have "args_ok (\<lambda>_. Some 5) [(1, [2, 3]), (4, [])] s" by (simp add: args_ok_def)
  from dump_taskflow_reads_back [OF s this] show ?thesis by auto
qed

end
