(* ===== verification/Thread_Reap.thy ===== *)
theory Thread_Reap
  imports Thread_Props
begin

text \<open>
  The work \<open>mthpc_thread_wq_join\<close>: it joins the groups of the list whose threads have all
  exited, takes them off the list, drops their barrier objects and queues itself again while
  groups remain. Each group here was started on its own and has its own barrier object.
\<close>

definition group_ths :: "th_sys \<Rightarrow> nat \<Rightarrow> nat list" where
  "group_ths s g = (case groups s g of Some r \<Rightarrow> take (unat (tg_nr r)) (tg_thread r) | None \<Rightarrow> [])"

definition group_bar :: "th_sys \<Rightarrow> nat \<Rightarrow> nat" where
  "group_bar s g = (case groups s g of Some r \<Rightarrow> barrier_object r | None \<Rightarrow> 0)"

definition finished :: "th_sys \<Rightarrow> nat \<Rightarrow> bool" where
  "finished s g = (case groups s g of Some r \<Rightarrow> nr_exited r = tg_nr r | None \<Rightarrow> False)"

definition solo :: "th_sys \<Rightarrow> nat \<Rightarrow> bool" where
  "solo s g = (case groups s g of None \<Rightarrow> False | Some r \<Rightarrow>
     unat (tg_nr r) \<le> length (tg_thread r) \<and> barrier_object r \<noteq> 0 \<and>
     bobjs s (barrier_object r) = Some (ucast (tg_nr r)) \<and>
     (finished s g \<longrightarrow> (\<forall>t\<in>set (group_ths s g). pths s t = Some Exited)))"

definition apart :: "th_sys \<Rightarrow> nat list \<Rightarrow> bool" where
  "apart s gs \<longleftrightarrow> distinct (map (group_bar s) gs) \<and> distinct (concat (map (group_ths s) gs))"

text \<open>The state after the groups \<open>F\<close> have been reaped, but for the list heads.\<close>

definition reaped :: "nat list \<Rightarrow> th_sys \<Rightarrow> th_sys" where
  "reaped F s = s\<lparr>
     groups := (\<lambda>g. if g \<in> set F then map_option (\<lambda>r. r\<lparr>barrier_object := 0\<rparr>) (groups s g) else groups s g),
     pths := set_pths (concat (map (group_ths s) F)) Joined (pths s),
     bobjs := (\<lambda>b. if b \<in> group_bar s ` set F then None else bobjs s b),
     nr_group := nr_group s - of_nat (length F)\<rparr>"

lemma reaped_simps [simp]:
  "thl (reaped F s) = thl s" "th_lock (reaped F s) = th_lock s" "thread_work (reaped F s) = thread_work s"
  "th_warned (reaped F s) = th_warned s" "nr_group (reaped F s) = nr_group s - of_nat (length F)"
  "g \<notin> set F \<Longrightarrow> groups (reaped F s) g = groups s g"
  by (simp_all add: reaped_def)

lemma reaped_Nil [simp]: "reaped [] s = s"
  by (simp add: reaped_def)

lemma apart_two:
  assumes "apart s (as @ g # bs)" "distinct (as @ g # bs)"
  shows "set (group_ths s g) \<inter> set (concat (map (group_ths s) (filter P as))) = {}"
    "group_bar s g \<notin> group_bar s ` set (filter P as)" "distinct (group_ths s g)"
  using assms by (auto simp: apart_def)

lemma wq_join_step:
  assumes g: "groups s g = Some r" "solo s g" and F: "g \<notin> set F"
    and ap: "set (group_ths s g) \<inter> set (concat (map (group_ths s) F)) = {}"
      "group_bar s g \<notin> group_bar s ` set F" "distinct (group_ths s g)"
    and R: "rings h ((ThreadsHead, map GroupNode (as @ g # bs)) # R)"
  shows "finished s g \<Longrightarrow> \<exists>h'. wq_join_one ends (GroupNode g) ((reaped F s)\<lparr>thl := h\<rparr>) =
      Some ((reaped (F @ [g]) s)\<lparr>thl := h'\<rparr>) \<and> rings h' ((ThreadsHead, map GroupNode (as @ bs)) # R)"
    "\<not> finished s g \<Longrightarrow> wq_join_one ends (GroupNode g) ((reaped F s)\<lparr>thl := h\<rparr>) = Some ((reaped F s)\<lparr>thl := h\<rparr>)"
proof -
  let ?s = "(reaped F s)\<lparr>thl := h\<rparr>" and ?n = "unat (tg_nr r)"
  have gs: "groups ?s g = Some r" using g(1) F by simp
  have so: "?n \<le> length (tg_thread r)" "barrier_object r \<noteq> 0"
    "bobjs s (barrier_object r) = Some (ucast (tg_nr r))"
    "finished s g \<Longrightarrow> \<forall>t\<in>set (take ?n (tg_thread r)). pths s t = Some Exited"
    and gt: "group_ths s g = take ?n (tg_thread r)" "group_bar s g = barrier_object r"
    using g by (simp_all add: solo_def group_ths_def group_bar_def)
  show "\<not> finished s g \<Longrightarrow> wq_join_one ends (GroupNode g) ?s = Some ?s"
    using gs g(1) by (simp add: wq_join_one_def finished_def)
  assume fin: "finished s g"
  have ex: "nr_exited r = tg_nr r" using fin g(1) by (simp add: finished_def)
  have ps: "\<forall>t\<in>set (take ?n (tg_thread r)). pths ?s t = Some Exited"
    using so(4) [OF fin] ap(1) by (auto simp: reaped_def gt(1) set_pths_def)
  then have j: "joinable ends (pths ?s) (take ?n (tg_thread r))" "late_ones (pths ?s) (take ?n (tg_thread r)) = []"
    using ap(3) by (auto simp: joinable_def late_ones_def gt(1) filter_empty_conv)
  have join: "each_thread (join_thread ends g) g ?s =
      Some (?s\<lparr>groups := groups ?s, pths := set_pths (take ?n (tg_thread r)) Joined (pths ?s)\<rparr>)"
    using join_threads [OF gs refl so(1) j(1)] gs by (simp add: j(2) [simplified] fun_upd_idem del: fun_upd_apply)
  have R0: "rings h ((ThreadsHead, map GroupNode as @ GroupNode g # map GroupNode bs) # R)" using R by simp
  obtain h' where h': "mthpc_list_del (GroupNode g) h = Some h'" "dom h' = dom h"
    "rings h' ((ThreadsHead, map GroupNode as @ map GroupNode bs) # (GroupNode g, []) # R)"
    by (rule rings_del [OF R0], rule that)
  let ?s2 = "?s\<lparr>groups := groups ?s, pths := set_pths (take ?n (tg_thread r)) Joined (pths ?s), thl := h',
    nr_group := nr_group ?s - 1\<rparr>"
  have p: "groups ?s2 g = Some r" "barrier_object r = barrier_object r" "barrier_object r \<noteq> 0"
    "bobjs ?s2 (barrier_object r) = Some (ucast (tg_nr r))" "0 \<le>s (ucast (tg_nr r) :: u64) - ucast (tg_nr r)"
    using gs so(2,3) ap(2) by (simp_all add: reaped_def gt(2))
  have "wq_join_one ends (GroupNode g) ?s = mthpc_group_put_barrier_object g ?s2"
    using gs ex join h'(1) by (simp add: wq_join_one_def with_thl_def)
  also have "\<dots> = Some (?s2\<lparr>groups := (groups ?s2)(g \<mapsto> r\<lparr>barrier_object := 0\<rparr>),
      bobjs := (bobjs ?s2)(barrier_object r := None)\<rparr>)"
    using put_object [OF p] by simp
  also have "\<dots> = Some ((reaped (F @ [g]) s)\<lparr>thl := h'\<rparr>)"
    using g(1) by (simp add: reaped_def gt set_pths_def fun_eq_iff)
  finally show "\<exists>h'. wq_join_one ends (GroupNode g) ?s = Some ((reaped (F @ [g]) s)\<lparr>thl := h'\<rparr>) \<and>
      rings h' ((ThreadsHead, map GroupNode (as @ bs)) # R)"
    using h'(3) by (intro exI [of _ h']) (auto simp: rings_Cons)
qed



definition reap_inv :: "nat list \<Rightarrow> th_addr ring list \<Rightarrow> th_sys \<Rightarrow> th_addr list \<Rightarrow> th_sys \<Rightarrow> bool" where
  "reap_inv gs R s P u \<longleftrightarrow> (\<exists>seen rest h. gs = seen @ rest \<and> P = map GroupNode rest \<and>
     u = (reaped (filter (finished s) seen) s)\<lparr>thl := h\<rparr> \<and>
     rings h ((ThreadsHead, map GroupNode (filter (\<lambda>g. \<not> finished s g) seen @ rest)) # R))"

lemma reap_inv_step:
  assumes ok: "distinct gs" "\<And>g. g \<in> set gs \<Longrightarrow> solo s g" "apart s gs"
    and inv: "reap_inv gs R s (p # P) u"
  shows "\<exists>u'. wq_join_one ends p u = Some u' \<and> reap_inv gs R s P u'"
proof -
  from inv obtain seen g bs h where i: "gs = seen @ g # bs" "p = GroupNode g" "P = map GroupNode bs"
    "u = (reaped (filter (finished s) seen) s)\<lparr>thl := h\<rparr>"
    "rings h ((ThreadsHead, map GroupNode (filter (\<lambda>g. \<not> finished s g) seen @ g # bs)) # R)"
    by (auto simp: reap_inv_def Cons_eq_map_conv)
  have so: "solo s g" using ok(2) i(1) by simp
  then obtain r where r: "groups s g = Some r" by (cases "groups s g") (auto simp: solo_def)
  have new: "g \<notin> set (filter (finished s) seen)" using ok(1) i(1) by auto
  note ap = apart_two(1,2) [OF ok(3,1) [unfolded i(1)], of "finished s"] apart_two(3) [OF ok(3,1) [unfolded i(1)]]
  note step = wq_join_step [OF r so new ap i(5)]
  show ?thesis
  proof (cases "finished s g")
    case True
    obtain h' where h': "wq_join_one ends p u = Some ((reaped (filter (finished s) seen @ [g]) s)\<lparr>thl := h'\<rparr>)"
      "rings h' ((ThreadsHead, map GroupNode (filter (\<lambda>g. \<not> finished s g) seen @ bs)) # R)"
      using step(1) [OF True, of ends] i(2,4) by auto
    have "reap_inv gs R s P ((reaped (filter (finished s) seen @ [g]) s)\<lparr>thl := h'\<rparr>)"
      unfolding reap_inv_def
      by (rule exI [of _ "seen @ [g]"], rule exI [of _ bs], rule exI [of _ h']) (use i True h'(2) in simp)
    with h'(1) show ?thesis by blast
  next
    case False
    have "reap_inv gs R s P u"
      unfolding reap_inv_def
      by (rule exI [of _ "seen @ [g]"], rule exI [of _ bs], rule exI [of _ h]) (use i False in simp)
    with step(2) [OF False, of ends] i(2,4) show ?thesis by simp
  qed
qed

lemma nexts_drop: "nexts h (xs @ ys) \<Longrightarrow> ys \<noteq> [] \<Longrightarrow> nexts h ys"
  by (cases ys) (auto dest: nexts_appendD)

lemma reap_loop:
  assumes ok: "distinct gs" "\<And>g. g \<in> set gs \<Longrightarrow> solo s g" "apart s gs"
    and R: "rings (thl s) ((ThreadsHead, map GroupNode gs) # R)"
  shows "\<exists>h. list_for_each_safe thl (wq_join_one ends) ThreadsHead s = Some ((reaped (filter (finished s) gs) s)\<lparr>thl := h\<rparr>) \<and>
    rings h ((ThreadsHead, map GroupNode (filter (\<lambda>g. \<not> finished s g) gs)) # R)"
proof -
  have J0: "reap_inv gs R s (map GroupNode gs) s"
    unfolding reap_inv_def by (rule exI [of _ "[]"], rule exI [of _ gs], rule exI [of _ "thl s"]) (simp add: R)
  have "\<exists>u. fold_opt (wq_join_one ends) (map GroupNode gs) s = Some u \<and> reap_inv gs R s [] u"
    by (rule fold_opt_invariant [where J = "reap_inv gs R s" and f = "wq_join_one ends", OF J0])
      (use reap_inv_step [OF ok, of R] in blast, blast)
  then obtain u where u: "fold_opt (wq_join_one ends) (map GroupNode gs) s = Some u" "reap_inv gs R s [] u"
    by blast
  have c: "clist (thl v) ThreadsHead (map GroupNode (filter (\<lambda>g. \<not> finished s g) seen @ rest))"
    if "rings (thl v) ((ThreadsHead, map GroupNode (filter (\<lambda>g. \<not> finished s g) seen @ rest)) # R)" for v seen rest
    using that by (simp add: rings_Cons)
  have "list_for_each_safe thl (wq_join_one ends) ThreadsHead s = fold_opt (wq_join_one ends) (map GroupNode gs) s"
  proof (rule list_for_each_safe_fold [where J = "reap_inv gs R s"])
    show "nexts (thl v) (P @ [ThreadsHead]) \<and> ThreadsHead \<in> dom (thl v)" if inv: "reap_inv gs R s P v" for P v
    proof -
      from inv obtain seen rest where i: "P = map GroupNode rest"
        "rings (thl v) ((ThreadsHead, map GroupNode (filter (\<lambda>g. \<not> finished s g) seen @ rest)) # R)"
        by (auto simp: reap_inv_def)
      note cl = c [OF i(2)]
      have "nexts (thl v) ((ThreadsHead # map GroupNode (filter (\<lambda>g. \<not> finished s g) seen)) @ map GroupNode rest @ [ThreadsHead])"
        using clist_nexts [OF cl] by simp
      then have "nexts (thl v) (map GroupNode rest @ [ThreadsHead])"
        by (rule nexts_drop) simp
      then show ?thesis using clist_dom [OF cl] i(1) by blast
    qed
    show "reap_inv gs R s P v'" if "reap_inv gs R s (p # P) v" "wq_join_one ends p v = Some v'" for p P v v'
      using reap_inv_step [OF ok that(1), of ends] that(2) by simp
    show "ld_next (thl s) ThreadsHead = Some (hd (map GroupNode gs @ [ThreadsHead]))"
      using clist_next [of "thl s" ThreadsHead "map GroupNode gs"] R
      by (cases gs) (simp_all add: rings_Cons)
  qed (use J0 in auto)
  moreover from u(2) obtain h where "u = (reaped (filter (finished s) gs) s)\<lparr>thl := h\<rparr>"
    "rings h ((ThreadsHead, map GroupNode (filter (\<lambda>g. \<not> finished s g) gs)) # R)"
    by (auto simp: reap_inv_def)
  ultimately show ?thesis using u(1) by auto
qed

lemma wq_join_ok:
  assumes l: "listed gs R s" "nr_group s = of_nat (length gs)" "length gs < 2 ^ 64"
    and ok: "\<And>g. g \<in> set gs \<Longrightarrow> solo s g" "apart s gs"
  shows "\<exists>h. mthpc_thread_wq_join ends s = Some ((reaped (filter (finished s) gs) s)\<lparr>thl := h, th_lock := Unlocked,
      thread_work := thread_work s + (if \<forall>g\<in>set gs. finished s g then 0 else 1)\<rparr>) \<and>
    rings h ((ThreadsHead, map GroupNode (filter (\<lambda>g. \<not> finished s g) gs)) # R)"
proof -
  let ?F = "filter (finished s) gs" and ?K = "filter (\<lambda>g. \<not> finished s g) gs"
  let ?s = "s\<lparr>th_lock := Held\<rparr>"
  have R: "rings (thl s) ((ThreadsHead, map GroupNode gs) # R)" and u: "th_lock s = Unlocked"
    using l by (simp_all add: listed_def)
  have d: "distinct gs" using R clist_distinct [of "thl s" ThreadsHead "map GroupNode gs"]
    by (auto simp: rings_Cons distinct_map)
  have same: "finished ?s = finished s" "group_ths ?s = group_ths s" "group_bar ?s = group_bar s"
    by (auto simp: fun_eq_iff finished_def group_ths_def group_bar_def split: option.splits)
  have "solo ?s g" if "g \<in> set gs" for g
    using ok(1) [OF that] by (simp add: solo_def same split: option.splits)
  moreover have "apart ?s gs" using ok(2) by (simp add: apart_def same)
  ultimately obtain h where h: "list_for_each_safe thl (wq_join_one ends) ThreadsHead ?s = Some ((reaped ?F ?s)\<lparr>thl := h\<rparr>)"
    "rings h ((ThreadsHead, map GroupNode ?K) # R)"
    using reap_loop [OF d, of ?s R ends] R by (auto simp: same)
  have "length ?F + length ?K = length gs" by (simp add: sum_length_filter_compl)
  then have "nr_group s - of_nat (length ?F) = (of_nat (length ?K) :: u64)"
    using l(2) by (metis add_diff_cancel_left' of_nat_add)
  moreover have "(of_nat (length ?K) :: u64) = 0 \<longleftrightarrow> ?K = []"
    using l(3) of_nat_u64_inj [of "length ?K" 0] length_filter_le [of "\<lambda>g. \<not> finished s g" gs] by simp
  ultimately have z: "nr_group s - of_nat (length ?F) = 0 \<longleftrightarrow> (\<forall>g\<in>set gs. finished s g)"
    by (simp add: filter_empty_conv)
  have r: "reaped ?F ?s = (reaped ?F s)\<lparr>th_lock := Held\<rparr>" 
    by (rule th_sys.equality) (simp_all add: reaped_def same cong: if_cong)
  show ?thesis
    using h u z unfolding r
    by (intro exI [of _ h]) (simp add: mthpc_thread_wq_join_def lock_threads_def unlock_threads_def)
qed


section \<open>The reaper\<close>

text \<open>
  C39. The work of the workqueue that reaps, for groups that have been run by one call each, as
  many as \<open>nr_group\<close> says: the barrier object of each group is its own and counts
  just the threads of the group, no two groups share a thread, and the threads of a group whose
  \<open>nr_exited\<close> is full have exited and are not joined. Then it joins the threads of
  exactly the finished groups, takes these groups off the list and frees their barrier objects,
  keeps the others in order, counts them, and queues itself again exactly if a group is left.
  The members of a cluster share a barrier object and are not covered: theirs is never freed.
\<close>

theorem reaper_joins_finished:
  assumes "listed gs R s" "nr_group s = of_nat (length gs)" "length gs < 2 ^ 64"
    and "\<And>g. g \<in> set gs \<Longrightarrow> solo s g" "apart s gs"
  shows "\<exists>s'. mthpc_thread_wq_join ends s = Some s' \<and>
    listed (filter (\<lambda>g. \<not> finished s g) gs) R s' \<and>
    nr_group s' = of_nat (length (filter (\<lambda>g. \<not> finished s g) gs)) \<and>
    pths s' = set_pths (concat (map (group_ths s) (filter (finished s) gs))) Joined (pths s) \<and>
    bobjs s' = (\<lambda>b. if b \<in> group_bar s ` set (filter (finished s) gs) then None else bobjs s b) \<and>
    thread_work s' = thread_work s + (if \<forall>g\<in>set gs. finished s g then 0 else 1) \<and>
    th_warned s' = th_warned s"
proof -
  let ?F = "filter (finished s) gs" and ?K = "filter (\<lambda>g. \<not> finished s g) gs"
  obtain h where h: "mthpc_thread_wq_join ends s = Some ((reaped ?F s)\<lparr>thl := h, th_lock := Unlocked,
      thread_work := thread_work s + (if \<forall>g\<in>set gs. finished s g then 0 else 1)\<rparr>)"
    "rings h ((ThreadsHead, map GroupNode ?K) # R)"
    using wq_join_ok [OF assms] by blast
  have "length gs = length ?K + length ?F" by (metis add.commute sum_length_filter_compl)
  then have "nr_group s - of_nat (length ?F) = (of_nat (length ?K) :: u64)" using assms(2) by simp
  with h(2) show ?thesis by (subst h(1)) (simp add: listed_def reaped_def)
qed

lemma wait_joins_twice:
  assumes "groups s g = Some r" "0 < unat (tg_nr r)" "tg_thread r \<noteq> []" "pths s (tg_thread r ! 0) = Some Joined"
  shows "async_wait_one ends late g s = None"
proof -
  have "each_thread (join_thread ends g) g (s\<lparr>th_lock := l, thl := h, nr_group := k\<rparr>) = None" for l h k
    by (rule join_twice) (use assms in simp_all)
  moreover have "each_thread (join_thread ends g) g (s\<lparr>thl := h, nr_group := k, th_lock := l\<rparr>) = None" for l h k
    by (rule join_twice) (use assms in simp_all)
  ultimately show ?thesis
    using assms(1) by (simp add: async_wait_one_def lock_threads_def unlock_threads_def with_thl_def
      bind_eq_None_conv guard_opt_def split: bind_splits)
qed

text \<open>
  The wait for a group that the reaper has joined before joins its threads a second time,
  which is undefined.
\<close>

theorem wait_after_reap:
  assumes "listed gs R s" "nr_group s = of_nat (length gs)" "length gs < 2 ^ 64"
    and "\<And>g. g \<in> set gs \<Longrightarrow> solo s g" "apart s gs"
    and g: "g \<in> set gs" "finished s g" "group_ths s g \<noteq> []"
  shows "\<exists>s'. mthpc_thread_wq_join ends s = Some s' \<and> mthpc_thread_async_wait ends late [g] s' = None"
proof -
  let ?F = "filter (finished s) gs"
  obtain h where h: "mthpc_thread_wq_join ends s = Some ((reaped ?F s)\<lparr>thl := h, th_lock := Unlocked,
      thread_work := thread_work s + (if \<forall>g\<in>set gs. finished s g then 0 else 1)\<rparr>)"
    using wq_join_ok [OF assms(1-5)] by blast
  let ?s = "(reaped ?F s)\<lparr>thl := h, th_lock := Unlocked,
      thread_work := thread_work s + (if \<forall>g\<in>set gs. finished s g then 0 else 1)\<rparr>"
  obtain r where r: "groups s g = Some r" using g(2) by (cases "groups s g") (auto simp: finished_def)
  have nz: "0 < unat (tg_nr r)" "tg_thread r \<noteq> []" using g(3) r by (auto simp: group_ths_def)
  then have "tg_thread r ! 0 \<in> set (group_ths s g)"
    using r by (cases "tg_thread r"; cases "unat (tg_nr r)") (simp_all add: group_ths_def)
  then have "tg_thread r ! 0 \<in> set (concat (map (group_ths s) ?F))" using g by auto
  then have "pths ?s (tg_thread r ! 0) = Some Joined" by (simp add: reaped_def)
  moreover have "groups ?s g = Some (r\<lparr>barrier_object := 0\<rparr>)" using r g by (simp add: reaped_def)
  ultimately have "async_wait_one ends late g ?s = None"
    using nz wait_joins_twice [of ?s g "r\<lparr>barrier_object := 0\<rparr>" ends late] by simp
  with h show ?thesis by (simp add: mthpc_thread_async_wait_def)
qed


section \<open>Concrete instances\<close>

text \<open>Group 3 has one thread, which has exited; group 4 has one thread, which runs.\<close>

definition two_groups :: th_sys where
  "two_groups = \<lparr>
     groups = [3 \<mapsto> \<lparr>tg_type = 5, tg_nr = 1, barrier_object = 7, nr_exited = 1, tg_thread = [10]\<rparr>,
       4 \<mapsto> \<lparr>tg_type = 5, tg_nr = 1, barrier_object = 8, nr_exited = 0, tg_thread = [11]\<rparr>],
     pths = [10 \<mapsto> Exited, 11 \<mapsto> Running True], next_pth = 12, bobjs = [7 \<mapsto> 1, 8 \<mapsto> 1],
     thl = [ThreadsHead \<mapsto> \<lparr>nxt = GroupNode 3, prv = GroupNode 4\<rparr>,
       GroupNode 3 \<mapsto> \<lparr>nxt = GroupNode 4, prv = ThreadsHead\<rparr>,
       GroupNode 4 \<mapsto> \<lparr>nxt = ThreadsHead, prv = GroupNode 3\<rparr>],
     nr_group = 2, th_lock = Unlocked, thread_work = 0, th_warned = 0\<rparr>"

lemma two_groups_ok:
  "listed [3, 4] [] two_groups" "nr_group two_groups = of_nat (length [3, 4 :: nat])"
  "\<And>g. g \<in> set [3, 4] \<Longrightarrow> solo two_groups g" "apart two_groups [3, 4]"
  by (auto simp: listed_def rings_def clist_def link_def ld_next_def ld_prev_def solo_def apart_def
    finished_def group_ths_def group_bar_def two_groups_def)

lemma two_groups_facts:
  "finished two_groups 3" "\<not> finished two_groups 4" "group_ths two_groups 3 = [10]"
  "pths two_groups 11 = Some (Running True)" "thread_work two_groups = 0"
  by (simp_all add: finished_def group_ths_def two_groups_def)

lemma reaper_joins_finished_witness:
  "\<exists>s'. mthpc_thread_wq_join (\<lambda>_. False) two_groups = Some s' \<and> listed [4] [] s' \<and>
    pths s' 10 = Some Joined \<and> pths s' 11 = Some (Running True) \<and> thread_work s' = 1"
proof -
  have len: "length [3, 4 :: nat] < 2 ^ 64" by simp
  from reaper_joins_finished [OF two_groups_ok(1,2) len two_groups_ok(3,4), of "\<lambda>_. False"]
  obtain s' where "mthpc_thread_wq_join (\<lambda>_. False) two_groups = Some s'"
    "listed (filter (\<lambda>g. \<not> finished two_groups g) [3, 4]) [] s'"
    "pths s' = set_pths (concat (map (group_ths two_groups) (filter (finished two_groups) [3, 4]))) Joined (pths two_groups)"
    "thread_work s' = thread_work two_groups + (if \<forall>g\<in>set [3, 4]. finished two_groups g then 0 else 1)"
    by blast
  then show ?thesis by (auto simp: two_groups_facts)
qed

lemma wait_after_reap_witness:
  "\<exists>s'. mthpc_thread_wq_join (\<lambda>_. False) two_groups = Some s' \<and>
    mthpc_thread_async_wait (\<lambda>_. False) (\<lambda>_ _. 0) [3] s' = None"
proof (rule wait_after_reap [OF two_groups_ok(1,2) _ two_groups_ok(3,4)])
  show "group_ths two_groups 3 \<noteq> []" by (simp add: two_groups_facts)
qed (simp_all add: two_groups_facts)

end
