(* ===== verification/Thread_Run.thy ===== *)
theory Thread_Run
  imports Barrier
begin

text \<open>
  The threads of one call of \<open>__mthpc_thread_run\<close> or \<open>__mthpc_thread_async_run\<close>,
  \<open>src/thread/thread.c\<close>, as a step relation: every thread runs \<open>__mthpc_thread_worker\<close>, with the
  barrier of \<open>Barrier\<close> inside it, and the caller waits for one group after the other and puts
  the barrier object for each. The threads of all groups are numbered \<open>0..<N\<close>, and \<open>grp i\<close> is
  the group of thread \<open>i\<close>.
\<close>

section \<open>Threads and waiter\<close>

datatype worker_pc =
    AtInit \<comment> \<open>before the end of \<open>group->init\<close>\<close>
  | AtBarrier \<comment> \<open>before the load of the reference count\<close>
  | InBarrier u64 \<comment> \<open>the call with the count it has loaded\<close>
  | AtFunc
  | AtExit
  | Ended

record run_sys =
  tpc :: "nat \<Rightarrow> worker_pc"
  tbar :: barrier_sys
  trefc :: u64
  tfreed :: bool
  wpos :: nat \<comment> \<open>the groups that the caller has waited for\<close>

definition through :: "barrier_sys \<Rightarrow> nat \<Rightarrow> bool" where
  "through b i \<longleftrightarrow> pc b i = Outside \<and> left b i = 1"

inductive worker_move :: "nat \<Rightarrow> run_sys \<Rightarrow> run_sys \<Rightarrow> bool" for i :: nat where
  w_init: "tpc s i = AtInit \<Longrightarrow> worker_move i s (s\<lparr>tpc := (tpc s)(i := AtBarrier)\<rparr>)"
| w_load: "tpc s i = AtBarrier \<Longrightarrow> worker_move i s (s\<lparr>tpc := (tpc s)(i := InBarrier (trefc s))\<rparr>)"
| w_bar: "tpc s i = InBarrier n \<Longrightarrow> \<not> through (tbar s) i \<Longrightarrow> barrier_move n i (tbar s) b \<Longrightarrow>
    worker_move i s (s\<lparr>tbar := b\<rparr>)"
| w_leave: "tpc s i = InBarrier n \<Longrightarrow> through (tbar s) i \<Longrightarrow>
    worker_move i s (s\<lparr>tpc := (tpc s)(i := AtFunc)\<rparr>)"
| w_func: "tpc s i = AtFunc \<Longrightarrow> worker_move i s (s\<lparr>tpc := (tpc s)(i := AtExit)\<rparr>)"
| w_exit: "tpc s i = AtExit \<Longrightarrow> worker_move i s (s\<lparr>tpc := (tpc s)(i := Ended)\<rparr>)"

definition group_size :: "nat \<Rightarrow> (nat \<Rightarrow> nat) \<Rightarrow> nat \<Rightarrow> u32" where
  "group_size N grp g = of_nat (card {i. i < N \<and> grp i = g})"

text \<open>
  The caller goes on to the next group when all threads of this one have ended and are
  joined; then it puts the barrier object, with the arithmetic of the code. These are the puts of
  \<open>__mthpc_thread_async_wait\<close>, in the order of the groups. Those of the reaper,
  \<open>mthpc_thread_wq_join\<close>, which may come first for a group that has ended, are not steps of this
  relation; they are in \<open>Thread_Reap\<close>.
\<close>

inductive run_step :: "nat \<Rightarrow> (nat \<Rightarrow> nat) \<Rightarrow> run_sys \<Rightarrow> run_sys \<Rightarrow> bool" for N :: nat and grp :: "nat \<Rightarrow> nat" where
  r_worker: "i < N \<Longrightarrow> worker_move i s t \<Longrightarrow> run_step N grp s t"
| r_put: "(\<exists>i<N. grp i = wpos s) \<Longrightarrow> (\<And>i. i < N \<Longrightarrow> grp i = wpos s \<Longrightarrow> tpc s i = Ended) \<Longrightarrow>
    run_step N grp s (s\<lparr>trefc := trefc s + ucast (- group_size N grp (wpos s)),
      tfreed := (tfreed s \<or> trefc s - ucast (group_size N grp (wpos s)) = 0), wpos := Suc (wpos s)\<rparr>)"

inductive_cases run_stepE: "run_step N grp s t"
inductive_cases worker_moveE: "worker_move i s t"

text \<open>New threads start with the sense 0.\<close>

definition run_start :: "nat \<Rightarrow> run_sys \<Rightarrow> bool" where
  "run_start N s \<longleftrightarrow> s = \<lparr>tpc = \<lambda>_. AtInit, tbar = barrier_boot (\<lambda>_. 0), trefc = of_nat N, tfreed = False, wpos = 0\<rparr>"

text \<open>The step of one thread as a function, to run schedules.\<close>

definition worker_exec :: "nat \<Rightarrow> run_sys \<Rightarrow> run_sys option" where
  "worker_exec i s = (let go = (\<lambda>p. Some (s\<lparr>tpc := (tpc s)(i := p)\<rparr>)) in
     case tpc s i of
       AtInit \<Rightarrow> go AtBarrier
     | AtBarrier \<Rightarrow> go (InBarrier (trefc s))
     | InBarrier n \<Rightarrow> if through (tbar s) i then go AtFunc
         else map_option (\<lambda>b. s\<lparr>tbar := b\<rparr>) (barrier_exec n i (tbar s))
     | AtFunc \<Rightarrow> go AtExit
     | AtExit \<Rightarrow> go Ended
     | Ended \<Rightarrow> None)"

lemma worker_exec_move: "worker_exec i s = Some t \<Longrightarrow> worker_move i s t"
  by (auto simp: worker_exec_def Let_def intro: worker_move.intros barrier_exec_move
      split: worker_pc.splits if_splits)

lemma worker_schedule:
  "fold_opt worker_exec is s = Some t \<Longrightarrow> \<forall>i\<in>set is. i < N \<Longrightarrow> (run_step N grp)\<^sup>*\<^sup>* s t"
proof (induction "is" arbitrary: s)
  case (Cons i "is")
  then obtain s1 where s1: "worker_exec i s = Some s1" "fold_opt worker_exec is s1 = Some t"
    by (auto simp: bind_Some_iff)
  then have "run_step N grp s s1" using Cons.prems by (auto intro: r_worker worker_exec_move)
  with Cons.IH [OF s1(2)] Cons.prems show ?case by auto
qed simp

section \<open>The invariant\<close>

lemma barrier_move_frame:
  "barrier_move n i s t \<Longrightarrow> j \<noteq> i \<Longrightarrow> pc t j = pc s j \<and> entered t j = entered s j \<and> left t j = left s j"
  by (auto elim!: barrier_moveE)

lemma barrier_move_entered:
  "barrier_move n i s t \<Longrightarrow> entered t i = (if pc s i = Outside then Suc (entered s i) else entered s i)"
  by (auto elim!: barrier_moveE)

text \<open>What the place of a thread says about its visit to the barrier.\<close>

fun place_ok :: "nat \<Rightarrow> barrier_sys \<Rightarrow> nat \<Rightarrow> worker_pc \<Rightarrow> bool" where
  "place_ok N b i AtInit \<longleftrightarrow> entered b i = 0"
| "place_ok N b i AtBarrier \<longleftrightarrow> entered b i = 0"
| "place_ok N b i (InBarrier n) \<longleftrightarrow> entered b i \<le> 1 \<and> n = of_nat N"
| "place_ok N b i _ \<longleftrightarrow> left b i = 1"

definition run_inv :: "nat \<Rightarrow> (nat \<Rightarrow> nat) \<Rightarrow> run_sys \<Rightarrow> bool" where
  "run_inv N grp s \<longleftrightarrow> barrier_inv N (tbar s) \<and> (\<forall>i<N. place_ok N (tbar s) i (tpc s i)) \<and>
     (\<forall>i<N. grp i < wpos s \<longrightarrow> tpc s i = Ended) \<and> (\<forall>g<wpos s. \<exists>i<N. grp i = g) \<and>
     trefc s + of_nat (card {i. i < N \<and> grp i < wpos s}) = of_nat N + of_nat (wpos s) * 2 ^ 32 \<and>
     (tfreed s \<longrightarrow> (\<forall>i<N. tpc s i = Ended))"

definition past :: "worker_pc \<Rightarrow> bool" where
  "past p \<longleftrightarrow> p \<in> {AtFunc, AtExit, Ended}"

lemma past_entered:
  assumes "run_inv N grp s" "i < N" "past (tpc s i)" "j < N"
  shows "1 \<le> entered (tbar s) j" "tpc s j \<notin> {AtInit, AtBarrier}"
proof -
  have "thread_ok (tbar s) i" "thread_ok (tbar s) j" "left (tbar s) i = 1"
    using assms by (auto simp: run_inv_def barrier_inv_def past_def)
  then show e: "1 \<le> entered (tbar s) j"
    using thread_ok_rounds [of "tbar s" i] thread_ok_rounds [of "tbar s" j] by simp
  show "tpc s j \<notin> {AtInit, AtBarrier}"
    using assms(1,4) e by (auto simp: run_inv_def)
qed

lemma early_count:
  assumes inv: "run_inv N grp s" and i: "i < N" "tpc s i \<in> {AtInit, AtBarrier}"
  shows "wpos s = 0" "trefc s = of_nat N"
proof -
  show w: "wpos s = 0"
  proof (rule ccontr)
    assume "wpos s \<noteq> 0"
    then obtain j where "j < N" "tpc s j = Ended" using inv by (auto simp: run_inv_def)
    with past_entered(2) [OF inv, of j i] i show False by (simp add: past_def)
  qed
  show "trefc s = of_nat N" using inv w by (simp add: run_inv_def)
qed

lemma run_inv_start: "barrier_size N \<Longrightarrow> run_start N s \<Longrightarrow> run_inv N grp s"
  using barrier_inv_start [of N "barrier_boot (\<lambda>_. 0)"]
  by (auto simp: run_inv_def run_start_def barrier_start_def barrier_size_def)
    (simp add: barrier_boot_def)

lemma worker_inv:
  assumes sz: "barrier_size N" and inv: "run_inv N grp s" and i: "i < N" and move: "worker_move i s t"
  shows "run_inv N grp t"
  using move
proof (cases rule: worker_move.cases)
  case w_init
  then show ?thesis using inv i by (auto simp: run_inv_def)
next
  case w_load
  then show ?thesis using inv i early_count(2) [OF inv i] by (auto simp: run_inv_def)
next
  case (w_bar n b)
  then have n: "n = of_nat N" and e: "entered (tbar s) i \<le> 1"
    using inv i by (auto simp: run_inv_def)
  have b: "barrier_inv N b"
    using barrier_move_inv [of N "tbar s" i b] inv i w_bar(4) sz n by (simp add: run_inv_def barrier_size_def)
  have ok: "thread_ok (tbar s) i" using inv i by (simp add: run_inv_def barrier_inv_def)
  have "entered b i \<le> 1"
    using barrier_move_entered [OF w_bar(4)] e ok w_bar(3) by (auto simp: thread_ok_def through_def split: if_splits)
  moreover have "place_ok N b j p = place_ok N (tbar s) j p" if "j \<noteq> i" for j p
    using barrier_move_frame [OF w_bar(4) that] by (cases p) simp_all
  ultimately have "place_ok N b j (tpc s j)" if "j < N" for j
    using inv that w_bar(2) n by (cases "j = i") (auto simp: run_inv_def)
  with w_bar(1) inv b show ?thesis by (simp add: run_inv_def)
next
  case (w_leave n)
  then show ?thesis using inv i by (auto simp: run_inv_def through_def)
next
  case w_func
  then show ?thesis using inv i by (auto simp: run_inv_def)
next
  case w_exit
  then show ?thesis using inv i by (auto simp: run_inv_def)
qed


lemma put_inv:
  assumes sz: "barrier_size N" and inv: "run_inv N grp s"
    and g: "\<exists>i<N. grp i = wpos s" "\<And>i. i < N \<Longrightarrow> grp i = wpos s \<Longrightarrow> tpc s i = Ended"
  shows "run_inv N grp (s\<lparr>trefc := trefc s + ucast (- group_size N grp (wpos s)),
      tfreed := (tfreed s \<or> trefc s - ucast (group_size N grp (wpos s)) = 0), wpos := Suc (wpos s)\<rparr>)"
proof -
  let ?t = "\<lambda>s. s\<lparr>trefc := trefc s + ucast (- group_size N grp (wpos s)),
      tfreed := (tfreed s \<or> trefc s - ucast (group_size N grp (wpos s)) = 0), wpos := Suc (wpos s)\<rparr>"
  let ?k = "card {i. i < N \<and> grp i = wpos s}" and ?c = "card {i. i < N \<and> grp i < wpos s}"
  have N: "N < 2 ^ 31" using sz by (simp add: barrier_size_def)
  have un: "{i. i < N \<and> grp i < Suc (wpos s)} = {i. i < N \<and> grp i < wpos s} \<union> {i. i < N \<and> grp i = wpos s}"
    by auto
  have c': "card {i. i < N \<and> grp i < Suc (wpos s)} = ?c + ?k"
    unfolding un by (rule card_Un_disjoint) auto
  have le: "?c + ?k \<le> N" using card_less_conj_le [of N "\<lambda>i. grp i < Suc (wpos s)"] c' by simp
  have "finite {i. i < N \<and> grp i = wpos s}" "{i. i < N \<and> grp i = wpos s} \<noteq> {}" using g(1) by auto
  then have "0 < ?k" by (simp only: card_gt_0_iff) simp
  moreover have "(2::nat) ^ 31 < 2 ^ 32" by simp
  then have "?k < 2 ^ 32" using le N by linarith
  ultimately have k: "0 < ?k" "?k < 2 ^ 32" by blast+
  have nd: "\<not> 2 ^ 32 dvd ?k" by (rule nat_dvd_not_less [OF k])
  have gs: "ucast (group_size N grp (wpos s)) = (of_nat ?k :: u64)" "group_size N grp (wpos s) \<noteq> 0"
    using k(2) nd by (simp_all add: group_size_def ucast_of_nat_u32 word_of_nat_eq_0_iff)
  have eq: "trefc s + of_nat ?c = of_nat N + of_nat (wpos s) * 2 ^ 32" using inv by (simp add: run_inv_def)
  have all_ended: "\<forall>i<N. tpc s i = Ended" if z: "trefc s - ucast (group_size N grp (wpos s)) = 0"
  proof -
    have "wpos s \<le> N"
    proof -
      have "{..<wpos s} \<subseteq> grp ` {..<N}" using inv by (fastforce simp: run_inv_def image_iff)
      then have "card {..<wpos s} \<le> card (grp ` {..<N})" by (intro card_mono) auto
      also have "\<dots> \<le> N" using card_image_le [of "{..<N}" grp] by simp
      finally show ?thesis by simp
    qed
    then have small: "N + wpos s * 2 ^ 32 < 2 ^ 64" "?k + ?c < 2 ^ 64" using N le by simp_all
    have "(of_nat (?k + ?c) :: u64) = of_nat (N + wpos s * 2 ^ 32)" using eq z gs(1) by simp
    then have "?k + ?c = N + wpos s * 2 ^ 32" using of_nat_u64_inj [OF small(2,1)] by simp
    with le N have w: "wpos s = 0" and kN: "?k = N" by (cases "wpos s"; simp)+
    show ?thesis using card_less_conj_full [OF kN] g(2) by blast
  qed
  have "trefc s + ucast (- group_size N grp (wpos s)) + of_nat (?c + ?k) = of_nat N + of_nat (Suc (wpos s)) * (2 ^ 32 :: u64)"
    using eq gs by (simp add: ucast_neg_u32 algebra_simps)
  note cnt = this [folded c']
  have ended: "\<forall>i<N. grp i < Suc (wpos s) \<longrightarrow> tpc s i = Ended"
    and ex: "\<forall>g<Suc (wpos s). \<exists>i<N. grp i = g"
    using inv g by (auto simp: run_inv_def less_Suc_eq)
  have fr: "tfreed s \<or> trefc s - ucast (group_size N grp (wpos s)) = 0 \<longrightarrow> (\<forall>i<N. tpc s i = Ended)"
    using inv all_ended by (auto simp: run_inv_def)
  have "barrier_inv N (tbar s)" "\<forall>i<N. place_ok N (tbar s) i (tpc s i)" using inv by (simp_all add: run_inv_def)
  moreover have "tbar (?t s) = tbar s" "tpc (?t s) = tpc s" "wpos (?t s) = Suc (wpos s)"
    "trefc (?t s) = trefc s + ucast (- group_size N grp (wpos s))"
    "tfreed (?t s) \<longleftrightarrow> tfreed s \<or> trefc s - ucast (group_size N grp (wpos s)) = 0"
    by simp_all
  ultimately show ?thesis unfolding run_inv_def using ended ex cnt fr by (simp only:)
qed

lemma run_inv_step:
  assumes "barrier_size N" "run_inv N grp s" "run_step N grp s t"
  shows "run_inv N grp t"
  using assms(3)
proof (cases rule: run_step.cases)
  case (r_worker i)
  then show ?thesis by (intro worker_inv [OF assms(1,2)])
next
  case r_put
  show ?thesis unfolding r_put(1) by (rule put_inv [OF assms(1,2) r_put(2,3)])
qed

definition sized_step :: "nat \<Rightarrow> (nat \<Rightarrow> nat) \<Rightarrow> run_sys \<Rightarrow> run_sys \<Rightarrow> bool" where
  "sized_step N grp s t \<longleftrightarrow> barrier_size N \<and> run_step N grp s t"

interpretation run: inductive_invariant
  "\<lambda>s. barrier_size N \<and> run_start N s" "sized_step N grp" "run_inv N grp" for N grp
  by unfold_locales (auto simp: sized_step_def intro: run_inv_start run_inv_step)

lemma run_reachable_inv:
  assumes "reachable (run_start N) (run_step N grp) s" "barrier_size N"
  shows "run_inv N grp s"
proof -
  have "reachable (\<lambda>s. barrier_size N \<and> run_start N s) (sized_step N grp) s"
    using assms by (induction rule: reachable.induct) (auto simp: sized_step_def intro: reach_init reach_step)
  then show ?thesis by (rule run.inv_reachable)
qed

text \<open>
  C15. Thread groups, start: in every reachable interleaving of the N threads of one call, a
  thread that has reached \<open>func\<close> finds every other thread past its
  \<open>init\<close> and inside or through the barrier.
\<close>

theorem init_before_func:
  assumes "reachable (run_start N) (run_step N grp) s" "0 < N" "N < 2 ^ 31"
    and "i < N" "tpc s i \<in> {AtFunc, AtExit, Ended}" "j < N"
  shows "tpc s j \<notin> {AtInit, AtBarrier} \<and> 1 \<le> entered (tbar s) j"
  using past_entered [OF run_reachable_inv [OF assms(1)] assms(4) _ assms(6)] assms(2,3,5)
  by (simp add: barrier_size_def past_def)

text \<open>
  C16. The barrier object outlives its users: as long as a thread of any group has not ended,
  the object is not freed, the caller has not gone past the group of that thread, and the count
  with which the thread enters the barrier is the number of all threads, whatever was put
  before.
\<close>

theorem barrier_object_lifetime:
  assumes "reachable (run_start N) (run_step N grp) s" "0 < N" "N < 2 ^ 31" "i < N" "tpc s i \<noteq> Ended"
  shows "\<not> tfreed s \<and> wpos s \<le> grp i \<and>
    (tpc s i \<in> {AtInit, AtBarrier} \<longrightarrow> trefc s = of_nat N) \<and>
    (\<forall>n. tpc s i = InBarrier n \<longrightarrow> n = of_nat N)"
proof -
  have inv: "run_inv N grp s" using run_reachable_inv [OF assms(1)] assms(2,3) by (simp add: barrier_size_def)
  then have "place_ok N (tbar s) i (tpc s i)" using assms(4) by (simp add: run_inv_def)
  then have "\<forall>n. tpc s i = InBarrier n \<longrightarrow> n = of_nat N" by auto
  with inv early_count(2) [OF inv assms(4)] assms(4,5) show ?thesis
    by (auto simp: run_inv_def not_less [symmetric])
qed


section \<open>A concrete run\<close>

definition start_two :: run_sys where
  "start_two = \<lparr>tpc = \<lambda>_. AtInit, tbar = barrier_boot (\<lambda>_. 0), trefc = 2, tfreed = False, wpos = 0\<rparr>"

definition two_schedule :: "nat list" where
  "two_schedule = [0, 0, 1, 1] @ [0, 0, 0, 0, 0] @ [1, 1, 1, 1, 1, 1] @ [1]"

lemma two_reach:
  "\<exists>s. reachable (run_start 2) (run_step 2 grp) s \<and> tpc s 1 = AtFunc \<and> tpc s 0 = InBarrier 2"
proof -
  have "\<exists>s. fold_opt worker_exec two_schedule start_two = Some s \<and> tpc s 1 = AtFunc \<and> tpc s 0 = InBarrier 2"
    by (simp add: two_schedule_def start_two_def worker_exec_def barrier_exec_def barrier_boot_def
        through_def count_size_def)
  then obtain s where s: "fold_opt worker_exec two_schedule start_two = Some s" "tpc s 1 = AtFunc" "tpc s 0 = InBarrier 2"
    by blast
  have "reachable (run_start 2) (run_step 2 grp) s"
    by (rule reachable_steps [OF worker_schedule [OF s(1)] reach_init])
      (auto simp: two_schedule_def run_start_def start_two_def)
  with s show ?thesis by blast
qed

lemma init_before_func_witness:
  "\<exists>s. reachable (run_start 2) (run_step 2 (\<lambda>i. i)) s \<and> tpc s 1 = AtFunc \<and>
    tpc s 0 \<notin> {AtInit, AtBarrier} \<and> 1 \<le> entered (tbar s) 0"
proof -
  obtain s where s: "reachable (run_start 2) (run_step 2 (\<lambda>i. i)) s" "tpc s 1 = AtFunc"
    using two_reach by blast
  with init_before_func [OF s(1), of 1 0] show ?thesis by auto
qed

lemma barrier_object_lifetime_witness:
  "\<exists>s. reachable (run_start 2) (run_step 2 (\<lambda>i. i)) s \<and> tpc s 0 = InBarrier 2 \<and> \<not> tfreed s \<and> wpos s = 0"
proof -
  obtain s where s: "reachable (run_start 2) (run_step 2 (\<lambda>i. i)) s" "tpc s 0 = InBarrier 2"
    using two_reach by blast
  with barrier_object_lifetime [OF s(1), of 0] show ?thesis by auto
qed

end
