(* ===== verification/Safe_ptr.thy ===== *)
theory Safe_ptr
  imports Rcu_Data Rcu_Register
begin

text \<open>
  The safe pointers, \<open>src/safe_ptr/safe_ptr.c\<close>: a \<open>mthpc_safe_ptr\<close> on a stack points to a
  control block on the heap, which counts the safe pointers that share it and holds the
  protected pointer and an RCU data object of its own. The operations act on the registry of
  \<open>Rcu_Registry\<close> through the functions of \<open>src/rcu/rcu.c\<close>, one call at a time. The addresses
  that \<open>malloc\<close> returns are arguments (\<open>0\<close> when it fails), and so are what the
  uninitialised stack memory of a new safe pointer holds. Here are the definitions; the
  properties are in \<open>Safe_ptr_Props\<close>.
\<close>

section \<open>The memory\<close>

record safe_cb =
  refcount :: u64
  raw_ptr :: nat
  dtor :: nat \<comment> \<open>the address of a function, or \<open>NULL\<close>\<close>

record safe_ptr =
  scb :: nat \<comment> \<open>\<open>cb\<close>\<close>
  sid :: u64 \<comment> \<open>\<open>id\<close>\<close>
  snode :: nat \<comment> \<open>\<open>rcu_node\<close>\<close>

datatype reclaim = Dtor nat nat | Free nat

record sp_sys =
  cbs :: "nat \<rightharpoonup> safe_cb"
  sps :: "nat \<rightharpoonup> safe_ptr"
  sp_mem :: rcu_mem
  sp_rcu_cnt :: u64 \<comment> \<open>\<open>mthpc_sp_rcu_cnt\<close>\<close>
  reclaimed :: "reclaim list" \<comment> \<open>the calls of destructors and of \<open>free\<close>\<close>

text \<open>\<open>&cb->rcu_data\<close>: the member follows the eight bytes of \<open>refcount\<close>.\<close>

definition cb_data :: "nat \<Rightarrow> nat" where
  "cb_data cb = cb + 8"

definition with_mem :: "(rcu_mem \<Rightarrow> rcu_mem option) \<Rightarrow> sp_sys \<Rightarrow> sp_sys option" where
  "with_mem f s = do { m \<leftarrow> f (sp_mem s); Some (s\<lparr>sp_mem := m\<rparr>) }"

definition sp_warn :: "bool \<Rightarrow> sp_sys \<Rightarrow> sp_sys" where
  "sp_warn b s = s\<lparr>sp_mem := warn b (sp_mem s)\<rparr>"

definition upd_cb :: "nat \<Rightarrow> (safe_cb \<Rightarrow> safe_cb) \<Rightarrow> sp_sys \<Rightarrow> sp_sys option" where
  "upd_cb c f s = do { cb \<leftarrow> cbs s c; Some (s\<lparr>cbs := (cbs s)(c \<mapsto> f cb)\<rparr>) }"

definition upd_sp :: "nat \<Rightarrow> (safe_ptr \<Rightarrow> safe_ptr) \<Rightarrow> sp_sys \<Rightarrow> sp_sys option" where
  "upd_sp sp f s = do { p \<leftarrow> sps s sp; Some (s\<lparr>sps := (sps s)(sp \<mapsto> f p)\<rparr>) }"

section \<open>The functions of \<open>mthpc_cb_retire_obj\<close>\<close>

definition mthpc_cb_rcu_lock :: "nat \<Rightarrow> sp_sys \<Rightarrow> sp_sys option" where
  "mthpc_cb_rcu_lock sp s = do {
     p \<leftarrow> sps s sp;
     with_mem (mthpc_rcu_read_lock_internal (snode p)) s }"

definition mthpc_cb_rcu_unlock :: "nat \<Rightarrow> sp_sys \<Rightarrow> sp_sys option" where
  "mthpc_cb_rcu_unlock sp s = do {
     p \<leftarrow> sps s sp;
     with_mem (mthpc_rcu_read_unlock_internal (snode p)) s }"

text \<open>\<open>node\<close> is what the \<open>malloc\<close> of \<open>mthpc_rcu_add\<close> returns.\<close>

definition mthpc_cb_rcu_init :: "nat \<Rightarrow> nat \<Rightarrow> nat \<Rightarrow> sp_sys \<Rightarrow> sp_sys option" where
  "mthpc_cb_rcu_init node sp cb s = do {
     p \<leftarrow> sps s sp;
     (m, rev) \<leftarrow> mthpc_rcu_add node (cb_data cb) (ucast (sid p)) (sp_mem s);
     let s = s\<lparr>sp_mem := m\<rparr>;
     case rev of None \<Rightarrow> Some s | Some q \<Rightarrow> upd_sp sp (\<lambda>p. p\<lparr>snode := q\<rparr>) s }"

definition mthpc_cb_synchronize_rcu :: "nat \<Rightarrow> sp_sys \<Rightarrow> sp_sys option" where
  "mthpc_cb_synchronize_rcu cb s = do {
     s \<leftarrow> with_mem (mthpc_synchronize_rcu_internal (cb_data cb)) s;
     with_mem (mthpc_rcu_data_exit (cb_data cb)) s }"

section \<open>Control blocks\<close>

definition mthpc_cb_load :: "nat \<Rightarrow> sp_sys \<Rightarrow> nat option" where
  "mthpc_cb_load sp s = map_option scb (sps s sp)"

definition mthpc_cb_store :: "nat \<Rightarrow> nat \<Rightarrow> sp_sys \<Rightarrow> sp_sys option" where
  "mthpc_cb_store sp desired = upd_sp sp (\<lambda>p. p\<lparr>scb := desired\<rparr>)"

definition mthpc_cb_xchg :: "nat \<Rightarrow> nat \<Rightarrow> sp_sys \<Rightarrow> (nat \<times> sp_sys) option" where
  "mthpc_cb_xchg sp desired s = do {
     old \<leftarrow> mthpc_cb_load sp s;
     s \<leftarrow> mthpc_cb_store sp desired s;
     Some (old, s) }"

text \<open>Both keep the old count in an \<open>int\<close>.\<close>

definition mthpc_cb_get :: "nat \<Rightarrow> sp_sys \<Rightarrow> (u32 \<times> sp_sys) option" where
  "mthpc_cb_get cb s = do {
     c \<leftarrow> cbs s cb;
     let ret = (ucast (refcount c) :: u32);
     s \<leftarrow> upd_cb cb (\<lambda>c. c\<lparr>refcount := refcount c + 1\<rparr>) s;
     Some (ret + 1, sp_warn (ret = 0) s) }"

definition reclaim_of :: "safe_cb \<Rightarrow> reclaim" where
  "reclaim_of c = (if dtor c \<noteq> 0 then Dtor (dtor c) (raw_ptr c) else Free (raw_ptr c))"

definition mthpc_cb_put :: "nat \<Rightarrow> nat \<Rightarrow> sp_sys \<Rightarrow> (u32 \<times> sp_sys) option" where
  "mthpc_cb_put cb old s = do {
     c \<leftarrow> cbs s cb;
     let ret = (ucast (refcount c) :: u32);
     s \<leftarrow> upd_cb cb (\<lambda>c. c\<lparr>refcount := refcount c + (- 1)\<rparr>) s;
     let s = sp_warn (sint ret < 1) s;
     s \<leftarrow> (if ret = 1 then do {
         s \<leftarrow> mthpc_cb_synchronize_rcu cb s;
         c \<leftarrow> cbs s cb;
         Some (s\<lparr>reclaimed := reclaimed s @ [reclaim_of c]\<rparr>) }
       else do {
         p \<leftarrow> sps s old;
         with_mem (mthpc_rcu_del (cb_data cb) (ucast (sid p)) (snode p)) s });
     Some (ret - 1, s) }"

definition mthpc_cb_create :: "nat \<Rightarrow> nat \<Rightarrow> nat \<Rightarrow> sp_sys \<Rightarrow> sp_sys option" where
  "mthpc_cb_create cb new_data d s = (let s = sp_warn (cb = 0) s in
     if cb = 0 then Some s else
     with_mem (mthpc_rcu_data_init (cb_data cb) MTHPC_RCU_USR)
       (s\<lparr>cbs := (cbs s)(cb \<mapsto> \<lparr>refcount = 1, raw_ptr = new_data, dtor = d\<rparr>)\<rparr>))"

section \<open>The operations\<close>

text \<open>\<open>cb\<close> is what the \<open>malloc\<close> of the control block returns, \<open>node\<close> that of the RCU node.\<close>

definition mthpc_safe_ptr_create :: "nat \<Rightarrow> nat \<Rightarrow> nat \<Rightarrow> nat \<Rightarrow> nat \<Rightarrow> sp_sys \<Rightarrow> sp_sys option" where
  "mthpc_safe_ptr_create cb node sp new_data d s = do {
     s \<leftarrow> mthpc_cb_create cb new_data d s;
     s \<leftarrow> upd_sp sp (\<lambda>p. p\<lparr>sid := sp_rcu_cnt s\<rparr>) s;
     let s = s\<lparr>sp_rcu_cnt := sp_rcu_cnt s + 1\<rparr>;
     s \<leftarrow> mthpc_cb_rcu_init node sp cb s;
     mthpc_cb_store sp cb s }"

definition mthpc_safe_ptr_destroy :: "nat \<Rightarrow> sp_sys \<Rightarrow> sp_sys option" where
  "mthpc_safe_ptr_destroy sp s = do {
     cb \<leftarrow> mthpc_cb_load sp s;
     (_, s) \<leftarrow> mthpc_cb_put cb sp s;
     Some s }"

definition mthpc_safe_ptr_store :: "nat \<Rightarrow> nat \<Rightarrow> nat \<Rightarrow> nat \<Rightarrow> nat \<Rightarrow> sp_sys \<Rightarrow> sp_sys option" where
  "mthpc_safe_ptr_store cb node sp new_data d s = do {
     s \<leftarrow> mthpc_cb_create cb new_data d s;
     (old_cb, s) \<leftarrow> mthpc_cb_xchg sp cb s;
     s \<leftarrow> (if old_cb = 0 then do { (_, s) \<leftarrow> mthpc_cb_put old_cb sp s; Some s } else Some s);
     mthpc_cb_rcu_init node sp cb s }"

definition mthpc_safe_ptr_load :: "nat \<Rightarrow> sp_sys \<Rightarrow> (nat \<times> sp_sys) option" where
  "mthpc_safe_ptr_load sp s = do {
     s \<leftarrow> mthpc_cb_rcu_lock sp s;
     cb \<leftarrow> mthpc_cb_load sp s;
     c \<leftarrow> cbs s cb;
     s \<leftarrow> mthpc_cb_rcu_unlock sp s;
     Some (raw_ptr c, s) }"

text \<open>The results: the return value, \<open>*expected\<close> after the call, and the state.\<close>

definition mthpc_safe_ptr_cmpxhg :: "nat \<Rightarrow> nat \<Rightarrow> nat \<Rightarrow> sp_sys \<Rightarrow> (bool \<times> nat \<times> sp_sys) option" where
  "mthpc_safe_ptr_cmpxhg sp expected desired s = do {
     s \<leftarrow> mthpc_cb_rcu_lock sp s;
     cb \<leftarrow> mthpc_cb_load sp s;
     c \<leftarrow> cbs s cb;
     (ret, e, s) \<leftarrow> (if raw_ptr c = expected
       then do { s \<leftarrow> upd_cb cb (\<lambda>c. c\<lparr>raw_ptr := desired\<rparr>) s; Some (True, expected, s) }
       else Some (False, raw_ptr c, s));
     s \<leftarrow> mthpc_cb_rcu_unlock sp s;
     Some (ret, e, s) }"

definition mthpc_pass_sp_post :: "nat \<Rightarrow> nat \<Rightarrow> nat \<Rightarrow> sp_sys \<Rightarrow> sp_sys option" where
  "mthpc_pass_sp_post node pass_sp sp s = do {
     s \<leftarrow> mthpc_cb_rcu_lock sp s;
     cb \<leftarrow> mthpc_cb_load pass_sp s;
     (_, s) \<leftarrow> mthpc_cb_get cb s;
     s \<leftarrow> upd_sp sp (\<lambda>p. p\<lparr>sid := sp_rcu_cnt s\<rparr>) s;
     let s = s\<lparr>sp_rcu_cnt := sp_rcu_cnt s + 1\<rparr>;
     s \<leftarrow> mthpc_cb_rcu_init node sp cb s;
     s \<leftarrow> mthpc_cb_store sp cb s;
     mthpc_cb_rcu_unlock sp s }"

text \<open>
  The declarations of \<open>include/mthpc/safe_ptr.h\<close>: a block with a safe pointer of its own, which
  is destroyed when the block is left; \<open>junk\<close> is what its stack memory holds before.
\<close>

definition MTHPC_DEFINE_SAFE_PTR :: "nat \<Rightarrow> nat \<Rightarrow> safe_ptr \<Rightarrow> nat \<Rightarrow> nat \<Rightarrow> nat \<Rightarrow>
    (sp_sys \<Rightarrow> ('a \<times> sp_sys) option) \<Rightarrow> sp_sys \<Rightarrow> ('a \<times> sp_sys) option" where
  "MTHPC_DEFINE_SAFE_PTR cb node junk sp new_data d body s = do {
     s \<leftarrow> mthpc_safe_ptr_create cb node sp new_data d (s\<lparr>sps := (sps s)(sp \<mapsto> junk)\<rparr>);
     (v, s) \<leftarrow> body s;
     s \<leftarrow> mthpc_safe_ptr_destroy sp s;
     Some (v, s\<lparr>sps := (sps s)(sp := None)\<rparr>) }"

definition MTHPC_DECLARE_SAFE_PTR_FROM_BORROW :: "nat \<Rightarrow> safe_ptr \<Rightarrow> nat \<Rightarrow> nat \<Rightarrow>
    (sp_sys \<Rightarrow> ('a \<times> sp_sys) option) \<Rightarrow> sp_sys \<Rightarrow> ('a \<times> sp_sys) option" where
  "MTHPC_DECLARE_SAFE_PTR_FROM_BORROW node junk sp brw_sp body s = do {
     s \<leftarrow> mthpc_pass_sp_post node brw_sp sp (s\<lparr>sps := (sps s)(sp \<mapsto> junk)\<rparr>);
     (v, s) \<leftarrow> body s;
     s \<leftarrow> mthpc_safe_ptr_destroy sp s;
     Some (v, s\<lparr>sps := (sps s)(sp := None)\<rparr>) }"

definition MTHPC_DECLARE_SAFE_PTR :: "nat \<Rightarrow> nat \<Rightarrow> safe_ptr \<Rightarrow> nat \<Rightarrow>
    (sp_sys \<Rightarrow> ('a \<times> sp_sys) option) \<Rightarrow> sp_sys \<Rightarrow> ('a \<times> sp_sys) option" where
  "MTHPC_DECLARE_SAFE_PTR cb node junk sp = MTHPC_DEFINE_SAFE_PTR cb node junk sp 0 0"

text \<open>The address space of a borrowed or moved pointer is an annotation for a checker.\<close>

definition mthpc_borrow_safe_ptr :: "nat \<Rightarrow> nat" where
  "mthpc_borrow_safe_ptr sp = sp"

definition mthpc_move_safe_ptr :: "nat \<Rightarrow> nat" where
  "mthpc_move_safe_ptr sp = sp"

definition MTHPC_DECLARE_SAFE_PTR_FROM_MOVE :: "nat \<Rightarrow> safe_ptr \<Rightarrow> nat \<Rightarrow> nat \<Rightarrow>
    (sp_sys \<Rightarrow> ('a \<times> sp_sys) option) \<Rightarrow> sp_sys \<Rightarrow> ('a \<times> sp_sys) option" where
  "MTHPC_DECLARE_SAFE_PTR_FROM_MOVE node junk sp move_sp body s = do {
     s \<leftarrow> mthpc_pass_sp_post node move_sp sp (s\<lparr>sps := (sps s)(sp \<mapsto> junk)\<rparr>);
     (v, s) \<leftarrow> body s;
     s \<leftarrow> mthpc_safe_ptr_destroy sp s;
     Some (v, s\<lparr>sps := (sps s)(sp := None)\<rparr>) }"

text \<open>
  What the dump prints: the block, its count and data object, the protected pointer, which is
  read after the critical section, and the destructor.
\<close>

definition mthpc_dump_safe_ptr :: "nat \<Rightarrow> sp_sys \<Rightarrow> ((nat \<times> u64 \<times> nat \<times> nat \<times> nat) \<times> sp_sys) option" where
  "mthpc_dump_safe_ptr sp s = do {
     s \<leftarrow> mthpc_cb_rcu_lock sp s;
     cb \<leftarrow> mthpc_cb_load sp s;
     c \<leftarrow> cbs s cb;
     let cnt = refcount c;
     let d = dtor c;
     let rcu_data = cb_data cb;
     s \<leftarrow> mthpc_cb_rcu_unlock sp s;
     c \<leftarrow> cbs s cb;
     Some ((cb, cnt, rcu_data, raw_ptr c, d), s) }"

end
