(* ===== verification/Safe_ptr_Props.thy ===== *)
theory Safe_ptr_Props
  imports Safe_ptr Rcu_Threads
begin

text \<open>
  What the safe pointers of \<open>src/safe_ptr/safe_ptr.c\<close> do: loads and exchanges through any number
  of safe pointers act on memory cells, one for each control block; a new safe pointer has a
  block of its own. Then where the code fails: the last destruction, the replaced block of a
  store, and the read side of a borrowed pointer.
\<close>

section \<open>A usable safe pointer\<close>

text \<open>Its block and its node are there, and it is in no critical section.\<close>

definition sp_ok :: "sp_sys \<Rightarrow> nat \<Rightarrow> bool" where
  "sp_ok s sp \<longleftrightarrow> (\<exists>p c n r. sps s sp = Some p \<and> cbs s (scb p) = Some c \<and>
     nodes (sp_mem s) (snode p) = Some n \<and> datas (sp_mem s) (ndata n) = Some r \<and>
     data_gp_ok (dgp r) \<and> gp_nest (ngp n) = 0)"

definition sp_cell :: "sp_sys \<Rightarrow> nat \<Rightarrow> nat" where
  "sp_cell s sp = scb (the (sps s sp))"

definition cell_value :: "sp_sys \<Rightarrow> nat \<Rightarrow> nat" where
  "cell_value s c = raw_ptr (the (cbs s c))"

text \<open>What an operation leaves alone.\<close>

definition same_ptrs :: "sp_sys \<Rightarrow> sp_sys \<Rightarrow> bool" where
  "same_ptrs s s' \<longleftrightarrow> sps s' = sps s \<and> dom (cbs s') = dom (cbs s) \<and>
     datas (sp_mem s') = datas (sp_mem s) \<and>
     (\<forall>a. (nodes (sp_mem s') a = nodes (sp_mem s) a) \<or>
       (\<exists>n g. nodes (sp_mem s) a = Some n \<and> nodes (sp_mem s') a = Some (n\<lparr>ngp := g\<rparr>) \<and> gp_nest g = 0))"

lemma same_ptrs_ok: "same_ptrs s s' \<Longrightarrow> sp_ok s sp \<Longrightarrow> sp_ok s' sp"
proof -
  assume same: "same_ptrs s s'" and "sp_ok s sp"
  then obtain p c n r where ok: "sps s sp = Some p" "cbs s (scb p) = Some c"
    "nodes (sp_mem s) (snode p) = Some n" "datas (sp_mem s) (ndata n) = Some r"
    "data_gp_ok (dgp r)" "gp_nest (ngp n) = 0"
    by (auto simp: sp_ok_def)
  from same ok(2) obtain c' where "cbs s' (scb p) = Some c'" by (auto simp: same_ptrs_def)
  moreover from same have "nodes (sp_mem s') (snode p) = nodes (sp_mem s) (snode p) \<or>
      (\<exists>n g. nodes (sp_mem s) (snode p) = Some n \<and>
        nodes (sp_mem s') (snode p) = Some (n\<lparr>ngp := g\<rparr>) \<and> gp_nest g = 0)"
    by (simp add: same_ptrs_def)
  then obtain n' where "nodes (sp_mem s') (snode p) = Some n'" "ndata n' = ndata n"
    "gp_nest (ngp n') = 0"
    using ok(3,6) by auto
  ultimately show ?thesis
    using same ok by (auto simp: sp_ok_def same_ptrs_def)
qed

lemma same_ptrs_cell: "same_ptrs s s' \<Longrightarrow> sp_cell s' sp = sp_cell s sp"
  by (simp add: same_ptrs_def sp_cell_def)

text \<open>A critical section around an access leaves the node outside any section.\<close>

lemma gp_lock_unlock:
  assumes "data_gp_ok d" "gp_nest g = 0"
  shows "read_lock_gp d g = d" "gp_nest (read_unlock_gp d) = 0" "gp_active d"
  using assms gp_decr [of d] by (simp_all add: read_lock_gp_def read_unlock_gp_def data_gp_ok_def word_facts)

definition set_gp :: "nat \<Rightarrow> u64 \<Rightarrow> sp_sys \<Rightarrow> sp_sys" where
  "set_gp a g s = s\<lparr>sp_mem := (sp_mem s)\<lparr>nodes :=
     (nodes (sp_mem s))(a := map_option (\<lambda>n. n\<lparr>ngp := g\<rparr>) (nodes (sp_mem s) a))\<rparr>\<rparr>"

lemma sp_section:
  assumes "sp_ok s sp"
  obtains p c a d where "sps s sp = Some p" "cbs s (scb p) = Some c" "sp_cell s sp = scb p"
    "cell_value s (scb p) = raw_ptr c" "gp_nest (read_unlock_gp d) = 0"
    "mthpc_cb_rcu_lock sp s = Some (set_gp a d s)"
    "\<And>f. mthpc_cb_rcu_unlock sp (set_gp a d (s\<lparr>cbs := f\<rparr>)) = Some (set_gp a (read_unlock_gp d) (s\<lparr>cbs := f\<rparr>))"
proof -
  obtain p c n r where ok: "sps s sp = Some p" "cbs s (scb p) = Some c"
    "nodes (sp_mem s) (snode p) = Some n" "datas (sp_mem s) (ndata n) = Some r"
    "data_gp_ok (dgp r)" "gp_nest (ngp n) = 0"
    using assms by (auto simp: sp_ok_def)
  note gp = gp_lock_unlock [OF ok(5,6)]
  show ?thesis
  proof (rule that [of p c "dgp r" "snode p"])
    show "mthpc_cb_rcu_lock sp s = Some (set_gp (snode p) (dgp r) s)"
      using ok gp by (simp add: mthpc_cb_rcu_lock_def with_mem_def mthpc_rcu_read_lock_internal_def
          upd_node_gp_def gp_active_iff set_gp_def)
    show "mthpc_cb_rcu_unlock sp (set_gp (snode p) (dgp r) (s\<lparr>cbs := f\<rparr>)) =
      Some (set_gp (snode p) (read_unlock_gp (dgp r)) (s\<lparr>cbs := f\<rparr>))" for f
      using ok by (simp add: mthpc_cb_rcu_unlock_def with_mem_def mthpc_rcu_read_unlock_internal_def
          upd_node_gp_def set_gp_def)
  qed (use ok gp in \<open>simp_all add: sp_cell_def cell_value_def\<close>)
qed

lemma set_gp_simps [simp]:
  "sps (set_gp a g s) = sps s" "cbs (set_gp a g s) = cbs s"
  "reclaimed (set_gp a g s) = reclaimed s" "sp_rcu_cnt (set_gp a g s) = sp_rcu_cnt s"
  "(set_gp a g s)\<lparr>cbs := f\<rparr> = set_gp a g (s\<lparr>cbs := f\<rparr>)"
  by (simp_all add: set_gp_def)

lemma same_ptrs_set_gp:
  "gp_nest g = 0 \<Longrightarrow> dom f = dom (cbs s) \<Longrightarrow> same_ptrs s (set_gp a g (s\<lparr>cbs := f\<rparr>))"
  unfolding same_ptrs_def set_gp_def by (cases "nodes (sp_mem s) a") auto

lemma load_ok:
  assumes "sp_ok s sp"
  obtains s' where "mthpc_safe_ptr_load sp s = Some (cell_value s (sp_cell s sp), s')"
    "same_ptrs s s'" "cbs s' = cbs s"
proof -
  from sp_section [OF assms] obtain p c a d where o: "sps s sp = Some p" "cbs s (scb p) = Some c"
    "sp_cell s sp = scb p" "cell_value s (scb p) = raw_ptr c" "gp_nest (read_unlock_gp d) = 0"
    "mthpc_cb_rcu_lock sp s = Some (set_gp a d s)"
    "\<And>f. mthpc_cb_rcu_unlock sp (set_gp a d (s\<lparr>cbs := f\<rparr>)) = Some (set_gp a (read_unlock_gp d) (s\<lparr>cbs := f\<rparr>))"
    by metis
  show ?thesis
    by (rule that [of "set_gp a (read_unlock_gp d) s"])
      (use o(1-6) o(7) [of "cbs s"] same_ptrs_set_gp [OF o(5), of "cbs s" s a] in
        \<open>simp_all add: mthpc_safe_ptr_load_def mthpc_cb_load_def\<close>)
qed

lemma cmpxhg_ok:
  assumes "sp_ok s sp"
  obtains s' where "mthpc_safe_ptr_cmpxhg sp e v s =
      Some (cell_value s (sp_cell s sp) = e, cell_value s (sp_cell s sp), s')"
    "same_ptrs s s'" "cell_value s' = (if cell_value s (sp_cell s sp) = e
      then (cell_value s)(sp_cell s sp := v) else cell_value s)"
proof -
  from sp_section [OF assms] obtain p c a d where o: "sps s sp = Some p" "cbs s (scb p) = Some c"
    "sp_cell s sp = scb p" "cell_value s (scb p) = raw_ptr c" "gp_nest (read_unlock_gp d) = 0"
    "mthpc_cb_rcu_lock sp s = Some (set_gp a d s)"
    "\<And>f. mthpc_cb_rcu_unlock sp (set_gp a d (s\<lparr>cbs := f\<rparr>)) = Some (set_gp a (read_unlock_gp d) (s\<lparr>cbs := f\<rparr>))"
    by metis
  let ?f = "if raw_ptr c = e then (cbs s)(scb p \<mapsto> c\<lparr>raw_ptr := v\<rparr>) else cbs s"
  have dom: "dom ?f = dom (cbs s)" using o(2) by auto
  show ?thesis
  proof (rule that [of "set_gp a (read_unlock_gp d) (s\<lparr>cbs := ?f\<rparr>)"])
    show "mthpc_safe_ptr_cmpxhg sp e v s = Some (cell_value s (sp_cell s sp) = e,
      cell_value s (sp_cell s sp), set_gp a (read_unlock_gp d) (s\<lparr>cbs := ?f\<rparr>))"
      using o(1-6) o(7) [of "(cbs s)(scb p \<mapsto> c\<lparr>raw_ptr := v\<rparr>)"] o(7) [of "cbs s"]
      by (simp add: mthpc_safe_ptr_cmpxhg_def mthpc_cb_load_def upd_cb_def del: fun_upd_apply)
    show "same_ptrs s (set_gp a (read_unlock_gp d) (s\<lparr>cbs := ?f\<rparr>))"
      by (rule same_ptrs_set_gp [OF o(5) dom])
  qed (use o in \<open>auto simp: cell_value_def\<close>)
qed

section \<open>Runs of loads and exchanges\<close>

datatype sp_op = LoadOp nat | CmpxchgOp nat nat nat

datatype sp_res = Loaded nat | Swapped bool nat

fun run_sps :: "sp_op list \<Rightarrow> sp_sys \<Rightarrow> (sp_res list \<times> sp_sys) option" where
  "run_sps [] s = Some ([], s)"
| "run_sps (LoadOp sp # ops) s = do {
     (v, s) \<leftarrow> mthpc_safe_ptr_load sp s;
     (rs, s) \<leftarrow> run_sps ops s;
     Some (Loaded v # rs, s) }"
| "run_sps (CmpxchgOp sp e d # ops) s = do {
     (b, v, s) \<leftarrow> mthpc_safe_ptr_cmpxhg sp e d s;
     (rs, s) \<leftarrow> run_sps ops s;
     Some (Swapped b v # rs, s) }"

text \<open>The specification: \<open>cell sp\<close> is the cell of a pointer, \<open>M\<close> the contents of the cells.\<close>

fun run_cells :: "(nat \<Rightarrow> nat) \<Rightarrow> sp_op list \<Rightarrow> (nat \<Rightarrow> nat) \<Rightarrow> sp_res list \<times> (nat \<Rightarrow> nat)" where
  "run_cells cell [] M = ([], M)"
| "run_cells cell (LoadOp sp # ops) M =
     (case run_cells cell ops M of (rs, M') \<Rightarrow> (Loaded (M (cell sp)) # rs, M'))"
| "run_cells cell (CmpxchgOp sp e d # ops) M =
     (case run_cells cell ops (if M (cell sp) = e then M(cell sp := d) else M) of
        (rs, M') \<Rightarrow> (Swapped (M (cell sp) = e) (M (cell sp)) # rs, M'))"

fun op_ptr :: "sp_op \<Rightarrow> nat" where
  "op_ptr (LoadOp sp) = sp"
| "op_ptr (CmpxchgOp sp e d) = sp"

text \<open>
  C19. Any sequence of \<open>mthpc_safe_ptr_load\<close> and
  \<open>mthpc_safe_ptr_cmpxhg\<close> through usable safe pointers, which may share control
  blocks, returns and gives the same results as reads and compare-and-swaps of memory cells,
  one for each control block, and keeps every pointer usable.
\<close>

theorem safe_ptr_refines_cells:
  assumes "\<forall>sp\<in>op_ptr ` set ops. sp_ok s sp"
  shows "\<exists>s'. run_sps ops s = Some (fst (run_cells (sp_cell s) ops (cell_value s)), s') \<and>
    cell_value s' = snd (run_cells (sp_cell s) ops (cell_value s)) \<and>
    (\<forall>sp. sp_ok s sp \<longrightarrow> sp_ok s' sp \<and> sp_cell s' sp = sp_cell s sp)"
  using assms
proof (induction ops arbitrary: s)
  case (Cons op ops)
  have step: "\<exists>s'. run_sps ops k = Some (fst (run_cells (sp_cell s) ops (cell_value k)), s') \<and>
    cell_value s' = snd (run_cells (sp_cell s) ops (cell_value k)) \<and>
    (\<forall>sp. sp_ok s sp \<longrightarrow> sp_ok s' sp \<and> sp_cell s' sp = sp_cell s sp)" if k: "same_ptrs s k" for k
  proof -
    have cell: "sp_cell k = sp_cell s" using same_ptrs_cell [OF k] by auto
    have "\<forall>sp\<in>op_ptr ` set ops. sp_ok k sp" using Cons.prems same_ptrs_ok [OF k] by simp
    from Cons.IH [OF this] show ?thesis
      unfolding cell using same_ptrs_ok [OF k] by metis
  qed
  have ok: "sp_ok s (op_ptr op)" using Cons.prems by simp
  show ?case
  proof (cases op)
    case (LoadOp sp)
    with ok have "sp_ok s sp" by simp
    from load_ok [OF this] obtain k where k: "same_ptrs s k" "cbs k = cbs s"
      "mthpc_safe_ptr_load sp s = Some (cell_value s (sp_cell s sp), k)" by metis
    from k(2) have "cell_value k = cell_value s" by (auto simp: cell_value_def)
    with step [OF k(1)] k(3) LoadOp show ?thesis by (auto split: prod.splits)
  next
    case (CmpxchgOp sp e d)
    with ok have "sp_ok s sp" by simp
    from cmpxhg_ok [OF this, of e d] obtain k where k: "same_ptrs s k"
      "mthpc_safe_ptr_cmpxhg sp e d s =
        Some (cell_value s (sp_cell s sp) = e, cell_value s (sp_cell s sp), k)"
      "cell_value k = (if cell_value s (sp_cell s sp) = e
        then (cell_value s)(sp_cell s sp := d) else cell_value s)" by metis
    from step [OF k(1)] k(2,3) CmpxchgOp show ?thesis by (auto split: prod.splits)
  qed
qed simp

section \<open>New blocks\<close>

lemma data_init_eq:
  "meta_lock m = Unlocked \<Longrightarrow> mthpc_rcu_data_init d t m = Some (m\<lparr>datas := (datas m)(d \<mapsto>
     \<lparr>dlock = Unlocked, dhead = 0, dtype = t, dgp = MTHPC_GP_COUNT, dnext = meta_head m\<rparr>),
     meta_head := d\<rparr>)"
  by (simp add: mthpc_rcu_data_init_def lock_meta_def unlock_meta_def)

definition new_cb :: "nat \<Rightarrow> nat \<Rightarrow> safe_cb" where
  "new_cb v d = \<lparr>refcount = 1, raw_ptr = v, dtor = d\<rparr>"

text \<open>The registry of a block: its nodes, and its object on the list of all objects.\<close>

definition block_ok :: "sp_sys \<Rightarrow> nat \<Rightarrow> nat list \<Rightarrow> bool" where
  "block_ok s c ps \<longleftrightarrow> registry (sp_mem s) (cb_data c) ps \<and>
     (\<exists>r. datas (sp_mem s) (cb_data c) = Some r \<and> data_gp_ok (dgp r))"

lemma cb_create_ok:
  assumes "meta_list (sp_mem s) ds" "c \<noteq> 0" "cb_data c \<notin> set ds"
  obtains m where "mthpc_cb_create c v d s = Some (s\<lparr>cbs := (cbs s)(c \<mapsto> new_cb v d), sp_mem := m\<rparr>)"
    "meta_list m (cb_data c # ds)" "nodes m = nodes (sp_mem s)" "blocks m = blocks (sp_mem s)"
    "registry m (cb_data c) []" "\<And>e. e \<noteq> cb_data c \<Longrightarrow> datas m e = datas (sp_mem s) e"
    "\<exists>r. datas m (cb_data c) = Some r \<and> data_gp_ok (dgp r)"
proof -
  let ?m = "sp_mem s"
  let ?r = "\<lparr>dlock = Unlocked, dhead = 0, dtype = MTHPC_RCU_USR, dgp = MTHPC_GP_COUNT, dnext = meta_head ?m\<rparr>"
  let ?k = "?m\<lparr>datas := (datas ?m)(cb_data c \<mapsto> ?r), meta_head := cb_data c\<rparr>"
  have ml: "meta_lock ?m = Unlocked" using assms(1) by (simp add: meta_list_def)
  have "chain (data_next ?k) (meta_head ?m) ds"
    by (rule chain_off [of "data_next ?m"]) (use assms in \<open>auto simp: meta_list_def data_next_def\<close>)
  moreover have "cb_data c \<noteq> 0" by (simp add: cb_data_def)
  ultimately have "meta_list ?k (cb_data c # ds)"
    using assms ml by (simp add: meta_list_def data_next_def)
  moreover have "mthpc_cb_create c v d s = Some (s\<lparr>cbs := (cbs s)(c \<mapsto> new_cb v d), sp_mem := ?k\<rparr>)"
    using assms(2) data_init_eq [OF ml] by (simp add: mthpc_cb_create_def with_mem_def sp_warn_def warn_def new_cb_def Let_def)
  ultimately show ?thesis
    by (intro that [of ?k]) (simp_all add: registry_def on_list_def data_gp_ok_def gp_nest_def)
qed

lemma meta_list_same_rest:
  assumes "same_rest d S m m'" "meta_list m ds"
  shows "meta_list m' ds"
proof -
  have "data_next m' = data_next m"
  proof
    fix e
    show "data_next m' e = data_next m e"
      using assms(1) by (cases "e = d") (auto simp: same_rest_def data_next_def)
  qed
  then show ?thesis using assms by (simp add: meta_list_def same_rest_def)
qed

text \<open>A new node for the pointer \<open>sp\<close> in the registry of the block \<open>c\<close>.\<close>

lemma rcu_init_ok:
  assumes "block_ok s c ps" "sps s sp = Some p" "fresh_node a (sp_mem s)"
    and "rcu_lookup (cb_data c) (sp_mem s) (ucast (ucast (sid p) :: u32)) = None"
  obtains m where "mthpc_cb_rcu_init a sp c s =
      Some (s\<lparr>sp_mem := m, sps := (sps s)(sp \<mapsto> p\<lparr>snode := a\<rparr>)\<rparr>)"
    "nodes m a = Some (new_node (cb_data c) (ucast (ucast (sid p) :: u32)))"
    "\<And>b. b \<noteq> a \<Longrightarrow> map_option ngp (nodes m b) = map_option ngp (nodes (sp_mem s) b)"
proof -
  have reg: "registry (sp_mem s) (cb_data c) ps" and a: "a \<noteq> 0" "nodes (sp_mem s) a = None"
    using assms(1,3) by (simp_all add: block_ok_def fresh_node_def)
  from rcu_add_new [OF reg a assms(4)] obtain m where m:
    "mthpc_rcu_add a (cb_data c) (ucast (sid p)) (sp_mem s) = Some (m, Some a)"
    "nodes m a = Some (new_node (cb_data c) (ucast (ucast (sid p) :: u32)))"
    "\<And>b. b \<noteq> a \<Longrightarrow> map_option ngp (nodes m b) = map_option ngp (nodes (sp_mem s) b)" by metis
  show ?thesis
    by (rule that [OF _ m(2,3)]) (use m(1) assms(2) in \<open>simp_all add: mthpc_cb_rcu_init_def upd_sp_def\<close>)
qed

text \<open>Pointers with other nodes stay usable when a node is added.\<close>

lemma sp_ok_kept:
  assumes "sp_ok s q" "q \<noteq> sp" "sps s' q = sps s q"
    and "\<And>c. cbs s c \<noteq> None \<Longrightarrow> cbs s' c = cbs s c"
    and "\<And>a. nodes (sp_mem s) a \<noteq> None \<Longrightarrow> nodes (sp_mem s') a = nodes (sp_mem s) a"
    and "\<And>d r. datas (sp_mem s) d = Some r \<Longrightarrow> \<exists>h. datas (sp_mem s') d = Some (r\<lparr>dhead := h\<rparr>)"
  shows "sp_ok s' q \<and> sp_cell s' q = sp_cell s q"
proof -
  obtain p c n r where ok: "sps s q = Some p" "cbs s (scb p) = Some c"
    "nodes (sp_mem s) (snode p) = Some n" "datas (sp_mem s) (ndata n) = Some r"
    "data_gp_ok (dgp r)" "gp_nest (ngp n) = 0"
    using assms(1) by (auto simp: sp_ok_def)
  obtain h where "datas (sp_mem s') (ndata n) = Some (r\<lparr>dhead := h\<rparr>)"
    using assms(6) [OF ok(4)] by blast
  with ok assms(3) assms(4) [of "scb p"] assms(5) [of "snode p"] show ?thesis
    by (auto simp: sp_ok_def sp_cell_def)
qed

lemma free_data_off: "d \<notin> blocks m \<Longrightarrow> free_data d m = None"
  by (simp add: free_data_def)

lemma blocks_keep:
  "lock_data d m = Some m' \<Longrightarrow> blocks m' = blocks m"
  "unlock_data d m = Some m' \<Longrightarrow> blocks m' = blocks m"
  "upd_data d f m = Some m' \<Longrightarrow> blocks m' = blocks m"
  "lock_meta m = Some m' \<Longrightarrow> blocks m' = blocks m"
  "unlock_meta m = Some m' \<Longrightarrow> blocks m' = blocks m"
  "set_data_slot sl v m = Some m' \<Longrightarrow> blocks m' = blocks m"
  by (auto simp: lock_data_def unlock_data_def upd_data_def lock_meta_def unlock_meta_def
      set_data_slot_def bind_eq_Some_conv split: slot.splits)

lemma blocks_unlink: "unlink_data d m = Some m' \<Longrightarrow> blocks m' = blocks m"
  by (auto simp: unlink_data_def bind_eq_Some_conv split: if_splits dest: blocks_keep)

lemma blocks_free_nodes:
  assumes "free_nodes p m = Some m'"
  shows "blocks m' = blocks m"
proof (rule free_nodes.raw_induct [where P = "\<lambda>p m m'. blocks m' = blocks m", OF _ assms])
  fix f :: "nat \<Rightarrow> rcu_mem \<Rightarrow> rcu_mem option" and p m m'
  assume IH: "\<And>p m m'. f p m = Some m' \<Longrightarrow> blocks m' = blocks m"
    and eq: "(if p = 0 then Some m else do {
      n \<leftarrow> nodes m p;
      m \<leftarrow> free_node p m;
      f (nnext n) m }) = Some m'"
  show "blocks m' = blocks m"
  proof (cases "p = 0")
    case False
    with eq obtain n where "nodes m p = Some n"
      "f (nnext n) (m\<lparr>nodes := (nodes m)(p := None)\<rparr>) = Some m'"
      by (cases "nodes m p") (auto simp: free_node_def)
    from IH [OF this(2)] show ?thesis by simp
  qed (use eq in simp)
qed

text \<open>The exit of an object that is not a heap block of its own never succeeds.\<close>

lemma data_exit_interior:
  assumes "d \<notin> blocks m"
  shows "mthpc_rcu_data_exit d m = None"
proof (rule ccontr)
  assume "mthpc_rcu_data_exit d m \<noteq> None"
  then obtain m' where run: "rcu_data_exit d False m = Some m'"
    by (auto simp: mthpc_rcu_data_exit_def)
  then obtain m1 r m2 m3 m4 m5 m6 m7 m8 where
    "lock_data d m = Some m1" "datas m1 d = Some r" "free_nodes (dhead r) m1 = Some m2"
    "upd_data d (\<lambda>r. Some (r\<lparr>dhead := 0\<rparr>)) m2 = Some m3" "unlock_data d m3 = Some m4"
    "upd_data d (\<lambda>r. do { l \<leftarrow> spin_lock_destroy (dlock r); Some (r\<lparr>dlock := l\<rparr>) }) m4 = Some m5"
    "lock_meta m5 = Some m6" "unlink_data d m6 = Some m7" "unlock_meta m7 = Some m8"
    and last: "free_data d m8 = Some m'"
    unfolding rcu_data_exit_def bind_eq_Some_conv by auto
  then have "blocks m8 = blocks m"
    by (auto dest!: blocks_keep blocks_unlink blocks_free_nodes)
  with assms last show False by (simp add: free_data_off)
qed

lemma synchronize_blocks:
  "mthpc_synchronize_rcu_internal d m = Some m' \<Longrightarrow> blocks m' = blocks m"
  unfolding mthpc_synchronize_rcu_internal_def bind_eq_Some_conv Let_def
  by (elim exE conjE) (auto dest!: blocks_keep)

lemma last_put_interior:
  assumes "cb_data c \<notin> blocks (sp_mem s)" "cbs s c = Some k" "refcount k = 1"
  shows "mthpc_cb_put c sp s = None"
proof -
  have "mthpc_cb_synchronize_rcu c t = None" if "blocks (sp_mem t) = blocks (sp_mem s)" for t
  proof (cases "mthpc_synchronize_rcu_internal (cb_data c) (sp_mem t)")
    case (Some m)
    with synchronize_blocks [OF this] data_exit_interior [of "cb_data c" m] assms(1) that
    show ?thesis by (simp add: mthpc_cb_synchronize_rcu_def with_mem_def)
  qed (simp add: mthpc_cb_synchronize_rcu_def with_mem_def)
  with assms(2,3) show ?thesis
    by (simp add: mthpc_cb_put_def upd_cb_def sp_warn_def)
qed

section \<open>Creation\<close>

text \<open>What \<open>malloc\<close> promises: memory that nobody uses.\<close>

definition fresh_cb :: "nat \<Rightarrow> sp_sys \<Rightarrow> bool" where
  "fresh_cb c s \<longleftrightarrow> c \<noteq> 0 \<and> cbs s c = None \<and> datas (sp_mem s) (cb_data c) = None"

lemma chain_fresh: "meta_list m ds \<Longrightarrow> datas m d = None \<Longrightarrow> d \<notin> set ds"
proof -
  have "chain (data_next m) p ds \<Longrightarrow> datas m d = None \<Longrightarrow> d \<notin> set ds" for p
    by (induction ds arbitrary: p) (auto simp: data_next_def)
  then show "meta_list m ds \<Longrightarrow> datas m d = None \<Longrightarrow> d \<notin> set ds"
    by (auto simp: meta_list_def)
qed

text \<open>A new block and its first node, for a pointer whose id is \<open>i\<close>.\<close>

lemma new_block:
  assumes "meta_list (sp_mem s) ds" "fresh_cb c s" "fresh_node a (sp_mem s)"
  obtains m m' where "mthpc_cb_create c v d s = Some (s\<lparr>cbs := (cbs s)(c \<mapsto> new_cb v d), sp_mem := m\<rparr>)"
    "\<And>t p. sp_mem t = m \<Longrightarrow> sps t sp = Some p \<Longrightarrow> sid p = i \<Longrightarrow> mthpc_cb_rcu_init a sp c t =
      Some (t\<lparr>sp_mem := m', sps := (sps t)(sp \<mapsto> p\<lparr>snode := a\<rparr>)\<rparr>)"
    "registry m' (cb_data c) [a]" "meta_list m' (cb_data c # ds)" "blocks m' = blocks (sp_mem s)"
    "nodes m' a = Some (new_node (cb_data c) (ucast (ucast i :: u32)))"
    "\<And>b. b \<noteq> a \<Longrightarrow> nodes m' b = nodes (sp_mem s) b"
    "\<And>e. e \<noteq> cb_data c \<Longrightarrow> datas m' e = datas (sp_mem s) e"
    "\<exists>r. datas m' (cb_data c) = Some r \<and> data_gp_ok (dgp r)"
proof -
  have c: "c \<noteq> 0" "datas (sp_mem s) (cb_data c) = None" and a: "a \<noteq> 0" "nodes (sp_mem s) a = None"
    using assms(2,3) by (simp_all add: fresh_cb_def fresh_node_def)
  from cb_create_ok [of s, OF assms(1) c(1) chain_fresh [OF assms(1) c(2)]] obtain m where m:
    "mthpc_cb_create c v d s = Some (s\<lparr>cbs := (cbs s)(c \<mapsto> new_cb v d), sp_mem := m\<rparr>)"
    "meta_list m (cb_data c # ds)" "nodes m = nodes (sp_mem s)" "blocks m = blocks (sp_mem s)"
    "registry m (cb_data c) []" "\<And>e. e \<noteq> cb_data c \<Longrightarrow> datas m e = datas (sp_mem s) e"
    "\<exists>r. datas m (cb_data c) = Some r \<and> data_gp_ok (dgp r)" by metis
  have free: "nodes m a = None" "rcu_lookup (cb_data c) m (ucast (ucast i :: u32)) = None"
    using m(3) a(2) rcu_lookup_map [OF m(5)] by (simp_all add: id_map_def)
  from rcu_add_new [OF m(5) a(1) free] obtain m' where m':
    "mthpc_rcu_add a (cb_data c) (ucast i) m = Some (m', Some a)"
    "registry m' (cb_data c) ([] @ [a])" "same_rest (cb_data c) (insert a (set [])) m m'"
    "nodes m' a = Some (new_node (cb_data c) (ucast (ucast i :: u32)))" by metis
  show ?thesis
  proof (rule that [OF m(1), of m'])
    show "mthpc_cb_rcu_init a sp c t = Some (t\<lparr>sp_mem := m', sps := (sps t)(sp \<mapsto> p\<lparr>snode := a\<rparr>)\<rparr>)"
      if "sp_mem t = m" "sps t sp = Some p" "sid p = i" for t p
      using m'(1) that by (simp add: mthpc_cb_rcu_init_def upd_sp_def)
    show "\<exists>r. datas m' (cb_data c) = Some r \<and> data_gp_ok (dgp r)"
      using m'(3) m(7) by (auto simp: same_rest_def)
  qed (use m m' meta_list_same_rest [OF m'(3) m(2)] in \<open>simp_all add: same_rest_def\<close>)
qed

text \<open>Everything else after such a step.\<close>

lemma block_ok_kept:
  assumes "block_ok s e ps" "e \<noteq> c"
    and "\<And>b. b \<noteq> a \<Longrightarrow> nodes (sp_mem s') b = nodes (sp_mem s) b" "nodes (sp_mem s) a = None"
    and "\<And>e. e \<noteq> cb_data c \<Longrightarrow> datas (sp_mem s') e = datas (sp_mem s) e"
  shows "block_ok s' e ps"
proof -
  have e: "cb_data e \<noteq> cb_data c" using assms(2) by (simp add: cb_data_def)
  obtain r where r: "datas (sp_mem s) (cb_data e) = Some r" "dlock r = Unlocked"
    "on_list (nodes (sp_mem s)) (cb_data e) (dhead r) ps" "data_gp_ok (dgp r)"
    using assms(1) by (auto simp: block_ok_def registry_def)
  have "on_list (nodes (sp_mem s')) (cb_data e) (dhead r) ps"
  proof (rule on_list_off [OF r(3)])
    fix b assume "b \<in> set ps"
    then have "b \<noteq> a" using r(3) assms(4) by (auto simp: on_list_def)
    then show "nodes (sp_mem s') b = nodes (sp_mem s) b" by (rule assms(3))
  qed
  then show ?thesis using r assms(5) [OF e] by (simp add: block_ok_def registry_def)
qed

definition fresh_block_of :: "nat \<Rightarrow> nat \<Rightarrow> nat \<Rightarrow> sp_sys \<Rightarrow> nat list \<Rightarrow> sp_sys \<Rightarrow> bool" where
  "fresh_block_of c sp v s ds s' \<longleftrightarrow> sp_ok s' sp \<and> sp_cell s' sp = c \<and>
     cell_value s' = (cell_value s)(c := v) \<and> refcount (the (cbs s' c)) = 1 \<and>
     meta_list (sp_mem s') (cb_data c # ds) \<and>
     (\<forall>q. q \<noteq> sp \<longrightarrow> sp_ok s q \<longrightarrow> sp_ok s' q \<and> sp_cell s' q = sp_cell s q) \<and>
     (\<forall>e ps. e \<noteq> c \<longrightarrow> block_ok s e ps \<longrightarrow> block_ok s' e ps)"

lemma fresh_block_ofI:
  assumes fresh: "fresh_cb c s" "fresh_node a (sp_mem s)"
    and s': "sps s' = (sps s)(sp \<mapsto> p)" "scb p = c" "snode p = a" "cbs s' = (cbs s)(c \<mapsto> new_cb v d)"
    and m: "meta_list (sp_mem s') (cb_data c # ds)" "nodes (sp_mem s') a = Some (new_node (cb_data c) i)"
      "\<And>b. b \<noteq> a \<Longrightarrow> nodes (sp_mem s') b = nodes (sp_mem s) b"
      "\<And>e. e \<noteq> cb_data c \<Longrightarrow> datas (sp_mem s') e = datas (sp_mem s) e"
      "\<exists>r. datas (sp_mem s') (cb_data c) = Some r \<and> data_gp_ok (dgp r)"
  shows "fresh_block_of c sp v s ds s'"
proof -
  have c: "cbs s c = None" "datas (sp_mem s) (cb_data c) = None" "nodes (sp_mem s) a = None"
    using fresh by (simp_all add: fresh_cb_def fresh_node_def)
  have "sp_ok s' sp" using s' m(2,5) by (auto simp: sp_ok_def new_node_def gp_nest_def)
  moreover have "sp_cell s' sp = c" "cell_value s' = (cell_value s)(c := v)" "refcount (the (cbs s' c)) = 1"
    using s' by (auto simp: sp_cell_def cell_value_def new_cb_def)
  moreover have "sp_ok s' q \<and> sp_cell s' q = sp_cell s q" if "q \<noteq> sp" "sp_ok s q" for q
  proof (rule sp_ok_kept [OF that(2,1)])
    show "nodes (sp_mem s') b = nodes (sp_mem s) b" if "nodes (sp_mem s) b \<noteq> None" for b
      using m(3) c(3) that by metis
    show "\<exists>h. datas (sp_mem s') e = Some (r\<lparr>dhead := h\<rparr>)" if "datas (sp_mem s) e = Some r" for e r
      using m(4) [of e] c(2) that by (intro exI [of _ "dhead r"]) (cases "e = cb_data c"; simp)
  qed (use s' that(1) c(1) in auto)
  moreover have "block_ok s' e ps" if "e \<noteq> c" "block_ok s e ps" for e ps
    using block_ok_kept [OF that(2,1) m(3) c(3) m(4)] by blast
  ultimately show ?thesis using m(1) unfolding fresh_block_of_def by blast
qed

lemma safe_ptr_create_run:
  assumes "meta_list (sp_mem s) ds" "fresh_cb c s" "fresh_node a (sp_mem s)" "sps s sp = Some junk"
  obtains s' where "mthpc_safe_ptr_create c a sp v d s = Some s'" "fresh_block_of c sp v s ds s'"
    "blocks (sp_mem s') = blocks (sp_mem s)" "block_ok s' c [a]"
    "sps s' sp = Some \<lparr>scb = c, sid = sp_rcu_cnt s, snode = a\<rparr>" "cbs s' c = Some (new_cb v d)"
proof -
  let ?i = "sp_rcu_cnt s"
  obtain m m' where m:
    "mthpc_cb_create c v d s = Some (s\<lparr>cbs := (cbs s)(c \<mapsto> new_cb v d), sp_mem := m\<rparr>)"
    and init: "\<And>t p. sp_mem t = m \<Longrightarrow> sps t sp = Some p \<Longrightarrow> sid p = ?i \<Longrightarrow> mthpc_cb_rcu_init a sp c t =
      Some (t\<lparr>sp_mem := m', sps := (sps t)(sp \<mapsto> p\<lparr>snode := a\<rparr>)\<rparr>)"
    and m': "registry m' (cb_data c) [a]" "meta_list m' (cb_data c # ds)" "blocks m' = blocks (sp_mem s)"
    "nodes m' a = Some (new_node (cb_data c) (ucast (ucast ?i :: u32)))"
    "\<And>b. b \<noteq> a \<Longrightarrow> nodes m' b = nodes (sp_mem s) b"
    "\<And>e. e \<noteq> cb_data c \<Longrightarrow> datas m' e = datas (sp_mem s) e"
    "\<exists>r. datas m' (cb_data c) = Some r \<and> data_gp_ok (dgp r)"
    by (rule new_block [OF assms(1-3)], rule that)
  let ?p = "junk\<lparr>sid := ?i, snode := a, scb := c\<rparr>"
  let ?s' = "s\<lparr>cbs := (cbs s)(c \<mapsto> new_cb v d), sp_mem := m', sps := (sps s)(sp \<mapsto> ?p), sp_rcu_cnt := ?i + 1\<rparr>"
  show ?thesis
  proof (rule that [of ?s'])
    show "mthpc_safe_ptr_create c a sp v d s = Some ?s'"
      using m init assms(4) by (simp add: mthpc_safe_ptr_create_def upd_sp_def mthpc_cb_store_def Let_def)
    show "fresh_block_of c sp v s ds ?s'"
      by (rule fresh_block_ofI [OF assms(2,3), of _ _ ?p]) (use m' in simp_all)
  qed (use m' in \<open>simp_all add: block_ok_def\<close>)
qed

section \<open>An example\<close>

text \<open>
  One safe pointer at \<open>40\<close> with its block at \<open>100\<close>, and the memory of another one at \<open>41\<close> that
  still holds the node of the first.
\<close>

definition safe_sys :: sp_sys where
  "safe_sys = \<lparr>cbs = [100 \<mapsto> new_cb 7 0],
     sps = [40 \<mapsto> \<lparr>scb = 100, sid = 0, snode = 8\<rparr>, 41 \<mapsto> \<lparr>scb = 0, sid = 0, snode = 8\<rparr>],
     sp_mem = rcu_mem0\<lparr>datas := [108 \<mapsto> \<lparr>dlock = Unlocked, dhead = 8, dtype = 1, dgp = 1, dnext = 0\<rparr>],
       nodes := [8 \<mapsto> new_node 108 0], meta_head := 108\<rparr>,
     sp_rcu_cnt = 1, reclaimed = []\<rparr>"

lemma safe_sys_ok: "sp_ok safe_sys 40" "sp_cell safe_sys 40 = 100" "cell_value safe_sys 100 = 7"
  by (simp_all add: sp_ok_def sp_cell_def cell_value_def safe_sys_def new_cb_def new_node_def
      data_gp_ok_def gp_nest_def)

lemma safe_sys_block: "meta_list (sp_mem safe_sys) [108]" "block_ok safe_sys 100 [8]"
  by (simp_all add: meta_list_def data_next_def block_ok_def registry_def on_list_def safe_sys_def
      rcu_mem0_def cb_data_def new_node_def data_gp_ok_def gp_nest_def)

lemma safe_sys_fresh: "fresh_cb 200 safe_sys" "fresh_node 9 (sp_mem safe_sys)"
  by (simp_all add: fresh_cb_def fresh_node_def safe_sys_def cb_data_def)

lemma safe_ptr_refines_cells_witness:
  "\<exists>s'. run_sps [LoadOp 40, CmpxchgOp 40 7 9, LoadOp 40] safe_sys =
    Some ([Loaded 7, Swapped True 7, Loaded 9], s')"
  using safe_ptr_refines_cells [of "[LoadOp 40, CmpxchgOp 40 7 9, LoadOp 40]" safe_sys] safe_sys_ok
  by auto

text \<open>
  C20. Creating a safe pointer, whatever its stack memory held: it gets a control block of its
  own with the value, the count 1 and a registry with one node, which is on the list of all RCU
  objects, and every other usable pointer stays usable.
\<close>

theorem safe_ptr_create_ok:
  assumes "meta_list (sp_mem s) ds" "fresh_cb c s" "fresh_node a (sp_mem s)" "sps s sp = Some junk"
  shows "\<exists>s'. mthpc_safe_ptr_create c a sp v d s = Some s' \<and> sp_ok s' sp \<and> sp_cell s' sp = c \<and>
    cell_value s' = (cell_value s)(c := v) \<and> refcount (the (cbs s' c)) = 1 \<and>
    block_ok s' c [a] \<and> meta_list (sp_mem s') (cb_data c # ds) \<and>
    (\<forall>q. q \<noteq> sp \<longrightarrow> sp_ok s q \<longrightarrow> sp_ok s' q \<and> sp_cell s' q = sp_cell s q)"
proof -
  obtain s' where "mthpc_safe_ptr_create c a sp v d s = Some s'" "fresh_block_of c sp v s ds s'"
    "block_ok s' c [a]"
    by (rule safe_ptr_create_run [OF assms], rule that)
  then show ?thesis unfolding fresh_block_of_def by blast
qed

lemma safe_ptr_create_ok_witness:
  "\<exists>s'. mthpc_safe_ptr_create 200 9 41 5 0 safe_sys = Some s' \<and> sp_ok s' 41 \<and> sp_cell s' 41 = 200 \<and>
    cell_value s' = (cell_value safe_sys)(200 := 5) \<and> refcount (the (cbs s' 200)) = 1 \<and>
    block_ok s' 200 [9] \<and> meta_list (sp_mem s') (cb_data 200 # [108]) \<and> sp_ok s' 40"
proof -
  have "sps safe_sys 41 = Some \<lparr>scb = 0, sid = 0, snode = 8\<rparr>" by (simp add: safe_sys_def)
  from safe_ptr_create_ok [OF safe_sys_block(1) safe_sys_fresh this] safe_sys_ok(1) show ?thesis
    by (metis numeral_eq_iff semiring_norm(86,87,88))
qed

section \<open>The end of a block\<close>

text \<open>
  C21. The last destruction frees \<open>&cb->rcu_data\<close>, the inside of the control
  block: a block scoped by \<open>MTHPC_DEFINE_SAFE_PTR\<close> whose body keeps the count of
  the control block never ends in a defined state.
\<close>

theorem scoped_safe_ptr_undefined:
  assumes "meta_list (sp_mem s) ds" "fresh_cb c s" "fresh_node a (sp_mem s)"
    and "cb_data c \<notin> blocks (sp_mem s)"
    and "\<forall>t w t'. body t = Some (w, t') \<longrightarrow> sps t' sp = sps t sp \<and>
      map_option refcount (cbs t' c) = map_option refcount (cbs t c) \<and>
      blocks (sp_mem t') = blocks (sp_mem t)"
  shows "MTHPC_DEFINE_SAFE_PTR c a junk sp v d body s = None"
proof -
  let ?s = "s\<lparr>sps := (sps s)(sp \<mapsto> junk)\<rparr>"
  have pre: "meta_list (sp_mem ?s) ds" "fresh_cb c ?s" "fresh_node a (sp_mem ?s)" "sps ?s sp = Some junk"
    using assms(1-3) by (simp_all add: fresh_cb_def)
  obtain t where t: "mthpc_safe_ptr_create c a sp v d ?s = Some t"
    "blocks (sp_mem t) = blocks (sp_mem ?s)"
    "sps t sp = Some \<lparr>scb = c, sid = sp_rcu_cnt ?s, snode = a\<rparr>" "cbs t c = Some (new_cb v d)"
    by (rule safe_ptr_create_run [OF pre], rule that)
  have "mthpc_safe_ptr_destroy sp t' = None" if b: "body t = Some (w, t')" for w t'
  proof -
    from b assms(5) t(2-4) have t': "sps t' sp = Some \<lparr>scb = c, sid = sp_rcu_cnt ?s, snode = a\<rparr>"
      "map_option refcount (cbs t' c) = Some 1" "cb_data c \<notin> blocks (sp_mem t')"
      using assms(4) by (simp_all add: new_cb_def)
    from t'(2) obtain k where "cbs t' c = Some k" "refcount k = 1" by auto
    from last_put_interior [OF t'(3) this] t'(1) show ?thesis
      by (simp add: mthpc_safe_ptr_destroy_def mthpc_cb_load_def)
  qed
  with t(1) show ?thesis
    by (cases "body t") (auto simp: MTHPC_DEFINE_SAFE_PTR_def)
qed

lemma scoped_safe_ptr_undefined_witness:
  "MTHPC_DEFINE_SAFE_PTR 200 9 \<lparr>scb = 0, sid = 0, snode = 8\<rparr> 42 5 0 (\<lambda>t. Some ((), t)) safe_sys = None"
  by (rule scoped_safe_ptr_undefined [OF safe_sys_block(1) safe_sys_fresh])
    (simp_all add: safe_sys_def rcu_mem0_def)

section \<open>Storing\<close>

text \<open>
  C22. \<open>mthpc_safe_ptr_store\<close> gives the pointer a new control block with the new
  value, but puts the old block only if it is null: its count, its registry with the node of
  the pointer and its protected object stay for ever, even when no pointer refers to it any
  more.
\<close>

theorem safe_ptr_store_leaks:
  assumes "meta_list (sp_mem s) ds" "fresh_cb c s" "fresh_node a (sp_mem s)"
    and "sps s sp = Some p" "scb p = old" "old \<noteq> 0" "cbs s old = Some k"
  shows "\<exists>s'. mthpc_safe_ptr_store c a sp v d s = Some s' \<and> sp_ok s' sp \<and> sp_cell s' sp = c \<and>
    cell_value s' = (cell_value s)(c := v) \<and> meta_list (sp_mem s') (cb_data c # ds) \<and>
    cbs s' old = Some k \<and> reclaimed s' = reclaimed s \<and>
    (\<forall>ps. block_ok s old ps \<longrightarrow> block_ok s' old ps) \<and>
    ((\<forall>q p'. q \<noteq> sp \<longrightarrow> sps s q = Some p' \<longrightarrow> scb p' \<noteq> old) \<longrightarrow>
      (\<forall>q p'. sps s' q = Some p' \<longrightarrow> scb p' \<noteq> old))"
proof -
  obtain m m' where m:
    "mthpc_cb_create c v d s = Some (s\<lparr>cbs := (cbs s)(c \<mapsto> new_cb v d), sp_mem := m\<rparr>)"
    and init: "\<And>t q. sp_mem t = m \<Longrightarrow> sps t sp = Some q \<Longrightarrow> sid q = sid p \<Longrightarrow> mthpc_cb_rcu_init a sp c t =
      Some (t\<lparr>sp_mem := m', sps := (sps t)(sp \<mapsto> q\<lparr>snode := a\<rparr>)\<rparr>)"
    and m': "registry m' (cb_data c) [a]" "meta_list m' (cb_data c # ds)" "blocks m' = blocks (sp_mem s)"
    "nodes m' a = Some (new_node (cb_data c) (ucast (ucast (sid p) :: u32)))"
    "\<And>b. b \<noteq> a \<Longrightarrow> nodes m' b = nodes (sp_mem s) b"
    "\<And>e. e \<noteq> cb_data c \<Longrightarrow> datas m' e = datas (sp_mem s) e"
    "\<exists>r. datas m' (cb_data c) = Some r \<and> data_gp_ok (dgp r)"
    by (rule new_block [OF assms(1-3)], rule that)
  let ?p = "p\<lparr>scb := c, snode := a\<rparr>"
  let ?s' = "s\<lparr>cbs := (cbs s)(c \<mapsto> new_cb v d), sp_mem := m', sps := (sps s)(sp \<mapsto> ?p)\<rparr>"
  have old: "old \<noteq> c" using assms(2,7) by (auto simp: fresh_cb_def)
  have "mthpc_safe_ptr_store c a sp v d s = Some ?s'"
    using m init assms(4-6)
    by (simp add: mthpc_safe_ptr_store_def mthpc_cb_xchg_def mthpc_cb_load_def upd_sp_def mthpc_cb_store_def)
  moreover have "fresh_block_of c sp v s ds ?s'"
    by (rule fresh_block_ofI [OF assms(2,3), of _ _ ?p]) (use m' in simp_all)
  moreover have "cbs ?s' old = Some k" "reclaimed ?s' = reclaimed s"
    using old assms(7) by simp_all
  moreover have "(\<forall>q p'. q \<noteq> sp \<longrightarrow> sps s q = Some p' \<longrightarrow> scb p' \<noteq> old) \<longrightarrow>
      (\<forall>q p'. sps ?s' q = Some p' \<longrightarrow> scb p' \<noteq> old)"
    using old by simp
  ultimately show ?thesis
    using old unfolding fresh_block_of_def by blast
qed

lemma safe_ptr_store_leaks_witness:
  "\<exists>s'. mthpc_safe_ptr_store 200 9 40 5 0 safe_sys = Some s' \<and> sp_cell s' 40 = 200 \<and>
    cbs s' 100 = Some (new_cb 7 0) \<and> reclaimed s' = [] \<and> block_ok s' 100 [8]"
proof -
  have "sps safe_sys 40 = Some \<lparr>scb = 100, sid = 0, snode = 8\<rparr>" "cbs safe_sys 100 = Some (new_cb 7 0)"
    "reclaimed safe_sys = []"
    by (simp_all add: safe_sys_def)
  from safe_ptr_store_leaks [OF safe_sys_block(1) safe_sys_fresh this(1) _ _ this(2)] this(3)
    safe_sys_block(2) show ?thesis by fastforce
qed

section \<open>Borrowing\<close>

lemma registry_gp:
  "nodes m a = Some n \<Longrightarrow> registry (m\<lparr>nodes := (nodes m)(a \<mapsto> n\<lparr>ngp := g\<rparr>)\<rparr>) d ps = registry m d ps"
proof -
  assume n: "nodes m a = Some n"
  let ?N = "(nodes m)(a \<mapsto> n\<lparr>ngp := g\<rparr>)"
  have "map_option nnext (?N b) = map_option nnext (nodes m b)"
    "nid (the (?N b)) = nid (the (nodes m b))"
    "(\<exists>k. ?N b = Some k \<and> ndata k = d) = (\<exists>k. nodes m b = Some k \<and> ndata k = d)" for b
    using n by auto
  then show ?thesis by (simp add: registry_def on_list_def del: fun_upd_apply)
qed

lemma lookup_gp:
  assumes "nodes m a = Some n" "registry m d ps"
  shows "rcu_lookup d (m\<lparr>nodes := (nodes m)(a \<mapsto> n\<lparr>ngp := g\<rparr>)\<rparr>) = rcu_lookup d m"
proof -
  have "registry (m\<lparr>nodes := (nodes m)(a \<mapsto> n\<lparr>ngp := g\<rparr>)\<rparr>) d ps"
    using registry_gp [OF assms(1)] assms(2) by simp
  note rcu_lookup_map [OF this] rcu_lookup_map [OF assms(2)]
  moreover have "id_map ((nodes m)(a \<mapsto> n\<lparr>ngp := g\<rparr>)) ps = id_map (nodes m) ps"
    by (rule id_map_cong) (use assms(1) in simp)
  ultimately show ?thesis by simp
qed

lemma gp_underflow:
  "read_unlock_gp 0 = - 1" "gp_active (- 1)" "read_lock_gp d (- 1) = 0" "\<not> gp_active 0"
  by (simp_all add: read_unlock_gp_def read_lock_gp_def gp_active_def)

lemma read_lock_active:
  "data_gp_ok d \<Longrightarrow> gp_nest g < 2 ^ 32 - 1 \<Longrightarrow> gp_active (read_lock_gp d g)"
  using read_lock_abs [of d g] by (auto simp: abs_reader_def abs_lock_def word_facts split: if_splits)

lemma lock_internal_eq:
  assumes "nodes m j = Some n" "datas m (ndata n) = Some r"
  shows "mthpc_rcu_read_lock_internal j m =
    Some (m\<lparr>nodes := (nodes m)(j \<mapsto> n\<lparr>ngp := read_lock_gp (dgp r) (ngp n)\<rparr>)\<rparr>)"
  using assms by (simp add: mthpc_rcu_read_lock_internal_def upd_node_gp_def read_lock_gp_def)

text \<open>
  C23. \<open>mthpc_pass_sp_post\<close> locks with the node that the uninitialised safe
  pointer happens to hold and unlocks with the new one: the old node stays in a critical
  section, and the word of the new one underflows, so that inside its next critical section it
  looks inactive to the writer.
\<close>

theorem borrowed_reader_invisible:
  assumes "sp_ok s q" "q \<noteq> sp" "block_ok s (sp_cell s q) ps" "fresh_node a (sp_mem s)"
    and "rcu_lookup (cb_data (sp_cell s q)) (sp_mem s) (ucast (ucast (sp_rcu_cnt s) :: u32)) = None"
    and "sps s sp = Some junk" "nodes (sp_mem s) (snode junk) = Some n" "datas (sp_mem s) (ndata n) = Some r"
    and "data_gp_ok (dgp r)" "gp_nest (ngp n) < 2 ^ 32 - 1"
  shows "\<exists>s' s''. mthpc_pass_sp_post a q sp s = Some s' \<and> sp_cell s' sp = sp_cell s q \<and>
    map_option refcount (cbs s' (sp_cell s q)) = map_option (\<lambda>k. refcount k + 1) (cbs s (sp_cell s q)) \<and>
    gp_active (ngp (the (nodes (sp_mem s') (snode junk)))) \<and>
    mthpc_cb_rcu_lock sp s' = Some s'' \<and> snode (the (sps s'' sp)) = a \<and>
    \<not> gp_active (ngp (the (nodes (sp_mem s'') a)))"
proof -
  let ?c = "sp_cell s q" and ?j = "snode junk" and ?i = "sp_rcu_cnt s"
  let ?g = "read_lock_gp (dgp r) (ngp n)"
  let ?m = "(sp_mem s)\<lparr>nodes := (nodes (sp_mem s))(?j \<mapsto> n\<lparr>ngp := ?g\<rparr>)\<rparr>"
  obtain p k where pk: "sps s q = Some p" "cbs s (scb p) = Some k"
    using assms(1) by (auto simp: sp_ok_def)
  then have q: "sps s q = Some p" "cbs s ?c = Some k" "scb p = ?c" by (simp_all add: sp_cell_def)
  let ?m1 = "warn ((ucast (refcount k) :: u32) = 0) ?m"
  let ?t = "s\<lparr>cbs := (cbs s)(?c \<mapsto> k\<lparr>refcount := refcount k + 1\<rparr>), sp_mem := ?m1,
    sps := (sps s)(sp \<mapsto> junk\<lparr>sid := ?i\<rparr>), sp_rcu_cnt := ?i + 1\<rparr>"
  have reg: "registry (sp_mem s) (cb_data ?c) ps" using assms(3) by (simp add: block_ok_def)
  have reg1: "registry ?m (cb_data ?c) ps" using registry_gp [OF assms(7)] reg by simp
  have pre: "block_ok ?t ?c ps" "fresh_node a (sp_mem ?t)" "sps ?t sp = Some (junk\<lparr>sid := ?i\<rparr>)"
    "rcu_lookup (cb_data ?c) (sp_mem ?t) (ucast (ucast (sid (junk\<lparr>sid := ?i\<rparr>)) :: u32)) = None"
    using assms(3,4,5,7) reg1 rcu_lookup_warn [OF reg1] lookup_gp [OF assms(7) reg]
    by (auto simp: block_ok_def fresh_node_def)
  have aj: "a \<noteq> ?j" using assms(4,7) by (auto simp: fresh_node_def)
  obtain m' where init: "mthpc_cb_rcu_init a sp ?c ?t =
      Some (?t\<lparr>sp_mem := m', sps := (sps ?t)(sp \<mapsto> (junk\<lparr>sid := ?i\<rparr>)\<lparr>snode := a\<rparr>)\<rparr>)"
    and node: "nodes m' a = Some (new_node (cb_data ?c) (ucast (ucast (sid (junk\<lparr>sid := ?i\<rparr>)) :: u32)))"
    and gps: "\<And>b. b \<noteq> a \<Longrightarrow> map_option ngp (nodes m' b) = map_option ngp (nodes (sp_mem ?t) b)"
    by (rule rcu_init_ok [OF pre(1,3,2,4)], rule that)
  have m': "mthpc_cb_rcu_init a sp ?c ?t =
      Some (?t\<lparr>sp_mem := m', sps := (sps ?t)(sp \<mapsto> junk\<lparr>sid := ?i, snode := a\<rparr>)\<rparr>)"
    "nodes m' a = Some (new_node (cb_data ?c) (ucast (ucast ?i :: u32)))"
    "map_option ngp (nodes m' ?j) = map_option ngp (nodes (sp_mem ?t) ?j)"
    using init node gps [of ?j] aj by simp_all
  have lock: "mthpc_cb_rcu_lock sp s = Some (s\<lparr>sp_mem := ?m\<rparr>)"
    using lock_internal_eq [OF assms(7,8)] assms(6) by (simp add: mthpc_cb_rcu_lock_def with_mem_def)
  let ?nn = "new_node (cb_data ?c) (ucast (ucast ?i :: u32))"
  let ?u = "m'\<lparr>nodes := (nodes m')(a \<mapsto> ?nn\<lparr>ngp := - 1\<rparr>)\<rparr>"
  let ?s' = "?t\<lparr>sp_mem := ?u, sps := (sps s)(sp \<mapsto> junk\<lparr>sid := ?i, snode := a, scb := ?c\<rparr>)\<rparr>"
  let ?s'' = "?s'\<lparr>sp_mem := ?u\<lparr>nodes := (nodes ?u)(a \<mapsto> ?nn\<lparr>ngp := 0\<rparr>)\<rparr>\<rparr>"
  have "mthpc_pass_sp_post a q sp s = Some ?s'"
    using lock q assms(2,6) m'(1,2) gp_underflow(1)
    by (simp add: mthpc_pass_sp_post_def mthpc_cb_load_def mthpc_cb_get_def upd_cb_def sp_warn_def
        upd_sp_def mthpc_cb_store_def mthpc_cb_rcu_unlock_def with_mem_def
        mthpc_rcu_read_unlock_internal_def upd_node_gp_def new_node_def Let_def)
  moreover have "gp_active (ngp (the (nodes (sp_mem ?s') ?j)))"
    using m'(3) aj read_lock_active [OF assms(9,10)] by auto
  moreover have "mthpc_cb_rcu_lock sp ?s' = Some ?s''"
    using gp_underflow(2,3)
    by (simp add: mthpc_cb_rcu_lock_def with_mem_def mthpc_rcu_read_lock_internal_def upd_node_gp_def)
  moreover have "sp_cell ?s' sp = ?c" "snode (the (sps ?s'' sp)) = a"
    "map_option refcount (cbs ?s' ?c) = map_option (\<lambda>k. refcount k + 1) (cbs s ?c)"
    "\<not> gp_active (ngp (the (nodes (sp_mem ?s'') a)))"
    using pk gp_underflow(4) by (simp_all add: sp_cell_def)
  ultimately show ?thesis by (intro exI [of _ ?s'] exI [of _ ?s''] conjI) assumption+
qed

lemma borrowed_reader_invisible_witness:
  "\<exists>s' s''. mthpc_pass_sp_post 9 40 41 safe_sys = Some s' \<and> sp_cell s' 41 = 100 \<and>
    mthpc_cb_rcu_lock 41 s' = Some s'' \<and> snode (the (sps s'' 41)) = 9 \<and>
    \<not> gp_active (ngp (the (nodes (sp_mem s'') 9)))"
proof -
  have reg: "registry (sp_mem safe_sys) 108 [8]"
    using safe_sys_block(2) by (simp add: block_ok_def cb_data_def)
  have "rcu_lookup 108 (sp_mem safe_sys) 1 = None"
    unfolding rcu_lookup_map [OF reg] by (simp add: id_map_def safe_sys_def new_node_def)
  then have lk: "rcu_lookup (cb_data (sp_cell safe_sys 40)) (sp_mem safe_sys)
      (ucast (ucast (sp_rcu_cnt safe_sys) :: u32)) = None"
    by (simp add: safe_sys_ok(2) cb_data_def) (simp add: safe_sys_def)
  have bl: "block_ok safe_sys (sp_cell safe_sys 40) [8]" by (simp add: safe_sys_ok(2) safe_sys_block(2))
  let ?n = "new_node 108 0" and ?r = "\<lparr>dlock = Unlocked, dhead = 8, dtype = 1, dgp = 1, dnext = 0\<rparr>"
  have junk: "sps safe_sys 41 = Some \<lparr>scb = 0, sid = 0, snode = 8\<rparr>"
    "nodes (sp_mem safe_sys) (snode \<lparr>scb = 0, sid = 0, snode = 8\<rparr>) = Some ?n"
    "datas (sp_mem safe_sys) (ndata ?n) = Some ?r" "data_gp_ok (dgp ?r)" "gp_nest (ngp ?n) < 2 ^ 32 - 1"
    by (simp_all add: safe_sys_def new_node_def data_gp_ok_def gp_nest_def)
  from borrowed_reader_invisible [OF safe_sys_ok(1) _ bl safe_sys_fresh(2) lk junk] show ?thesis
    unfolding safe_sys_ok(2) by auto
qed

end
