(* ===== verification/Spec2Isabelle.thy ===== *)
theory Spec2Isabelle
  imports Barrier Rculist Rcu_Grace Rcu_Reclaim Rcu_Threads Rcu_Add_Race Rcu_Data Spinlock Scoped_Lock
    Futex_Async Library Wq_Race Taskflow_Wq Taskflow_Dump Thread_Reap Thread_Run Safe_ptr_Props
begin

text \<open>
  \<^bold>\<open>The mthpc library.\<close> A C library for multi-threaded programs: intrusive circular lists and
  their RCU variant (\<open>include/mthpc/list.h\<close>, \<open>rculist.h\<close>), spin locks and scoped guards
  (\<open>spinlock.h\<close>, \<open>guards.h\<close>, \<open>scoped_lock.h\<close>), completions (\<open>completion.h\<close>), a centralized
  barrier, a user-space RCU, workqueues, task flows on top of the workqueues, thread groups on
  top of the barrier, the RCU and the workqueues, and safe pointers on top of the RCU. This
  development translates these parts from their sources and proves what makes them correct,
  and, where the code does not keep a promise, a theorem that says exactly how it fails.

  \<^bold>\<open>How the code is modelled.\<close>
  \<^item> Memory. A kind of object is a partial map from addresses (natural numbers, \<open>0\<close> is
    \<open>NULL\<close>) to records with the members of the C struct; the \<open>mthpc_list_head\<close>s of a component
    form one heap of next and previous pointers, whose addresses name the embedding member.
    An access to memory that is not allocated is \<^const>\<open>None\<close>, and so is everything else that
    C leaves undefined: \<open>free\<close> of something that is not a block, a second \<open>pthread_join\<close>.
  \<^item> Integers have their C width (\<open>u32\<close>, \<open>u64\<close>), so that they wrap as in C, on an LP64 machine.
  \<^item> A call that does not return is \<^const>\<open>None\<close> as well: a spin lock that is taken again,
    a poll that never succeeds (\<open>partial_function (option)\<close>). A theorem that a call returns is an
    equation with \<^const>\<open>Some\<close>. No fuel is used anywhere.
  \<^item> The environment is an argument: the results of \<open>malloc\<close>, the contents of uninitialised
    memory, the values that a poll reads one after the other, whether a started thread
    ends, which works of a taskflow the workqueue accepts and how many are finished at a time.
    The functions a user passes in are not run; that they ran is recorded in the state.
  \<^item> Concurrency. The barrier, the grace period of the RCU, the readers and the updater of a list, the
    threads of a group and the end of a queue are step relations with one step for each shared access, under sequential consistency, with an
    invariant proved through the locale \<open>inductive_invariant\<close> of \<open>Prelude\<close>. A reader beside a
    writer of an RCU list is interleaved load by load. The other components are sequential
    models of one call after the other, with every lock an explicit state.

  \<^bold>\<open>The theories.\<close>
  \<^item> \<open>Prelude\<close>: types, option monad and word facts, reachability and its locale.
  \<^item> \<open>CList\<close>, \<open>CList_Props\<close>: \<open>list.h\<close>. A list is the sequence of its nodes; one lemma for each
    operation says which sequence it leaves and which memory it touches. The locale \<open>fifo\<close>
    states the queue contract that the workqueue relies on. \<open>Ring_Heap\<close> has several
    disjoint lists in one heap, \<open>Slist\<close> the singly linked lists with a pointer to a pointer.
  \<^item> \<open>Rculist\<close>: \<open>rculist.h\<close>. Writers are lists of stores; a reader beside a writer sees the old
    or the new list; as sequential code the writers are those of \<open>list.h\<close>.
  \<^item> \<open>Spinlock\<close>, \<open>Completion\<close>: locks with their destruction, scoped guards, completions with
    the locale \<open>latch\<close>. \<open>Scoped_Lock\<close> mixes spin locks and critical sections in one block.
  \<^item> \<open>Barrier\<close>: \<open>mthpc_centralized_barrier\<close>, its invariant over all interleavings and rounds, no
    early exit, no deadlock, and the failure of a second barrier object.
  \<^item> \<open>Rcu_Read\<close>, \<open>Rcu_Grace\<close>: the read side on words, and \<open>mthpc_synchronize_rcu_internal\<close> against
    any number of readers, with the run in which it misses one.
  \<^item> \<open>Rcu_Reclaim\<close>: the two together, readers of a list beside an updater that frees the nodes it has
    removed after a grace period. Its invariant is a set of nodes that is closed under following
    the pointers and that the readers do not leave.
  \<^item> \<open>Rcu_Registry\<close>, \<open>Rcu_Register\<close>, \<open>Rcu_Threads\<close>, \<open>Rcu_Data\<close>: the functions of \<open>rcu.c\<close> on the lists
    of nodes and of data objects. The nodes of an object refine a map from ids (locale
    \<open>id_registry\<close>, interpreted on \<open>mthpc_rcu_add\<close> and \<open>mthpc_rcu_del\<close>). \<open>Rcu_Add_Race\<close> has a deletion
    in the middle of an addition.
  \<^item> \<open>Rcu_Calm\<close>: the registry when no thread is in a critical section: which threads are
    registered, what a thread that starts or ends, a critical section and a grace period do to it.
    The workqueue stands on it.
  \<^item> \<open>Workqueue\<close>, \<open>Workqueue_Props\<close>: \<open>workqueue.c\<close> and \<open>futex.c\<close>: \<open>Futex_Async\<close> is \<open>futex_async\<close> of \<open>futex.h\<close>; pools of queues, the two paths of
    scheduling a work, the worker with its registration in the RCU. \<open>Wq_Pools\<close> has several pools
    beside each other and the steps of their workers, \<open>Wq_Schedule\<close> a call beside other pools.
    \<open>Wq_Join\<close> has \<open>mthpc_workqueues_join\<close> beside workers whose schedule is an argument, \<open>Wq_Exit\<close> the
    start and the end of the three pools. \<open>Wq_Session\<close> is the life of the module: constructor,
    calls and workers in any order, destructor, with the well-formedness of the state as invariant.
  \<^item> \<open>Wq_Race\<close>: one queue at its end, as a step relation of schedulers, worker and joiner on top of
    the grace period of \<open>Rcu_Grace\<close>: no work is lost, but there are a deadlock and a write to
    freed memory.
  \<^item> \<open>Taskflow\<close>, \<open>Taskflow_Props\<close>, \<open>Taskflow_Await\<close>: \<open>taskflow.c\<close>. A taskflow refines a forest of main
    tasks with their sub tasks; creating, preceding and succeeding are moves on forests; the
    waiter schedules the groups in order.
  \<^item> \<open>Executor\<close>, \<open>Taskflow_Run\<close>, \<open>Wq_Executor\<close>, \<open>Taskflow_Wq\<close>: the waiter of the taskflow on the workqueue.
    The locale \<open>executor\<close> is the contract between the two: a work that is handed over runs once, and
    works that are left do not wait for ever. \<open>Taskflow_Run\<close> proves the waiter correct in the
    locale, \<open>Wq_Executor\<close> interprets it on the workqueue, \<open>Taskflow_Wq\<close> joins the two.
    \<open>Taskflow_Dump\<close> has the debugging output, from which the taskflow can be read back.
  \<^item> \<open>Thread\<close>, \<open>Thread_Props\<close>, \<open>Thread_Reap\<close>, \<open>Thread_Run\<close>: \<open>thread.c\<close>. Running, waiting and reaping on
    the list of groups; \<open>Thread_Run\<close> runs the threads of one call through the barrier.
  \<^item> \<open>Safe_ptr\<close>, \<open>Safe_ptr_Props\<close>: \<open>safe_ptr.c\<close> over the registry of the RCU. Loads and exchanges
    refine memory cells.

  \<^item> \<open>Library\<close>: \<open>internal/feature.h\<close>. The constructors and destructors of all features in the order of
    their priorities, and the life of a process between them; \<open>Rcu_Meta\<close> and \<open>Wq_Meta\<close> show that
    nothing in between touches the list of the RCU's data objects.

  \<^bold>\<open>Bounds.\<close> The barrier is for fewer than \<open>2 ^ 31\<close> threads (its counter is an \<open>int\<close>), the nesting of
  read sections for fewer than \<open>2 ^ 32\<close> (the low half of the word), groups and tasks for what
  their counters hold; the theorems carry these bounds as hypotheses. \<open>pthread_create\<close> is taken
  to succeed: the code does not look at its result. The sessions of the workqueue assume what \<open>malloc\<close>
  and \<open>pthread_create\<close> promise: new memory or a failure, and an identifier of its own for the new
  thread; its lower 32 bits have to be new, since the RCU keeps no more of it. They assume further
  that the memory for the RCU node of a thread that registers can be allocated, since the code
  dereferences the null pointer otherwise (\<open>call_without_node\<close> in \<open>Wq_Session\<close>); that a work is not
  scheduled while it is queued; and that \<open>pthread_setaffinity_np\<close> succeeds, that is, that the
  machine has the four cores of \<open>MTHPC_WQ_NR_CPU\<close>, since the worker warns otherwise and stays
  where it is.

  \<^bold>\<open>Granularity.\<close> The start of a worker is taken together with its creation, in \<open>mthpc_works_handler\<close>.
  In \<open>Wq_Race\<close> the walk along the list of the pool is one step, which finds the queue or passes it
  by; the loads of such a walk are those of \<open>Rcu_Reclaim\<close>. The reaper of the thread groups
  is one call: neither the polls and joins of a wait nor the puts of \<open>Thread_Run\<close> are interleaved
  with it, and the theorems on a run and its wait have no effective turn of it in between. A task of a taskflow is a
  turn of its worker that leaves the taskflow as it is, since the user's functions are not run.

  \<^bold>\<open>Not modelled.\<close> Memory orders weaker than sequential consistency; the printing functions other
  than the dump of a taskflow; the
  calls through the function pointers of \<open>mthpc_cb_retire_obj\<close> as such: the constructor fills it in once
  and for all, so the safe pointers call the functions directly; \<open>mlrcu.c\<close>, which is not part of the
  build and names types that no header declares; the macros of \<open>util.h\<close>, \<open>debug.h\<close> and \<open>print.h\<close>;
  tests and benchmarks.
\<close>

end
